(* ===== verification/Sparrow_Prelude.thy ===== *)
theory Sparrow_Prelude
  imports Main "HOL-Library.Word"
begin

text \<open>
  The vocabulary every component theory shares: the machine integer types of the C++ sources on an
  LP64 platform, byte memory with bounds-checked access, the result type that carries undefined
  behaviour and exceptions as values, and the generic lemmas and collections the component proofs
  use. Nothing here models code of the repository; it models what the sources use of the language.
\<close>

unbundle bit_operations_syntax

section \<open>Types\<close>

type_synonym u8 = "8 word"
type_synonym u16 = "16 word"
type_synonym u32 = "32 word"
type_synonym u64 = "64 word"
type_synonym size_t = "64 word"
type_synonym bytes = "u8 list"

text \<open>
  What a C++ step can do instead of returning. \<open>OutOfRange\<close> is an access outside a vector's
  storage or a signed result outside its type (undefined behaviour in C++), \<open>NullDeref\<close> a use of a null pointer, an empty
  \<open>std::function\<close> or \<open>end()\<close>, \<open>LengthError\<close> the exception of
  \<open>std::vector::resize\<close> beyond \<open>max_size()\<close>, \<open>BadCast\<close> a
  failed \<open>dynamic_cast\<close> to a reference, \<open>DivByZero\<close> a modulo by zero, \<open>SystemError\<close> the
  exception of an asio call without an error code, \<open>UseAfterFree\<close> a call on a released object, \<open>Spin\<close> a
  busy wait that only another thread can end.
\<close>

datatype fault = OutOfRange | NullDeref | LengthError | BadCast | DivByZero | SystemError | UseAfterFree | Spin

type_synonym 'a res = "fault + 'a"

definition bind_res :: "'a res \<Rightarrow> ('a \<Rightarrow> 'b res) \<Rightarrow> 'b res" where
  "bind_res r f = (case r of Inl e \<Rightarrow> Inl e | Inr x \<Rightarrow> f x)"

definition map_res :: "('a \<Rightarrow> 'b) \<Rightarrow> 'a res \<Rightarrow> 'b res" where
  "map_res f r = (case r of Inl e \<Rightarrow> Inl e | Inr x \<Rightarrow> Inr (f x))"

fun fold_res :: "('x \<Rightarrow> 's \<Rightarrow> 's res) \<Rightarrow> 'x list \<Rightarrow> 's \<Rightarrow> 's res" where
  "fold_res f [] s = Inr s"
| "fold_res f (x # xs) s = bind_res (f x s) (fold_res f xs)"

text \<open>A sequence of statements on one state, stopping at the first fault.\<close>

definition seq_res :: "('s \<Rightarrow> 's res) list \<Rightarrow> 's \<Rightarrow> 's res" where
  "seq_res fs s = fold_res (\<lambda>f. f) fs s"

section \<open>Threads\<close>

text \<open>A system of threads is the list of their program points; so many of them are at a point of a kind.\<close>

definition threads_at :: "('p \<Rightarrow> bool) \<Rightarrow> 'p list \<Rightarrow> nat" where
  "threads_at P T = length (filter P T)"

section \<open>Byte memory\<close>

text \<open>\<open>max_size()\<close> of a \<open>std::vector<char>\<close>: the largest \<open>ptrdiff_t\<close>.\<close>

definition vec_max :: nat where
  "vec_max = 2 ^ 63 - 1"

definition vec_resize :: "nat \<Rightarrow> bytes \<Rightarrow> bytes res" where
  "vec_resize n xs =
     (if vec_max < n then Inl LengthError
      else Inr (take n xs @ replicate (n - length xs) 0))"

text \<open>
  Reading or writing a range of no bytes touches nothing, so it is defined at every pointer, as
  \<open>std::copy\<close> of an empty range is.
\<close>

definition mem_read :: "bytes \<Rightarrow> nat \<Rightarrow> nat \<Rightarrow> bytes res" where
  "mem_read xs off n =
     (if n = 0 then Inr []
      else if off + n \<le> length xs then Inr (take n (drop off xs)) else Inl OutOfRange)"

definition mem_write :: "bytes \<Rightarrow> nat \<Rightarrow> bytes \<Rightarrow> bytes res" where
  "mem_write xs off ys =
     (if ys = [] then Inr xs
      else if off + length ys \<le> length xs
        then Inr (take off xs @ ys @ drop (off + length ys) xs)
      else Inl OutOfRange)"

text \<open>\<open>strlen\<close> over the storage: the index of the first NUL, which must lie inside.\<close>

definition mem_strlen :: "bytes \<Rightarrow> nat \<Rightarrow> nat res" where
  "mem_strlen xs off =
     (if 0 \<in> set (drop off xs) then Inr (length (takeWhile (\<lambda>c. c \<noteq> 0) (drop off xs)))
      else Inl OutOfRange)"

section \<open>Network byte order\<close>

text \<open>
  The bytes of \<open>htons(v)\<close> and \<open>htonl(v)\<close> in memory order: most significant first on every
  host. \<open>dec16\<close> and \<open>dec32\<close> are \<open>ntohs\<close> and \<open>ntohl\<close> of the bytes in memory.
\<close>

definition be16 :: "u16 \<Rightarrow> bytes" where
  "be16 v = [ucast (drop_bit 8 v), ucast v]"

definition be32 :: "u32 \<Rightarrow> bytes" where
  "be32 v = [ucast (drop_bit 24 v), ucast (drop_bit 16 v), ucast (drop_bit 8 v), ucast v]"

definition dec16 :: "bytes \<Rightarrow> u16" where
  "dec16 bs = push_bit 8 (ucast (bs ! 0)) OR ucast (bs ! 1)"

definition dec32 :: "bytes \<Rightarrow> u32" where
  "dec32 bs = push_bit 24 (ucast (bs ! 0)) OR push_bit 16 (ucast (bs ! 1))
     OR push_bit 8 (ucast (bs ! 2)) OR ucast (bs ! 3)"

text \<open>The bytes of a C++ string literal.\<close>

definition str_bytes :: "string \<Rightarrow> bytes" where
  "str_bytes s = map of_char s"

text \<open>The decimal text of a number: \<open>std::to_string\<close>, \<open>printf\<close>'s \<open>%d\<close> and a database's result.\<close>

fun dec_text :: "nat \<Rightarrow> bytes" where
  "dec_text n = (if n < 10 then [48 + of_nat n] else dec_text (n div 10) @ [48 + of_nat (n mod 10)])"

declare dec_text.simps [simp del]

definition int_text :: "int \<Rightarrow> bytes" where
  "int_text i = (if i < 0 then 45 # dec_text (nat (- i)) else dec_text (nat i))"

text \<open>Digits and their value.\<close>

definition is_digit :: "u8 \<Rightarrow> bool" where
  "is_digit c \<longleftrightarrow> 48 \<le> c \<and> c \<le> 57"

definition digits_value :: "bytes \<Rightarrow> nat" where
  "digits_value ds = foldl (\<lambda>n d. 10 * n + (unat d - 48)) 0 ds"

section \<open>Collections and generic lemmas\<close>

named_theorems res_simps \<open>evaluation and inversion of results\<close>
named_theorems mem_simps \<open>byte memory access in range\<close>

lemma bind_res_simps [simp]:
  "bind_res (Inl e) f = Inl e"
  "bind_res (Inr x) f = f x"
  by (simp_all add: bind_res_def)

lemma map_res_simps [simp]:
  "map_res f (Inl e) = Inl e"
  "map_res f (Inr x) = Inr (f x)"
  by (simp_all add: map_res_def)

lemma fold_res_map: "fold_res f (map g xs) s = fold_res (\<lambda>x. f (g x)) xs s"
  by (induction xs arbitrary: s) (simp_all add: bind_res_def split: sum.splits)

lemma bind_res_eq_Inr [res_simps]:
  "bind_res r f = Inr y \<longleftrightarrow> (\<exists>x. r = Inr x \<and> f x = Inr y)"
  by (cases r) auto

lemma bind_res_eq_Inl [res_simps]:
  "bind_res r f = Inl e \<longleftrightarrow> r = Inl e \<or> (\<exists>x. r = Inr x \<and> f x = Inl e)"
  by (cases r) auto

lemma map_res_eq_Inr [res_simps]: "map_res f r = Inr y \<longleftrightarrow> (\<exists>x. r = Inr x \<and> y = f x)"
  by (cases r) auto

lemma bind_res_assoc: "bind_res (bind_res r f) g = bind_res r (\<lambda>x. bind_res (f x) g)"
  by (cases r) auto

lemma seq_res_simps [simp]: "seq_res [] s = Inr s" "seq_res (f # fs) s = bind_res (f s) (seq_res fs)"
  by (simp_all add: seq_res_def [abs_def])

lemma seq_res_map: "seq_res (map f xs) s = fold_res f xs s"
proof (induction xs arbitrary: s)
  case (Cons x xs)
  then show ?case by (cases "f x s") auto
qed simp

lemma fold_res_append: "fold_res f (xs @ ys) s = bind_res (fold_res f xs s) (fold_res f ys)"
proof (induction xs arbitrary: s)
  case (Cons x xs)
  then show ?case by (cases "f x s") auto
qed simp

lemma fold_res_invariant:
  assumes "fold_res f xs s = Inr t" and "P s"
    and "\<And>x u v. x \<in> set xs \<Longrightarrow> P u \<Longrightarrow> f x u = Inr v \<Longrightarrow> P v"
  shows "P t"
  using assms
proof (induction xs arbitrary: s)
  case (Cons x xs)
  from Cons.prems(1) obtain u where u: "f x s = Inr u" "fold_res f xs u = Inr t"
    by (auto simp: bind_res_eq_Inr)
  have "P u" using Cons.prems(3) [of x s u] Cons.prems(2) u(1) by simp
  then show ?case using Cons.IH [OF u(2)] Cons.prems(3) by (meson list.set_intros(2))
qed simp

lemma mem_read_ok [mem_simps]: "off + n \<le> length xs \<Longrightarrow> mem_read xs off n = Inr (take n (drop off xs))"
  by (simp add: mem_read_def)

lemma mem_write_ok [mem_simps]:
  "off + length ys \<le> length xs \<Longrightarrow>
     mem_write xs off ys = Inr (take off xs @ ys @ drop (off + length ys) xs)"
  by (simp add: mem_write_def)

lemma mem_write_length: "mem_write xs off ys = Inr zs \<Longrightarrow> length zs = length xs"
  by (auto simp: mem_write_def split: if_splits)

lemma vec_resize_ok [mem_simps]:
  "n \<le> vec_max \<Longrightarrow> vec_resize n xs = Inr (take n xs @ replicate (n - length xs) 0)"
  by (simp add: vec_resize_def)

lemma length_be [simp]: "length (be16 v) = 2" "length (be32 w) = 4"
  by (simp_all add: be16_def be32_def)

lemma dec16_be16 [simp]: "dec16 (be16 v @ rest) = v"
  by (rule bit_word_eqI)
    (auto simp: dec16_def be16_def bit_simps)

lemma dec32_be32 [simp]: "dec32 (be32 v @ rest) = v"
proof (rule bit_word_eqI)
  fix n assume "n < LENGTH(32)"
  then consider "n < 8" | "8 \<le> n" "n < 16" | "16 \<le> n" "n < 24" | "24 \<le> n" "n < 32"
    by (simp; linarith)
  then show "bit (dec32 (be32 v @ rest)) n = bit v n"
    by cases (auto simp: dec32_def be32_def bit_simps)
qed

lemma dec_be_exact [simp]: "dec16 (be16 v) = v" "dec32 (be32 w) = w"
  using dec16_be16 [of v "[]"] dec32_be32 [of w "[]"] by simp_all

lemma length_str_bytes [simp]: "length (str_bytes s) = length s"
  by (simp add: str_bytes_def)

lemma unat_of_nat_lt [simp]: "n < 2 ^ LENGTH('a) \<Longrightarrow> unat (of_nat n :: 'a::len word) = n"
  by (simp add: unat_of_nat)

lemma unat_add_lt: "unat a + unat b < 2 ^ LENGTH('a) \<Longrightarrow> unat (a + b :: 'a::len word) = unat a + unat b"
  by (simp add: unat_word_ariths)

lemma size_t_eq_of_nat: "unat (x :: size_t) = n \<Longrightarrow> x = of_nat n"
  by (metis of_nat_unat ucast_id)

lemma ucast_size_t_u32: "n < 2 ^ 64 \<Longrightarrow> ucast (of_nat n :: size_t) = (of_nat n :: u32)"
  by (simp add: unsigned_of_nat take_bit_nat_eq_self)

lemma int_size_t_roundtrip:
  assumes "k < 2 ^ 31"
  shows "scast (ucast (of_nat k :: size_t) :: 32 word) = (of_nat k :: size_t)"
proof -
  have "signed_take_bit 31 (int k) = int k" using assms by (intro signed_take_bit_int_eq_self) auto
  moreover have "k < 2 ^ 64" using assms by simp
  ultimately show ?thesis
    by (simp only: ucast_size_t_u32) (simp add: signed_of_nat)
qed

lemma unat_size_t_lt: "unat (x :: size_t) < 2 ^ 64"
  by (rule order_less_le_trans [OF unsigned_less]) simp

text \<open>Overwriting and reading inside a prefix of the storage.\<close>

lemma take_overlay:
  assumes "k + length ys \<le> t" and "t \<le> length xs"
  shows "take t (take k xs @ ys @ drop (k + length ys) xs)
    = take k (take t xs) @ ys @ drop (k + length ys) (take t xs)"
  using assms by (simp add: drop_take min_absorb1 diff_add_eq_diff_diff_swap)

lemma take_drop_prefix:
  assumes "h + k + n \<le> t"
  shows "take n (drop (h + k) xs) = take n (drop k (drop h (take t xs)))"
proof -
  have "take n (drop (h + k) (take t xs)) = take n (take (t - (h + k)) (drop (h + k) xs))"
    by (simp add: drop_take)
  also have "\<dots> = take n (drop (h + k) xs)" using assms by (simp add: min_absorb1)
  finally show ?thesis by (simp add: add.commute)
qed

text \<open>One thread moves on.\<close>

lemma threads_at_update:
  assumes "t < length T"
  shows "threads_at P (T[t := p]) + of_bool (P (T ! t)) = threads_at P T + of_bool (P p)"
  using assms
proof (induction T arbitrary: t)
  case (Cons q T)
  then show ?case by (cases t) (auto simp: threads_at_def)
qed simp

lemma threads_at_same: "t < length T \<Longrightarrow> P (T ! t) = P p \<Longrightarrow> threads_at P (T[t := p]) = threads_at P T"
  using threads_at_update [of t T P p] by simp

lemma threads_at_0: "threads_at P T = 0 \<longleftrightarrow> (\<forall>p \<in> set T. \<not> P p)"
  by (auto simp: threads_at_def filter_empty_conv)

lemma threads_at_pos: "t < length T \<Longrightarrow> P (T ! t) \<Longrightarrow> 0 < threads_at P T"
  using threads_at_0 [of P T] nth_mem by blast

text \<open>The decimal text consists of digits and has the number as its value.\<close>

lemma digit_char: "d < 10 \<Longrightarrow> unat (48 + of_nat d :: u8) = 48 + d"
  by (simp add: unat_word_ariths)

lemma digit_is_digit: "d < 10 \<Longrightarrow> is_digit (48 + of_nat d)"
  using digit_char [of d] by (simp add: is_digit_def word_le_nat_alt)

lemma dec_text_digits: "\<forall>c \<in> set (dec_text n). is_digit c"
proof (induction n rule: dec_text.induct)
  case (1 n)
  show ?case
  proof (cases "n < 10")
    case True
    then show ?thesis by (subst dec_text.simps) (simp add: digit_is_digit)
  next
    case False
    then show ?thesis using 1 by (subst dec_text.simps) (simp add: digit_is_digit)
  qed
qed

lemma dec_text_nonempty: "dec_text n \<noteq> []"
  by (subst dec_text.simps) simp

lemma digits_value_snoc: "digits_value (ds @ [d]) = 10 * digits_value ds + (unat d - 48)"
  by (simp add: digits_value_def)

lemma dec_text_value: "digits_value (dec_text n) = n"
proof (induction n rule: dec_text.induct)
  case (1 n)
  show ?case
  proof (cases "n < 10")
    case True
    then show ?thesis using digit_char [of n]
      by (subst dec_text.simps) (simp add: digits_value_def)
  next
    case False
    then show ?thesis using 1 digit_char [of "n mod 10"]
      by (subst dec_text.simps) (simp add: digits_value_snoc)
  qed
qed

end
