(* ===== verification/Msg_Buffer.thy ===== *)
theory Msg_Buffer
  imports Sparrow_Prelude
begin

text \<open>
  \<open>MsgBuffer\<close> (\<open>net/msgbuffer.h\<close>, \<open>net/msgbuffer.cpp\<close>): the growable byte
  buffer every message is read into and written from. The record keeps the class's five fields
  with \<open>size_t\<close> at its 64-bit width, so that the unsigned differences the class computes
  wrap as they do in C++. Every raw access goes through \<open>mem_read\<close>/\<open>mem_write\<close>,
  which give \<open>OutOfRange\<close> outside the vector. After the operations come the invariant
  \<open>wf_buffer\<close>, the abstraction to the bytes written (\<open>used\<close>) and pending
  (\<open>content\<close>), the laws of each operation, and two interfaces: \<open>byte_sink\<close> for
  writers and \<open>byte_source\<close> for readers, both interpreted on the buffer.
\<close>

section \<open>State and operations\<close>

datatype BufferStat = none | valid | invalid

record msgbuffer =
  m_buffer :: bytes
  m_packlen :: size_t
  m_head :: size_t
  m_tail :: size_t
  m_indicator :: BufferStat

definition m_default_buffer_size :: nat where
  "m_default_buffer_size = 1024"

definition MsgBuffer_new :: "size_t \<Rightarrow> msgbuffer res" where
  "MsgBuffer_new sz =
     map_res (\<lambda>v. \<lparr>m_buffer = v, m_packlen = 0, m_head = 0, m_tail = 0, m_indicator = none\<rparr>)
       (vec_resize (unat sz) [])"

text \<open>
  The two constructors that leave members uninitialised take the indeterminate values as
  arguments. Moving leaves the source with an empty vector and its other members unchanged.
\<close>

definition MsgBuffer_move :: "BufferStat \<Rightarrow> msgbuffer \<Rightarrow> msgbuffer \<times> msgbuffer" where
  "MsgBuffer_move garbage b =
     (\<lparr>m_buffer = m_buffer b, m_packlen = m_packlen b, m_head = m_head b, m_tail = m_tail b,
       m_indicator = garbage\<rparr>, b\<lparr>m_buffer := []\<rparr>)"

definition MsgBuffer_of :: "size_t \<Rightarrow> BufferStat \<Rightarrow> bytes \<Rightarrow> msgbuffer" where
  "MsgBuffer_of garbage_len garbage_stat p =
     \<lparr>m_buffer = p, m_packlen = garbage_len, m_head = 0, m_tail = of_nat (length p),
      m_indicator = garbage_stat\<rparr>"

definition MsgBuffer_size :: "msgbuffer \<Rightarrow> size_t" where
  "MsgBuffer_size b = of_nat (length (m_buffer b))"

definition MsgBuffer_surplus :: "msgbuffer \<Rightarrow> size_t" where
  "MsgBuffer_surplus b = MsgBuffer_size b - m_tail b"

definition MsgBuffer_available :: "msgbuffer \<Rightarrow> size_t" where
  "MsgBuffer_available b = m_tail b - m_head b"

definition MsgBuffer_empty :: "msgbuffer \<Rightarrow> bool" where
  "MsgBuffer_empty b \<longleftrightarrow> m_head b = m_tail b"

text \<open>The indices that \<open>data()\<close> and \<open>memory()\<close> point to.\<close>

definition MsgBuffer_data :: "msgbuffer \<Rightarrow> nat" where
  "MsgBuffer_data b = unat (m_tail b)"

definition MsgBuffer_memory :: "msgbuffer \<Rightarrow> nat" where
  "MsgBuffer_memory b = unat (m_head b)"

definition MsgBuffer_commit :: "size_t \<Rightarrow> msgbuffer \<Rightarrow> msgbuffer" where
  "MsgBuffer_commit sz b = b\<lparr>m_tail := m_tail b + sz\<rparr>"

definition MsgBuffer_consume :: "size_t \<Rightarrow> msgbuffer \<Rightarrow> msgbuffer" where
  "MsgBuffer_consume sz b = b\<lparr>m_head := m_head b + sz\<rparr>"

definition MsgBuffer_vomit :: "size_t \<Rightarrow> msgbuffer \<Rightarrow> msgbuffer" where
  "MsgBuffer_vomit sz b = (if sz > m_head b then b else b\<lparr>m_head := m_head b - sz\<rparr>)"

definition MsgBuffer_seek :: "size_t \<Rightarrow> msgbuffer \<Rightarrow> msgbuffer" where
  "MsgBuffer_seek sz b = b\<lparr>m_head := m_head b + sz, m_tail := m_tail b + sz\<rparr>"

definition MsgBuffer_clear :: "msgbuffer \<Rightarrow> msgbuffer" where
  "MsgBuffer_clear b =
     b\<lparr>m_buffer := replicate m_default_buffer_size 0, m_packlen := 0, m_head := 0, m_tail := 0,
       m_indicator := none\<rparr>"

definition MsgBuffer_set_packlen :: "size_t \<Rightarrow> msgbuffer \<Rightarrow> msgbuffer" where
  "MsgBuffer_set_packlen n b = b\<lparr>m_packlen := n\<rparr>"

definition MsgBuffer_update_packlen :: "size_t \<Rightarrow> msgbuffer \<Rightarrow> msgbuffer" where
  "MsgBuffer_update_packlen n b = b\<lparr>m_packlen := m_packlen b + n\<rparr>"

definition MsgBuffer_set_indicator :: "BufferStat \<Rightarrow> msgbuffer \<Rightarrow> msgbuffer" where
  "MsgBuffer_set_indicator i b = b\<lparr>m_indicator := i\<rparr>"

subsection \<open>Growing and appending\<close>

definition MsgBuffer_adjust :: "size_t \<Rightarrow> msgbuffer \<Rightarrow> msgbuffer res" where
  "MsgBuffer_adjust sz b =
     (if sz \<le> MsgBuffer_size b - m_tail b then Inr b
      else
        let n = MsgBuffer_size b;
            len = (if n + sz \<le> n * 2 then n * 2 else n + sz)
        in map_res (\<lambda>v. b\<lparr>m_buffer := v\<rparr>) (vec_resize (unat len) (m_buffer b)))"

text \<open>\<open>append(const char*, size_t)\<close>, the pointed-to bytes as a list.\<close>

definition MsgBuffer_append :: "bytes \<Rightarrow> msgbuffer \<Rightarrow> msgbuffer res" where
  "MsgBuffer_append bs b =
     (if bs = [] then Inr b
      else bind_res (MsgBuffer_adjust (of_nat (length bs)) b) (\<lambda>b1.
        map_res (\<lambda>v. MsgBuffer_commit (of_nat (length bs)) (b1\<lparr>m_buffer := v\<rparr>))
          (mem_write (m_buffer b1) (MsgBuffer_data b1) bs)))"

text \<open>\<open>append(const MsgBuffer&)\<close>, which makes room for its own \<open>available()\<close>.\<close>

definition MsgBuffer_append_msg :: "msgbuffer \<Rightarrow> msgbuffer \<Rightarrow> msgbuffer res" where
  "MsgBuffer_append_msg msg b =
     bind_res (MsgBuffer_adjust (MsgBuffer_available b) b) (\<lambda>b1.
     bind_res (mem_read (m_buffer msg) (unat (m_head msg)) (unat (MsgBuffer_available msg))) (\<lambda>bs.
     map_res (\<lambda>v. b1\<lparr>m_buffer := v, m_tail := m_tail b1 + MsgBuffer_available msg\<rparr>)
       (mem_write (m_buffer b1) (MsgBuffer_data b1) bs)))"

definition put_u8 :: "u8 \<Rightarrow> msgbuffer \<Rightarrow> msgbuffer res" where
  "put_u8 v = MsgBuffer_append [v]"

definition put_u16 :: "u16 \<Rightarrow> msgbuffer \<Rightarrow> msgbuffer res" where
  "put_u16 v = MsgBuffer_append (be16 v)"

definition put_u32 :: "u32 \<Rightarrow> msgbuffer \<Rightarrow> msgbuffer res" where
  "put_u32 v = MsgBuffer_append (be32 v)"

definition put_string :: "bytes \<Rightarrow> msgbuffer \<Rightarrow> msgbuffer res" where
  "put_string s = MsgBuffer_append (s @ [0])"

subsection \<open>Reading\<close>

text \<open>
  \<open>fetch\<close> hands the handler \<open>count\<close> bytes at \<open>memory() + offset\<close>, or does not call
  it (\<open>None\<close>). Its guard compares \<open>offset\<close> with \<open>m_tail\<close> and the end with
  \<open>size()\<close>, both without \<open>m_head\<close>. Every handler of the sources reads the
  \<open>count\<close> bytes it is given.
\<close>

definition MsgBuffer_fetch :: "size_t \<Rightarrow> size_t \<Rightarrow> msgbuffer \<Rightarrow> bytes option res" where
  "MsgBuffer_fetch offset count b =
     (let len = offset + count in
      if offset > m_tail b \<or> len > MsgBuffer_size b then Inr None
      else map_res Some (mem_read (m_buffer b) (MsgBuffer_memory b + unat offset) (unat count)))"

definition MsgBuffer_get :: "size_t \<Rightarrow> msgbuffer \<Rightarrow> bytes option res" where
  "MsgBuffer_get n b =
     (if n > MsgBuffer_available b then Inr None
      else map_res Some (mem_read (m_buffer b) (MsgBuffer_memory b) (unat n)))"

text \<open>The extraction operators: the target keeps its old value when \<open>fetch\<close> declines.\<close>

definition get_u8 :: "u8 \<Rightarrow> msgbuffer \<Rightarrow> (u8 \<times> msgbuffer) res" where
  "get_u8 v b = map_res (\<lambda>r. (case r of None \<Rightarrow> v | Some bs \<Rightarrow> bs ! 0, MsgBuffer_consume 1 b))
     (MsgBuffer_fetch 0 1 b)"

definition get_u16 :: "u16 \<Rightarrow> msgbuffer \<Rightarrow> (u16 \<times> msgbuffer) res" where
  "get_u16 v b = map_res (\<lambda>r. (case r of None \<Rightarrow> v | Some bs \<Rightarrow> dec16 bs, MsgBuffer_consume 2 b))
     (MsgBuffer_fetch 0 2 b)"

definition get_u32 :: "u32 \<Rightarrow> msgbuffer \<Rightarrow> (u32 \<times> msgbuffer) res" where
  "get_u32 v b = map_res (\<lambda>r. (case r of None \<Rightarrow> v | Some bs \<Rightarrow> dec32 bs, MsgBuffer_consume 4 b))
     (MsgBuffer_fetch 0 4 b)"

text \<open>The string operator appends to its target (\<open>std::back_insert_iterator\<close>).\<close>

definition get_string :: "bytes \<Rightarrow> msgbuffer \<Rightarrow> (bytes \<times> msgbuffer) res" where
  "get_string s b =
     bind_res (mem_strlen (m_buffer b) (MsgBuffer_memory b)) (\<lambda>n.
     map_res (\<lambda>bs. (s @ bs, MsgBuffer_consume (of_nat n + 1) b))
       (mem_read (m_buffer b) (MsgBuffer_memory b) n))"

definition peek_u8 :: "msgbuffer \<Rightarrow> u8 res" where
  "peek_u8 b = map_res (\<lambda>bs. bs ! 0) (mem_read (m_buffer b) (MsgBuffer_memory b) 1)"

definition peek_u16 :: "msgbuffer \<Rightarrow> u16 res" where
  "peek_u16 b = map_res dec16 (mem_read (m_buffer b) (MsgBuffer_memory b) 2)"

definition peek_u32 :: "msgbuffer \<Rightarrow> u32 res" where
  "peek_u32 b = map_res dec32 (mem_read (m_buffer b) (MsgBuffer_memory b) 4)"

subsection \<open>Overwriting in place\<close>

definition MsgBuffer_reset :: "size_t \<Rightarrow> bytes \<Rightarrow> msgbuffer \<Rightarrow> msgbuffer res" where
  "MsgBuffer_reset offset bs b =
     map_res (\<lambda>v. b\<lparr>m_buffer := v\<rparr>)
       (mem_write (m_buffer b) (MsgBuffer_memory b + unat offset) bs)"

definition reset_u8 :: "size_t \<Rightarrow> u8 \<Rightarrow> msgbuffer \<Rightarrow> msgbuffer res" where
  "reset_u8 offset v = MsgBuffer_reset offset [v]"

definition reset_u16 :: "size_t \<Rightarrow> u16 \<Rightarrow> msgbuffer \<Rightarrow> msgbuffer res" where
  "reset_u16 offset v = MsgBuffer_reset offset (be16 v)"

definition reset_u32 :: "size_t \<Rightarrow> u32 \<Rightarrow> msgbuffer \<Rightarrow> msgbuffer res" where
  "reset_u32 offset v = MsgBuffer_reset offset (be32 v)"

definition reset_string :: "size_t \<Rightarrow> bytes \<Rightarrow> msgbuffer \<Rightarrow> msgbuffer res" where
  "reset_string offset s = MsgBuffer_reset offset (s @ [0])"

text \<open>\<open>reset\<close> with a handler that rewrites the bytes it is given.\<close>

definition MsgBuffer_reset_with ::
    "size_t \<Rightarrow> size_t \<Rightarrow> (bytes \<Rightarrow> bytes) \<Rightarrow> msgbuffer \<Rightarrow> msgbuffer res" where
  "MsgBuffer_reset_with offset count h b =
     (let len = offset + count in
      if offset > m_tail b \<or> len > MsgBuffer_size b then Inr b
      else bind_res (mem_read (m_buffer b) (MsgBuffer_memory b + unat offset) (unat count)) (\<lambda>bs.
        MsgBuffer_reset offset (h bs) b))"

definition MsgBuffer_reset_code :: "msgbuffer \<Rightarrow> msgbuffer \<Rightarrow> msgbuffer res" where
  "MsgBuffer_reset_code msg b =
     bind_res (mem_read (m_buffer msg) (MsgBuffer_memory msg) (unat (MsgBuffer_available msg)))
       (\<lambda>bs. MsgBuffer_reset 0 bs b)"

section \<open>Invariant and abstraction\<close>

text \<open>
  The invariant of a buffer in use: \<open>m_head \<le> m_tail \<le> size()\<close>, and a storage no larger
  than twice what was written (or 4 GiB), which is what doubling in \<open>adjust\<close> leaves. The
  second part bounds every later \<open>resize\<close> by the bytes written rather than by history.
\<close>

definition wf_buffer :: "msgbuffer \<Rightarrow> bool" where
  "wf_buffer b \<longleftrightarrow>
     unat (m_head b) \<le> unat (m_tail b) \<and> unat (m_tail b) \<le> length (m_buffer b)
     \<and> length (m_buffer b) \<le> max (2 ^ 32) (2 * unat (m_tail b))"

text \<open>\<open>n\<close> more bytes stay far below \<open>max_size()\<close>.\<close>

definition room :: "nat \<Rightarrow> msgbuffer \<Rightarrow> bool" where
  "room n b \<longleftrightarrow> unat (m_tail b) + n \<le> 2 ^ 61"

definition used :: "msgbuffer \<Rightarrow> bytes" where
  "used b = take (unat (m_tail b)) (m_buffer b)"

definition content :: "msgbuffer \<Rightarrow> bytes" where
  "content b = drop (unat (m_head b)) (used b)"

section \<open>Laws of the operations\<close>

named_theorems buf_simps \<open>the buffer's arithmetic, under the invariant\<close>

lemma wf_bufferD:
  assumes "wf_buffer b"
  shows "unat (m_head b) \<le> unat (m_tail b)" "unat (m_tail b) \<le> length (m_buffer b)"
    "length (m_buffer b) \<le> max (2 ^ 32) (2 * unat (m_tail b))"
  using assms by (simp_all add: wf_buffer_def)

lemma room_mono: "room n b \<Longrightarrow> m \<le> n \<Longrightarrow> room m b"
  by (simp add: room_def)

lemma size_bound: "wf_buffer b \<Longrightarrow> room n b \<Longrightarrow> length (m_buffer b) \<le> 2 ^ 62"
  by (auto simp: wf_buffer_def room_def max_def split: if_splits)

lemma unat_size [buf_simps]:
  "wf_buffer b \<Longrightarrow> room n b \<Longrightarrow> unat (MsgBuffer_size b) = length (m_buffer b)"
  using size_bound [of b n] by (simp add: MsgBuffer_size_def)

lemma length_used [simp]: "wf_buffer b \<Longrightarrow> length (used b) = unat (m_tail b)"
  by (simp add: used_def wf_buffer_def)

lemma unat_available [buf_simps]:
  "wf_buffer b \<Longrightarrow> unat (MsgBuffer_available b) = unat (m_tail b) - unat (m_head b)"
  by (simp add: MsgBuffer_available_def unat_sub_if' wf_buffer_def)

lemma available_content:
  "wf_buffer b \<Longrightarrow> length (content b) = unat (MsgBuffer_available b)"
  by (simp add: content_def unat_available)

lemma empty_content: "wf_buffer b \<Longrightarrow> MsgBuffer_empty b \<longleftrightarrow> content b = []"
  by (auto simp: MsgBuffer_empty_def content_def wf_buffer_def word_unat_eq_iff)

lemma content_mem: "wf_buffer b \<Longrightarrow> n \<le> length (content b) \<Longrightarrow>
  take n (drop (unat (m_head b)) (m_buffer b)) = take n (content b)"
  using take_drop_prefix [of "unat (m_head b)" 0 n "unat (m_tail b)" "m_buffer b"]
  by (cases "n = 0") (auto simp: content_def used_def)

lemma adjust_ok:
  assumes wf: "wf_buffer b" and room: "room (unat sz) b"
  obtains k where "MsgBuffer_adjust sz b = Inr (b\<lparr>m_buffer := m_buffer b @ replicate k 0\<rparr>)"
    and "unat (m_tail b) + unat sz \<le> length (m_buffer b) + k"
    and "length (m_buffer b) + k \<le> max (2 ^ 32) (2 * (unat (m_tail b) + unat sz))"
proof -
  let ?n = "length (m_buffer b)" and ?t = "unat (m_tail b)"
  note D = wf_bufferD [OF wf] and n = unat_size [OF wf room]
  have t: "?t + unat sz \<le> 2 ^ 61" using room by (simp add: room_def)
  have le: "sz \<le> MsgBuffer_size b - m_tail b \<longleftrightarrow> unat sz \<le> ?n - ?t"
    using D n by (simp add: word_le_nat_alt unat_sub_if')
  show thesis
  proof (cases "unat sz \<le> ?n - ?t")
    case True
    then show thesis using le D t that [of 0] by (simp add: MsgBuffer_adjust_def)
  next
    case False
    then have lt: "?n < ?t + unat sz" by simp
    let ?w = "MsgBuffer_size b"
    have dbl: "unat (?w * 2) = 2 * ?n" and sum: "unat (?w + sz) = ?n + unat sz"
      using n lt t by (simp_all add: unat_word_ariths)
    define len where "len = (if ?w + sz \<le> ?w * 2 then ?w * 2 else ?w + sz)"
    have len: "unat len = max (2 * ?n) (?n + unat sz)"
      using dbl sum by (auto simp: len_def word_le_nat_alt max_def)
    have "vec_resize (unat len) (m_buffer b) = Inr (m_buffer b @ replicate (unat len - ?n) 0)"
      using len lt t by (simp add: vec_resize_def vec_max_def)
    then have "MsgBuffer_adjust sz b = Inr (b\<lparr>m_buffer := m_buffer b @ replicate (unat len - ?n) 0\<rparr>)"
      using False le by (simp add: MsgBuffer_adjust_def Let_def len_def)
    then show thesis using len lt D by (intro that [of "unat len - ?n"]) auto
  qed
qed

lemma append_ok:
  assumes wf: "wf_buffer b" and room: "room (length bs) b"
  obtains b' where "MsgBuffer_append bs b = Inr b'" "wf_buffer b'" "used b' = used b @ bs"
    "m_head b' = m_head b" "m_tail b' = m_tail b + of_nat (length bs)"
    "m_packlen b' = m_packlen b" "m_indicator b' = m_indicator b"
proof (cases "bs = []")
  case True
  then show thesis using wf by (intro that [of b]) (simp_all add: MsgBuffer_append_def)
next
  case False
  let ?t = "unat (m_tail b)" and ?s = "of_nat (length bs) :: size_t"
  have s: "unat ?s = length bs" using room by (simp add: room_def)
  obtain k where adj: "MsgBuffer_adjust ?s b = Inr (b\<lparr>m_buffer := m_buffer b @ replicate k 0\<rparr>)"
    and fit: "?t + length bs \<le> length (m_buffer b) + k"
    and top: "length (m_buffer b) + k \<le> max (2 ^ 32) (2 * (?t + length bs))"
    using adjust_ok [OF wf, of ?s] room s by metis
  let ?v = "m_buffer b @ replicate k 0"
  let ?b = "MsgBuffer_commit ?s (b\<lparr>m_buffer := take ?t ?v @ bs @ drop (?t + length bs) ?v\<rparr>)"
  have t': "unat (m_tail b + ?s) = ?t + length bs"
    using room s by (simp add: room_def unat_word_ariths)
  have "MsgBuffer_append bs b = Inr ?b"
    using False adj fit by (simp add: MsgBuffer_append_def MsgBuffer_data_def mem_write_ok)
  moreover have "wf_buffer ?b"
    using wf fit top t' by (auto simp: wf_buffer_def MsgBuffer_commit_def)
  moreover have "used ?b = used b @ bs"
    using wf fit t' by (simp add: used_def MsgBuffer_commit_def wf_buffer_def)
  ultimately show thesis by (intro that [of ?b]) (simp_all add: MsgBuffer_commit_def)
qed

lemma append_content:
  "wf_buffer b \<Longrightarrow> used b' = used b @ bs \<Longrightarrow> m_head b' = m_head b \<Longrightarrow> content b' = content b @ bs"
  by (simp add: content_def wf_buffer_def used_def)

lemma consume_ok:
  assumes "wf_buffer b" and "unat n \<le> length (content b)"
  shows "wf_buffer (MsgBuffer_consume n b)" "content (MsgBuffer_consume n b) = drop (unat n) (content b)"
    "used (MsgBuffer_consume n b) = used b" "unat (m_head (MsgBuffer_consume n b)) = unat (m_head b) + unat n"
proof -
  have le: "unat (m_head b) + unat n \<le> unat (m_tail b)"
    using assms by (auto simp: content_def wf_buffer_def)
  then have "unat (m_head b) + unat n < 2 ^ 64"
    using unat_size_t_lt [of "m_tail b"] by simp
  then have h: "unat (m_head b + n) = unat (m_head b) + unat n" by (intro unat_add_lt) simp
  show "wf_buffer (MsgBuffer_consume n b)" "used (MsgBuffer_consume n b) = used b"
    "content (MsgBuffer_consume n b) = drop (unat n) (content b)"
    "unat (m_head (MsgBuffer_consume n b)) = unat (m_head b) + unat n"
    using assms(1) le h by (simp_all add: wf_buffer_def content_def used_def MsgBuffer_consume_def add.commute)
qed

lemma vomit_ok:
  assumes "wf_buffer b" and "unat n \<le> unat (m_head b)"
  shows "wf_buffer (MsgBuffer_vomit n b)" "used (MsgBuffer_vomit n b) = used b"
    "unat (m_head (MsgBuffer_vomit n b)) = unat (m_head b) - unat n"
    "m_tail (MsgBuffer_vomit n b) = m_tail b"
    "content (MsgBuffer_vomit n b) = drop (unat (m_head b) - unat n) (used b)"
  using assms by (auto simp: wf_buffer_def content_def used_def MsgBuffer_vomit_def word_less_nat_alt unat_sub_if')

lemma reset_ok:
  assumes wf: "wf_buffer b" and le: "unat (m_head b) + unat off + length bs \<le> unat (m_tail b)"
  obtains b' where "MsgBuffer_reset off bs b = Inr b'" "wf_buffer b'"
    "used b' = take (unat (m_head b) + unat off) (used b) @ bs
       @ drop (unat (m_head b) + unat off + length bs) (used b)"
    "m_head b' = m_head b" "m_tail b' = m_tail b" "m_packlen b' = m_packlen b"
    "m_indicator b' = m_indicator b"
proof -
  let ?o = "unat (m_head b) + unat off"
  let ?v = "take ?o (m_buffer b) @ bs @ drop (?o + length bs) (m_buffer b)"
  have "?o + length bs \<le> length (m_buffer b)" using assms by (simp add: wf_buffer_def)
  then have "MsgBuffer_reset off bs b = Inr (b\<lparr>m_buffer := ?v\<rparr>)" and "length ?v = length (m_buffer b)"
    by (simp_all add: MsgBuffer_reset_def MsgBuffer_memory_def mem_write_ok)
  moreover have "take (unat (m_tail b)) ?v = take ?o (used b) @ bs @ drop (?o + length bs) (used b)"
    unfolding used_def using wf le by (intro take_overlay) (simp_all add: wf_buffer_def)
  ultimately show thesis using wf
    by (intro that [of "b\<lparr>m_buffer := ?v\<rparr>"]) (simp_all add: wf_buffer_def used_def del: take_append)
qed

lemma fetch_ok:
  assumes wf: "wf_buffer b" and room: "room 0 b"
    and le: "unat off + unat n \<le> length (content b)"
  shows "MsgBuffer_fetch off n b = Inr (Some (take (unat n) (drop (unat off) (content b))))"
proof -
  note D = wf_bufferD [OF wf]
  have c: "unat (m_head b) + unat off + unat n \<le> unat (m_tail b)"
    using le D by (simp add: content_def used_def)
  have sum: "unat (off + n) = unat off + unat n"
    using c room by (simp add: room_def unat_word_ariths)
  have "\<not> (off > m_tail b \<or> off + n > MsgBuffer_size b)"
    using c D sum unat_size [OF wf room] by (simp add: word_less_nat_alt)
  then show ?thesis
    using c D take_drop_prefix [OF c]
    by (simp add: MsgBuffer_fetch_def MsgBuffer_memory_def mem_read_ok content_def used_def)
qed

lemma get_u8_ok:
  assumes "wf_buffer b" "room 0 b" "content b = v # rest"
  shows "get_u8 x b = Inr (v, MsgBuffer_consume 1 b)"
  using assms fetch_ok [of b 0 1] by (simp add: get_u8_def)

lemma get_u16_ok:
  assumes "wf_buffer b" "room 0 b" "content b = be16 v @ rest"
  shows "get_u16 x b = Inr (v, MsgBuffer_consume 2 b)"
  using assms fetch_ok [of b 0 2] by (simp add: get_u16_def)

lemma get_u32_ok:
  assumes "wf_buffer b" "room 0 b" "content b = be32 v @ rest"
  shows "get_u32 x b = Inr (v, MsgBuffer_consume 4 b)"
  using assms fetch_ok [of b 0 4] by (simp add: get_u32_def)

lemma get_string_ok:
  assumes wf: "wf_buffer b" and room: "room 0 b" and c: "content b = s @ 0 # rest" and s: "0 \<notin> set s"
  shows "get_string x b = Inr (x @ s, MsgBuffer_consume (of_nat (length s) + 1) b)"
proof -
  let ?d = "drop (unat (m_head b)) (m_buffer b)"
  have len: "unat (m_head b) + length s < length (m_buffer b)"
    using wf c by (auto simp: wf_buffer_def content_def used_def dest!: arg_cong [where f = length])
  have "take (Suc (length s)) ?d = s @ [0]"
    using content_mem [OF wf, of "Suc (length s)"] c by simp
  then have d: "?d = s @ 0 # drop (Suc (length s)) ?d"
    using append_take_drop_id [of "Suc (length s)" ?d] by simp
  have "takeWhile (\<lambda>c. c \<noteq> 0) ?d = s" by (subst d) (use s in \<open>auto simp: takeWhile_append\<close>)
  moreover have "0 \<in> set ?d" by (subst d) simp
  moreover have "take (length s) ?d = s" by (subst d) simp
  ultimately show ?thesis
    using len by (simp add: get_string_def mem_strlen_def MsgBuffer_memory_def mem_read_ok)
qed

lemma peek_u32_ok:
  "wf_buffer b \<Longrightarrow> content b = be32 v @ rest \<Longrightarrow> peek_u32 b = Inr v"
  using content_mem [of b 4] wf_bufferD [of b]
  by (auto simp: peek_u32_def MsgBuffer_memory_def mem_read_def content_def used_def
      dest!: arg_cong [where f = length])

lemma seek_fresh:
  assumes "wf_buffer b" "room 0 b" "m_head b = m_tail b" "unat (m_tail b) + unat n \<le> length (m_buffer b)"
  shows "wf_buffer (MsgBuffer_seek n b)" "m_head (MsgBuffer_seek n b) = m_tail (MsgBuffer_seek n b)"
    "used (MsgBuffer_seek n b) = used b @ take (unat n) (drop (unat (m_tail b)) (m_buffer b))"
proof -
  have t: "unat (m_tail b + n) = unat (m_tail b) + unat n"
    using assms(4) size_bound [OF assms(1,2)] by (intro unat_add_lt) simp
  show "wf_buffer (MsgBuffer_seek n b)" "m_head (MsgBuffer_seek n b) = m_tail (MsgBuffer_seek n b)"
    using assms t by (auto simp: wf_buffer_def MsgBuffer_seek_def)
  show "used (MsgBuffer_seek n b) = used b @ take (unat n) (drop (unat (m_tail b)) (m_buffer b))"
    using t by (simp add: used_def MsgBuffer_seek_def take_add)
qed

section \<open>Interfaces\<close>

text \<open>
  \<open>written h p i bs\<close>: a well-formed buffer whose storage up to \<open>m_tail\<close> holds
  \<open>bs\<close>, with the given head, package length and indicator. \<open>holds bs\<close>: a
  well-formed buffer whose pending bytes are \<open>bs\<close>.
\<close>

definition written :: "size_t \<Rightarrow> size_t \<Rightarrow> BufferStat \<Rightarrow> bytes \<Rightarrow> msgbuffer \<Rightarrow> bool" where
  "written h p i bs b \<longleftrightarrow>
     wf_buffer b \<and> used b = bs \<and> m_head b = h \<and> m_packlen b = p \<and> m_indicator b = i"

definition holds :: "bytes \<Rightarrow> msgbuffer \<Rightarrow> bool" where
  "holds bs b \<longleftrightarrow> wf_buffer b \<and> room 0 b \<and> content b = bs"

locale byte_sink =
  fixes sink :: "bytes \<Rightarrow> 'b \<Rightarrow> bool"
    and capacity :: nat
    and put :: "bytes \<Rightarrow> 'b \<Rightarrow> 'b res"
  assumes put_law: "sink bs b \<Longrightarrow> length bs + length xs \<le> capacity \<Longrightarrow>
      \<exists>b'. put xs b = Inr b' \<and> sink (bs @ xs) b'"
begin

lemma puts_law:
  "sink bs b \<Longrightarrow> length bs + length (concat xss) \<le> capacity \<Longrightarrow>
     \<exists>b'. fold_res put xss b = Inr b' \<and> sink (bs @ concat xss) b'"
proof (induction xss arbitrary: bs b)
  case (Cons xs xss)
  then obtain b1 where b1: "put xs b = Inr b1" "sink (bs @ xs) b1"
    using put_law [of bs b xs] by fastforce
  then show ?case using Cons.IH [of "bs @ xs" b1] Cons.prems by simp
qed simp

lemma put_sink:
  assumes "sink bs b" "length bs + length xs \<le> capacity"
  obtains b' where "put xs b = Inr b'" "sink (bs @ xs) b'"
  using put_law [OF assms] by blast

end

locale byte_source =
  fixes source :: "bytes \<Rightarrow> 'b \<Rightarrow> bool"
    and get8 :: "u8 \<Rightarrow> 'b \<Rightarrow> (u8 \<times> 'b) res"
    and get32 :: "u32 \<Rightarrow> 'b \<Rightarrow> (u32 \<times> 'b) res"
    and gets :: "bytes \<Rightarrow> 'b \<Rightarrow> (bytes \<times> 'b) res"
  assumes get8_law: "source (v # rest) b \<Longrightarrow> \<exists>b'. (\<forall>x. get8 x b = Inr (v, b')) \<and> source rest b'"
    and get32_law: "source (be32 w @ rest) b \<Longrightarrow>
      \<exists>b'. (\<forall>x. get32 x b = Inr (w, b')) \<and> source rest b'"
    and gets_law: "source (s @ 0 # rest) b \<Longrightarrow> 0 \<notin> set s \<Longrightarrow>
      \<exists>b'. (\<forall>x. gets x b = Inr (x @ s, b')) \<and> source rest b'"
begin

text \<open>The steps of a decoder, as eliminations that hand over the next buffer.\<close>

lemma get8E:
  assumes "source (v # rest) b"
  obtains b' where "\<And>x. get8 x b = Inr (v, b')" "source rest b'"
  using get8_law [OF assms] by blast

lemma get32E:
  assumes "source (be32 w @ rest) b"
  obtains b' where "\<And>x. get32 x b = Inr (w, b')" "source rest b'"
  using get32_law [OF assms] by blast

lemma getsE:
  assumes "source (s @ 0 # rest) b" "0 \<notin> set s"
  obtains b' where "\<And>x. gets x b = Inr (x @ s, b')" "source rest b'"
  using gets_law [OF assms] by blast

text \<open>A frame of two words, as every message head is.\<close>

lemma get32_pair:
  assumes "source (be32 v @ be32 w @ rest) b"
  shows "\<exists>b'. bind_res (get32 x b) (\<lambda>(p, b1). map_res (\<lambda>(q, b2). ((p, q), b2)) (get32 y b1))
    = Inr ((v, w), b') \<and> source rest b'"
  using assms by (elim get32E) simp

end

lemma written_room: "written h p i bs b \<Longrightarrow> length bs + n \<le> 2 ^ 61 \<Longrightarrow> room n b"
  by (auto simp: written_def room_def)

interpretation buf_sink: byte_sink "written h p i" "2 ^ 61" MsgBuffer_append
  for h p i
proof
  fix bs b and xs :: bytes
  assume w: "written h p i bs b" and len: "length bs + length xs \<le> 2 ^ 61"
  then have "wf_buffer b" and "room (length xs) b"
    using written_room [OF w len] by (auto simp: written_def)
  then show "\<exists>b'. MsgBuffer_append xs b = Inr b' \<and> written h p i (bs @ xs) b'"
    using w append_ok [of b xs] by (auto simp: written_def)
qed

lemma holds_consume:
  assumes "holds (xs @ rest) b" and "unat n = length xs"
  shows "holds rest (MsgBuffer_consume n b)"
  using assms consume_ok [of b n]
  by (simp add: holds_def room_def) (simp add: MsgBuffer_consume_def)

lemma holds_length: "holds bs b \<Longrightarrow> length bs \<le> 2 ^ 61"
  by (auto simp: holds_def room_def content_def)

interpretation buf_source: byte_source holds get_u8 get_u32 get_string
proof
  fix v :: u8 and rest b
  assume h: "holds (v # rest) b"
  then show "\<exists>b'. (\<forall>x. get_u8 x b = Inr (v, b')) \<and> holds rest b'"
    using holds_consume [of "[v]" rest b 1] get_u8_ok [of b v rest] by (auto simp: holds_def)
next
  fix w :: u32 and rest b
  assume h: "holds (be32 w @ rest) b"
  then show "\<exists>b'. (\<forall>x. get_u32 x b = Inr (w, b')) \<and> holds rest b'"
    using holds_consume [OF h, of 4] get_u32_ok [of b w rest] by (auto simp: holds_def)
next
  fix s :: bytes and rest b
  assume h: "holds (s @ 0 # rest) b" and s: "0 \<notin> set s"
  have "unat (of_nat (length s) + 1 :: size_t) = length (s @ [0])"
    using holds_length [OF h] by (simp add: unat_word_ariths)
  then have "holds rest (MsgBuffer_consume (of_nat (length s) + 1) b)"
    using holds_consume [of "s @ [0]" rest b] h by simp
  then show "\<exists>b'. (\<forall>x. get_string x b = Inr (x @ s, b')) \<and> holds rest b'"
    using get_string_ok [of b s rest] h s by (auto simp: holds_def)
qed

lemma reset_written:
  assumes w: "written h p i (xs @ ys @ zs) b" and off: "unat h + unat off = length xs"
    and len: "length bs = length ys"
  obtains b' where "MsgBuffer_reset off bs b = Inr b'" "written h p i (xs @ bs @ zs) b'"
    "length (m_buffer b') = length (m_buffer b)"
proof -
  have "length (used b) = unat (m_tail b)" using w by (intro length_used) (simp add: written_def)
  then have "unat (m_head b) + unat off + length bs \<le> unat (m_tail b)"
    using w off len by (simp add: written_def)
  then obtain b' where b': "MsgBuffer_reset off bs b = Inr b'" "wf_buffer b'"
      "used b' = take (unat (m_head b) + unat off) (used b) @ bs
         @ drop (unat (m_head b) + unat off + length bs) (used b)"
      "m_head b' = m_head b" "m_packlen b' = m_packlen b" "m_indicator b' = m_indicator b"
    using reset_ok [of b off bs] w by (auto simp: written_def)
  then have "written h p i (xs @ bs @ zs) b'" using w off len by (simp add: written_def)
  moreover have "length (m_buffer b') = length (m_buffer b)"
    using b'(1) by (auto simp: MsgBuffer_reset_def res_simps dest: mem_write_length)
  ultimately show thesis using that b'(1) by blast
qed

lemma seek_written:
  assumes w: "written h p i bs b" and h: "unat h = length bs" "length bs + unat n \<le> 2 ^ 61"
    and fit: "length bs + unat n \<le> length (m_buffer b)"
  obtains g where "length g = unat n" "written (h + n) p i (bs @ g) (MsgBuffer_seek n b)"
    "unat (h + n) = length bs + unat n"
proof -
  have t: "unat (m_tail b) = length bs" using w by (auto simp: written_def)
  have "room 0 b" using h t by (simp add: room_def)
  moreover have "m_head b = m_tail b" using w h t by (simp add: written_def word_unat_eq_iff)
  ultimately have "wf_buffer (MsgBuffer_seek n b)"
    "used (MsgBuffer_seek n b) = bs @ take (unat n) (drop (length bs) (m_buffer b))"
    using seek_fresh [of b n] w t fit by (simp_all add: written_def)
  moreover have "unat (h + n) = length bs + unat n" using h by (subst unat_add_lt) auto
  ultimately show thesis
    using that [of "take (unat n) (drop (length bs) (m_buffer b))"] w fit
    by (simp add: written_def) (simp add: MsgBuffer_seek_def)
qed

lemma vomit_written:
  assumes "written h p i bs b" "unat n \<le> unat h"
  shows "written (h - n) p i bs (MsgBuffer_vomit n b)"
  using assms vomit_ok [of b n]
  by (simp add: written_def) (simp add: MsgBuffer_vomit_def word_less_nat_alt)

lemma written_available:
  "written h p i bs b \<Longrightarrow> unat (MsgBuffer_available b) = length bs - unat h"
  by (auto simp: written_def unat_available)

lemma written_content: "written h p i bs b \<Longrightarrow> content b = drop (unat h) bs"
  by (auto simp: written_def content_def)

lemma written_holds:
  "written h p i bs b \<Longrightarrow> length bs \<le> 2 ^ 61 \<Longrightarrow> holds (drop (unat h) bs) b"
  using written_content [of h p i bs b] written_room [of h p i bs b 0]
  by (simp add: holds_def written_def)

lemma put_written:
  assumes "written h p i bs b" "length bs + length xs \<le> 2 ^ 61"
  obtains b' where "MsgBuffer_append xs b = Inr b'" "written h p i (bs @ xs) b'"
  using buf_sink.put_sink [OF assms] by blast

section \<open>The buffer as a queue of bytes\<close>

text \<open>Appending and consuming, on the buffer and on the list of pending bytes it stands for.\<close>

datatype buf_op = Put bytes | Drop nat

definition buf_step :: "buf_op \<Rightarrow> msgbuffer \<Rightarrow> msgbuffer res" where
  "buf_step op b = (case op of Put bs \<Rightarrow> MsgBuffer_append bs b
     | Drop n \<Rightarrow> Inr (MsgBuffer_consume (of_nat n) b))"

fun bytes_step :: "buf_op \<Rightarrow> bytes \<Rightarrow> bytes option" where
  "bytes_step (Put bs) q = Some (q @ bs)"
| "bytes_step (Drop n) q = (if n \<le> length q then Some (drop n q) else None)"

fun bytes_spec :: "buf_op list \<Rightarrow> bytes \<Rightarrow> bytes option" where
  "bytes_spec [] q = Some q"
| "bytes_spec (op # ops) q = (case bytes_step op q of None \<Rightarrow> None | Some q' \<Rightarrow> bytes_spec ops q')"

definition put_total :: "buf_op list \<Rightarrow> nat" where
  "put_total ops = sum_list (map (\<lambda>op. case op of Put bs \<Rightarrow> length bs | Drop n \<Rightarrow> 0) ops)"

lemma put_total_simps [simp]:
  "put_total [] = 0" "put_total (Put bs # ops) = length bs + put_total ops"
  "put_total (Drop n # ops) = put_total ops"
  by (simp_all add: put_total_def)

lemma buf_step_sim:
  assumes "wf_buffer b" and "room (put_total [op]) b" and "bytes_step op (content b) = Some q"
  shows "\<exists>b'. buf_step op b = Inr b' \<and> wf_buffer b' \<and> content b' = q
    \<and> unat (m_tail b') = unat (m_tail b) + put_total [op]"
proof (cases op)
  case (Put bs)
  then have room: "room (length bs) b" using assms(2) by simp
  obtain b' where b': "MsgBuffer_append bs b = Inr b'" "wf_buffer b'" "used b' = used b @ bs"
      "m_head b' = m_head b" "m_tail b' = m_tail b + of_nat (length bs)"
    using append_ok [OF assms(1) room] .
  have "unat (m_tail b') = unat (m_tail b) + length bs"
    using room b'(5) by (simp add: room_def unat_word_ariths)
  then show ?thesis using b' append_content [OF assms(1) b'(3,4)] assms(3) Put by (auto simp: buf_step_def)
next
  case (Drop n)
  then have n: "n \<le> length (content b)" "q = drop n (content b)" using assms(3) by (auto split: if_splits)
  have "length (content b) < 2 ^ 64" using available_content [OF assms(1)] unat_size_t_lt by metis
  then have "unat (of_nat n :: size_t) = n" using n by simp
  then show ?thesis using consume_ok [OF assms(1), of "of_nat n"] n Drop
    by (simp add: buf_step_def) (simp add: MsgBuffer_consume_def)
qed

lemma buf_run_sim:
  assumes "wf_buffer b" and "room (put_total ops) b" and "bytes_spec ops (content b) = Some q"
  shows "\<exists>b'. fold_res buf_step ops b = Inr b' \<and> wf_buffer b' \<and> content b' = q"
  using assms
proof (induction ops arbitrary: b)
  case (Cons op ops)
  obtain q1 where q1: "bytes_step op (content b) = Some q1" "bytes_spec ops q1 = Some q"
    using Cons.prems(3) by (auto split: option.splits)
  have tot: "put_total (op # ops) = put_total [op] + put_total ops" by (cases op) simp_all
  then have "room (put_total [op]) b" using Cons.prems(2) room_mono by simp
  then obtain b1 where b1: "buf_step op b = Inr b1" "wf_buffer b1" "content b1 = q1"
      "unat (m_tail b1) = unat (m_tail b) + put_total [op]"
    using buf_step_sim [OF Cons.prems(1) _ q1(1)] by blast
  have "room (put_total ops) b1" using Cons.prems(2) b1(4) tot by (simp add: room_def)
  then show ?case using Cons.IH [OF b1(2)] b1(1,3) q1(2) by simp
qed simp

text \<open>
  C18: the buffer implements a queue of bytes. Start from any well-formed buffer and perform any
  sequence of appends and consumes that never consumes more than is pending, with at most \<open>2^61\<close> bytes
  through the buffer: no call faults, whatever reallocation it makes, the invariant is kept, and the
  pending bytes are at the end what the queue holds.
\<close>

theorem buffer_refines_queue:
  assumes "wf_buffer b" and "room (put_total ops) b" and "bytes_spec ops (content b) = Some q"
  shows "\<exists>b'. fold_res buf_step ops b = Inr b' \<and> wf_buffer b' \<and> content b' = q"
  by (rule buf_run_sim [OF assms])

definition empty_buffer :: msgbuffer where
  "empty_buffer = \<lparr>m_buffer = replicate m_default_buffer_size 0, m_packlen = 0, m_head = 0, m_tail = 0,
     m_indicator = none\<rparr>"

lemma empty_buffer_ok: "wf_buffer empty_buffer" "room n empty_buffer \<longleftrightarrow> n \<le> 2 ^ 61" "content empty_buffer = []"
  by (simp_all add: wf_buffer_def room_def content_def used_def empty_buffer_def m_default_buffer_size_def)

theorem buffer_refines_queue_witness:
  "\<exists>b'. fold_res buf_step [Put [1, 2, 3], Drop 2, Put [4]] empty_buffer = Inr b' \<and> wf_buffer b' \<and> content b' = [3, 4]"
  using buffer_refines_queue [of empty_buffer "[Put [1, 2, 3], Drop 2, Put [4]]" "[3, 4]"]
  by (simp add: empty_buffer_ok)

text \<open>
  \<open>adjust\<close> makes room without touching the content: afterwards at least the requested number of
  bytes fits behind the tail, pending bytes, head, tail, package length and indicator are unchanged,
  and the storage has at most doubled or grown by the request.
\<close>

lemma adjust_makes_room:
  assumes "wf_buffer b" and "room (unat sz) b"
  shows "\<exists>v. MsgBuffer_adjust sz b = Inr (b\<lparr>m_buffer := v\<rparr>)
    \<and> content (b\<lparr>m_buffer := v\<rparr>) = content b \<and> unat sz \<le> unat (MsgBuffer_surplus (b\<lparr>m_buffer := v\<rparr>))
    \<and> length v \<le> max (2 ^ 32) (2 * (unat (m_tail b) + unat sz))"
proof -
  obtain k where k: "MsgBuffer_adjust sz b = Inr (b\<lparr>m_buffer := m_buffer b @ replicate k 0\<rparr>)"
      "unat (m_tail b) + unat sz \<le> length (m_buffer b) + k"
      "length (m_buffer b) + k \<le> max (2 ^ 32) (2 * (unat (m_tail b) + unat sz))"
    using adjust_ok [OF assms] .
  let ?v = "m_buffer b @ replicate k 0"
  have same: "content (b\<lparr>m_buffer := ?v\<rparr>) = content b" using assms(1)
    by (simp add: content_def used_def wf_buffer_def)
  have big: "length ?v < 2 ^ 64" using k(3) assms(2) by (simp add: room_def)
  then have u: "unat (of_nat (length ?v) :: size_t) = length ?v" by (intro unat_of_nat_lt) simp
  have t: "unat (m_tail b) \<le> length ?v" using k(2) by simp
  have "unat (MsgBuffer_surplus (b\<lparr>m_buffer := ?v\<rparr>)) = length ?v - unat (m_tail b)"
    using t u by (simp add: MsgBuffer_surplus_def MsgBuffer_size_def unat_sub word_le_nat_alt del: length_append of_nat_add)
  then show ?thesis using k same by (intro exI [of _ ?v]) simp
qed

section \<open>Typed values\<close>

text \<open>The values the insertion and extraction operators take.\<close>

datatype item = I8 u8 | I16 u16 | I32 u32 | IStr bytes

fun put_item :: "item \<Rightarrow> msgbuffer \<Rightarrow> msgbuffer res" where
  "put_item (I8 v) b = put_u8 v b"
| "put_item (I16 v) b = put_u16 v b"
| "put_item (I32 v) b = put_u32 v b"
| "put_item (IStr s) b = put_string s b"

text \<open>Extraction into a variable of the item's type, initially zero or empty.\<close>

fun get_item :: "item \<Rightarrow> msgbuffer \<Rightarrow> (item \<times> msgbuffer) res" where
  "get_item (I8 _) b = map_res (\<lambda>(v, b). (I8 v, b)) (get_u8 0 b)"
| "get_item (I16 _) b = map_res (\<lambda>(v, b). (I16 v, b)) (get_u16 0 b)"
| "get_item (I32 _) b = map_res (\<lambda>(v, b). (I32 v, b)) (get_u32 0 b)"
| "get_item (IStr _) b = map_res (\<lambda>(v, b). (IStr v, b)) (get_string [] b)"

fun get_items :: "item list \<Rightarrow> msgbuffer \<Rightarrow> (item list \<times> msgbuffer) res" where
  "get_items [] b = Inr ([], b)"
| "get_items (t # ts) b =
     bind_res (get_item t b) (\<lambda>(v, b1). map_res (\<lambda>(vs, b2). (v # vs, b2)) (get_items ts b1))"

fun item_wire :: "item \<Rightarrow> bytes" where
  "item_wire (I8 v) = [v]"
| "item_wire (I16 v) = be16 v"
| "item_wire (I32 v) = be32 v"
| "item_wire (IStr s) = s @ [0]"

fun item_ok :: "item \<Rightarrow> bool" where
  "item_ok (IStr s) = (0 \<notin> set s)"
| "item_ok _ = True"

lemma put_item_wire: "put_item v b = MsgBuffer_append (item_wire v) b"
  by (cases v) (simp_all add: put_u8_def put_u16_def put_u32_def put_string_def)

lemma get_item_ok:
  assumes "holds (item_wire v @ rest) b" and "item_ok v"
  shows "\<exists>b'. get_item v b = Inr (v, b') \<and> holds rest b'"
proof (cases v)
  case (I16 w)
  then have h: "holds (be16 w @ rest) b" using assms(1) by simp
  then show ?thesis using I16 get_u16_ok [of b w rest] holds_consume [OF h, of 2] by (simp add: holds_def)
qed (use assms buf_source.get8_law buf_source.get32_law buf_source.gets_law [of _ rest b] in fastforce)+

lemma get_items_ok:
  assumes "holds (concat (map item_wire vs) @ rest) b" and "\<forall>v \<in> set vs. item_ok v"
  shows "\<exists>b'. get_items vs b = Inr (vs, b') \<and> holds rest b'"
  using assms
proof (induction vs arbitrary: b)
  case (Cons v vs)
  then show ?case using get_item_ok [of v "concat (map item_wire vs) @ rest" b] by fastforce
qed simp

text \<open>
  C19: extraction inverts insertion. Any sequence of 8-, 16- and 32-bit integers and NUL-free strings
  inserted into an empty buffer and then extracted in the same order comes back unchanged, however
  often the storage had to grow, and the buffer ends up empty.
\<close>

theorem extract_inverts_insert:
  assumes "\<forall>v \<in> set vs. item_ok v" and "length (concat (map item_wire vs)) \<le> 2 ^ 61"
  shows "\<exists>b b'. fold_res put_item vs empty_buffer = Inr b \<and> get_items vs b = Inr (vs, b')
    \<and> MsgBuffer_empty b'"
proof -
  have eq: "fold_res put_item vs empty_buffer = fold_res MsgBuffer_append (map item_wire vs) empty_buffer"
    by (simp add: fold_res_map put_item_wire [abs_def])
  have w: "written 0 0 none [] empty_buffer"
    using empty_buffer_ok by (simp add: written_def used_def empty_buffer_def)
  obtain b where b: "fold_res MsgBuffer_append (map item_wire vs) empty_buffer = Inr b"
      "written 0 0 none (concat (map item_wire vs)) b"
    using buf_sink.puts_law [OF w, of "map item_wire vs"] assms(2) by auto
  have "holds (concat (map item_wire vs) @ []) b" using written_holds [OF b(2) assms(2)] by simp
  then obtain b' where "get_items vs b = Inr (vs, b')" "holds [] b'"
    using get_items_ok assms(1) by blast
  then show ?thesis using b(1) eq empty_content [of b'] by (auto simp: holds_def)
qed

theorem extract_inverts_insert_witness:
  "\<exists>b b'. fold_res put_item [I32 7, IStr [104, 105], I16 9, I8 1] empty_buffer = Inr b
     \<and> get_items [I32 7, IStr [104, 105], I16 9, I8 1] b = Inr ([I32 7, IStr [104, 105], I16 9, I8 1], b')"
  using extract_inverts_insert [of "[I32 7, IStr [104, 105], I16 9, I8 1]"] by (auto simp: be32_def be16_def)

section \<open>Where the class goes wrong\<close>

text \<open>
  The guard of \<open>fetch\<close> ignores \<open>m_head\<close>: on a well-formed buffer whose storage is full it lets a
  read through that leaves the storage. \<open>append(const MsgBuffer&)\<close> reserves for its own pending bytes
  instead of the argument's.
\<close>

lemma fetch_out_of_range:
  "MsgBuffer_fetch 0 4 \<lparr>m_buffer = [1, 2, 3, 4], m_packlen = 0, m_head = 2, m_tail = 4, m_indicator = none\<rparr>
     = Inl OutOfRange"
  by (simp add: MsgBuffer_fetch_def MsgBuffer_size_def MsgBuffer_memory_def mem_read_def)

lemma append_msg_overflows:
  "MsgBuffer_append_msg
     \<lparr>m_buffer = [7], m_packlen = 0, m_head = 0, m_tail = 1, m_indicator = none\<rparr>
     \<lparr>m_buffer = [], m_packlen = 0, m_head = 0, m_tail = 0, m_indicator = none\<rparr> = Inl OutOfRange"
  by (simp add: MsgBuffer_append_msg_def MsgBuffer_adjust_def MsgBuffer_available_def MsgBuffer_size_def
      MsgBuffer_data_def mem_read_def mem_write_def)

end
