(* ===== verification/Object_Pool.thy ===== *)
theory Object_Pool
  imports Msg_Buffer
begin

text \<open>
  \<open>ObjectPool\<close> (\<open>net/objectpool.h\<close>): a free list guarded by a mutex, refilled by a creator
  function. Each method holds the mutex from start to end, so each is one atomic step on the
  record. The interface \<open>recycling_pool\<close> says what its clients rely on (an object handed
  out satisfies whatever every object put in satisfies) and is interpreted on the pool.
\<close>

section \<open>State and operations\<close>

record 'a objectpool =
  m_free_list :: "'a list"
  m_construct :: 'a

definition ObjectPool_new :: "'a \<Rightarrow> nat \<Rightarrow> 'a objectpool" where
  "ObjectPool_new creator sz = \<lparr>m_free_list = replicate sz creator, m_construct = creator\<rparr>"

definition ObjectPool_get :: "'a objectpool \<Rightarrow> 'a \<times> 'a objectpool" where
  "ObjectPool_get p =
     (case m_free_list p of
        node # rest \<Rightarrow> (node, p\<lparr>m_free_list := rest\<rparr>)
      | [] \<Rightarrow> (m_construct p, p))"

definition ObjectPool_free :: "'a \<Rightarrow> 'a objectpool \<Rightarrow> 'a objectpool" where
  "ObjectPool_free obj p = p\<lparr>m_free_list := m_free_list p @ [obj]\<rparr>"

definition ObjectPool_destroy :: "'a objectpool \<Rightarrow> 'a objectpool" where
  "ObjectPool_destroy p = p\<lparr>m_free_list := []\<rparr>"

text \<open>One call on the pool, and the objects a sequence of calls hands out.\<close>

datatype 'a pool_call = PoolGet | PoolFree 'a

fun pool_calls :: "('p \<Rightarrow> 'a \<times> 'p) \<Rightarrow> ('a \<Rightarrow> 'p \<Rightarrow> 'p) \<Rightarrow> 'a pool_call list \<Rightarrow> 'p \<Rightarrow> 'a list \<times> 'p" where
  "pool_calls get put [] p = ([], p)"
| "pool_calls get put (PoolGet # cs) p =
     (let (x, p1) = get p; (xs, p2) = pool_calls get put cs p1 in (x # xs, p2))"
| "pool_calls get put (PoolFree x # cs) p = pool_calls get put cs (put x p)"

section \<open>Interface\<close>

locale recycling_pool =
  fixes get :: "'p \<Rightarrow> 'a \<times> 'p"
    and put :: "'a \<Rightarrow> 'p \<Rightarrow> 'p"
    and good :: "('a \<Rightarrow> bool) \<Rightarrow> 'p \<Rightarrow> bool"
  assumes get_good: "good P p \<Longrightarrow> get p = (x, p') \<Longrightarrow> P x \<and> good P p'"
    and put_good: "good P p \<Longrightarrow> P x \<Longrightarrow> good P (put x p)"
begin

lemma calls_good:
  assumes "good P p" and "\<And>x. PoolFree x \<in> set cs \<Longrightarrow> P x" and "pool_calls get put cs p = (xs, p')"
  shows "(\<forall>x \<in> set xs. P x) \<and> good P p'"
  using assms
proof (induction cs arbitrary: p xs p' rule: list.induct)
  case (Cons c cs)
  show ?case
  proof (cases c)
    case PoolGet
    obtain x p1 where g: "get p = (x, p1)" by fastforce
    obtain ys where ys: "pool_calls get put cs p1 = (ys, p')" "xs = x # ys"
      using Cons.prems(3) PoolGet g by (auto split: prod.splits)
    then show ?thesis using get_good [OF Cons.prems(1) g] Cons.IH [of p1 ys p'] Cons.prems(2) by simp
  next
    case (PoolFree x)
    then show ?thesis using put_good [OF Cons.prems(1), of x] Cons.IH [of "put x p" xs p'] Cons.prems
      by simp
  qed
qed simp

end

definition pool_good :: "('a \<Rightarrow> bool) \<Rightarrow> 'a objectpool \<Rightarrow> bool" where
  "pool_good P p \<longleftrightarrow> P (m_construct p) \<and> (\<forall>x \<in> set (m_free_list p). P x)"

lemma pool_good_new [simp]: "pool_good P (ObjectPool_new x n) \<longleftrightarrow> P x"
  by (auto simp: pool_good_def ObjectPool_new_def)

interpretation obj_pool: recycling_pool ObjectPool_get ObjectPool_free pool_good
  by unfold_locales
    (auto simp: pool_good_def ObjectPool_get_def ObjectPool_free_def split: list.splits)

section \<open>Buffers in the pool\<close>

text \<open>
  What \<open>std::make_shared<MsgBuffer>()\<close> creates. \<open>clear()\<close> brings every buffer back to
  exactly this value, so a recycled buffer cannot be told from a new one.
\<close>

definition fresh_buffer :: msgbuffer where
  "fresh_buffer = \<lparr>m_buffer = replicate m_default_buffer_size 0, m_packlen = 0, m_head = 0,
     m_tail = 0, m_indicator = none\<rparr>"

lemma clear_fresh [simp]: "MsgBuffer_clear b = fresh_buffer"
  by (simp add: MsgBuffer_clear_def fresh_buffer_def)

lemma new_fresh: "MsgBuffer_new 1024 = Inr fresh_buffer"
  by (simp add: MsgBuffer_new_def vec_resize_def vec_max_def fresh_buffer_def m_default_buffer_size_def)

lemma wf_fresh [simp]: "wf_buffer fresh_buffer" "room n fresh_buffer \<longleftrightarrow> n \<le> 2 ^ 61"
  "used fresh_buffer = []" "content fresh_buffer = []"
  by (simp_all add: wf_buffer_def room_def used_def content_def fresh_buffer_def m_default_buffer_size_def)

text \<open>
  C32: recycled buffers are clean. For any sequence of \<open>get\<close> and \<open>free\<close> calls on a pool of buffers in
  which every freed buffer was cleared first, as \<open>recycle\<close> does, every buffer handed out is an empty
  buffer of the default size, with no package length and no indicator left over from a message.
\<close>

theorem pool_hands_out_clean:
  assumes "\<And>x. PoolFree x \<in> set cs \<Longrightarrow> \<exists>b. x = MsgBuffer_clear b"
    and "pool_calls ObjectPool_get ObjectPool_free cs (ObjectPool_new fresh_buffer n) = (xs, p)"
  shows "\<forall>x \<in> set xs. x = fresh_buffer"
  using obj_pool.calls_good [of "(=) fresh_buffer" "ObjectPool_new fresh_buffer n" cs xs p] assms by fastforce

theorem pool_hands_out_clean_witness:
  "fst (pool_calls ObjectPool_get ObjectPool_free
     [PoolGet, PoolFree (MsgBuffer_clear \<lparr>m_buffer = [1], m_packlen = 9, m_head = 0, m_tail = 1, m_indicator = valid\<rparr>),
      PoolGet, PoolGet] (ObjectPool_new fresh_buffer 1)) = [fresh_buffer, fresh_buffer, fresh_buffer]"
proof -
  let ?cs = "[PoolGet, PoolFree (MsgBuffer_clear \<lparr>m_buffer = [1], m_packlen = 9, m_head = 0, m_tail = 1, m_indicator = valid\<rparr>),
      PoolGet, PoolGet]"
  obtain xs p where r: "pool_calls ObjectPool_get ObjectPool_free ?cs (ObjectPool_new fresh_buffer 1) = (xs, p)" by force
  have "\<forall>x \<in> set xs. x = fresh_buffer"
    by (rule pool_hands_out_clean [OF _ r]) (auto simp del: clear_fresh)
  moreover have "length xs = 3" using r by (auto simp: Let_def split: prod.splits)
  ultimately show ?thesis using r by (auto simp: length_Suc_conv numeral_3_eq_3)
qed

end
