(* ===== verification/Crc16.thy ===== *)
theory Crc16
  imports Sparrow_Prelude
begin

text \<open>
  \<open>Request::crc16\<close> (\<open>src/protocol/proto.cpp\<close>): the table-driven checksum that
  protects every message, with the integer promotions of the C++ expression written out, and the
  bit-by-bit definition of the CRC with polynomial \<open>0x1021\<close> it is meant to compute. The
  lemmas show that the table is the right one, that the update is linear and injective, and from
  that what the checksum detects.
\<close>

section \<open>The code\<close>

definition crc16table :: "u16 list" where
  "crc16table = [
    0x0000, 0x1021, 0x2042, 0x3063, 0x4084, 0x50a5, 0x60c6, 0x70e7,
    0x8108, 0x9129, 0xa14a, 0xb16b, 0xc18c, 0xd1ad, 0xe1ce, 0xf1ef,
    0x1231, 0x0210, 0x3273, 0x2252, 0x52b5, 0x4294, 0x72f7, 0x62d6,
    0x9339, 0x8318, 0xb37b, 0xa35a, 0xd3bd, 0xc39c, 0xf3ff, 0xe3de,
    0x2462, 0x3443, 0x0420, 0x1401, 0x64e6, 0x74c7, 0x44a4, 0x5485,
    0xa56a, 0xb54b, 0x8528, 0x9509, 0xe5ee, 0xf5cf, 0xc5ac, 0xd58d,
    0x3653, 0x2672, 0x1611, 0x0630, 0x76d7, 0x66f6, 0x5695, 0x46b4,
    0xb75b, 0xa77a, 0x9719, 0x8738, 0xf7df, 0xe7fe, 0xd79d, 0xc7bc,
    0x48c4, 0x58e5, 0x6886, 0x78a7, 0x0840, 0x1861, 0x2802, 0x3823,
    0xc9cc, 0xd9ed, 0xe98e, 0xf9af, 0x8948, 0x9969, 0xa90a, 0xb92b,
    0x5af5, 0x4ad4, 0x7ab7, 0x6a96, 0x1a71, 0x0a50, 0x3a33, 0x2a12,
    0xdbfd, 0xcbdc, 0xfbbf, 0xeb9e, 0x9b79, 0x8b58, 0xbb3b, 0xab1a,
    0x6ca6, 0x7c87, 0x4ce4, 0x5cc5, 0x2c22, 0x3c03, 0x0c60, 0x1c41,
    0xedae, 0xfd8f, 0xcdec, 0xddcd, 0xad2a, 0xbd0b, 0x8d68, 0x9d49,
    0x7e97, 0x6eb6, 0x5ed5, 0x4ef4, 0x3e13, 0x2e32, 0x1e51, 0x0e70,
    0xff9f, 0xefbe, 0xdfdd, 0xcffc, 0xbf1b, 0xaf3a, 0x9f59, 0x8f78,
    0x9188, 0x81a9, 0xb1ca, 0xa1eb, 0xd10c, 0xc12d, 0xf14e, 0xe16f,
    0x1080, 0x00a1, 0x30c2, 0x20e3, 0x5004, 0x4025, 0x7046, 0x6067,
    0x83b9, 0x9398, 0xa3fb, 0xb3da, 0xc33d, 0xd31c, 0xe37f, 0xf35e,
    0x02b1, 0x1290, 0x22f3, 0x32d2, 0x4235, 0x5214, 0x6277, 0x7256,
    0xb5ea, 0xa5cb, 0x95a8, 0x8589, 0xf56e, 0xe54f, 0xd52c, 0xc50d,
    0x34e2, 0x24c3, 0x14a0, 0x0481, 0x7466, 0x6447, 0x5424, 0x4405,
    0xa7db, 0xb7fa, 0x8799, 0x97b8, 0xe75f, 0xf77e, 0xc71d, 0xd73c,
    0x26d3, 0x36f2, 0x0691, 0x16b0, 0x6657, 0x7676, 0x4615, 0x5634,
    0xd94c, 0xc96d, 0xf90e, 0xe92f, 0x99c8, 0x89e9, 0xb98a, 0xa9ab,
    0x5844, 0x4865, 0x7806, 0x6827, 0x18c0, 0x08e1, 0x3882, 0x28a3,
    0xcb7d, 0xdb5c, 0xeb3f, 0xfb1e, 0x8bf9, 0x9bd8, 0xabbb, 0xbb9a,
    0x4a75, 0x5a54, 0x6a37, 0x7a16, 0x0af1, 0x1ad0, 0x2ab3, 0x3a92,
    0xfd2e, 0xed0f, 0xdd6c, 0xcd4d, 0xbdaa, 0xad8b, 0x9de8, 0x8dc9,
    0x7c26, 0x6c07, 0x5c64, 0x4c45, 0x3ca2, 0x2c83, 0x1ce0, 0x0cc1,
    0xef1f, 0xff3e, 0xcf5d, 0xdf7c, 0xaf9b, 0xbfba, 0x8fd9, 0x9ff8,
    0x6e17, 0x7e36, 0x4e55, 0x5e74, 0x2e93, 0x3eb2, 0x0ed1, 0x1ef0]"

text \<open>
  One iteration. \<open>crc\<close> promotes to \<open>int\<close>, \<open>*data\<close> is a signed \<open>char\<close>
  and is sign-extended; the assignment truncates to 16 bits.
\<close>

definition crc16_step :: "u16 \<Rightarrow> u8 \<Rightarrow> u16" where
  "crc16_step crc c =
     ucast (push_bit 8 (ucast crc :: u32)
       XOR ucast (crc16table ! unat ((drop_bit 8 (ucast crc :: u32) XOR scast c) AND 0x00FF)))"

definition crc16_bytes :: "bytes \<Rightarrow> u16" where
  "crc16_bytes bs = foldl crc16_step 0 bs"

text \<open>
  The function on a pointer into a buffer's storage: the loop runs while \<open>cnt < len\<close> for an
  \<open>int\<close> \<open>len\<close>, so a negative length reads nothing.
\<close>

definition crc16 :: "bytes \<Rightarrow> nat \<Rightarrow> 32 word \<Rightarrow> u16 res" where
  "crc16 mem p len = map_res crc16_bytes (mem_read mem p (nat (sint len)))"

section \<open>The reference: polynomial division bit by bit\<close>

definition crc_bit :: "u16 \<Rightarrow> u16" where
  "crc_bit c = (if bit c 15 then push_bit 1 c XOR 0x1021 else push_bit 1 c)"

definition crc_byte :: "u16 \<Rightarrow> u16" where
  "crc_byte c = (crc_bit ^^ 8) c"

definition crc16_spec :: "bytes \<Rightarrow> u16" where
  "crc16_spec bs = foldl (\<lambda>c b. crc_byte (c XOR push_bit 8 (ucast b))) 0 bs"

section \<open>Linearity and injectivity of the reference\<close>

lemma crc_bit_xor: "crc_bit (a XOR b) = crc_bit a XOR crc_bit b"
  by (rule bit_word_eqI) (auto simp: crc_bit_def bit_simps)

lemma crc_bits_xor: "(crc_bit ^^ n) (a XOR b) = (crc_bit ^^ n) a XOR (crc_bit ^^ n) b"
  by (induction n) (simp_all add: crc_bit_xor)

lemma crc_byte_xor: "crc_byte (a XOR b) = crc_byte a XOR crc_byte b"
  by (simp add: crc_byte_def crc_bits_xor)

lemma crc_bit_eq_0: "crc_bit c = 0 \<Longrightarrow> c = 0"
proof (rule bit_word_eqI)
  fix n assume z: "crc_bit c = 0" and "n < LENGTH(16)"
  have b: "\<not> bit (crc_bit c) m" for m using z by simp
  have "bit (push_bit 1 c XOR 0x1021) 0" by (simp only: bit_xor_iff) (simp add: bit_simps bit_0)
  then have "\<not> bit c 15" using b [of 0] by (auto simp only: crc_bit_def if_True)
  moreover then have "\<not> bit c n" if "n < 15" using b [of "Suc n"] that
    by (simp only: crc_bit_def if_False bit_push_bit_iff) simp
  ultimately show "bit c n = bit 0 n" using \<open>n < LENGTH(16)\<close> by (cases "n = 15") auto
qed

lemma xor_cancel: "a XOR x = b XOR x \<longleftrightarrow> a = (b :: u16)"
proof
  assume "a XOR x = b XOR x"
  then have "(a XOR x) XOR x = (b XOR x) XOR x" by (simp only:)
  then show "a = b" by (simp only: xor.assoc xor_self_eq xor.right_neutral)
qed simp

lemma crc_bits_eq_0: "(crc_bit ^^ n) c = 0 \<Longrightarrow> c = 0"
  by (induction n) (auto dest: crc_bit_eq_0)

lemma crc_byte_inj: "crc_byte a = crc_byte b \<longleftrightarrow> a = b"
proof
  assume "crc_byte a = crc_byte b"
  then have "(crc_bit ^^ 8) (a XOR b) = 0" by (simp add: crc_bits_xor crc_byte_def)
  then have "a XOR b = 0" by (rule crc_bits_eq_0)
  then show "a = b" by (simp add: bit_eq_iff bit_xor_iff)
qed simp

lemma crc_bits_low: "k \<le> 8 \<Longrightarrow> (crc_bit ^^ k) (ucast (b :: u8)) = push_bit k (ucast b)"
proof (induction k)
  case (Suc k)
  then have "\<not> bit b (15 - k)" by (intro impossible_bit) simp
  then have "\<not> bit (push_bit k (ucast b) :: u16) 15" by (simp add: bit_simps)
  with Suc show ?case by (simp add: crc_bit_def)
qed simp

lemma crc_byte_low: "crc_byte (ucast (b :: u8)) = push_bit 8 (ucast b)"
  by (simp add: crc_byte_def crc_bits_low)

section \<open>The table\<close>

lemma crc_byte_unfold:
  "crc_byte c = crc_bit (crc_bit (crc_bit (crc_bit (crc_bit (crc_bit (crc_bit (crc_bit c)))))))"
  by (simp add: crc_byte_def numeral_eq_Suc)

lemma crc16table_eq: "crc16table = map (\<lambda>i. crc_byte (push_bit 8 (of_nat i))) [0..<256]"
proof -
  define T where "T i = crc_byte (push_bit 8 (of_nat i))" for i
  have "[0..<256::nat] = 0 # 1 # [2..<256]" by (simp add: upt_conv_Cons)
  then have "map T [0..<256] = crc16table"
    by (simp add: upt_rec_numeral) (simp add: T_def crc16table_def crc_byte_unfold crc_bit_def)
  moreover have "T = (\<lambda>i. crc_byte (push_bit 8 (of_nat i)))" by (simp add: fun_eq_iff T_def)
  ultimately show ?thesis by simp
qed

lemma crc16table_nth: "i < 256 \<Longrightarrow> crc16table ! i = crc_byte (push_bit 8 (of_nat i))"
  by (simp add: crc16table_eq)

section \<open>The code computes the reference\<close>

lemma crc16_step_index:
  "(drop_bit 8 (ucast (crc :: u16) :: u32) XOR scast (c :: u8)) AND 0xFF
     = ucast (ucast (drop_bit 8 crc) XOR c :: u8)"
proof -
  have mask: "(0xFF :: u32) = mask 8" by (simp add: mask_numeral)
  have "bit c n \<Longrightarrow> n < 8" and "n < 8 \<Longrightarrow> min 7 n = n" for n :: nat
    using bit_imp_le_length [of c n] by auto
  then show ?thesis
    unfolding mask by (intro bit_word_eqI) (fastforce simp: bit_simps)
qed

lemma crc_split: "(crc :: u16) = push_bit 8 (ucast (ucast (drop_bit 8 crc) :: u8)) XOR ucast (ucast crc :: u8)"
  by (rule bit_word_eqI) (auto simp: bit_simps)

lemma crc16_step_spec: "crc16_step crc c = crc_byte (crc XOR push_bit 8 (ucast c))"
proof -
  let ?hi = "ucast (drop_bit 8 crc) :: u8" and ?lo = "ucast crc :: u8"
  have lt: "unat (?hi XOR c) < 256" using unsigned_less [of "?hi XOR c"] by simp
  then have "unat (ucast (?hi XOR c) :: u32) = unat (?hi XOR c)"
    unfolding unsigned_ucast_eq by (intro take_bit_nat_eq_self) simp
  with lt have "crc16_step crc c = ucast (push_bit 8 (ucast crc :: u32)
      XOR ucast (crc_byte (push_bit 8 (ucast (?hi XOR c)))))"
    unfolding crc16_step_def crc16_step_index by (simp add: crc16table_nth)
  also have "\<dots> = push_bit 8 (ucast ?lo) XOR crc_byte (push_bit 8 (ucast (?hi XOR c)))"
    by (rule bit_word_eqI) (auto simp: bit_simps)
  also have "\<dots> = crc_byte (ucast ?lo) XOR crc_byte (push_bit 8 (ucast (?hi XOR c)))"
    by (simp add: crc_byte_low)
  also have "\<dots> = crc_byte ((push_bit 8 (ucast ?hi) XOR ucast ?lo) XOR push_bit 8 (ucast c))"
    unfolding crc_byte_xor [symmetric]
    by (simp add: unsigned_xor_eq push_bit_xor xor.assoc xor.commute xor.left_commute)
  finally show ?thesis by (simp flip: crc_split)
qed

lemma crc16_bytes_spec: "crc16_bytes bs = crc16_spec bs"
  by (simp add: crc16_bytes_def crc16_spec_def crc16_step_spec [abs_def])

section \<open>What the checksum detects\<close>

lemma crc16_step_inj: "crc16_step a c = crc16_step b c \<longleftrightarrow> a = b"
  unfolding crc16_step_spec crc_byte_inj xor_cancel ..

lemma foldl_crc16_inj: "foldl crc16_step a bs = foldl crc16_step b bs \<longleftrightarrow> a = b"
  by (induction bs arbitrary: a b) (simp_all add: crc16_step_inj)

text \<open>Two bytes shift a whole 16-bit register, so they act as one word.\<close>

lemma crc16_two_steps:
  "crc16_step (crc16_step crc a) b = crc_byte (crc_byte (crc XOR (push_bit 8 (ucast a) XOR ucast b)))"
  by (simp add: crc16_step_spec crc_byte_xor crc_byte_low xor.assoc)

lemma two_bytes_inj:
  "push_bit 8 (ucast (a :: u8)) XOR ucast (b :: u8) = (push_bit 8 (ucast a') XOR ucast b' :: u16)
     \<longleftrightarrow> a = a' \<and> b = b'"
proof
  assume eq: "push_bit 8 (ucast a) XOR ucast b = (push_bit 8 (ucast a') XOR ucast b' :: u16)"
  have "bit a n = bit a' n \<and> bit b n = bit b' n" if "n < 8" for n
    using arg_cong [OF eq, of "\<lambda>w. bit w n"] arg_cong [OF eq, of "\<lambda>w. bit w (n + 8)"] that
    by (auto simp: bit_simps dest: bit_imp_le_length)
  then show "a = a' \<and> b = b'" by (auto intro!: bit_word_eqI)
qed simp

lemma crc16_bytes_append: "crc16_bytes (xs @ ys) = foldl crc16_step (crc16_bytes xs) ys"
  by (simp add: crc16_bytes_def)

text \<open>
  C20: the table-driven loop of \<open>Request::crc16\<close>, with its integer promotions, signed
  characters and 256-entry table, computes exactly the bitwise CRC of polynomial 0x1021 (initial
  value 0) over the bytes it reads, and faults exactly when those bytes are not in the storage.
\<close>

theorem crc16_matches_reference:
  "crc16 mem p len = map_res crc16_spec (mem_read mem p (nat (sint len)))"
proof -
  have "crc16_bytes = crc16_spec" by (rule ext) (rule crc16_bytes_spec)
  then show ?thesis by (simp add: crc16_def)
qed

lemma burst_detected:
  "crc16_bytes (pre @ [a, b] @ post) = crc16_bytes (pre @ [a', b'] @ post) \<longleftrightarrow> a = a' \<and> b = b'"
proof -
  let ?c = "crc16_bytes pre"
  have "crc16_bytes (pre @ [x, y] @ post) = foldl crc16_step (crc16_step (crc16_step ?c x) y) post" for x y
    by (simp only: crc16_bytes_append foldl_append foldl.simps)
  then have "crc16_bytes (pre @ [a, b] @ post) = crc16_bytes (pre @ [a', b'] @ post) \<longleftrightarrow>
      (push_bit 8 (ucast a) XOR ucast b) XOR ?c = (push_bit 8 (ucast a') XOR ucast b') XOR ?c"
    by (simp only: foldl_crc16_inj crc16_two_steps crc_byte_inj xor.commute [of ?c])
  then show ?thesis by (simp only: xor_cancel two_bytes_inj)
qed

text \<open>
  Two messages that differ only inside a window of two adjacent bytes have the same checksum
  only if they are equal: every burst error within two bytes is detected.
\<close>

lemma crc16_detects_two_byte_burst:
  "crc16_bytes (pre @ [a, b] @ post) = crc16_bytes (pre @ [a', b'] @ post) \<longleftrightarrow> a = a' \<and> b = b'"
  by (rule burst_detected)

text \<open>
  Appending a message's own checksum in network order makes the checksum of the whole zero,
  so sender and receiver agree on the byte order of the trailer.
\<close>

lemma crc16_residue: "crc16_bytes (bs @ be16 (crc16_bytes bs)) = 0"
proof -
  let ?c = "crc16_bytes bs"
  have "crc16_bytes (bs @ be16 ?c)
      = crc_byte (crc_byte (?c XOR (push_bit 8 (ucast (ucast (drop_bit 8 ?c) :: u8)) XOR ucast (ucast ?c :: u8))))"
    by (simp only: crc16_bytes_append be16_def foldl.simps crc16_two_steps)
  also have "\<dots> = crc_byte (crc_byte (?c XOR ?c))" by (simp only: crc_split [of ?c, symmetric])
  also have "\<dots> = 0" by (simp only: xor_self_eq) (simp add: crc_byte_unfold crc_bit_def)
  finally show ?thesis .
qed

end
