(* ===== verification/Proto.thy ===== *)
theory Proto
  imports Object_Pool Crc16
begin

text \<open>
  The message classes of \<open>src/protocol/proto.h\<close> and \<open>proto.cpp\<close>: the command codes, the
  head, the four bodies, the request classes the server decodes and the response classes it
  encodes. An encoder is the sequence of insertions of the source, a decoder the sequence of
  extractions; each is related to the wire format it is meant to have (the \<open>_wire\<close> lists).
  \<open>std::string\<close> is a list of bytes. Inheritance from \<open>Request\<close>/\<open>Response\<close> becomes one
  datatype each, a constructor per class, with the shared \<open>Head\<close> and owner first.
\<close>

section \<open>Constants\<close>

definition BIND_CMD :: u32 where "BIND_CMD = 0x00000001"
definition BIND_CMD_RSP :: u32 where "BIND_CMD_RSP = 0x80000001"
definition ACT_CMD :: u32 where "ACT_CMD = 0x00000002"
definition ACT_CMD_RSP :: u32 where "ACT_CMD_RSP = 0x80000002"
definition DELIVER_MSG_CMD :: u32 where "DELIVER_MSG_CMD = 0x0000003"
definition DELIVER_MSG_CMD_RSP :: u32 where "DELIVER_MSG_CMD_RSP = 0x8000003"
definition AUDIT_TOKEN_CMD :: u32 where "AUDIT_TOKEN_CMD = 0x00000004"
definition AUDIT_RSP_TOKEN_CMD :: u32 where "AUDIT_RSP_TOKEN_CMD = 0x80000004"
definition AUDIT_RESULT_TOKEN_CMD :: u32 where "AUDIT_RESULT_TOKEN_CMD = 0x00000005"

lemmas cmd_defs = BIND_CMD_def BIND_CMD_RSP_def ACT_CMD_def ACT_CMD_RSP_def DELIVER_MSG_CMD_def
  DELIVER_MSG_CMD_RSP_def AUDIT_TOKEN_CMD_def AUDIT_RSP_TOKEN_CMD_def AUDIT_RESULT_TOKEN_CMD_def

text \<open>\<open>net/constant.h\<close>.\<close>

definition g_head_magic_num :: bytes where
  "g_head_magic_num = [0xF7, 0xBA, 0xA1, 0xC9]"

definition g_proto_head_len :: u8 where
  "g_proto_head_len = 12"

section \<open>Data\<close>

record Head =
  m_len :: u32
  m_cmd :: u32

record DeliverBody =
  db_agent_id :: bytes
  db_msg_id :: bytes
  db_token_id :: bytes
  db_svc_type :: u32
  db_content_type :: u8
  db_timestamp :: bytes
  db_from :: bytes
  db_counts :: u32
  db_to :: bytes
  db_hash :: bytes
  db_content_length :: u32
  db_content_text :: bytes
  db_content_url :: bytes
  db_remark :: bytes
  db_file_name :: bytes
  db_is_review :: u8
  db_session_id :: bytes
  db_kernel_id :: bytes
  db_text_is_sync :: u32

record AuditBody =
  ab_msg_id :: bytes
  ab_from :: bytes
  ab_mo_time :: bytes
  ab_svc_type :: u32
  ab_to :: bytes
  ab_chat_id :: bytes
  ab_hash :: bytes
  ab_msg_type :: u8
  ab_content_len :: u32
  ab_content :: bytes
  ab_audit_type :: u8
  ab_policy_id :: bytes
  ab_policy_type :: bytes
  ab_file_path :: bytes
  ab_session_id :: bytes
  ab_sys_id :: bytes
  ab_to_counts :: u32
  ab_token_id :: bytes
  ab_content_url :: bytes
  ab_remark :: bytes
  ab_file_name :: bytes
  ab_hp_id :: bytes
  ab_report_type :: u8
  ab_cmd :: u32
  ab_is_review :: u8

record DeliverRespBody =
  rb_status :: u32
  rb_msg_id :: bytes
  rb_msg_type :: u8
  rb_svc_type :: u32
  rb_token_id :: bytes
  rb_session_id :: bytes
  rb_kernel_id :: bytes
  rb_detail :: bytes
  rb_inspect_id :: bytes
  rb_esStatisticsParam :: bytes
  rb_text_is_sync :: u32

record BindBody =
  uid :: bytes

text \<open>The value-initialised objects (\<open>{}\<close>).\<close>

definition Head_init :: Head where
  "Head_init = \<lparr>m_len = 0, m_cmd = 0\<rparr>"

definition DeliverBody_init :: DeliverBody where
  "DeliverBody_init = \<lparr>db_agent_id = [], db_msg_id = [], db_token_id = [], db_svc_type = 0, db_content_type = 0, db_timestamp = [], db_from = [], db_counts = 0, db_to = [], db_hash = [], db_content_length = 0, db_content_text = [], db_content_url = [], db_remark = [], db_file_name = [], db_is_review = 0, db_session_id = [], db_kernel_id = [], db_text_is_sync = 0\<rparr>"

definition AuditBody_init :: AuditBody where
  "AuditBody_init = \<lparr>ab_msg_id = [], ab_from = [], ab_mo_time = [], ab_svc_type = 0, ab_to = [], ab_chat_id = [], ab_hash = [], ab_msg_type = 0, ab_content_len = 0, ab_content = [], ab_audit_type = 0, ab_policy_id = [], ab_policy_type = [], ab_file_path = [], ab_session_id = [], ab_sys_id = [], ab_to_counts = 0, ab_token_id = [], ab_content_url = [], ab_remark = [], ab_file_name = [], ab_hp_id = [], ab_report_type = 0, ab_cmd = 0, ab_is_review = 0\<rparr>"

definition DeliverRespBody_init :: DeliverRespBody where
  "DeliverRespBody_init = \<lparr>rb_status = 0, rb_msg_id = [], rb_msg_type = 0, rb_svc_type = 0, rb_token_id = [], rb_session_id = [], rb_kernel_id = [], rb_detail = [], rb_inspect_id = [], rb_esStatisticsParam = [], rb_text_is_sync = 0\<rparr>"

definition BindBody_init :: BindBody where
  "BindBody_init = \<lparr>uid = []\<rparr>"

text \<open>A weak reference to a connection is the connection's identity, or none.\<close>

type_synonym conn_ref = nat

datatype Request =
    RequestAct Head "conn_ref option"
  | RequestBind Head "conn_ref option" BindBody
  | RequestDeliver Head "conn_ref option" DeliverBody

datatype Response =
    ResponseAct Head "conn_ref option"
  | ResponseBind Head "conn_ref option" BindBody
  | ResponseDeliver Head "conn_ref option" DeliverRespBody
  | RequestAudit Head "conn_ref option" AuditBody

primrec Request_head :: "Request \<Rightarrow> Head" where
  "Request_head (RequestAct h c) = h"
| "Request_head (RequestBind h c b) = h"
| "Request_head (RequestDeliver h c b) = h"

primrec Request_set_head :: "Head \<Rightarrow> Request \<Rightarrow> Request" where
  "Request_set_head h' (RequestAct h c) = RequestAct h' c"
| "Request_set_head h' (RequestBind h c b) = RequestBind h' c b"
| "Request_set_head h' (RequestDeliver h c b) = RequestDeliver h' c b"

primrec Request_owner :: "Request \<Rightarrow> conn_ref option" where
  "Request_owner (RequestAct h c) = c"
| "Request_owner (RequestBind h c b) = c"
| "Request_owner (RequestDeliver h c b) = c"

primrec Response_head :: "Response \<Rightarrow> Head" where
  "Response_head (ResponseAct h c) = h"
| "Response_head (ResponseBind h c b) = h"
| "Response_head (ResponseDeliver h c b) = h"
| "Response_head (RequestAudit h c b) = h"

primrec Response_upd_head :: "(Head \<Rightarrow> Head) \<Rightarrow> Response \<Rightarrow> Response" where
  "Response_upd_head f (ResponseAct h c) = ResponseAct (f h) c"
| "Response_upd_head f (ResponseBind h c b) = ResponseBind (f h) c b"
| "Response_upd_head f (ResponseDeliver h c b) = ResponseDeliver (f h) c b"
| "Response_upd_head f (RequestAudit h c b) = RequestAudit (f h) c b"

primrec Response_owner :: "Response \<Rightarrow> conn_ref option" where
  "Response_owner (ResponseAct h c) = c"
| "Response_owner (ResponseBind h c b) = c"
| "Response_owner (ResponseDeliver h c b) = c"
| "Response_owner (RequestAudit h c b) = c"

section \<open>Encoders and decoders\<close>

definition Head_encode :: "Head \<Rightarrow> msgbuffer \<Rightarrow> msgbuffer res" where
  "Head_encode h = seq_res [put_u32 (m_len h), put_u32 (m_cmd h)]"

definition Head_decode :: "Head \<Rightarrow> msgbuffer \<Rightarrow> (Head \<times> msgbuffer) res" where
  "Head_decode h b =
     bind_res (get_u32 (m_len h) b) (\<lambda>(v_len, b).
     bind_res (get_u32 (m_cmd h) b) (\<lambda>(v_cmd, b).
     Inr (\<lparr>m_len = v_len, m_cmd = v_cmd\<rparr>, b)))"

definition Head_reset :: "Head \<Rightarrow> msgbuffer \<Rightarrow> msgbuffer res" where
  "Head_reset h = seq_res [reset_u32 0 (m_len h), reset_u32 4 (m_cmd h)]"

definition DeliverRespBody_encode :: "DeliverRespBody \<Rightarrow> msgbuffer \<Rightarrow> msgbuffer res" where
  "DeliverRespBody_encode r = seq_res [
    put_u32 (rb_status r), put_string (rb_msg_id r), put_u8 (rb_msg_type r),
    put_u32 (rb_svc_type r), put_string (rb_token_id r), put_string (rb_session_id r),
    put_string (rb_kernel_id r), put_string (rb_detail r), put_string (rb_inspect_id r),
    put_string (rb_esStatisticsParam r), put_u32 (rb_text_is_sync r)]"

definition DeliverBody_decode :: "DeliverBody \<Rightarrow> msgbuffer \<Rightarrow> (DeliverBody \<times> msgbuffer) res" where
  "DeliverBody_decode d b =
     bind_res (get_string (db_agent_id d) b) (\<lambda>(v_agent_id, b).
     bind_res (get_string (db_msg_id d) b) (\<lambda>(v_msg_id, b).
     bind_res (get_string (db_token_id d) b) (\<lambda>(v_token_id, b).
     bind_res (get_u32 (db_svc_type d) b) (\<lambda>(v_svc_type, b).
     bind_res (get_u8 (db_content_type d) b) (\<lambda>(v_content_type, b).
     bind_res (get_string (db_timestamp d) b) (\<lambda>(v_timestamp, b).
     bind_res (get_string (db_from d) b) (\<lambda>(v_from, b).
     bind_res (get_u32 (db_counts d) b) (\<lambda>(v_counts, b).
     bind_res (get_string (db_to d) b) (\<lambda>(v_to, b).
     bind_res (get_string (db_hash d) b) (\<lambda>(v_hash, b).
     bind_res (get_u32 (db_content_length d) b) (\<lambda>(v_content_length, b).
     bind_res (get_string (db_content_text d) b) (\<lambda>(v_content_text, b).
     bind_res (get_string (db_content_url d) b) (\<lambda>(v_content_url, b).
     bind_res (get_string (db_remark d) b) (\<lambda>(v_remark, b).
     bind_res (get_string (db_file_name d) b) (\<lambda>(v_file_name, b).
     bind_res (get_u8 (db_is_review d) b) (\<lambda>(v_is_review, b).
     bind_res (get_string (db_session_id d) b) (\<lambda>(v_session_id, b).
     bind_res (get_string (db_kernel_id d) b) (\<lambda>(v_kernel_id, b).
     bind_res (get_u32 (db_text_is_sync d) b) (\<lambda>(v_text_is_sync, b).
     Inr (\<lparr>db_agent_id = v_agent_id, db_msg_id = v_msg_id, db_token_id = v_token_id,
       db_svc_type = v_svc_type, db_content_type = v_content_type, db_timestamp = v_timestamp,
       db_from = v_from, db_counts = v_counts, db_to = v_to, db_hash = v_hash,
       db_content_length = v_content_length, db_content_text = v_content_text,
       db_content_url = v_content_url, db_remark = v_remark, db_file_name = v_file_name,
       db_is_review = v_is_review, db_session_id = v_session_id, db_kernel_id = v_kernel_id,
       db_text_is_sync = v_text_is_sync\<rparr>, b))))))))))))))))))))"

definition AuditBody_encode :: "AuditBody \<Rightarrow> msgbuffer \<Rightarrow> msgbuffer res" where
  "AuditBody_encode a = seq_res [
    put_string (ab_msg_id a), put_string (ab_from a), put_string (ab_to a),
    put_u8 (ab_msg_type a), put_u32 (ab_svc_type a), put_u32 (ab_content_len a),
    put_string (ab_content a), put_string (ab_hash a), put_u8 (ab_audit_type a),
    put_string (ab_policy_id a), put_string (ab_policy_type a), put_string (ab_mo_time a),
    put_string (ab_file_path a), put_string (ab_session_id a), put_string (ab_hp_id a),
    put_string (ab_sys_id a), put_u32 (ab_to_counts a), put_string (ab_token_id a),
    put_string (ab_content_url a), put_string (ab_remark a), put_string (ab_file_name a),
    put_u8 (ab_report_type a), put_u32 (ab_cmd a), put_u8 (ab_is_review a)]"

definition BindBody_encode :: "BindBody \<Rightarrow> msgbuffer \<Rightarrow> msgbuffer res" where
  "BindBody_encode u = seq_res [put_string (uid u)]"

definition BindBody_decode :: "BindBody \<Rightarrow> msgbuffer \<Rightarrow> (BindBody \<times> msgbuffer) res" where
  "BindBody_decode u b = bind_res (get_string (uid u) b) (\<lambda>(v_uid, b). Inr (\<lparr>uid = v_uid\<rparr>, b))"

subsection \<open>The virtual functions\<close>

fun Request_decode_body :: "Request \<Rightarrow> msgbuffer \<Rightarrow> (Request \<times> msgbuffer) res" where
  "Request_decode_body (RequestAct h c) b = Inr (RequestAct h c, b)"
| "Request_decode_body (RequestBind h c u) b =
     map_res (\<lambda>(u', b'). (RequestBind h c u', b')) (BindBody_decode u b)"
| "Request_decode_body (RequestDeliver h c d) b =
     map_res (\<lambda>(d', b'). (RequestDeliver h c d', b')) (DeliverBody_decode d b)"

definition Request_decode_head :: "Request \<Rightarrow> msgbuffer \<Rightarrow> (Request \<times> msgbuffer) res" where
  "Request_decode_head r b = map_res (\<lambda>(h, b'). (Request_set_head h r, b')) (Head_decode (Request_head r) b)"

text \<open>\<open>parse\<close> of the three classes; it returns \<open>true\<close> always.\<close>

definition Request_parse :: "Request \<Rightarrow> msgbuffer \<Rightarrow> (bool \<times> Request \<times> msgbuffer) res" where
  "Request_parse r b =
     bind_res (Request_decode_head r b) (\<lambda>(r1, b1).
     map_res (\<lambda>(r2, b2). (True, r2, b2)) (Request_decode_body r1 b1))"

fun Response_encode_body :: "Response \<Rightarrow> msgbuffer \<Rightarrow> msgbuffer res" where
  "Response_encode_body (ResponseAct h c) b = Inr b"
| "Response_encode_body (ResponseBind h c u) b = BindBody_encode u b"
| "Response_encode_body (ResponseDeliver h c r) b = DeliverRespBody_encode r b"
| "Response_encode_body (RequestAudit h c a) b = AuditBody_encode a b"

text \<open>
  \<open>makeup\<close> of the classes with a body: leave eight bytes for the head, encode the body, set the
  length, step back and write the head. \<open>ResponseAct\<close> appends its head where the buffer is.
\<close>

definition makeup_with_body :: "Response \<Rightarrow> msgbuffer \<Rightarrow> (bool \<times> Response \<times> msgbuffer) res" where
  "makeup_with_body r b =
     bind_res (Response_encode_body r (MsgBuffer_seek 8 b)) (\<lambda>b1.
       let r1 = Response_upd_head (\<lambda>h. h\<lparr>m_len := ucast (MsgBuffer_available b1 + 8)\<rparr>) r
       in map_res (\<lambda>b2. (True, r1, b2)) (Head_reset (Response_head r1) (MsgBuffer_vomit 8 b1)))"

fun Response_makeup :: "Response \<Rightarrow> msgbuffer \<Rightarrow> (bool \<times> Response \<times> msgbuffer) res" where
  "Response_makeup (ResponseAct h c) b = map_res (\<lambda>b'. (True, ResponseAct h c, b')) (Head_encode h b)"
| "Response_makeup r b = makeup_with_body r b"

section \<open>The wire formats\<close>

abbreviation cstr :: "bytes \<Rightarrow> bytes" where
  "cstr s \<equiv> s @ [0]"

definition deliver_wire :: "DeliverBody \<Rightarrow> bytes list" where
  "deliver_wire d = [
    cstr (db_agent_id d), cstr (db_msg_id d), cstr (db_token_id d), be32 (db_svc_type d),
    [db_content_type d], cstr (db_timestamp d), cstr (db_from d), be32 (db_counts d),
    cstr (db_to d), cstr (db_hash d), be32 (db_content_length d), cstr (db_content_text d),
    cstr (db_content_url d), cstr (db_remark d), cstr (db_file_name d), [db_is_review d],
    cstr (db_session_id d), cstr (db_kernel_id d), be32 (db_text_is_sync d)]"

definition deliver_resp_wire :: "DeliverRespBody \<Rightarrow> bytes list" where
  "deliver_resp_wire r = [
    be32 (rb_status r), cstr (rb_msg_id r), [rb_msg_type r], be32 (rb_svc_type r),
    cstr (rb_token_id r), cstr (rb_session_id r), cstr (rb_kernel_id r), cstr (rb_detail r),
    cstr (rb_inspect_id r), cstr (rb_esStatisticsParam r), be32 (rb_text_is_sync r)]"

definition audit_wire :: "AuditBody \<Rightarrow> bytes list" where
  "audit_wire a = [
    cstr (ab_msg_id a), cstr (ab_from a), cstr (ab_to a), [ab_msg_type a],
    be32 (ab_svc_type a), be32 (ab_content_len a), cstr (ab_content a), cstr (ab_hash a),
    [ab_audit_type a], cstr (ab_policy_id a), cstr (ab_policy_type a), cstr (ab_mo_time a),
    cstr (ab_file_path a), cstr (ab_session_id a), cstr (ab_hp_id a), cstr (ab_sys_id a),
    be32 (ab_to_counts a), cstr (ab_token_id a), cstr (ab_content_url a), cstr (ab_remark a),
    cstr (ab_file_name a), [ab_report_type a], be32 (ab_cmd a), [ab_is_review a]]"

primrec response_wire :: "Response \<Rightarrow> bytes" where
  "response_wire (ResponseAct h c) = []"
| "response_wire (ResponseBind h c u) = cstr (uid u)"
| "response_wire (ResponseDeliver h c r) = concat (deliver_resp_wire r)"
| "response_wire (RequestAudit h c a) = concat (audit_wire a)"

text \<open>No string of the body holds a NUL, which would end it early on the wire.\<close>

definition deliver_strings_ok :: "DeliverBody \<Rightarrow> bool" where
  "deliver_strings_ok d \<longleftrightarrow> (\<forall>s \<in> set [
    db_agent_id d, db_msg_id d, db_token_id d, db_timestamp d, db_from d, db_to d, db_hash d,
    db_content_text d, db_content_url d, db_remark d, db_file_name d, db_session_id d,
    db_kernel_id d]. 0 \<notin> set s)"

section \<open>Encoding writes the wire format\<close>

lemmas put_defs = put_u8_def put_u16_def put_u32_def put_string_def

lemma encode_body_wire:
  "DeliverRespBody_encode r b = fold_res MsgBuffer_append (deliver_resp_wire r) b"
  "AuditBody_encode a b = fold_res MsgBuffer_append (audit_wire a) b"
  "BindBody_encode u b = fold_res MsgBuffer_append [cstr (uid u)] b"
  "Head_encode h b = fold_res MsgBuffer_append [be32 (m_len h), be32 (m_cmd h)] b"
  by (simp_all add: DeliverRespBody_encode_def deliver_resp_wire_def AuditBody_encode_def
      audit_wire_def BindBody_encode_def Head_encode_def put_defs flip: seq_res_map)

lemma encode_body_written:
  assumes "written h p i bs b" "length bs + length (response_wire r) \<le> 2 ^ 61"
  obtains b' where "Response_encode_body r b = Inr b'" "written h p i (bs @ response_wire r) b'"
proof -
  have "\<exists>b'. fold_res MsgBuffer_append xss b = Inr b' \<and> written h p i (bs @ concat xss) b'"
    if "length bs + length (concat xss) \<le> 2 ^ 61" for xss
    using buf_sink.puts_law [OF assms(1) that] .
  from this [of "[]"] this [of "[response_wire r]"]
    this [of "case r of ResponseDeliver _ _ x \<Rightarrow> deliver_resp_wire x | RequestAudit _ _ x \<Rightarrow> audit_wire x | _ \<Rightarrow> []"]
  show thesis using that assms(2) by (cases r) (auto simp: encode_body_wire)
qed

text \<open>The length field \<open>makeup\<close> leaves in the head: head and body, as 32 bits.\<close>

primrec response_len :: "Response \<Rightarrow> u32" where
  "response_len (ResponseAct h c) = m_len h"
| "response_len (ResponseBind h c u) = of_nat (8 + length (cstr (uid u)))"
| "response_len (ResponseDeliver h c r) = of_nat (8 + length (concat (deliver_resp_wire r)))"
| "response_len (RequestAudit h c a) = of_nat (8 + length (concat (audit_wire a)))"

lemma makeup_with_body_ok:
  assumes w: "written h p i bs b" and h: "unat h = length bs"
    and fit: "length bs + 8 \<le> length (m_buffer b)"
    and len: "length bs + 8 + length (response_wire r) \<le> 2 ^ 61"
  obtains r' b' where "makeup_with_body r b = Inr (True, r', b')"
    "written h p i (bs @ be32 (of_nat (8 + length (response_wire r)))
       @ be32 (m_cmd (Response_head r)) @ response_wire r) b'"
proof -
  let ?w = "response_wire r"
  obtain g where g: "length g = 8" and s: "written (h + 8) p i (bs @ g) (MsgBuffer_seek 8 b)"
    and h8: "unat (h + 8) = length bs + 8"
    using seek_written [OF w h, of 8] fit len by auto
  obtain b1 where e: "Response_encode_body r (MsgBuffer_seek 8 b) = Inr b1"
    and b1: "written (h + 8) p i (bs @ g @ ?w) b1"
    using encode_body_written [OF s, of r] g len by auto
  have "unat (MsgBuffer_available b1) = length ?w" using written_available [OF b1] h8 g by simp
  then have "MsgBuffer_available b1 + 8 = of_nat (8 + length ?w)" by (simp add: size_t_eq_of_nat)
  moreover have "8 + length ?w < 2 ^ 64" using len by simp
  ultimately have L: "ucast (MsgBuffer_available b1 + 8) = (of_nat (8 + length ?w) :: u32)"
    by (simp only: ucast_size_t_u32)
  obtain g1 g2 where g12: "g = g1 @ g2" "length g1 = 4" "length g2 = 4"
    using g that [of "take 4 g" "drop 4 g"] append_take_drop_id [of 4 g] by auto
  have v: "written h p i (bs @ g1 @ g2 @ ?w) (MsgBuffer_vomit 8 b1)"
    using vomit_written [OF b1, of 8] h8 g12 by simp
  let ?h = "(Response_head r)\<lparr>m_len := of_nat (8 + length ?w)\<rparr>"
  obtain b2 where b2: "MsgBuffer_reset 0 (be32 (m_len ?h)) (MsgBuffer_vomit 8 b1) = Inr b2"
      "written h p i (bs @ be32 (m_len ?h) @ g2 @ ?w) b2"
    using reset_written [of h p i bs g1 "g2 @ ?w" _ 0 "be32 (m_len ?h)"] v g12 h by auto
  obtain b3 where b3: "MsgBuffer_reset 4 (be32 (m_cmd ?h)) b2 = Inr b3"
      "written h p i ((bs @ be32 (m_len ?h)) @ be32 (m_cmd ?h) @ ?w) b3"
    using reset_written [of h p i "bs @ be32 (m_len ?h)" g2 ?w b2 4 "be32 (m_cmd ?h)"] b2 g12 h by auto
  have "Response_head (Response_upd_head f r) = f (Response_head r)" for f by (cases r) simp_all
  then have "makeup_with_body r b = Inr (True, Response_upd_head (\<lambda>h. h\<lparr>m_len := of_nat (8 + length ?w)\<rparr>) r, b3)"
    using e b2(1) b3(1) L by (simp add: makeup_with_body_def Head_reset_def reset_u32_def Let_def)
  then show thesis using that b3(2) by simp
qed

lemma makeup_ok:
  assumes w: "written h p i bs b" and h: "unat h = length bs"
    and fit: "length bs + 8 \<le> length (m_buffer b)"
    and len: "length bs + 8 + length (response_wire r) \<le> 2 ^ 61"
  obtains r' b' where "Response_makeup r b = Inr (True, r', b')"
    "written h p i (bs @ be32 (response_len r) @ be32 (m_cmd (Response_head r)) @ response_wire r) b'"
proof (cases r)
  case (ResponseAct hd c)
  have "length bs + length (concat [be32 (m_len hd), be32 (m_cmd hd)]) \<le> 2 ^ 61" using len by simp
  then show thesis
    using that ResponseAct buf_sink.puts_law [OF w, of "[be32 (m_len hd), be32 (m_cmd hd)]"]
    by (auto simp: encode_body_wire simp del: fold_res.simps)
qed (use that makeup_with_body_ok [OF w h fit len] in auto)

lemma written_fresh: "written 0 0 none [] fresh_buffer"
  by (simp add: written_def) (simp add: fresh_buffer_def)

lemma written_seek_fresh:
  assumes "unat k \<le> 1024"
  obtains g where "length g = unat k" "written k 0 none g (MsgBuffer_seek k fresh_buffer)"
  using seek_written [OF written_fresh, of k] assms
  by (auto simp: fresh_buffer_def m_default_buffer_size_def)

lemma seek_length [simp]: "m_buffer (MsgBuffer_seek k b) = m_buffer b"
  by (simp add: MsgBuffer_seek_def)

lemma fresh_length [simp]: "length (m_buffer fresh_buffer) = 1024"
  by (simp add: fresh_buffer_def m_default_buffer_size_def)

section \<open>Decoding reads the wire format\<close>

lemma Head_decode_ok:
  assumes "holds (be32 l @ be32 c @ rest) b"
  obtains b' where "Head_decode h b = Inr (\<lparr>m_len = l, m_cmd = c\<rparr>, b')" "holds rest b'"
  using assms that by (elim buf_source.get32E) (simp add: Head_decode_def)

lemma BindBody_decode_ok:
  assumes "holds (cstr (uid u) @ rest) b" "0 \<notin> set (uid u)"
  obtains b' where "BindBody_decode BindBody_init b = Inr (u, b')" "holds rest b'"
proof -
  obtain b' where "\<And>x. get_string x b = Inr (x @ uid u, b')" "holds rest b'"
    using buf_source.getsE [of "uid u" rest b] assms by auto
  then show thesis using that by (simp add: BindBody_decode_def BindBody_init_def)
qed

lemma DeliverBody_decode_ok:
  assumes h: "holds (concat (deliver_wire d) @ rest) b" and ok: "deliver_strings_ok d"
  obtains b' where "DeliverBody_decode DeliverBody_init b = Inr (d, b')" "holds rest b'"
  using h ok that unfolding deliver_wire_def deliver_strings_ok_def
  by (simp, elim conjE) (elim buf_source.getsE buf_source.get32E buf_source.get8E,
    simp_all add: DeliverBody_decode_def DeliverBody_init_def)

end
