(* ===== verification/Repeat_Timer.thy ===== *)
theory Repeat_Timer
  imports Sparrow_Prelude
begin

text \<open>
  \<open>RepeatTimer\<close> (\<open>net/repeattimer.h\<close>): a periodic timer over \<open>asio::steady_timer\<close>. The
  outstanding \<open>async_wait\<close> is part of the state (\<open>rt_wait\<close>, with the period its lambda
  captured); arming it again replaces it, since \<open>expires_from_now\<close> cancels the previous wait.
  The callback handed to \<open>async_wait\<close> is \<open>RepeatTimer_on_wait\<close>. A handler is any value of a
  type \<open>'h\<close> together with what running it does to the timer.
\<close>

datatype error_code = NoError | Interrupted | TryAgain | OperationAborted | OtherError int

record 'h repeattimer =
  rt_running :: bool
  rt_handler :: "'h option"
  rt_timeout :: u64
  rt_wait :: "u64 option"

definition RepeatTimer_new :: "u64 \<Rightarrow> 'h option \<Rightarrow> 'h repeattimer" where
  "RepeatTimer_new timeout handler =
     \<lparr>rt_running = False, rt_handler = handler, rt_timeout = timeout, rt_wait = None\<rparr>"

definition RepeatTimer_expired :: "u64 \<Rightarrow> 'h repeattimer \<Rightarrow> 'h repeattimer" where
  "RepeatTimer_expired time_ms t =
     (if \<not> rt_running t then t else t\<lparr>rt_wait := Some time_ms\<rparr>)"

definition RepeatTimer_start :: "'h repeattimer \<Rightarrow> 'h repeattimer" where
  "RepeatTimer_start t =
     (let t1 = t\<lparr>rt_running := True\<rparr> in RepeatTimer_expired (rt_timeout t1) t1)"

definition RepeatTimer_stop :: "'h repeattimer \<Rightarrow> 'h repeattimer" where
  "RepeatTimer_stop t = t\<lparr>rt_running := False\<rparr>"

definition RepeatTimer_set_timeout :: "u64 \<Rightarrow> 'h repeattimer \<Rightarrow> 'h repeattimer" where
  "RepeatTimer_set_timeout timeout t = t\<lparr>rt_timeout := timeout\<rparr>"

definition RepeatTimer_set_handler :: "'h option \<Rightarrow> 'h repeattimer \<Rightarrow> 'h repeattimer" where
  "RepeatTimer_set_handler handler t =
     (if rt_handler t = None then t\<lparr>rt_handler := handler\<rparr> else t)"

text \<open>
  The wait completes. \<open>call h\<close> is the effect of running handler \<open>h\<close> on this timer; calling an
  empty \<open>std::function\<close> throws. The result lists the handlers that ran.
\<close>

definition RepeatTimer_on_wait ::
    "('h \<Rightarrow> 'h repeattimer \<Rightarrow> 'h repeattimer) \<Rightarrow> error_code \<Rightarrow> u64 \<Rightarrow> 'h repeattimer
      \<Rightarrow> ('h repeattimer \<times> 'h list) res" where
  "RepeatTimer_on_wait call ec time_ms t =
     (let t0 = t\<lparr>rt_wait := None\<rparr> in
      if ec = OperationAborted \<or> \<not> rt_running t then Inr (t0, [])
      else case rt_handler t of
          None \<Rightarrow> Inl NullDeref
        | Some h \<Rightarrow> Inr (RepeatTimer_expired time_ms (call h t0), [h]))"

text \<open>The calls and completions a timer sees, and a run of them.\<close>

datatype 'h timer_event =
    Start | Stop | SetTimeout u64 | SetHandler "'h option" | WaitDone error_code

definition timer_step ::
    "('h \<Rightarrow> 'h repeattimer \<Rightarrow> 'h repeattimer) \<Rightarrow> 'h timer_event \<Rightarrow> 'h repeattimer
      \<Rightarrow> ('h repeattimer \<times> 'h list) res" where
  "timer_step call e t =
     (case e of
        Start \<Rightarrow> Inr (RepeatTimer_start t, [])
      | Stop \<Rightarrow> Inr (RepeatTimer_stop t, [])
      | SetTimeout n \<Rightarrow> Inr (RepeatTimer_set_timeout n t, [])
      | SetHandler h \<Rightarrow> Inr (RepeatTimer_set_handler h t, [])
      | WaitDone ec \<Rightarrow> (case rt_wait t of
            None \<Rightarrow> Inr (t, [])
          | Some ms \<Rightarrow> RepeatTimer_on_wait call ec ms t))"

fun timer_run ::
    "('h \<Rightarrow> 'h repeattimer \<Rightarrow> 'h repeattimer) \<Rightarrow> 'h timer_event list \<Rightarrow> 'h repeattimer
      \<Rightarrow> ('h repeattimer \<times> 'h list) res" where
  "timer_run call [] t = Inr (t, [])"
| "timer_run call (e # es) t =
     bind_res (timer_step call e t) (\<lambda>(t1, hs).
     map_res (\<lambda>(t2, hs'). (t2, hs @ hs')) (timer_run call es t1))"

section \<open>Lemmas\<close>

lemmas timer_defs = RepeatTimer_start_def RepeatTimer_stop_def RepeatTimer_set_timeout_def
  RepeatTimer_set_handler_def RepeatTimer_on_wait_def RepeatTimer_expired_def Let_def

lemma timer_step_stopped:
  assumes "\<not> rt_running t" "e \<noteq> Start"
  obtains t' where "timer_step call e t = Inr (t', [])" "\<not> rt_running t'"
  using assms that by (cases e; cases "rt_wait t") (auto simp: timer_step_def timer_defs)

text \<open>
  C27: once \<open>stop()\<close> has run, no sequence of waits, setters or further stops invokes the handler
  or faults until \<open>start()\<close> is called again, even if a wait was outstanding.
\<close>

theorem timer_silent_after_stop:
  assumes "Start \<notin> set es"
  shows "\<exists>t'. timer_run call es (RepeatTimer_stop t) = Inr (t', []) \<and> \<not> rt_running t'"
proof -
  have "\<exists>t'. timer_run call es t = Inr (t', []) \<and> \<not> rt_running t'" if "\<not> rt_running t" for t
    using that assms
  proof (induction es arbitrary: t)
    case (Cons e es)
    then obtain t1 where "timer_step call e t = Inr (t1, [])" "\<not> rt_running t1"
      using timer_step_stopped [of t e call] by auto
    then show ?case using Cons.IH [of t1] Cons.prems(2) by auto
  qed simp
  then show ?thesis by (simp add: RepeatTimer_stop_def)
qed

theorem timer_silent_after_stop_witness:
  "\<exists>t'. timer_run (\<lambda>h t. t) [WaitDone NoError, SetTimeout 5]
      (RepeatTimer_stop (RepeatTimer_start (RepeatTimer_new 10000 (Some (7::nat))))) = Inr (t', [])
    \<and> \<not> rt_running t'"
  by (rule timer_silent_after_stop) simp

text \<open>
  A started timer with a handler that leaves it running fires once per completed wait and is
  armed again after each, for every number of waits: the timer repeats without end.
\<close>

lemma timer_repeats:
  assumes "rt_handler t = Some h" and "\<And>t. call h t = t"
  shows "timer_run call (replicate n (WaitDone NoError)) (RepeatTimer_start t)
    = Inr (RepeatTimer_start t, replicate n h)"
proof (induction n)
  case (Suc n)
  have "timer_step call (WaitDone NoError) (RepeatTimer_start t) = Inr (RepeatTimer_start t, [h])"
    using assms by (simp add: timer_step_def timer_defs)
  with Suc show ?case by simp
qed simp

end
