(* ===== verification/Connection.thy ===== *)
theory Connection
  imports Proto Repeat_Timer
begin

text \<open>
  \<open>Connection\<close> (\<open>net/connection.h\<close>, \<open>net/connection.cpp\<close>): one TCP connection with its receive
  buffer, its send list, its buffer pool and its counters. asio is the environment: a call that
  starts an operation is an \<open>effect\<close> in the result, and each completion handler is a function
  the environment calls later with an error code and a byte count. The handlers of one connection
  run on its strand, and its context is run by one thread, so each is one atomic step. Logging is not represented. Buffers are values:
  the sources never keep a second live reference to a buffer they hand on.
\<close>

section \<open>State\<close>

datatype PackageStat = NEED_HEAD | NEED_BODY | WHOLE | INCORRECT

text \<open>The handlers given to the timers: who handles the timeout of which connection.\<close>

datatype time_handler = ServerTimeout conn_ref | ClientTimeout conn_ref | Reconnect

record conn =
  c_id :: conn_ref
  c_recv_buffer :: "msgbuffer option"
  c_send_list :: "msgbuffer list"
  c_open :: bool
  c_timer :: "time_handler repeattimer"
  c_pool :: "msgbuffer objectpool"
  c_holder :: bool
  c_remote_ip :: bytes
  c_remote_port :: int
  c_local_ip :: bytes
  c_local_port :: int
  c_uuid :: size_t
  c_send_bytes :: u64
  c_recv_bytes :: u64
  c_last_recv_time :: u64
  c_last_send_time :: u64

text \<open>
  What a handler asks of its environment: the two socket operations (with the bytes handed to
  the write, and which of the two lambdas completes it: that of \<open>async_write\<close> or that of
  \<open>handle_write\<close>), the socket's shutdown and close, \<open>release\<close> on the owning instance, a task for the
  worker pool (the moved receive buffer), and the lambda that \<open>async_write\<close> posts.
\<close>

datatype write_origin = FromPost | FromFlush

datatype effect =
    AsyncReadSome conn_ref size_t
  | AsyncWriteSome conn_ref write_origin msgbuffer bytes
  | ShutdownSocket conn_ref
  | CloseSocket conn_ref
  | Release size_t
  | AddTask conn_ref msgbuffer
  | PostWrite conn_ref msgbuffer
  | PostManage conn_ref

type_synonym 'a step = "('a \<times> effect list) res"
type_synonym io_handler = "conn \<Rightarrow> error_code \<Rightarrow> size_t \<Rightarrow> conn step"

text \<open>Sequencing steps, effects in order.\<close>

definition then_step :: "'a step \<Rightarrow> ('a \<Rightarrow> 'b step) \<Rightarrow> 'b step" where
  "then_step r f = bind_res r (\<lambda>(x, es). map_res (\<lambda>(y, fs). (y, es @ fs)) (f x))"

section \<open>Operations\<close>

text \<open>
  The constructor. The members without initialiser start with the indeterminate values given as
  arguments (\<open>m_uuid\<close>, the ports and the two times).
\<close>

definition Connection_new ::
    "conn_ref \<Rightarrow> bool \<Rightarrow> time_handler option \<Rightarrow> nat \<Rightarrow> size_t \<times> int \<times> int \<times> u64 \<times> u64 \<Rightarrow> conn" where
  "Connection_new i holder handler msg_pool_num garbage =
     (case garbage of (g_uuid, g_rport, g_lport, g_recv, g_send) \<Rightarrow>
      \<lparr>c_id = i, c_recv_buffer = None, c_send_list = [], c_open = False,
       c_timer = RepeatTimer_new 10000 handler,
       c_pool = ObjectPool_new fresh_buffer msg_pool_num, c_holder = holder,
       c_remote_ip = [], c_remote_port = g_rport, c_local_ip = [], c_local_port = g_lport,
       c_uuid = g_uuid, c_send_bytes = 0, c_recv_bytes = 0,
       c_last_recv_time = g_recv, c_last_send_time = g_send\<rparr>)"

definition Connection_set_conn_info ::
    "bytes \<times> int \<Rightarrow> bytes \<times> int \<Rightarrow> size_t \<Rightarrow> conn \<Rightarrow> conn" where
  "Connection_set_conn_info remote local native c =
     c\<lparr>c_remote_ip := fst remote, c_remote_port := snd remote, c_local_ip := fst local,
       c_local_port := snd local, c_uuid := native\<rparr>"

definition Connection_close :: "conn \<Rightarrow> conn \<times> effect list" where
  "Connection_close c =
     (if \<not> c_open c then (c, [])
      else (c\<lparr>c_open := False\<rparr>,
            [ShutdownSocket (c_id c), CloseSocket (c_id c)]
            @ (if c_holder c then [Release (c_uuid c)] else [])))"

definition Connection_destroy :: "conn \<Rightarrow> conn \<times> effect list" where
  "Connection_destroy c = Connection_close (c\<lparr>c_timer := RepeatTimer_stop (c_timer c)\<rparr>)"

subsection \<open>Buffers from the pool\<close>

definition Connection_free :: "msgbuffer \<Rightarrow> conn \<Rightarrow> conn" where
  "Connection_free buffer c = c\<lparr>c_pool := ObjectPool_free buffer (c_pool c)\<rparr>"

definition Connection_recycle :: "msgbuffer \<Rightarrow> conn \<Rightarrow> conn" where
  "Connection_recycle buffer c = Connection_free (MsgBuffer_clear buffer) c"

definition Connection_use :: "conn \<Rightarrow> msgbuffer \<times> conn" where
  "Connection_use c =
     (case ObjectPool_get (c_pool c) of (buf, p) \<Rightarrow> (buf, c\<lparr>c_pool := p\<rparr>))"

subsection \<open>Counters\<close>

text \<open>The two receive setters write the send members, as the source does.\<close>

definition Connection_set_last_sendtime :: "u64 \<Rightarrow> conn \<Rightarrow> conn" where
  "Connection_set_last_sendtime time c = c\<lparr>c_last_send_time := time\<rparr>"

definition Connection_set_sendbytes :: "u64 \<Rightarrow> conn \<Rightarrow> conn" where
  "Connection_set_sendbytes n c = c\<lparr>c_send_bytes := c_send_bytes c + n\<rparr>"

definition Connection_set_last_recvtime :: "u64 \<Rightarrow> conn \<Rightarrow> conn" where
  "Connection_set_last_recvtime time c = c\<lparr>c_last_send_time := time\<rparr>"

definition Connection_set_recvbytes :: "u64 \<Rightarrow> conn \<Rightarrow> conn" where
  "Connection_set_recvbytes n c = c\<lparr>c_send_bytes := c_send_bytes c + n\<rparr>"

subsection \<open>The package check\<close>

definition m_package_len_max :: u32 where
  "m_package_len_max = 2 * 1024 * 1024"

text \<open>
  The first part of \<open>PackageCheck\<close> runs while the package length is unknown: it may decide
  (\<open>Some\<close>), or learn the length. The length field is a \<open>uint32_t\<close>, so \<open>packlen + 2\<close> wraps.
\<close>

definition PackageCheck_head :: "msgbuffer \<Rightarrow> (PackageStat option \<times> msgbuffer) res" where
  "PackageCheck_head b =
     (if MsgBuffer_available b < ucast g_proto_head_len then Inr (Some NEED_HEAD, b)
      else bind_res (mem_read (m_buffer b) (MsgBuffer_memory b) 4) (\<lambda>magic.
        if magic \<noteq> g_head_magic_num then Inr (Some INCORRECT, b)
        else let b1 = MsgBuffer_consume 4 b in
          map_res (\<lambda>packlen. (None, MsgBuffer_vomit 4 (MsgBuffer_set_packlen (ucast (packlen + 2)) b1)))
            (peek_u32 b1)))"

definition PackageCheck :: "msgbuffer \<Rightarrow> (PackageStat \<times> msgbuffer) res" where
  "PackageCheck b =
     bind_res (if m_packlen b = 0 then PackageCheck_head b else Inr (None, b)) (\<lambda>(r, b).
       case r of
         Some st \<Rightarrow> Inr (st, b)
       | None \<Rightarrow>
           if m_packlen b > ucast m_package_len_max \<or> m_packlen b < ucast g_proto_head_len + 2
             then Inr (INCORRECT, b)
           else if MsgBuffer_available b < m_packlen b then Inr (NEED_BODY, b)
           else Inr (WHOLE, b))"

subsection \<open>Reading\<close>

text \<open>\<open>m_recv_buffer\<close> is filled from the pool when null, then made to fit the next read.\<close>

definition Connection_arm_read :: "size_t \<Rightarrow> conn \<Rightarrow> conn step" where
  "Connection_arm_read expect_size c =
     (let (buf, c1) = (case c_recv_buffer c of
          Some b \<Rightarrow> (b, c)
        | None \<Rightarrow> Connection_use c)
      in map_res (\<lambda>b. (c1\<lparr>c_recv_buffer := Some b\<rparr>, [AsyncReadSome (c_id c1) expect_size]))
           (MsgBuffer_adjust expect_size buf))"

definition Connection_async_read :: "size_t \<Rightarrow> conn \<Rightarrow> conn step" where
  "Connection_async_read expect_size c = Connection_arm_read expect_size c"

text \<open>The switch on the check's result: whether to go on, and the next size as an \<open>int\<close>.\<close>

definition Connection_on_package ::
    "io_handler \<Rightarrow> error_code \<Rightarrow> size_t \<Rightarrow> PackageStat \<Rightarrow> msgbuffer \<Rightarrow> conn
      \<Rightarrow> ((bool \<times> 32 word) \<times> conn) step" where
  "Connection_on_package handler ec bytes_transferred st b c =
     (case st of
        INCORRECT \<Rightarrow>
          (let (c1, es) = Connection_close (c\<lparr>c_recv_buffer := Some b\<rparr>) in Inr (((False, -1), c1), es))
      | WHOLE \<Rightarrow>
          map_res (\<lambda>(c1, es). (((True, ucast g_proto_head_len), c1), es))
            (handler (c\<lparr>c_recv_buffer := Some (MsgBuffer_set_indicator valid b)\<rparr>) ec bytes_transferred)
      | NEED_HEAD \<Rightarrow>
          Inr (((True, ucast (ucast g_proto_head_len - MsgBuffer_available b)),
                c\<lparr>c_recv_buffer := Some b\<rparr>), [])
      | NEED_BODY \<Rightarrow>
          Inr (((True, ucast (m_packlen b - MsgBuffer_available b)), c\<lparr>c_recv_buffer := Some b\<rparr>), []))"

definition Connection_handle_read ::
    "size_t \<Rightarrow> io_handler \<Rightarrow> error_code \<Rightarrow> size_t \<Rightarrow> conn \<Rightarrow> conn step" where
  "Connection_handle_read expect_size handler ec bytes_transferred c =
     then_step
       (if ec \<noteq> NoError then
          (if ec = Interrupted \<or> ec = TryAgain then Inr (((True, ucast expect_size), c), [])
           else let (c1, es) = Connection_close c in Inr (((False, -1), c1), es))
        else (case c_recv_buffer c of
            None \<Rightarrow> Inl NullDeref
          | Some b \<Rightarrow>
              bind_res (PackageCheck (MsgBuffer_commit bytes_transferred b)) (\<lambda>(st, b1).
                Connection_on_package handler ec bytes_transferred st b1 c)))
       (\<lambda>(ret, c1).
          if fst ret then Connection_arm_read (scast (snd ret)) c1 else Inr (c1, []))"

subsection \<open>Writing\<close>

text \<open>\<open>asio::buffer(data->memory(), data->available())\<close> handed to \<open>async_write_some\<close>.\<close>

definition Connection_write_some :: "write_origin \<Rightarrow> msgbuffer \<Rightarrow> conn \<Rightarrow> conn step" where
  "Connection_write_some origin data c =
     map_res (\<lambda>bs. (c, [AsyncWriteSome (c_id c) origin data bs]))
       (mem_read (m_buffer data) (MsgBuffer_memory data) (unat (MsgBuffer_available data)))"

definition Connection_async_write :: "msgbuffer \<Rightarrow> conn \<Rightarrow> conn \<times> effect list" where
  "Connection_async_write data c = (c, [PostWrite (c_id c) data])"

text \<open>The lambda \<open>async_write\<close> posts to the strand.\<close>

definition Connection_write_posted :: "msgbuffer \<Rightarrow> conn \<Rightarrow> conn step" where
  "Connection_write_posted data c =
     (if m_indicator data = invalid \<or> \<not> c_open c
      then Inr (Connection_close (Connection_recycle data c))
      else if c_send_list c = [] then Connection_write_some FromPost data c
      else Inr (c\<lparr>c_send_list := c_send_list c @ [data]\<rparr>, []))"

text \<open>The loop of \<open>handle_write\<close>: every queued message is handed to the socket at once.\<close>

fun flush_send_list :: "msgbuffer list \<Rightarrow> conn \<Rightarrow> conn step" where
  "flush_send_list [] c = Inr (c\<lparr>c_send_list := []\<rparr>, [])"
| "flush_send_list (data # rest) c =
     then_step (Connection_write_some FromFlush data c) (flush_send_list rest)"

definition Connection_handle_write :: "error_code \<Rightarrow> size_t \<Rightarrow> conn \<Rightarrow> conn step" where
  "Connection_handle_write ec bytes_transferred c =
     (let (c1, es) =
        (if (ec \<noteq> NoError \<and> ec \<noteq> Interrupted \<and> ec \<noteq> TryAgain) \<or> bytes_transferred = 0
         then Connection_close c else (c, []))
      in map_res (\<lambda>(c2, fs). (c2, es @ fs)) (flush_send_list (c_send_list c1) c1))"

text \<open>
  The completion lambda of the write \<open>async_write\<close> starts, which owns the handler: advance the message,
  put an unfinished one back at the front, report and recycle a finished one.
\<close>

definition Connection_write_done ::
    "io_handler \<Rightarrow> error_code \<Rightarrow> size_t \<Rightarrow> msgbuffer \<Rightarrow> conn \<Rightarrow> conn step" where
  "Connection_write_done handler ec bytes_transferred data c =
     then_step
       (if ec = NoError then
          (let data1 = MsgBuffer_update_packlen bytes_transferred (MsgBuffer_consume bytes_transferred data) in
           if \<not> MsgBuffer_empty data1 then Inr (c\<lparr>c_send_list := data1 # c_send_list c\<rparr>, [])
           else map_res (\<lambda>(c1, es). (Connection_recycle data1 c1, es))
                  (handler c ec (m_packlen data1)))
        else Inr (c, []))
       (Connection_handle_write ec bytes_transferred)"

text \<open>
  The completion lambda of a write that \<open>handle_write\<close> starts does the same, but it captures the handler
  by reference, and what it refers to is a member of the lambda that called \<open>handle_write\<close>, which asio
  destroys when it has returned; nor does it keep the connection alive, which is taken to live on here.
  Calling it for a finished message is a use after free; handing the reference
  on to \<open>handle_write\<close> does not touch it.
\<close>

definition Connection_write_continued :: "error_code \<Rightarrow> size_t \<Rightarrow> msgbuffer \<Rightarrow> conn \<Rightarrow> conn step" where
  "Connection_write_continued ec bytes_transferred data c =
     then_step
       (if ec = NoError then
          (let data1 = MsgBuffer_update_packlen bytes_transferred (MsgBuffer_consume bytes_transferred data) in
           if \<not> MsgBuffer_empty data1 then Inr (c\<lparr>c_send_list := data1 # c_send_list c\<rparr>, [])
           else Inl UseAfterFree)
        else Inr (c, []))
       (Connection_handle_write ec bytes_transferred)"

definition Connection_async_timeout :: "time_handler \<Rightarrow> conn \<Rightarrow> conn" where
  "Connection_async_timeout handler c =
     c\<lparr>c_timer := RepeatTimer_start (RepeatTimer_set_handler (Some handler) (c_timer c))\<rparr>"

section \<open>The package check, exactly\<close>

text \<open>
  What the check decides, as a function of the pending bytes alone: \<open>learned\<close> is the package
  length it derives from the head, \<open>verdict\<close> the decision once a length is known.
\<close>

definition learned :: "bytes \<Rightarrow> size_t" where
  "learned bs = (if 12 \<le> length bs \<and> take 4 bs = g_head_magic_num
     then ucast (dec32 (take 4 (drop 4 bs)) + 2) else 0)"

definition verdict :: "size_t \<Rightarrow> bytes \<Rightarrow> PackageStat" where
  "verdict n bs =
     (if 2 * 1024 * 1024 < unat n \<or> unat n < 14 then INCORRECT
      else if length bs < unat n then NEED_BODY else WHOLE)"

definition classify :: "bytes \<Rightarrow> PackageStat" where
  "classify bs = (if length bs < 12 then NEED_HEAD else verdict (learned bs) bs)"

lemma then_step_simps [simp]:
  "then_step (Inl e) f = Inl e"
  "then_step (Inr (x, es)) f = map_res (\<lambda>(y, fs). (y, es @ fs)) (f x)"
  by (simp_all add: then_step_def)

lemma holds_available: "holds bs b \<Longrightarrow> unat (MsgBuffer_available b) = length bs"
  using available_content [of b] by (simp add: holds_def)

lemma holds_read:
  assumes "holds bs b" "n \<le> length bs"
  shows "mem_read (m_buffer b) (MsgBuffer_memory b) n = Inr (take n bs)"
proof -
  have "unat (m_head b) + n \<le> length (m_buffer b)"
    using assms by (auto simp: holds_def wf_buffer_def content_def used_def)
  then show ?thesis
    using assms content_mem [of b n] by (simp add: mem_read_ok MsgBuffer_memory_def holds_def)
qed

lemma vomit_consume:
  assumes "holds bs b" "unat n \<le> length bs"
  shows "MsgBuffer_vomit n (MsgBuffer_set_packlen p (MsgBuffer_consume n b)) = b\<lparr>m_packlen := p\<rparr>"
proof -
  have "unat (m_head b + n) = unat (m_head b) + unat n"
    using consume_ok [of b n] assms by (simp add: holds_def MsgBuffer_consume_def)
  then have "\<not> n > m_head b + n" by (simp add: word_less_nat_alt)
  then show ?thesis by (simp add: MsgBuffer_vomit_def MsgBuffer_set_packlen_def MsgBuffer_consume_def)
qed

lemma PackageCheck_head_eq:
  assumes h: "holds bs b" and p: "m_packlen b = 0"
  shows "PackageCheck_head b = Inr (if length bs < 12 then Some NEED_HEAD
      else if take 4 bs \<noteq> g_head_magic_num then Some INCORRECT else None, b\<lparr>m_packlen := learned bs\<rparr>)"
proof (cases "length bs < 12")
  case True
  then show ?thesis using holds_available [OF h] p
    by (simp add: PackageCheck_head_def word_less_nat_alt g_proto_head_len_def learned_def)
next
  case False
  have "peek_u32 (MsgBuffer_consume 4 b) = Inr (dec32 (take 4 (drop 4 bs)))"
    using holds_consume [of "take 4 bs" "drop 4 bs" b 4] holds_read [of "drop 4 bs" "MsgBuffer_consume 4 b" 4] h False
    by (simp add: peek_u32_def)
  then show ?thesis
    using False p holds_available [OF h] holds_read [OF h, of 4] vomit_consume [OF h, of 4]
    by (auto simp: PackageCheck_head_def word_less_nat_alt g_proto_head_len_def learned_def Let_def)
qed

lemma PackageCheck_known:
  assumes "holds bs b" "m_packlen b \<noteq> 0"
  shows "PackageCheck b = Inr (verdict (m_packlen b) bs, b)"
  using assms holds_available [of bs b]
  by (simp add: PackageCheck_def verdict_def word_less_nat_alt m_package_len_max_def g_proto_head_len_def)

lemma PackageCheck_unknown:
  assumes h: "holds bs b" and p: "m_packlen b = 0"
  shows "PackageCheck b = Inr (classify bs, b\<lparr>m_packlen := learned bs\<rparr>)"
proof -
  have "unat (MsgBuffer_available (b\<lparr>m_packlen := x\<rparr>)) = length bs" for x
    using holds_available [OF h] by (simp add: MsgBuffer_available_def)
  then show ?thesis
    using PackageCheck_head_eq [OF h p] p
    by (auto simp: PackageCheck_def classify_def verdict_def word_less_nat_alt m_package_len_max_def
        g_proto_head_len_def learned_def)
qed

lemma PackageCheck_holds: "holds bs b \<Longrightarrow> PackageCheck b = Inr (st, b') \<Longrightarrow> holds bs b'"
  using PackageCheck_known [of bs b] PackageCheck_unknown [of bs b]
  by (cases "m_packlen b = 0")
    (auto simp: holds_def wf_buffer_def room_def content_def used_def)

section \<open>The read loop on a byte stream\<close>

text \<open>
  The environment's side of a read: the kernel stores the bytes at \<open>data()\<close>, then the completion
  handler runs with their number. A read of up to \<open>n\<close> bytes from a stream takes as many bytes as
  the kernel happens to offer (\<open>Suc k\<close> for an arbitrary \<open>k\<close>), at most \<open>n\<close>.
\<close>

definition socket_fill :: "bytes \<Rightarrow> conn \<Rightarrow> conn res" where
  "socket_fill bs c =
     (case c_recv_buffer c of
        None \<Rightarrow> Inl NullDeref
      | Some b \<Rightarrow> map_res (\<lambda>v. c\<lparr>c_recv_buffer := Some (b\<lparr>m_buffer := v\<rparr>)\<rparr>)
          (mem_write (m_buffer b) (MsgBuffer_data b) bs))"

definition read_event :: "io_handler \<Rightarrow> size_t \<Rightarrow> bytes \<Rightarrow> conn \<Rightarrow> conn step" where
  "read_event handler expect_size bs c =
     bind_res (socket_fill bs c)
       (Connection_handle_read expect_size handler NoError (of_nat (length bs)))"

definition next_read :: "effect list \<Rightarrow> size_t option" where
  "next_read es =
     (if es = [] then None else case last es of AsyncReadSome _ n \<Rightarrow> Some n | _ \<Rightarrow> None)"

fun read_stream ::
    "io_handler \<Rightarrow> size_t \<Rightarrow> nat list \<Rightarrow> bytes \<Rightarrow> conn \<Rightarrow> (conn \<times> size_t option) step" where
  "read_stream handler n [] stream c = Inr ((c, Some n), [])"
| "read_stream handler n (k # ks) stream c =
     (if stream = [] then Inr ((c, Some n), [])
      else let m = min (Suc k) (unat n) in
        bind_res (read_event handler n (take m stream) c) (\<lambda>(c1, es).
          case next_read es of
            None \<Rightarrow> Inr ((c1, None), es)
          | Some n' \<Rightarrow> map_res (\<lambda>(r, fs). (r, es @ fs)) (read_stream handler n' ks (drop m stream) c1)))"

text \<open>The messages handed to the worker pool.\<close>

fun delivered :: "effect list \<Rightarrow> bytes list" where
  "delivered [] = []"
| "delivered (AddTask i b # es) = content b # delivered es"
| "delivered (e # es) = delivered es"

fun handed_over :: "effect list \<Rightarrow> msgbuffer list" where
  "handed_over [] = []"
| "handed_over (AddTask i b # es) = b # handed_over es"
| "handed_over (e # es) = handed_over es"

lemma delivered_handed_over: "delivered es = map content (handed_over es)"
  by (induction es rule: delivered.induct) auto

text \<open>A frame the peer should send: magic, length (of all but two bytes), command, body, checksum.\<close>

definition valid_frame :: "bytes \<Rightarrow> bool" where
  "valid_frame f \<longleftrightarrow> 14 \<le> length f \<and> length f \<le> 2 * 1024 * 1024 \<and> take 4 f = g_head_magic_num
     \<and> dec32 (take 4 (drop 4 f)) = of_nat (length f - 2)"

definition to_read :: "bytes \<Rightarrow> bytes \<Rightarrow> nat" where
  "to_read pre f = (if length pre < 12 then 12 - length pre else length f - length pre)"

text \<open>The state between reads: the bytes received are a proper prefix of the current frame.\<close>

definition reading :: "bytes \<Rightarrow> bytes \<Rightarrow> conn \<Rightarrow> bool" where
  "reading pre f c \<longleftrightarrow> (\<exists>b. c_recv_buffer c = Some b \<and> holds pre b \<and> m_head b = 0
     \<and> m_packlen b = (if length pre < 12 then 0 else of_nat (length f))
     \<and> length pre + to_read pre f \<le> length (m_buffer b)
     \<and> length pre < length f \<and> pre = take (length pre) f) \<and> pool_good ((=) fresh_buffer) (c_pool c)"

lemma delivered_append: "delivered (es @ fs) = delivered es @ delivered fs"
  by (induction es rule: delivered.induct) auto

lemma holds_tail: "holds pre b \<Longrightarrow> m_head b = 0 \<Longrightarrow> unat (m_tail b) = length pre"
  by (auto simp: holds_def content_def)

lemma fill_commit:
  assumes h: "holds pre b" and z: "m_head b = 0" and fit: "length pre + length bs \<le> length (m_buffer b)"
    and small: "length pre + length bs \<le> 2 ^ 61"
  obtains v where "mem_write (m_buffer b) (MsgBuffer_data b) bs = Inr v" "length v = length (m_buffer b)"
    "holds (pre @ bs) (MsgBuffer_commit (of_nat (length bs)) (b\<lparr>m_buffer := v\<rparr>))"
proof -
  let ?v = "take (length pre) (m_buffer b) @ bs @ drop (length pre + length bs) (m_buffer b)"
  let ?b = "MsgBuffer_commit (of_nat (length bs)) (b\<lparr>m_buffer := ?v\<rparr>)"
  note t = holds_tail [OF h z]
  have t': "unat (m_tail b + of_nat (length bs)) = length pre + length bs"
    using t small by (simp add: unat_word_ariths)
  have pre: "take (length pre) (m_buffer b) = pre" using h z t by (simp add: holds_def content_def used_def)
  have w: "mem_write (m_buffer b) (MsgBuffer_data b) bs = Inr ?v"
    using fit t by (simp add: mem_write_ok MsgBuffer_data_def)
  moreover have "length ?v = length (m_buffer b)" using fit by simp
  moreover have "holds (pre @ bs) ?b"
    using h z t t' fit small pre
    by (auto simp: holds_def wf_buffer_def room_def content_def used_def MsgBuffer_commit_def)
  ultimately show thesis using that by blast
qed

lemma arm_read_ok:
  assumes h: "holds pre b" and z: "m_head b = 0" and small: "length pre + unat sz \<le> 2 ^ 31"
    and c: "(case c_recv_buffer c of Some x \<Rightarrow> (x, c) | None \<Rightarrow> Connection_use c) = (b, c1)"
  obtains v where
    "Connection_arm_read sz c
       = Inr (c1\<lparr>c_recv_buffer := Some (b\<lparr>m_buffer := v\<rparr>)\<rparr>, [AsyncReadSome (c_id c1) sz])"
    "holds pre (b\<lparr>m_buffer := v\<rparr>)" "length pre + unat sz \<le> length v"
proof -
  note t = holds_tail [OF h z]
  have "wf_buffer b" "room (unat sz) b" using h small t by (simp_all add: holds_def room_def)
  then obtain k where k: "MsgBuffer_adjust sz b = Inr (b\<lparr>m_buffer := m_buffer b @ replicate k 0\<rparr>)"
      "unat (m_tail b) + unat sz \<le> length (m_buffer b) + k"
      "length (m_buffer b) + k \<le> max (2 ^ 32) (2 * (unat (m_tail b) + unat sz))"
    by (rule adjust_ok)
  let ?v = "m_buffer b @ replicate k 0"
  have "length (m_buffer b) + k \<le> 2 ^ 32" using k(3) small t by simp
  then have "holds pre (b\<lparr>m_buffer := ?v\<rparr>)"
    using h by (auto simp: holds_def wf_buffer_def room_def content_def used_def)
  then show thesis using that [of ?v] k(1,2) t c by (simp add: Connection_arm_read_def)
qed

subsection \<open>One read\<close>

text \<open>
  The interface between the loop and its owner: the read handler takes the receive buffer away
  as a task and leaves the pool alone.
\<close>

locale frame_consumer =
  fixes handler :: io_handler
  assumes takes_buffer: "c_recv_buffer c = Some b \<Longrightarrow>
      \<exists>c'. handler c ec n = Inr (c', [AddTask (c_id c) b]) \<and> c_recv_buffer c' = None
        \<and> c_pool c' = c_pool c \<and> c_id c' = c_id c"

lemma use_fresh:
  assumes "pool_good ((=) fresh_buffer) (c_pool c)"
  obtains p where "Connection_use c = (fresh_buffer, c\<lparr>c_pool := p\<rparr>)" "pool_good ((=) fresh_buffer) p"
  using obj_pool.get_good [OF assms] that
  by (cases "ObjectPool_get (c_pool c)") (auto simp: Connection_use_def)

lemma holds_fresh [simp]: "holds [] fresh_buffer" and fresh_fields [simp]:
  "m_head fresh_buffer = 0" "m_packlen fresh_buffer = 0" "m_indicator fresh_buffer = none"
  by (simp_all add: holds_def) (simp_all add: fresh_buffer_def)

lemma arm_read_fresh:
  assumes good: "pool_good ((=) fresh_buffer) (c_pool c)" and none: "c_recv_buffer c = None" and f: "12 < length f"
  shows "\<exists>c'. Connection_arm_read 12 c = Inr (c', [AsyncReadSome (c_id c) 12]) \<and> reading [] f c'"
proof -
  obtain p where p: "Connection_use c = (fresh_buffer, c\<lparr>c_pool := p\<rparr>)" "pool_good ((=) fresh_buffer) p"
    using use_fresh [OF good] by blast
  have h: "holds [] fresh_buffer" "m_head fresh_buffer = 0" by simp_all
  obtain v where "Connection_arm_read 12 c = Inr (c\<lparr>c_pool := p\<rparr>\<lparr>c_recv_buffer := Some (fresh_buffer\<lparr>m_buffer := v\<rparr>)\<rparr>,
      [AsyncReadSome (c_id (c\<lparr>c_pool := p\<rparr>)) 12])"
    "holds [] (fresh_buffer\<lparr>m_buffer := v\<rparr>)" "length ([] :: bytes) + unat (12 :: size_t) \<le> length v"
    by (rule arm_read_ok [OF h, of 12 c "c\<lparr>c_pool := p\<rparr>"]) (use p none in simp_all)
  then show ?thesis using p f by (auto simp: reading_def to_read_def)
qed

lemma valid_frame_learned:
  assumes "valid_frame f" "12 \<le> length pre" "pre = take (length pre) f" "length pre \<le> length f"
  shows "learned pre = of_nat (length f)" "unat (of_nat (length f) :: size_t) = length f"
proof -
  have len: "14 \<le> length f" "length f \<le> 2 * 1024 * 1024" using assms by (simp_all add: valid_frame_def)
  have "take 4 pre = take 4 f" using assms(2) by (subst assms(3)) simp
  moreover have "take 4 (drop 4 pre) = take 4 (drop 4 f)"
    using assms(2) by (subst assms(3)) (simp add: drop_take)
  moreover have "dec32 (take 4 (drop 4 f)) + 2 = of_nat (length f)"
    using assms(1) len by (simp add: valid_frame_def)
  ultimately have "learned pre = ucast (of_nat (length f) :: u32)"
    using assms by (simp add: learned_def valid_frame_def)
  then show "learned pre = of_nat (length f)" using len by (simp add: unsigned_of_nat take_bit_nat_eq_self)
  show "unat (of_nat (length f) :: size_t) = length f" using len by simp
qed

definition frame_stat :: "bytes \<Rightarrow> bytes \<Rightarrow> PackageStat" where
  "frame_stat cur f = (if length cur < 12 then NEED_HEAD
     else if length cur < length f then NEED_BODY else WHOLE)"

lemma check_after_read:
  assumes f: "valid_frame f" and h: "holds cur b" and cur: "cur = take (length cur) f" "length cur \<le> length f"
    and packlen: "m_packlen b = 0 \<or> (12 \<le> length cur \<and> m_packlen b = of_nat (length f))"
  shows "PackageCheck b = Inr (frame_stat cur f,
      b\<lparr>m_packlen := if length cur < 12 then 0 else of_nat (length f)\<rparr>)"
proof -
  note len = f [unfolded valid_frame_def]
  have verdict: "12 \<le> length cur \<Longrightarrow> verdict (of_nat (length f)) cur
      = (if length cur < length f then NEED_BODY else WHOLE)"
    using valid_frame_learned(2) [OF f _ cur] len by (simp add: verdict_def)
  show ?thesis
  proof (cases "m_packlen b = 0")
    case True
    have "learned cur = (if length cur < 12 then 0 else of_nat (length f))"
      using valid_frame_learned(1) [OF f _ cur] by (auto simp: learned_def)
    then show ?thesis using PackageCheck_unknown [OF h True] verdict by (simp add: classify_def frame_stat_def)
  next
    case False
    then show ?thesis using PackageCheck_known [OF h False] packlen verdict by (auto simp: frame_stat_def)
  qed
qed

lemma handle_read_reduce:
  assumes "c_recv_buffer c = Some b" "PackageCheck (MsgBuffer_commit n b) = Inr (st, b1)"
  shows "Connection_handle_read sz handler NoError n c =
    then_step (Connection_on_package handler NoError n st b1 c)
      (\<lambda>(ret, c1). if fst ret then Connection_arm_read (scast (snd ret)) c1 else Inr (c1, []))"
  using assms by (simp add: Connection_handle_read_def)

text \<open>The bytes of a read arrive behind the prefix, and the check sees where the frame stands.\<close>

lemma read_received:
  assumes r: "reading pre f c" and f: "valid_frame f" and bs: "length bs \<le> to_read pre f"
    and cur: "pre @ bs = take (length (pre @ bs)) f" "length (pre @ bs) \<le> length f"
  obtains b2 where
    "read_event handler n bs c = then_step (Connection_on_package handler NoError (of_nat (length bs))
        (frame_stat (pre @ bs) f) b2 (c\<lparr>c_recv_buffer := Some b2\<rparr>))
      (\<lambda>(ret, c1). if fst ret then Connection_arm_read (scast (snd ret)) c1 else Inr (c1, []))"
    "holds (pre @ bs) b2" "m_head b2 = 0"
    "m_packlen b2 = (if length (pre @ bs) < 12 then 0 else of_nat (length f))"
proof -
  let ?cur = "pre @ bs"
  from r obtain b where b: "c_recv_buffer c = Some b" "holds pre b" "m_head b = 0"
      "m_packlen b = (if length pre < 12 then 0 else of_nat (length f))"
      "length pre + to_read pre f \<le> length (m_buffer b)"
    by (auto simp: reading_def)
  have len: "length f \<le> 2 * 1024 * 1024" using f by (simp add: valid_frame_def)
  obtain v where v: "mem_write (m_buffer b) (MsgBuffer_data b) bs = Inr v"
      "holds ?cur (MsgBuffer_commit (of_nat (length bs)) (b\<lparr>m_buffer := v\<rparr>))"
    using fill_commit [OF b(2,3), of bs] bs b(5) cur(2) len by auto
  define b1 where "b1 = MsgBuffer_commit (of_nat (length bs)) (b\<lparr>m_buffer := v\<rparr>)"
  define b2 where "b2 = b1\<lparr>m_packlen := if length ?cur < 12 then 0 else of_nat (length f)\<rparr>"
  have b1: "holds ?cur b1" "m_head b1 = 0" "m_packlen b1 = m_packlen b"
    using v b(3) by (simp_all add: b1_def) (simp_all add: MsgBuffer_commit_def)
  have "holds ?cur b2" "m_head b2 = 0"
    using b1 by (auto simp: b2_def holds_def wf_buffer_def room_def content_def used_def)
  moreover have check: "PackageCheck b1 = Inr (frame_stat ?cur f, b2)"
    using check_after_read [OF f b1(1) cur] b1(3) b(4) by (auto simp: b2_def split: if_splits)
  moreover have "read_event handler n bs c = then_step (Connection_on_package handler NoError
        (of_nat (length bs)) (frame_stat ?cur f) b2 (c\<lparr>c_recv_buffer := Some b2\<rparr>))
      (\<lambda>(ret, c1). if fst ret then Connection_arm_read (scast (snd ret)) c1 else Inr (c1, []))"
  proof -
    let ?c = "c\<lparr>c_recv_buffer := Some (b\<lparr>m_buffer := v\<rparr>)\<rparr>"
    have "read_event handler n bs c = Connection_handle_read n handler NoError (of_nat (length bs)) ?c"
      using v(1) b(1) by (simp add: read_event_def socket_fill_def)
    also have "\<dots> = then_step (Connection_on_package handler NoError (of_nat (length bs)) (frame_stat ?cur f) b2 ?c)
      (\<lambda>(ret, c1). if fst ret then Connection_arm_read (scast (snd ret)) c1 else Inr (c1, []))"
      by (rule handle_read_reduce [where b = "b\<lparr>m_buffer := v\<rparr>"]) (use check in \<open>simp_all add: b1_def\<close>)
    also have "Connection_on_package handler NoError (of_nat (length bs)) (frame_stat ?cur f) b2 ?c
      = Connection_on_package handler NoError (of_nat (length bs)) (frame_stat ?cur f) b2 (c\<lparr>c_recv_buffer := Some b2\<rparr>)"
      by (cases "frame_stat ?cur f") (simp_all add: Connection_on_package_def)
    finally show ?thesis .
  qed
  ultimately show thesis using that [of b2] by (simp add: b2_def)
qed

text \<open>A read that does not complete the frame asks for exactly what is missing.\<close>

lemma read_event_partial:
  assumes r: "reading pre f c" and f: "valid_frame f" and bs: "length bs \<le> to_read pre f"
    and cur: "pre @ bs = take (length (pre @ bs)) f" and less: "length (pre @ bs) < length f"
  shows "\<exists>c'. read_event handler n bs c
      = Inr (c', [AsyncReadSome (c_id c) (of_nat (to_read (pre @ bs) f))]) \<and> reading (pre @ bs) f c'"
proof -
  let ?cur = "pre @ bs" and ?k = "to_read (pre @ bs) f"
  obtain b2 where ev: "read_event handler n bs c = then_step (Connection_on_package handler NoError
        (of_nat (length bs)) (frame_stat ?cur f) b2 (c\<lparr>c_recv_buffer := Some b2\<rparr>))
      (\<lambda>(ret, c1). if fst ret then Connection_arm_read (scast (snd ret)) c1 else Inr (c1, []))"
    and h2: "holds ?cur b2" "m_head b2 = 0"
    and p2: "m_packlen b2 = (if length ?cur < 12 then 0 else of_nat (length f))"
    by (rule read_received [OF r f bs cur less_imp_le [OF less]])
  have st: "frame_stat ?cur f = (if length ?cur < 12 then NEED_HEAD else NEED_BODY)"
    using less by (simp add: frame_stat_def)
  let ?c1 = "c\<lparr>c_recv_buffer := Some b2\<rparr>"
  have len: "length f \<le> 2 * 1024 * 1024" "14 \<le> length f" using f by (simp_all add: valid_frame_def)
  have k: "?k < 2 ^ 31" and sum: "length ?cur + ?k \<le> 2 ^ 31" using len less by (auto simp: to_read_def)
  have av: "MsgBuffer_available b2 = of_nat (length ?cur)"
    using holds_available [OF h2(1)] by (rule size_t_eq_of_nat)
  have "(if length ?cur < 12 then ucast g_proto_head_len - MsgBuffer_available b2
      else m_packlen b2 - MsgBuffer_available b2) = of_nat ?k"
    unfolding av to_read_def using less by (simp add: p2 g_proto_head_len_def of_nat_diff)
  then have pkg: "\<exists>w. Connection_on_package handler NoError (of_nat (length bs)) (frame_stat ?cur f) b2 ?c1
      = Inr (((True, w), ?c1), []) \<and> scast w = (of_nat ?k :: size_t)"
    unfolding st using int_size_t_roundtrip [OF k] by (auto simp: Connection_on_package_def)
  obtain v' where v': "Connection_arm_read (of_nat ?k) ?c1
        = Inr (?c1\<lparr>c_recv_buffer := Some (b2\<lparr>m_buffer := v'\<rparr>)\<rparr>, [AsyncReadSome (c_id ?c1) (of_nat ?k)])"
      "holds ?cur (b2\<lparr>m_buffer := v'\<rparr>)" "length ?cur + unat (of_nat ?k :: size_t) \<le> length v'"
    by (rule arm_read_ok [OF h2, of "of_nat ?k" ?c1 ?c1]) (use sum k in auto)
  then have "reading ?cur f (?c1\<lparr>c_recv_buffer := Some (b2\<lparr>m_buffer := v'\<rparr>)\<rparr>)"
    using r h2(2) less cur k p2 by (auto simp: reading_def)
  then show ?thesis using pkg v'(1) ev by auto
qed

lemma chunk_facts:
  assumes "reading pre f c" "valid_frame f" "m = min (Suc k) (to_read pre f)"
  shows "1 \<le> m" "take m (drop (length pre) (f @ rest)) = take m (drop (length pre) f)"
    "pre @ take m (drop (length pre) f) = take (length pre + m) f" "length pre + m \<le> length f"
    "length (take m (drop (length pre) f)) = m" "m \<le> to_read pre f" "to_read pre f \<le> length f"
proof -
  have pre: "length pre < length f" "pre = take (length pre) f" and f: "14 \<le> length f"
    using assms(1,2) by (auto simp: reading_def valid_frame_def)
  show "1 \<le> m" "length pre + m \<le> length f" "m \<le> to_read pre f" "to_read pre f \<le> length f"
    using pre f by (auto simp: assms(3) to_read_def)
  then show "take m (drop (length pre) (f @ rest)) = take m (drop (length pre) f)"
    "length (take m (drop (length pre) f)) = m" by auto
  show "pre @ take m (drop (length pre) f) = take (length pre + m) f"
    using pre(2) by (metis take_add)
qed

context frame_consumer
begin

text \<open>The read that completes it hands the frame over and starts on the next one.\<close>

lemma read_event_complete:
  assumes r: "reading pre f c" and f: "valid_frame f" and bs: "length bs \<le> to_read pre f" and cur: "pre @ bs = f"
    and g: "12 < length g"
  shows "\<exists>c' b. read_event handler n bs c = Inr (c', [AddTask (c_id c) b, AsyncReadSome (c_id c) 12])
      \<and> holds f b \<and> m_head b = 0 \<and> reading [] g c'"
proof -
  have f': "14 \<le> length f" using f by (simp add: valid_frame_def)
  obtain b2 where ev: "read_event handler n bs c = then_step (Connection_on_package handler NoError
        (of_nat (length bs)) (frame_stat (pre @ bs) f) b2 (c\<lparr>c_recv_buffer := Some b2\<rparr>))
      (\<lambda>(ret, c1). if fst ret then Connection_arm_read (scast (snd ret)) c1 else Inr (c1, []))"
    and h2: "holds (pre @ bs) b2" "m_head b2 = 0"
    by (rule read_received [OF r f bs]) (use cur in auto)
  let ?b = "MsgBuffer_set_indicator valid b2"
  have st: "frame_stat (pre @ bs) f = WHOLE" using f' cur by (simp add: frame_stat_def)
  obtain c1 where c1: "handler (c\<lparr>c_recv_buffer := Some ?b\<rparr>) NoError (of_nat (length bs)) = Inr (c1, [AddTask (c_id c) ?b])"
      "c_recv_buffer c1 = None" "c_pool c1 = c_pool c" "c_id c1 = c_id c"
    using takes_buffer [of "c\<lparr>c_recv_buffer := Some ?b\<rparr>" ?b] by fastforce
  moreover obtain c2 where "Connection_arm_read 12 c1 = Inr (c2, [AsyncReadSome (c_id c1) 12])" "reading [] g c2"
    using arm_read_fresh [of c1 g] c1(2,3) r g by (auto simp: reading_def)
  moreover have "holds f ?b" "m_head ?b = 0"
    using h2 cur by (simp_all add: MsgBuffer_set_indicator_def holds_def content_def used_def wf_buffer_def room_def)
  ultimately show ?thesis
    using ev st by (auto simp: Connection_on_package_def g_proto_head_len_def MsgBuffer_set_indicator_def)
qed

text \<open>
  The whole stream. \<open>drop (length pre) (concat fs)\<close> is what the peer still sends; the loop delivers
  a prefix of the frames, and all of them when the kernel offers enough reads.
\<close>

lemma read_stream_frames:
  assumes "\<forall>f \<in> set fs. valid_frame f" and "fs = [] \<Longrightarrow> pre = []"
    and "fs \<noteq> [] \<Longrightarrow> reading pre (hd fs) c \<and> n = of_nat (to_read pre (hd fs))"
  shows "\<exists>c' m es. read_stream handler n ks (drop (length pre) (concat fs)) c = Inr ((c', Some m), es)
    \<and> (\<exists>rest. fs = delivered es @ rest \<and> (length (concat fs) - length pre \<le> length ks \<longrightarrow> rest = []))
    \<and> (\<forall>b \<in> set (handed_over es). holds (content b) b \<and> m_head b = 0)"
  using assms
proof (induction ks arbitrary: fs pre c n)
  case Nil
  then show ?case by (cases fs) (auto simp: reading_def)
next
  case (Cons k ks)
  show ?case
  proof (cases "fs = []")
    case True
    then show ?thesis using Cons.prems(2) by simp
  next
    case False
    then obtain f fs' where fs: "fs = f # fs'" by (cases fs) auto
    have f: "valid_frame f" and r: "reading pre f c" and n: "n = of_nat (to_read pre f)"
      using fs Cons.prems by auto
    define m where "m = min (Suc k) (to_read pre f)"
    note ch = chunk_facts [OF r f m_def]
    let ?bs = "take m (drop (length pre) f)" and ?cur = "take (length pre + m) f"
    have nm: "min (Suc k) (unat n) = m" using n f ch(7) by (simp add: m_def valid_frame_def)
    have st: "drop (length pre) (concat fs) \<noteq> []" "take m (drop (length pre) (concat fs)) = ?bs"
      using ch fs by auto
    show ?thesis
    proof (cases "length pre + m < length f")
      case True
      then obtain c' where ev: "read_event handler n ?bs c = Inr (c', [AsyncReadSome (c_id c) (of_nat (to_read ?cur f))])"
          "reading ?cur f c'"
        using read_event_partial [OF r f, of ?bs handler n] ch by auto
      have "drop m (drop (length pre) (concat fs)) = drop (length ?cur) (concat fs)"
        using ch(4) by (simp add: add.commute)
      then show ?thesis
        using Cons.IH [of fs ?cur c' "of_nat (to_read ?cur f)"] Cons.prems(1) fs ev st nm ch(1,4)
        by (fastforce simp: next_read_def)
    next
      case False
      then have full: "pre @ ?bs = f" using ch by simp
      define g where "g = (if fs' = [] then f else hd fs')"
      have g: "12 < length g" using Cons.prems(1) fs by (cases fs') (auto simp: g_def valid_frame_def)
      obtain c' b where ev: "read_event handler n ?bs c = Inr (c', [AddTask (c_id c) b, AsyncReadSome (c_id c) 12])"
          "holds f b" "m_head b = 0" "reading [] g c'"
        using read_event_complete [OF r f _ full g, of n] ch by auto
      have b: "content b = f" "holds (content b) b" using ev(2) by (auto simp: holds_def)
      have "drop m (drop (length pre) (concat fs)) = drop (length []) (concat fs')"
        using full ch(4) False fs by simp
      then show ?thesis
        using Cons.IH [of fs' "[]" c' 12] Cons.prems(1) fs ev(1,3,4) b st nm ch(1,4) False
        by (fastforce simp: next_read_def g_def to_read_def)
    qed
  qed
qed

end

section \<open>Properties\<close>

text \<open>
  C5: the package check, exactly. On every buffer with bytes \<open>bs\<close> pending, however fragmented and
  whatever they are, the check faults never and decides: fewer than 12 bytes need more of the head;
  a wrong magic number, a length below 14 or above 2 MiB (the length field plus two, modulo \<open>2^32\<close>)
  are incorrect; otherwise the package needs its body until all its bytes are there. The buffer keeps
  its bytes; only the learned length is recorded, and a length learned earlier is trusted.
\<close>

theorem package_check_exact:
  assumes "holds bs b"
  shows "PackageCheck b =
    (if m_packlen b \<noteq> 0 then
       Inr (if 2 * 1024 * 1024 < unat (m_packlen b) \<or> unat (m_packlen b) < 14 then INCORRECT
            else if length bs < unat (m_packlen b) then NEED_BODY else WHOLE, b)
     else if length bs < 12 then Inr (NEED_HEAD, b)
     else if take 4 bs \<noteq> g_head_magic_num then Inr (INCORRECT, b)
     else let n = ucast (dec32 (take 4 (drop 4 bs)) + 2) :: size_t in
       Inr (if 2 * 1024 * 1024 < unat n \<or> unat n < 14 then INCORRECT
            else if length bs < unat n then NEED_BODY else WHOLE, b\<lparr>m_packlen := n\<rparr>))"
proof (cases "m_packlen b = 0")
  case True
  then have "b\<lparr>m_packlen := 0\<rparr> = b" by simp
  then show ?thesis
    using PackageCheck_unknown [OF assms True] True
    by (auto simp: classify_def verdict_def learned_def Let_def)
next
  case False
  then show ?thesis using PackageCheck_known [OF assms False] by (simp add: verdict_def)
qed

theorem package_check_exact_witness:
  "map_res fst (PackageCheck \<lparr>m_buffer = [1, 1, 1, 1, 1, 1, 1, 1, 1, 1, 1, 1], m_packlen = 0, m_head = 0, m_tail = 12, m_indicator = none\<rparr>)
     = Inr INCORRECT"
proof -
  have "holds ([1, 1, 1, 1, 1, 1, 1, 1, 1, 1, 1, 1]) \<lparr>m_buffer = [1, 1, 1, 1, 1, 1, 1, 1, 1, 1, 1, 1], m_packlen = 0, m_head = 0, m_tail = 12, m_indicator = none\<rparr>"
    by (simp add: holds_def wf_buffer_def room_def content_def used_def)
  from package_check_exact [OF this] show ?thesis by (simp add: g_head_magic_num_def)
qed

fun close_times :: "nat \<Rightarrow> conn \<Rightarrow> conn \<times> effect list" where
  "close_times 0 c = (c, [])"
| "close_times (Suc n) c =
     (let (c1, es) = Connection_close c; (c2, fs) = close_times n c1 in (c2, es @ fs))"

lemma closed_stays: "\<not> c_open c \<Longrightarrow> close_times n c = (c, [])"
  by (induction n) (simp_all add: Connection_close_def)

text \<open>
  C26: closing is done once. However often \<open>close\<close> runs on a connection (the timeout, a bad package, a
  failed read or write and the destructor all call it), the socket is shut down and closed and the
  owner told to release the connection exactly once, if it was open, and never otherwise.
\<close>

theorem closes_once:
  "close_times (Suc n) c = (if c_open c
     then (c\<lparr>c_open := False\<rparr>, [ShutdownSocket (c_id c), CloseSocket (c_id c)]
       @ (if c_holder c then [Release (c_uuid c)] else []))
     else (c, []))"
  by (simp add: Connection_close_def closed_stays)

end
