(* ===== verification/Write_Path.thy ===== *)
theory Write_Path
  imports Connection
begin

text \<open>
  The write side of \<open>Connection\<close> together with its socket: messages posted by \<open>async_write\<close>, the
  writes in flight in the order they were started (asio completes the writes of one socket in that
  order) each with the lambda that completes it, and the bytes that have reached the wire. A completion
  transfers an arbitrary non-empty part of what was handed over. The interface \<open>write_observer\<close> is what the loop needs of the
  write handler its owner passes.
\<close>

record write_sys =
  w_conn :: conn
  w_inflight :: "(write_origin \<times> msgbuffer \<times> bytes) list"
  w_wire :: bytes

datatype write_event = WPost msgbuffer | WDone nat

fun started :: "effect list \<Rightarrow> (write_origin \<times> msgbuffer \<times> bytes) list" where
  "started [] = []"
| "started (AsyncWriteSome i origin d bs # es) = (origin, d, bs) # started es"
| "started (e # es) = started es"

definition write_step :: "io_handler \<Rightarrow> write_event \<Rightarrow> write_sys \<Rightarrow> write_sys res" where
  "write_step handler e s =
     (case e of
        WPost d \<Rightarrow>
          map_res (\<lambda>(c, es). s\<lparr>w_conn := c, w_inflight := w_inflight s @ started es\<rparr>)
            (Connection_write_posted d (w_conn s))
      | WDone k \<Rightarrow>
          (case w_inflight s of
             [] \<Rightarrow> Inr s
           | (origin, d, bs) # rest \<Rightarrow>
               let n = min (Suc k) (length bs) in
               map_res (\<lambda>(c, es). s\<lparr>w_conn := c, w_inflight := rest @ started es, w_wire := w_wire s @ take n bs\<rparr>)
                 (case origin of
                    FromPost \<Rightarrow> Connection_write_done handler NoError (of_nat n) d (w_conn s)
                  | FromFlush \<Rightarrow> Connection_write_continued NoError (of_nat n) d (w_conn s))))"

definition write_run :: "io_handler \<Rightarrow> write_event list \<Rightarrow> write_sys \<Rightarrow> write_sys res" where
  "write_run handler = fold_res (write_step handler)"

section \<open>Lemmas\<close>

lemma started_append [simp]: "started (es @ fs) = started es @ started fs"
  by (induction es rule: started.induct) auto

lemma holds_frame [simp]:
  "holds bs (b\<lparr>m_packlen := p\<rparr>) = holds bs b" "holds bs (b\<lparr>m_indicator := i\<rparr>) = holds bs b"
  "holds bs (MsgBuffer_update_packlen n b) = holds bs b"
  by (simp_all add: holds_def MsgBuffer_update_packlen_def wf_buffer_def room_def content_def used_def)

lemma holds_empty: "holds bs b \<Longrightarrow> MsgBuffer_empty b \<longleftrightarrow> bs = []"
  using empty_content [of b] by (simp add: holds_def)

lemma write_some_ok:
  assumes "holds bs d"
  shows "Connection_write_some origin d c = Inr (c, [AsyncWriteSome (c_id c) origin d bs])"
  using assms holds_read [of bs d "length bs"] holds_available [of bs d]
  by (simp add: Connection_write_some_def)

text \<open>A completion that leaves a rest, by either lambda: the rest is handed to the socket by \<open>handle_write\<close>.\<close>

lemma write_partial:
  assumes h: "holds (xs @ ys) d" and ne: "xs \<noteq> []" "ys \<noteq> []" and sl: "c_send_list c = []"
  shows "\<exists>d' es. Connection_write_done handler NoError (of_nat (length xs)) d c = Inr (c, es)
    \<and> Connection_write_continued NoError (of_nat (length xs)) d c = Inr (c, es)
    \<and> started es = [(FromFlush, d', ys)] \<and> holds ys d'"
proof -
  let ?n = "of_nat (length xs) :: size_t"
  let ?d = "MsgBuffer_update_packlen ?n (MsgBuffer_consume ?n d)"
  have n: "unat ?n = length xs" "?n \<noteq> 0" using holds_length [OF h] ne
    by (auto simp: word_unat_eq_iff)
  have d: "holds ys ?d" using holds_consume [OF h n(1)] by simp
  then have "\<not> MsgBuffer_empty ?d" using ne holds_empty by blast
  then have "Connection_write_done handler NoError ?n d c = Inr (c, [AsyncWriteSome (c_id c) FromFlush ?d ys])"
      "Connection_write_continued NoError ?n d c = Inr (c, [AsyncWriteSome (c_id c) FromFlush ?d ys])"
    using n sl write_some_ok [OF d]
    by (simp_all add: Connection_write_done_def Connection_write_continued_def Connection_handle_write_def Let_def)
  then show ?thesis using d by auto
qed

text \<open>The last part of a message that \<open>handle_write\<close> handed over: its lambda calls a handler that is gone.\<close>

lemma write_continued_last:
  assumes h: "holds xs d"
  shows "Connection_write_continued NoError (of_nat (length xs)) d c = Inl UseAfterFree"
proof -
  let ?n = "of_nat (length xs) :: size_t"
  have "unat ?n = length xs" using holds_length [OF h] by simp
  then have "holds [] (MsgBuffer_update_packlen ?n (MsgBuffer_consume ?n d))"
    using holds_consume [of xs "[]" d ?n] h by simp
  then show ?thesis using holds_empty by (simp add: Connection_write_continued_def Let_def)
qed

lemma write_continued_faults:
  assumes "w_inflight s = [(FromFlush, d, bs)]" "holds bs d" "bs \<noteq> []" "c_send_list (w_conn s) = []"
    "length bs \<le> length ks"
  shows "write_run handler (map WDone ks) s = Inl UseAfterFree"
  using assms
proof (induction ks arbitrary: s d bs)
  case (Cons k ks)
  let ?n = "min (Suc k) (length bs)"
  have n: "0 < ?n" using Cons.prems(3) by (cases bs) auto
  show ?case
  proof (cases "?n < length bs")
    case True
    have h: "holds (take ?n bs @ drop ?n bs) d" using Cons.prems(2) by simp
    obtain d' es where st: "Connection_write_continued NoError (of_nat ?n) d (w_conn s) = Inr (w_conn s, es)"
        "started es = [(FromFlush, d', drop ?n bs)]" "holds (drop ?n bs) d'"
      using write_partial [OF h _ _ Cons.prems(4)] True n by fastforce
    let ?s = "s\<lparr>w_inflight := [(FromFlush, d', drop ?n bs)], w_wire := w_wire s @ take ?n bs\<rparr>"
    have "write_step handler (WDone k) s = Inr ?s"
      using st Cons.prems(1) by (simp add: write_step_def Let_def)
    moreover have "length (drop ?n bs) \<le> length ks" using Cons.prems(5) n by simp
    ultimately show ?thesis
      using Cons.IH [of ?s d' "drop ?n bs"] st(3) True Cons.prems(4) by (simp add: write_run_def)
  next
    case False
    then have "?n = length bs" by simp
    then show ?thesis using write_continued_last [OF Cons.prems(2)] Cons.prems(1)
      by (simp add: write_run_def write_step_def Let_def)
  qed
qed simp

text \<open>
  A message of which the kernel takes only a part at first: whatever the sizes of the later parts, the
  completion that finishes it is a use after free.
\<close>

lemma split_write_faults:
  assumes "w_inflight s = []" "c_send_list (w_conn s) = []" "c_open (w_conn s)"
    and "holds bs d" "m_indicator d \<noteq> invalid" and "Suc k < length bs" and "length bs \<le> length ks"
  shows "write_run handler (WPost d # WDone k # map WDone ks) s = Inl UseAfterFree"
proof -
  let ?s = "s\<lparr>w_inflight := [(FromPost, d, bs)]\<rparr>"
  have post: "write_step handler (WPost d) s = Inr ?s"
    using assms write_some_ok [of bs d] by (simp add: write_step_def Connection_write_posted_def)
  have h: "holds (take (Suc k) bs @ drop (Suc k) bs) d" using assms(4) by simp
  have ne: "take (Suc k) bs \<noteq> []" "drop (Suc k) bs \<noteq> []" using assms(6) by auto
  have len: "length (take (Suc k) bs) = Suc k" using assms(6) by simp
  obtain d' es where st: "Connection_write_done handler NoError (of_nat (Suc k)) d (w_conn s) = Inr (w_conn s, es)"
      "started es = [(FromFlush, d', drop (Suc k) bs)]" "holds (drop (Suc k) bs) d'"
    using write_partial [OF h ne assms(2), of handler] unfolding len by blast
  let ?s1 = "s\<lparr>w_inflight := [(FromFlush, d', drop (Suc k) bs)], w_wire := w_wire s @ take (Suc k) bs\<rparr>"
  have "min (Suc k) (length bs) = Suc k" using assms(6) by simp
  then have "write_step handler (WDone k) ?s = Inr ?s1" using st by (simp add: write_step_def Let_def del: of_nat_Suc)
  moreover have "write_run handler (map WDone ks) ?s1 = Inl UseAfterFree"
    using write_continued_faults [of ?s1 d' "drop (Suc k) bs" ks handler] st(3) ne assms(2,7) by simp
  ultimately show ?thesis using post by (simp add: write_run_def)
qed

locale write_observer =
  fixes handler :: io_handler
    and ready :: "conn \<Rightarrow> bool"
  assumes observes: "ready c \<Longrightarrow> \<exists>c' es. handler c ec n = Inr (c', es) \<and> started es = []
      \<and> c_send_list c' = c_send_list c \<and> c_open c' = c_open c"
begin

lemma write_done_last:
  assumes h: "holds xs d" and ne: "xs \<noteq> []" and sl: "c_send_list c = []" and ok: "ready c"
  shows "\<exists>c' es. Connection_write_done handler NoError (of_nat (length xs)) d c = Inr (c', es)
    \<and> started es = [] \<and> c_send_list c' = [] \<and> c_open c' = c_open c"
proof -
  let ?n = "of_nat (length xs) :: size_t"
  let ?d = "MsgBuffer_update_packlen ?n (MsgBuffer_consume ?n d)"
  have n: "unat ?n = length xs" "?n \<noteq> 0" using holds_length [OF h] ne
    by (auto simp: word_unat_eq_iff)
  have "holds [] ?d" using holds_consume [of xs "[]" d ?n] h n by simp
  then have "MsgBuffer_empty ?d" using holds_empty by blast
  moreover obtain c' es where "handler c NoError (m_packlen ?d) = Inr (c', es)" "started es = []"
      "c_send_list c' = []" "c_open c' = c_open c"
    using observes [OF ok, of NoError "m_packlen ?d"] sl by auto
  ultimately show ?thesis using n
    by (simp add: Connection_write_done_def Connection_handle_write_def Connection_recycle_def
        Connection_free_def Let_def)
qed

text \<open>A message posted to an idle open connection, which the kernel takes whole.\<close>

lemma write_post_one:
  assumes "w_inflight s = []" "c_send_list (w_conn s) = []" "c_open (w_conn s)" "ready (w_conn s)"
    and "holds bs d" "bs \<noteq> []" "m_indicator d \<noteq> invalid" and "length bs \<le> Suc k"
  shows "\<exists>s'. write_run handler [WPost d, WDone k] s = Inr s' \<and> w_wire s' = w_wire s @ bs
    \<and> w_inflight s' = [] \<and> c_open (w_conn s') \<and> c_send_list (w_conn s') = []"
proof -
  have "write_step handler (WPost d) s = Inr (s\<lparr>w_inflight := [(FromPost, d, bs)]\<rparr>)"
    using assms write_some_ok [of bs d] by (simp add: write_step_def Connection_write_posted_def)
  moreover obtain c' es where "Connection_write_done handler NoError (of_nat (length bs)) d (w_conn s) = Inr (c', es)"
      "started es = []" "c_send_list c' = []" "c_open c' = c_open (w_conn s)"
    using write_done_last [OF assms(5,6,2,4)] by blast
  moreover have "min (Suc k) (length bs) = length bs" using assms(8) by simp
  ultimately show ?thesis using assms(3) by (simp add: write_run_def write_step_def Let_def)
qed

end

section \<open>Many messages, unsplit\<close>

text \<open>
  The bytes a sequence of events posts, and the states in which every message posted so far was
  handed to the socket whole by \<open>async_write\<close>: nothing waits in the send list.
\<close>

definition posted :: "write_event list \<Rightarrow> bytes" where
  "posted es = concat (map (\<lambda>e. case e of WPost d \<Rightarrow> content d | WDone k \<Rightarrow> []) es)"

definition unsplit :: "write_sys \<Rightarrow> bool" where
  "unsplit s \<longleftrightarrow> c_open (w_conn s) \<and> c_send_list (w_conn s) = []
     \<and> (\<forall>(origin, d, bs) \<in> set (w_inflight s). origin = FromPost \<and> holds bs d \<and> bs \<noteq> [])"

definition in_transit :: "write_sys \<Rightarrow> bytes" where
  "in_transit s = concat (map (\<lambda>(origin, d, bs). bs) (w_inflight s))"

text \<open>A message that may be posted, and a completion that takes all that was handed over.\<close>

definition whole_event :: "write_event \<Rightarrow> bool" where
  "whole_event e \<longleftrightarrow> (case e of WPost d \<Rightarrow> holds (content d) d \<and> content d \<noteq> [] \<and> m_indicator d \<noteq> invalid
     | WDone k \<Rightarrow> 2 ^ 62 \<le> k)"

lemma holds_bound: "holds bs d \<Longrightarrow> length bs < 2 ^ 62"
  using holds_length [of bs d] by simp

locale steady_observer = write_observer handler "\<lambda>_. True" for handler :: io_handler
begin

lemma whole_step:
  assumes "unsplit s" and "whole_event e"
  shows "\<exists>s'. write_step handler e s = Inr s' \<and> unsplit s'
    \<and> w_wire s' @ in_transit s' = w_wire s @ in_transit s @ posted [e]
    \<and> length (w_inflight s') = (case e of WPost d \<Rightarrow> Suc (length (w_inflight s)) | WDone k \<Rightarrow> length (w_inflight s) - 1)"
proof (cases e)
  case (WPost d)
  then have "write_step handler e s = Inr (s\<lparr>w_inflight := w_inflight s @ [(FromPost, d, content d)]\<rparr>)"
    using assms write_some_ok [of "content d" d]
    by (auto simp: write_step_def Connection_write_posted_def whole_event_def unsplit_def)
  then show ?thesis using assms WPost
    by (auto simp: unsplit_def in_transit_def posted_def whole_event_def)
next
  case (WDone k)
  show ?thesis
  proof (cases "w_inflight s")
    case Nil
    then show ?thesis using assms WDone by (simp add: write_step_def in_transit_def posted_def)
  next
    case (Cons x rest)
    obtain origin d bs where x: "x = (origin, d, bs)" by (cases x)
    then have d: "holds bs d" "bs \<noteq> []" "origin = FromPost" and sl: "c_send_list (w_conn s) = []"
      using assms(1) Cons by (auto simp: unsplit_def)
    have n: "min (Suc k) (length bs) = length bs"
      using holds_bound [OF d(1)] assms(2) WDone by (simp add: whole_event_def)
    obtain c' es where "Connection_write_done handler NoError (of_nat (length bs)) d (w_conn s) = Inr (c', es)"
        "started es = []" "c_send_list c' = []" "c_open c' = c_open (w_conn s)"
      using write_done_last [OF d(1,2) sl] by blast
    then show ?thesis
      using n Cons x d(3) WDone assms(1)
      by (auto simp: write_step_def unsplit_def in_transit_def posted_def Let_def)
  qed
qed

lemma whole_run:
  assumes "unsplit s" and "\<forall>e \<in> set es. whole_event e"
  shows "\<exists>s'. write_run handler es s = Inr s' \<and> unsplit s'
    \<and> w_wire s' @ in_transit s' = w_wire s @ in_transit s @ posted es
    \<and> length (w_inflight s') \<le> length (w_inflight s) + length es"
  using assms
proof (induction es arbitrary: s)
  case (Cons e es)
  obtain s1 where s1: "write_step handler e s = Inr s1" "unsplit s1"
      "w_wire s1 @ in_transit s1 = w_wire s @ in_transit s @ posted [e]"
      "length (w_inflight s1) \<le> Suc (length (w_inflight s))"
    using whole_step [of s e] Cons.prems by (cases e) fastforce+
  obtain s2 where "write_run handler es s1 = Inr s2" "unsplit s2"
      "w_wire s2 @ in_transit s2 = w_wire s1 @ in_transit s1 @ posted es"
      "length (w_inflight s2) \<le> length (w_inflight s1) + length es"
    using Cons.IH [OF s1(2)] Cons.prems by auto
  then show ?case using s1 by (auto simp: write_run_def posted_def)
qed (simp add: write_run_def posted_def)

lemma drain_run:
  assumes "unsplit s" and "\<forall>k \<in> set ks. 2 ^ 62 \<le> k" and "length (w_inflight s) \<le> length ks"
  shows "\<exists>s'. write_run handler (map WDone ks) s = Inr s' \<and> unsplit s' \<and> w_inflight s' = []
    \<and> w_wire s' = w_wire s @ in_transit s"
  using assms
proof (induction ks arbitrary: s)
  case (Cons k ks)
  obtain s1 where s1: "write_step handler (WDone k) s = Inr s1" "unsplit s1"
      "w_wire s1 @ in_transit s1 = w_wire s @ in_transit s" "length (w_inflight s1) = length (w_inflight s) - 1"
    using whole_step [of s "WDone k"] Cons.prems(1,2) by (auto simp: whole_event_def posted_def)
  then show ?case using Cons.IH [OF s1(2)] Cons.prems(2,3) by (auto simp: write_run_def)
qed (simp add: write_run_def in_transit_def)

text \<open>Whatever was posted, as many whole completions bring all of it to the wire.\<close>

lemma write_all:
  assumes "unsplit s" and "\<forall>e \<in> set es. whole_event e" and "\<forall>k \<in> set ks. 2 ^ 62 \<le> k"
    and "length (w_inflight s) + length es \<le> length ks"
  shows "\<exists>s'. write_run handler (es @ map WDone ks) s = Inr s' \<and> w_wire s' = w_wire s @ in_transit s @ posted es
    \<and> w_inflight s' = [] \<and> c_send_list (w_conn s') = [] \<and> c_open (w_conn s')"
proof -
  obtain s1 where s1: "write_run handler es s = Inr s1" "unsplit s1"
      "w_wire s1 @ in_transit s1 = w_wire s @ in_transit s @ posted es"
      "length (w_inflight s1) \<le> length (w_inflight s) + length es"
    using whole_run [OF assms(1,2)] by blast
  obtain s2 where "write_run handler (map WDone ks) s1 = Inr s2" "unsplit s2" "w_inflight s2 = []"
      "w_wire s2 = w_wire s1 @ in_transit s1"
    using drain_run [OF s1(2) assms(3)] s1(4) assms(4) by auto
  then show ?thesis using s1(1,3) by (auto simp: write_run_def fold_res_append unsplit_def)
qed

end

end
