(* ===== verification/Task_Queue.thy ===== *)
theory Task_Queue
  imports Sparrow_Prelude
begin

text \<open>
  \<open>Queue<T>\<close> (\<open>util/queue.h\<close>): the bounded blocking queue between producers and a worker. Every
  method runs under the queue's mutex, so each is atomic between its waits; a call whose wait
  predicate does not hold yet is \<open>None\<close> (the thread stays blocked), a call that returns is
  \<open>Some\<close>. \<open>queue_step\<close> is the interleaving of completed calls of any number of threads; \<open>Queue_Wait\<close>
  refines it to threads that sleep and are notified. The
  overload \<open>dequeue(std::list<T>&)\<close> is never instantiated (a \<open>deque\<close> cannot be moved into a
  \<open>list\<close>) and is left out.
\<close>

section \<open>State and operations\<close>

record 'a queue =
  q_items :: "'a list"
  q_maxsize :: nat
  q_stop :: bool

definition Queue_new :: "nat \<Rightarrow> 'a queue" where
  "Queue_new maxsize = \<lparr>q_items = [], q_maxsize = maxsize, q_stop = False\<rparr>"

definition Queue_notfull :: "'a queue \<Rightarrow> bool" where
  "Queue_notfull q \<longleftrightarrow> length (q_items q) < q_maxsize q"

definition Queue_notempty :: "'a queue \<Rightarrow> bool" where
  "Queue_notempty q \<longleftrightarrow> q_items q \<noteq> []"

definition Queue_add :: "'a \<Rightarrow> 'a queue \<Rightarrow> 'a queue option" where
  "Queue_add value q =
     (if \<not> (Queue_notfull q \<or> q_stop q) then None
      else if q_stop q then Some q
      else Some (q\<lparr>q_items := q_items q @ [value]\<rparr>))"

text \<open>\<open>enqueue\<close> of an lvalue and of an rvalue both call \<open>add\<close>.\<close>

definition Queue_enqueue :: "'a \<Rightarrow> 'a queue \<Rightarrow> 'a queue option" where
  "Queue_enqueue value q = Queue_add value q"

text \<open>\<open>dequeue(T& value)\<close>: the result carries the new content of \<open>value\<close>.\<close>

definition Queue_dequeue :: "'a \<Rightarrow> 'a queue \<Rightarrow> ('a \<times> 'a queue) option" where
  "Queue_dequeue value q =
     (if \<not> (Queue_notempty q \<or> q_stop q) then None
      else if q_stop q then Some (value, q)
      else Some (hd (q_items q), q\<lparr>q_items := tl (q_items q)\<rparr>))"

definition Queue_size :: "'a queue \<Rightarrow> nat" where
  "Queue_size q = length (q_items q)"

definition Queue_full :: "'a queue \<Rightarrow> bool" where
  "Queue_full q \<longleftrightarrow> q_maxsize q \<le> length (q_items q)"

definition Queue_empty :: "'a queue \<Rightarrow> bool" where
  "Queue_empty q \<longleftrightarrow> q_items q = []"

definition Queue_stop :: "'a queue \<Rightarrow> 'a queue" where
  "Queue_stop q = q\<lparr>q_stop := True\<rparr>"

section \<open>Interleavings of calls\<close>

text \<open>A completed call with its result; \<open>Took None\<close> is a \<open>dequeue\<close> that left its target alone.\<close>

datatype 'a queue_call = Added 'a | Took "'a option" | Stopped

inductive queue_step :: "'a queue \<Rightarrow> 'a queue_call \<Rightarrow> 'a queue \<Rightarrow> bool" where
  step_add: "Queue_add v q = Some q' \<Longrightarrow> queue_step q (Added v) q'"
| step_take: "Queue_dequeue u q = Some (v, q') \<Longrightarrow> \<not> q_stop q \<Longrightarrow> queue_step q (Took (Some v)) q'"
| step_woken: "Queue_dequeue u q = Some (u, q') \<Longrightarrow> q_stop q \<Longrightarrow> queue_step q (Took None) q'"
| step_stop: "queue_step q Stopped (Queue_stop q)"

inductive queue_run :: "'a queue \<Rightarrow> 'a queue_call list \<Rightarrow> 'a queue \<Rightarrow> bool" where
  run_nil: "queue_run q [] q"
| run_call: "queue_step q c q1 \<Longrightarrow> queue_run q1 cs q2 \<Longrightarrow> queue_run q (c # cs) q2"

text \<open>What a run put in and took out.\<close>

fun added :: "'a queue_call list \<Rightarrow> 'a list" where
  "added [] = []"
| "added (Added v # cs) = v # added cs"
| "added (c # cs) = added cs"

fun took :: "'a queue_call list \<Rightarrow> 'a list" where
  "took [] = []"
| "took (Took (Some v) # cs) = v # took cs"
| "took (c # cs) = took cs"

definition queue_inv :: "'a queue \<Rightarrow> bool" where
  "queue_inv q \<longleftrightarrow> length (q_items q) \<le> q_maxsize q"

section \<open>Lemmas\<close>

lemmas queue_defs = Queue_add_def Queue_dequeue_def Queue_notfull_def Queue_notempty_def Queue_stop_def

inductive_cases queue_addE: "queue_step q (Added v) q'"
inductive_cases queue_takeE: "queue_step q (Took r) q'"
inductive_cases queue_runE [elim!]: "queue_run q (c # cs) q'" and queue_run_NilE [elim!]: "queue_run q [] q'"

lemma queue_step_inv: "queue_step q c q' \<Longrightarrow> queue_inv q \<Longrightarrow> queue_inv q' \<and> q_maxsize q' = q_maxsize q"
  by (induction rule: queue_step.induct) (auto simp: queue_defs queue_inv_def split: if_splits)

lemma queue_run_inv: "queue_run q cs q' \<Longrightarrow> queue_inv q \<Longrightarrow> queue_inv q' \<and> q_maxsize q' = q_maxsize q"
  by (induction rule: queue_run.induct) (auto dest: queue_step_inv)

lemma queue_step_fifo:
  "queue_step q c q' \<Longrightarrow> \<not> q_stop q \<Longrightarrow> q_items q @ added [c] = took [c] @ q_items q'
     \<and> (c \<noteq> Stopped \<longrightarrow> \<not> q_stop q')"
  by (induction rule: queue_step.induct) (auto simp: queue_defs split: if_splits)

lemma added_Cons: "added (c # cs) = added [c] @ added cs"
  by (cases c) auto

lemma took_Cons: "took (c # cs) = took [c] @ took cs"
  by (cases "c # cs" rule: took.cases) auto

lemma queue_run_fifo:
  "queue_run q cs q' \<Longrightarrow> \<not> q_stop q \<Longrightarrow> Stopped \<notin> set cs
     \<Longrightarrow> took cs @ q_items q' = q_items q @ added cs"
proof (induction rule: queue_run.induct)
  case (run_call q c q1 cs q2)
  have "took cs @ q_items q2 = q_items q1 @ added cs"
    using run_call queue_step_fifo [OF run_call.hyps(1)] by auto
  then show ?case
    using run_call queue_step_fifo [OF run_call.hyps(1)]
    by (metis added_Cons took_Cons append.assoc)
qed simp

lemma queue_run_stopped:
  "queue_run q cs q' \<Longrightarrow> q_stop q \<Longrightarrow> q' = q \<and> took cs = []"
proof (induction rule: queue_run.induct)
  case (run_call q c q1 cs q2)
  have "q1 = q \<and> took [c] = []"
    using run_call.hyps(1) run_call.prems
    by (cases rule: queue_step.cases) (auto simp: queue_defs split: if_splits)
  then show ?case using run_call took_Cons [of c cs] by simp
qed simp

text \<open>
  C21: for every interleaving of completed calls by any number of producers and consumers, until
  \<open>stop\<close>, the values taken out followed by the values still queued are exactly the values added,
  in order (nothing is lost, duplicated or reordered), and the queue never holds more than
  \<open>m_maxsize\<close> values.
\<close>

theorem queue_fifo:
  assumes "queue_run (Queue_new n) cs q'" and "Stopped \<notin> set cs"
  shows "took cs @ q_items q' = added cs \<and> Queue_size q' \<le> n"
  using queue_run_fifo [OF assms(1) _ assms(2)] queue_run_inv [OF assms(1)]
  by (simp add: Queue_new_def queue_inv_def Queue_size_def)

lemma queue_run_example:
  "queue_run (Queue_new 2) [Added (1::nat), Added 2, Took (Some 1), Added 3]
     \<lparr>q_items = [2, 3], q_maxsize = 2, q_stop = False\<rparr>"
proof -
  note run = queue_run.run_call and cmp = queue_defs Queue_new_def
  show ?thesis
    apply (rule run [OF queue_step.step_add], simp add: cmp)
    apply (rule run [OF queue_step.step_add], simp add: cmp)
    apply (rule run [OF queue_step.step_take [where u = 0]], simp add: cmp, simp)
    apply (rule run [OF queue_step.step_add], simp add: cmp)
    apply (simp add: queue_run.run_nil)
    done
qed

theorem queue_fifo_witness:
  "took [Added (1::nat), Added 2, Took (Some 1), Added 3] @ [2, 3]
     = added [Added 1, Added 2, Took (Some 1), Added 3]"
  using queue_fifo [OF queue_run_example] by simp

text \<open>
  No deadlock and clean shutdown. In every state a run reaches, unless the capacity is 0, a
  producer or a consumer can complete its call; and once \<open>stop\<close> was called every call of every
  later run completes at once, no value is handed out and the queued values stay where they are.
\<close>

lemma queue_progress_and_stop:
  assumes "queue_run (Queue_new n) cs q" and "0 < n"
  shows "(Queue_enqueue v q \<noteq> None \<or> Queue_dequeue u q \<noteq> None)
    \<and> (\<forall>ds q'. queue_run (Queue_stop q) ds q' \<longrightarrow>
          took ds = [] \<and> q_items q' = q_items q
        \<and> Queue_enqueue v q' = Some q' \<and> Queue_dequeue u q' = Some (u, q'))"
proof -
  have "q_maxsize q = n" using queue_run_inv [OF assms(1)] by (simp add: Queue_new_def queue_inv_def)
  then have live: "Queue_enqueue v q \<noteq> None \<or> Queue_dequeue u q \<noteq> None"
    using assms(2) by (auto simp: Queue_enqueue_def queue_defs)
  have "took ds = [] \<and> q_items q' = q_items q \<and> Queue_enqueue v q' = Some q'
      \<and> Queue_dequeue u q' = Some (u, q')" if "queue_run (Queue_stop q) ds q'" for ds q'
    using queue_run_stopped [OF that] by (simp add: Queue_enqueue_def queue_defs)
  with live show ?thesis by blast
qed

end
