(* ===== verification/Thread_Pool.thy ===== *)
theory Thread_Pool
  imports Task_Queue "HOL-Library.Sublist"
begin

text \<open>
  \<open>ThreadPool\<close> (\<open>util/threadpool.h\<close>, \<open>util/threadpool.cpp\<close>): one bounded queue and one worker
  thread per slot. A \<open>Task\<close> is a \<open>std::function\<close>, empty or not, hence \<open>'t option\<close>. The worker
  loop and \<open>stop_threadpool\<close> are cut at the points where another thread can run (the test of
  \<open>m_running\<close>, the queue calls, the task's call, each \<open>join\<close>), with a program counter each;
  \<open>pool_step\<close> interleaves them with the producers. The random engine of \<open>add_task\<close> is the
  argument \<open>r\<close>; its distribution is \<open>static thread_local\<close>, so its upper bound is the state \<open>tls\<close>
  of the calling thread, fixed by the first call that thread makes on any pool.
\<close>

section \<open>State and operations\<close>

datatype 't worker = LoopTest | Dequeueing | Calling 't | Exited

datatype stopper = NotStopped | StoppingQueue nat | Joining nat | Joined

record 't threadpool =
  tp_queues :: "'t option queue list"
  tp_thread_nums :: size_t
  tp_running :: bool
  tp_workers :: "'t worker list"
  tp_stopper :: stopper

definition ThreadPool_start :: "size_t \<Rightarrow> 't threadpool \<Rightarrow> 't threadpool" where
  "ThreadPool_start thread_nums p =
     p\<lparr>tp_workers := tp_workers p @ replicate (unat thread_nums) LoopTest\<rparr>"

definition ThreadPool_new :: "size_t \<Rightarrow> nat \<Rightarrow> 't threadpool" where
  "ThreadPool_new thread_nums queue_size =
     ThreadPool_start thread_nums
       \<lparr>tp_queues = replicate (unat thread_nums) (Queue_new queue_size),
        tp_thread_nums = thread_nums, tp_running = True, tp_workers = [],
        tp_stopper = NotStopped\<rparr>"

text \<open>
  \<open>u(e)\<close>: the distribution made on the thread's first call covers \<open>0 .. m_thread_nums - 1\<close> of
  that pool, converted to \<open>unsigned\<close>.
\<close>

definition random_index :: "u32 option \<Rightarrow> nat \<Rightarrow> 't threadpool \<Rightarrow> nat \<times> u32 option" where
  "random_index tls r p =
     (let ub = (case tls of Some b \<Rightarrow> b | None \<Rightarrow> ucast (tp_thread_nums p - 1))
      in (r mod (unat ub + 1), Some ub))"

text \<open>
  The result is the queue chosen with the new state, \<open>None\<close> while the queue is full (the caller
  blocks), a fault when the index is outside \<open>m_queues\<close>.
\<close>

definition enqueue_at ::
    "nat \<Rightarrow> 't option \<Rightarrow> 't threadpool \<Rightarrow> 't threadpool option res" where
  "enqueue_at pos task p =
     (if pos < length (tp_queues p)
      then Inr (map_option (\<lambda>q. p\<lparr>tp_queues := (tp_queues p)[pos := q]\<rparr>)
                  (Queue_enqueue task (tp_queues p ! pos)))
      else Inl OutOfRange)"

definition ThreadPool_add_task ::
    "u32 option \<Rightarrow> nat \<Rightarrow> 't option \<Rightarrow> size_t \<Rightarrow> 't threadpool
       \<Rightarrow> (nat \<times> u32 option \<times> 't threadpool) option res" where
  "ThreadPool_add_task tls r task index p =
     (if tp_thread_nums p \<le> index
      then let (pos, tls') = random_index tls r p
           in map_res (map_option (\<lambda>p'. (pos, tls', p'))) (enqueue_at pos task p)
      else map_res (map_option (\<lambda>p'. (unat index, tls, p'))) (enqueue_at (unat index) task p))"

text \<open>One turn of worker \<open>i\<close>: the task it called, if any; \<open>None\<close> while it is blocked or gone.\<close>

definition ThreadPool_worker :: "nat \<Rightarrow> 't threadpool \<Rightarrow> ('t option \<times> 't threadpool) option" where
  "ThreadPool_worker i p =
     (let goto = (\<lambda>w p. p\<lparr>tp_workers := (tp_workers p)[i := w]\<rparr>) in
      case tp_workers p ! i of
        LoopTest \<Rightarrow> Some (None, if tp_running p then goto Dequeueing p else goto Exited p)
      | Dequeueing \<Rightarrow>
          (case Queue_dequeue None (tp_queues p ! i) of
             None \<Rightarrow> None
           | Some (task, q) \<Rightarrow>
               let p1 = p\<lparr>tp_queues := (tp_queues p)[i := q]\<rparr> in
               (case task of
                  Some t \<Rightarrow> Some (None, goto (Calling t) p1)
                | None \<Rightarrow> Some (None, goto LoopTest p1)))
      | Calling t \<Rightarrow> Some (Some t, goto LoopTest p)
      | Exited \<Rightarrow> None)"

definition ThreadPool_stop :: "'t threadpool \<Rightarrow> 't threadpool" where
  "ThreadPool_stop p =
     (if tp_stopper p = NotStopped then p\<lparr>tp_stopper := StoppingQueue 0\<rparr> else p)"

text \<open>One turn of the thread inside \<open>stop_threadpool\<close>; \<open>None\<close> while it waits in \<open>join\<close>.\<close>

definition ThreadPool_stop_threadpool :: "'t threadpool \<Rightarrow> 't threadpool option" where
  "ThreadPool_stop_threadpool p =
     (case tp_stopper p of
        StoppingQueue k \<Rightarrow>
          if k < unat (tp_thread_nums p)
          then Some (p\<lparr>tp_queues := (tp_queues p)[k := Queue_stop (tp_queues p ! k)],
                       tp_stopper := StoppingQueue (Suc k)\<rparr>)
          else Some (p\<lparr>tp_running := False, tp_stopper := Joining 0\<rparr>)
      | Joining k \<Rightarrow>
          if k < length (tp_workers p)
          then if tp_workers p ! k = Exited then Some (p\<lparr>tp_stopper := Joining (Suc k)\<rparr>) else None
          else Some (p\<lparr>tp_stopper := Joined\<rparr>)
      | _ \<Rightarrow> None)"

section \<open>Interleavings\<close>

datatype 't pool_event = Placed nat "'t option" | Worked nat "'t option" | StopCalled | StopTurn

inductive pool_step :: "'t threadpool \<Rightarrow> 't pool_event \<Rightarrow> 't threadpool \<Rightarrow> bool" where
  turn_add: "ThreadPool_add_task tls r task index p = Inr (Some (pos, tls', p'))
     \<Longrightarrow> pool_step p (Placed pos task) p'"
| turn_work: "i < length (tp_workers p) \<Longrightarrow> ThreadPool_worker i p = Some (t, p')
     \<Longrightarrow> pool_step p (Worked i t) p'"
| turn_call_stop: "pool_step p StopCalled (ThreadPool_stop p)"
| turn_stop: "ThreadPool_stop_threadpool p = Some p' \<Longrightarrow> pool_step p StopTurn p'"

inductive pool_run :: "'t threadpool \<Rightarrow> 't pool_event list \<Rightarrow> 't threadpool \<Rightarrow> bool" where
  pool_nil: "pool_run p [] p"
| pool_snoc: "pool_run p es p1 \<Longrightarrow> pool_step p1 e p2 \<Longrightarrow> pool_run p (es @ [e]) p2"

definition somes :: "'t option list \<Rightarrow> 't list" where
  "somes xs = concat (map (\<lambda>x. case x of Some t \<Rightarrow> [t] | None \<Rightarrow> []) xs)"

text \<open>The non-empty tasks handed to queue \<open>i\<close>, and the tasks worker \<open>i\<close> called.\<close>

definition placed_on :: "nat \<Rightarrow> 't pool_event list \<Rightarrow> 't list" where
  "placed_on i es = somes (map (\<lambda>e. case e of Placed j t \<Rightarrow> if j = i then t else None | _ \<Rightarrow> None) es)"

definition called_by :: "nat \<Rightarrow> 't pool_event list \<Rightarrow> 't list" where
  "called_by i es = somes (map (\<lambda>e. case e of Worked j t \<Rightarrow> if j = i then t else None | _ \<Rightarrow> None) es)"

definition in_flight :: "'t worker \<Rightarrow> 't list" where
  "in_flight w = (case w of Calling t \<Rightarrow> [t] | _ \<Rightarrow> [])"

definition pool_wf :: "'t threadpool \<Rightarrow> bool" where
  "pool_wf p \<longleftrightarrow> length (tp_queues p) = unat (tp_thread_nums p)
     \<and> length (tp_workers p) = unat (tp_thread_nums p)"

text \<open>What remains to be done on slot \<open>i\<close>.\<close>

definition backlog :: "nat \<Rightarrow> 't threadpool \<Rightarrow> 't list" where
  "backlog i p = in_flight (tp_workers p ! i) @ somes (q_items (tp_queues p ! i))"

definition slot_inv :: "nat \<Rightarrow> 't pool_event list \<Rightarrow> 't threadpool \<Rightarrow> bool" where
  "slot_inv i es p \<longleftrightarrow> prefix (called_by i es @ backlog i p) (placed_on i es)
     \<and> (\<not> q_stop (tp_queues p ! i) \<longrightarrow> called_by i es @ backlog i p = placed_on i es)"

section \<open>Lemmas\<close>

named_theorems pool_ops

lemmas pool_op_defs [pool_ops] = ThreadPool_worker_def ThreadPool_stop_def
  ThreadPool_stop_threadpool_def ThreadPool_add_task_def enqueue_at_def Let_def Queue_enqueue_def

lemma somes_simps [simp]:
  "somes [] = []" "somes (None # xs) = somes xs" "somes (Some t # xs) = t # somes xs"
  "somes (xs @ ys) = somes xs @ somes ys"
  by (auto simp: somes_def)

lemma trace_snoc [simp]:
  "placed_on i [] = []" "called_by i [] = []"
  "placed_on i (es @ [e]) = placed_on i es @ placed_on i [e]"
  "called_by i (es @ [e]) = called_by i es @ called_by i [e]"
  by (simp_all add: placed_on_def called_by_def)

lemma trace_one [simp]:
  "placed_on i [Placed j t] = (if j = i then somes [t] else [])" "placed_on i [Worked j t] = []"
  "placed_on i [StopCalled] = []" "placed_on i [StopTurn] = []"
  "called_by i [Worked j t] = (if j = i then somes [t] else [])" "called_by i [Placed j t] = []"
  "called_by i [StopCalled] = []" "called_by i [StopTurn] = []"
  by (auto simp: placed_on_def called_by_def)

lemma new_wf [simp]: "pool_wf (ThreadPool_new n k)"
  by (simp add: pool_wf_def ThreadPool_new_def ThreadPool_start_def)

lemma add_task_cases:
  assumes "ThreadPool_add_task tls r task index p = Inr (Some (pos, tls', p'))"
  obtains q where "pos < length (tp_queues p)" "Queue_add task (tp_queues p ! pos) = Some q"
    "p' = p\<lparr>tp_queues := (tp_queues p)[pos := q]\<rparr>"
  using assms
  by (auto simp: pool_ops map_res_def random_index_def split: if_splits sum.splits option.splits)

lemma step_wf: "pool_step p e p' \<Longrightarrow> pool_wf p \<Longrightarrow> pool_wf p' \<and> tp_thread_nums p' = tp_thread_nums p"
proof (induction rule: pool_step.induct)
  case (turn_add tls r task index p pos tls' p')
  then show ?case by (elim add_task_cases) (simp add: pool_wf_def)
qed (auto simp: pool_ops pool_wf_def split: worker.splits stopper.splits option.splits if_splits)

lemma run_wf: "pool_run p es p' \<Longrightarrow> pool_wf p \<Longrightarrow> pool_wf p' \<and> tp_thread_nums p' = tp_thread_nums p"
  by (induction rule: pool_run.induct) (auto dest: step_wf)

lemma slot_inv_work:
  assumes "slot_inv i es p" "j < length (tp_workers p)" "pool_wf p"
    "ThreadPool_worker j p = Some (t, p')"
  shows "slot_inv i (es @ [Worked j t]) p'"
  using assms
  by (cases "j = i")
    (auto simp: slot_inv_def backlog_def in_flight_def pool_wf_def pool_ops Queue_dequeue_def
       Queue_notempty_def neq_Nil_conv split: worker.splits option.splits if_splits)

lemma prefix_grow: "xs @ ys @ zs = w \<Longrightarrow> prefix (xs @ ys @ zs @ u) (w @ u)"
  by auto

lemma slot_inv_add:
  assumes "slot_inv i es p" "ThreadPool_add_task tls r task index p = Inr (Some (pos, tls', p'))"
  shows "slot_inv i (es @ [Placed pos task]) p'"
  using assms
  by (elim add_task_cases) (auto simp: slot_inv_def backlog_def Queue_add_def nth_list_update
       split: if_splits intro: prefix_prefix prefix_grow)

lemma slot_inv_stop:
  assumes "slot_inv i es p" "pool_wf p" "ThreadPool_stop_threadpool p = Some p'"
  shows "slot_inv i (es @ [StopTurn]) p'"
  using assms
  by (auto simp: slot_inv_def backlog_def pool_ops pool_wf_def nth_list_update Queue_stop_def
       split: stopper.splits if_splits)

lemma slot_inv_call_stop: "slot_inv i es p \<Longrightarrow> slot_inv i (es @ [StopCalled]) (ThreadPool_stop p)"
  by (simp add: slot_inv_def backlog_def ThreadPool_stop_def)

lemma slot_inv_run:
  "pool_run p es p' \<Longrightarrow> pool_wf p \<Longrightarrow> slot_inv i [] p \<Longrightarrow> slot_inv i es p'"
proof (induction rule: pool_run.induct)
  case (pool_snoc p es p1 e p2)
  have inv: "slot_inv i es p1" "pool_wf p1"
    using pool_snoc run_wf by auto
  show ?case
    using pool_snoc.hyps(2) inv
    by (cases rule: pool_step.cases)
      (auto intro: slot_inv_work slot_inv_add slot_inv_stop slot_inv_call_stop)
qed simp

text \<open>
  C23: for every interleaving of producers, workers and \<open>stop\<close>, the tasks worker \<open>i\<close> has called
  form a prefix of the tasks that were handed to queue \<open>i\<close>, in the order they were handed over
  (no task is called twice, reordered or called by another worker), and until the queue is stopped
  the called tasks, the one in the worker's hands and the queued ones are all of them.
\<close>

theorem pool_calls_in_order:
  assumes "pool_run (ThreadPool_new n k) es p" and "i < unat n"
  shows "prefix (called_by i es) (placed_on i es)
    \<and> (\<not> q_stop (tp_queues p ! i) \<longrightarrow> called_by i es @ backlog i p = placed_on i es)"
proof -
  have "slot_inv i [] (ThreadPool_new n k)"
    using assms(2)
    by (simp add: slot_inv_def backlog_def in_flight_def ThreadPool_new_def ThreadPool_start_def Queue_new_def)
  from slot_inv_run [OF assms(1) _ this] show ?thesis
    by (auto simp: slot_inv_def dest: append_prefixD)
qed

lemma pool_run_snoc: "pool_run p es p1 \<Longrightarrow> pool_step p1 e p2 \<Longrightarrow> es' = es @ [e] \<Longrightarrow> pool_run p es' p2"
  by (simp add: pool_run.pool_snoc)

lemma pool_run_example:
  "pool_run (ThreadPool_new 1 4) [Placed 0 (Some (7::nat)), Worked 0 None, Worked 0 None, Worked 0 (Some 7)]
     \<lparr>tp_queues = [Queue_new 4], tp_thread_nums = 1, tp_running = True, tp_workers = [LoopTest],
      tp_stopper = NotStopped\<rparr>"
proof -
  note cmp = pool_ops map_res_def random_index_def ThreadPool_new_def ThreadPool_start_def
    queue_defs Queue_new_def
  let ?p = "\<lambda>q w. \<lparr>tp_queues = [(Queue_new 4)\<lparr>q_items := q\<rparr>], tp_thread_nums = 1,
    tp_running = True, tp_workers = [w], tp_stopper = NotStopped\<rparr>"
  have 1: "pool_step (ThreadPool_new 1 4) (Placed 0 (Some (7::nat))) (?p [Some 7] LoopTest)"
    by (rule pool_step.turn_add [where tls = None and r = 0 and index = 0 and tls' = None])
      (simp add: cmp)
  have 2: "pool_step (?p [Some (7::nat)] LoopTest) (Worked 0 None) (?p [Some 7] Dequeueing)"
    by (rule pool_step.turn_work) (simp_all add: cmp)
  have 3: "pool_step (?p [Some (7::nat)] Dequeueing) (Worked 0 None) (?p [] (Calling 7))"
    by (rule pool_step.turn_work) (simp_all add: cmp)
  have 4: "pool_step (?p [] (Calling (7::nat))) (Worked 0 (Some 7)) (?p [] LoopTest)"
    by (rule pool_step.turn_work) (simp_all add: cmp)
  have "pool_run (ThreadPool_new 1 4)
     (((([] @ [Placed 0 (Some (7::nat))]) @ [Worked 0 None]) @ [Worked 0 None]) @ [Worked 0 (Some 7)]) (?p [] LoopTest)"
    by (rule pool_run.pool_snoc [OF pool_run.pool_snoc [OF pool_run.pool_snoc [OF
          pool_run.pool_snoc [OF pool_run.pool_nil 1] 2] 3] 4])
  then show ?thesis by (simp add: Queue_new_def)
qed

theorem pool_calls_in_order_witness:
  "prefix (called_by 0 [Placed 0 (Some (7::nat)), Worked 0 None, Worked 0 None, Worked 0 (Some 7)])
     [7]"
  using pool_calls_in_order [OF pool_run_example, of 0]
    trace_snoc(3) [of 0 "[]" "Placed 0 (Some (7::nat))"]
  by (simp add: placed_on_def somes_def)

section \<open>Placement\<close>

text \<open>The states of a calling thread that has only ever used pools of this size.\<close>

definition tls_ok :: "u32 option \<Rightarrow> 't threadpool \<Rightarrow> bool" where
  "tls_ok tls p \<longleftrightarrow> tls = None \<or> tls = Some (ucast (tp_thread_nums p - 1))"

lemma random_index_in_range:
  assumes "tls_ok tls p" and "0 < tp_thread_nums p" and "tp_thread_nums p < 2 ^ 32"
    and "random_index tls r p = (pos, tls')"
  shows "pos < unat (tp_thread_nums p) \<and> tls_ok tls' p"
proof -
  let ?n = "tp_thread_nums p"
  have n: "unat (?n - 1) = unat ?n - 1" "0 < unat ?n" "unat ?n < 2 ^ 32"
    using assms(2,3) unat_minus_one [of ?n] by (auto simp: word_less_nat_alt simp flip: unat_eq_0)
  have "unat (ucast (?n - 1) :: u32) = unat ?n - 1"
    using n by (simp add: unsigned_ucast_eq take_bit_nat_eq_self)
  then have "unat (ucast (?n - 1) :: u32) + 1 = unat ?n" using n by simp
  then show ?thesis
    using assms(1,4) n(2) by (auto simp: random_index_def tls_ok_def Let_def)
qed

text \<open>
  \<open>add_task\<close> on a pool of at least one and fewer than \<open>2^32\<close> threads, called by a thread that
  has used only pools of that size, never indexes outside \<open>m_queues\<close>: whatever the random engine
  returns and whatever index is passed, the task goes to the back of exactly one queue (the one the
  caller named, when the index names one) or the caller blocks because that queue is full.
\<close>

theorem add_task_places:
  assumes "pool_wf p" and "tls_ok tls p" and "0 < tp_thread_nums p" and "tp_thread_nums p < 2 ^ 32"
  shows "\<exists>pos < unat (tp_thread_nums p). (index < tp_thread_nums p \<longrightarrow> pos = unat index) \<and>
    (let q = tp_queues p ! pos in
     if \<not> q_stop q \<and> Queue_full q then ThreadPool_add_task tls r task index p = Inr None
     else \<exists>tls'. tls_ok tls' p \<and> ThreadPool_add_task tls r task index p =
       Inr (Some (pos, tls', p\<lparr>tp_queues := (tp_queues p)[pos :=
         if q_stop q then q else q\<lparr>q_items := q_items q @ [task]\<rparr>]\<rparr>)))"
proof -
  obtain rpos rtls where r: "random_index tls r p = (rpos, rtls)" by force
  define pos where "pos = (if index < tp_thread_nums p then unat index else rpos)"
  define tls' where "tls' = (if index < tp_thread_nums p then tls else rtls)"
  have pos: "pos < unat (tp_thread_nums p)" "tls_ok tls' p"
    using random_index_in_range [OF assms(2-4) r] assms(2)
    by (auto simp: pos_def tls'_def word_less_nat_alt)
  have eq: "ThreadPool_add_task tls r task index p
      = map_res (map_option (\<lambda>p'. (pos, tls', p'))) (enqueue_at pos task p)"
    by (auto simp: ThreadPool_add_task_def r pos_def tls'_def not_less)
  have named: "index < tp_thread_nums p \<longrightarrow> pos = unat index" by (simp add: pos_def)
  have len: "pos < length (tp_queues p)" using pos(1) assms(1) by (simp add: pool_wf_def)
  show ?thesis
    by (rule exI [of _ pos]) (use pos named len in \<open>auto simp: eq enqueue_at_def Queue_enqueue_def
      Queue_add_def Queue_notfull_def Queue_full_def Let_def map_res_def not_le\<close>)
qed

theorem add_task_places_witness:
  "\<exists>tls' p'. ThreadPool_add_task None 6 (Some (9::nat)) 2 (ThreadPool_new 4 5) = Inr (Some (2, tls', p'))"
proof -
  have "tp_thread_nums (ThreadPool_new 4 5 :: nat threadpool) = 4"
    "tp_queues (ThreadPool_new 4 5 :: nat threadpool) ! 2 = Queue_new 5"
    by (simp_all add: ThreadPool_new_def ThreadPool_start_def)
  then show ?thesis
    using add_task_places [OF new_wf, of None 4 5 2 6 "Some (9::nat)"]
    by (auto simp: tls_ok_def Queue_new_def Queue_full_def)
qed

text \<open>
  The restriction on the calling thread is needed: a thread that first used a pool of four threads
  keeps the distribution \<open>0 .. 3\<close> and then indexes outside the queues of a pool of two.
\<close>

lemma add_task_second_pool_out_of_range:
  "random_index None 3 (ThreadPool_new 4 2 :: nat threadpool) = (3, Some 3)"
  "ThreadPool_add_task (Some 3) 3 (Some (9::nat)) (- 1) (ThreadPool_new 2 2) = Inl OutOfRange"
  by (simp_all add: random_index_def ThreadPool_add_task_def ThreadPool_new_def ThreadPool_start_def
      enqueue_at_def map_res_def)

section \<open>Shutdown\<close>

text \<open>What the thread inside \<open>stop_threadpool\<close> has achieved at each point.\<close>

definition stop_inv :: "'t threadpool \<Rightarrow> bool" where
  "stop_inv p \<longleftrightarrow>
     (case tp_stopper p of
        NotStopped \<Rightarrow> True
      | StoppingQueue k \<Rightarrow> \<forall>i < k. q_stop (tp_queues p ! i)
      | Joining k \<Rightarrow> \<not> tp_running p \<and> (\<forall>i < unat (tp_thread_nums p). q_stop (tp_queues p ! i))
          \<and> k \<le> unat (tp_thread_nums p) \<and> (\<forall>i < k. tp_workers p ! i = Exited)
      | Joined \<Rightarrow> \<not> tp_running p \<and> (\<forall>i < unat (tp_thread_nums p). tp_workers p ! i = Exited))"

fun worker_rank :: "'t worker \<Rightarrow> nat" where
  "worker_rank Exited = 0"
| "worker_rank LoopTest = 1"
| "worker_rank Dequeueing = 2"
| "worker_rank (Calling t) = 2"

definition stop_rank :: "'t threadpool \<Rightarrow> nat" where
  "stop_rank p = sum_list (map worker_rank (tp_workers p))
     + (case tp_stopper p of Joining k \<Rightarrow> Suc (length (tp_workers p)) - k | _ \<Rightarrow> 0)"

lemma queue_stop_kept:
  "Queue_add t q = Some q' \<Longrightarrow> q_stop q' = q_stop q"
  "Queue_dequeue u q = Some (v, q') \<Longrightarrow> q_stop q' = q_stop q"
  by (auto simp: Queue_add_def Queue_dequeue_def split: if_splits)

lemma update_stop_kept:
  "q_stop q' = q_stop (qs ! i) \<Longrightarrow> q_stop (qs[i := q'] ! j) = q_stop (qs ! j)"
  by (cases "i < length qs") (auto simp: nth_list_update list_update_beyond)

lemma worker_turn:
  assumes "ThreadPool_worker i p = Some (t, p')"
  shows "\<exists>w. tp_workers p ! i \<noteq> Exited \<and> tp_workers p' = (tp_workers p)[i := w]
    \<and> (\<forall>j. q_stop (tp_queues p' ! j) = q_stop (tp_queues p ! j))
    \<and> tp_running p' = tp_running p \<and> tp_stopper p' = tp_stopper p
    \<and> tp_thread_nums p' = tp_thread_nums p
    \<and> (\<not> tp_running p \<longrightarrow> q_stop (tp_queues p ! i) \<longrightarrow> worker_rank w < worker_rank (tp_workers p ! i))"
proof (cases "tp_workers p ! i")
  case Dequeueing
  then obtain v q where q: "Queue_dequeue None (tp_queues p ! i) = Some (v, q)"
    using assms by (auto simp: ThreadPool_worker_def split: option.splits)
  have "q_stop (tp_queues p ! i) \<Longrightarrow> v = None" using q by (simp add: Queue_dequeue_def)
  then show ?thesis
    using assms Dequeueing q update_stop_kept [OF queue_stop_kept(2) [OF q]]
    by (cases v) (auto simp: ThreadPool_worker_def)
qed (use assms in \<open>auto simp: ThreadPool_worker_def split: if_splits\<close>)

lemma add_turn:
  assumes "ThreadPool_add_task tls r task index p = Inr (Some (pos, tls', p'))"
  shows "tp_workers p' = tp_workers p \<and> tp_running p' = tp_running p \<and> tp_stopper p' = tp_stopper p
    \<and> tp_thread_nums p' = tp_thread_nums p
    \<and> (\<forall>j. q_stop (tp_queues p' ! j) = q_stop (tp_queues p ! j))"
  using assms by (elim add_task_cases) (simp add: update_stop_kept queue_stop_kept(1))

lemma stop_inv_step:
  assumes "pool_step p e p'" and "stop_inv p" and "pool_wf p"
  shows "stop_inv p'"
  using assms(1)
proof cases
  case (turn_add tls r task index pos tls')
  then show ?thesis
    using assms(2) add_turn [OF turn_add(2)] by (auto simp: stop_inv_def split: stopper.splits)
next
  case (turn_work i t)
  then show ?thesis
    using assms(2,3) worker_turn [OF turn_work(3)]
    by (auto simp: stop_inv_def nth_list_update pool_wf_def split: stopper.splits)
next
  case turn_call_stop
  then show ?thesis using assms(2) by (auto simp: stop_inv_def ThreadPool_stop_def)
next
  case turn_stop
  then show ?thesis
    using assms(2,3)
    by (auto simp: stop_inv_def ThreadPool_stop_threadpool_def pool_wf_def nth_list_update
        Queue_stop_def less_Suc_eq split: stopper.splits if_splits)
qed

lemma stop_inv_run: "pool_run p es p' \<Longrightarrow> stop_inv p \<Longrightarrow> pool_wf p \<Longrightarrow> stop_inv p'"
  by (induction rule: pool_run.induct) (auto dest: stop_inv_step run_wf)

lemma sum_rank_update:
  "i < length ws \<Longrightarrow> worker_rank w < worker_rank (ws ! i)
     \<Longrightarrow> sum_list (map worker_rank (ws[i := w])) < sum_list (map worker_rank ws)"
  by (induction ws arbitrary: i) (auto split: nat.splits)

lemma stop_rank_step:
  assumes "pool_step p e p'" and "stop_inv p" and "pool_wf p" and "tp_stopper p = Joining k"
  shows "case e of Placed i t \<Rightarrow> stop_rank p' = stop_rank p | StopCalled \<Rightarrow> p' = p
    | _ \<Rightarrow> stop_rank p' < stop_rank p"
  using assms(1)
proof cases
  case (turn_work i t)
  obtain w where "tp_workers p' = (tp_workers p)[i := w]" "tp_stopper p' = tp_stopper p"
    "worker_rank w < worker_rank (tp_workers p ! i)"
    using worker_turn [OF turn_work(3)] assms(2-4) turn_work(2) by (auto simp: stop_inv_def pool_wf_def)
  then show ?thesis
    using sum_rank_update [OF turn_work(2)] turn_work(1) assms(4) by (simp add: stop_rank_def)
next
  case (turn_add tls r task index pos tls')
  then show ?thesis using add_turn [OF turn_add(2)] assms(4) by (simp add: stop_rank_def)
qed (use assms(2-4) in \<open>auto simp: stop_inv_def pool_wf_def ThreadPool_stop_def ThreadPool_stop_threadpool_def stop_rank_def
      split: if_splits\<close>)

lemma joining_can_move:
  assumes "stop_inv p" and "pool_wf p" and "tp_stopper p = Joining k"
  shows "(\<exists>p'. ThreadPool_stop_threadpool p = Some p')
    \<or> (\<exists>i t p'. i < length (tp_workers p) \<and> ThreadPool_worker i p = Some (t, p'))"
proof (cases "k < length (tp_workers p) \<and> tp_workers p ! k \<noteq> Exited")
  case True
  then have "q_stop (tp_queues p ! k)" using assms by (auto simp: stop_inv_def pool_wf_def)
  then have "ThreadPool_worker k p \<noteq> None"
    using True by (auto simp: ThreadPool_worker_def Let_def Queue_dequeue_def split: worker.splits)
  then show ?thesis using True by force
next
  case False
  then show ?thesis using assms(3) by (auto simp: ThreadPool_stop_threadpool_def)
qed

lemma new_stop_inv: "stop_inv (ThreadPool_new n k)"
  by (simp add: stop_inv_def ThreadPool_new_def ThreadPool_start_def)

text \<open>
  C24: \<open>stop\<close> terminates and leaves no worker behind. In every reachable state in which the queues
  are stopped and the joins have begun, the stopping thread or some worker can move, every move of
  one of them strictly lowers a rank bounded by the state, no other thread's call raises it, and a
  second \<open>stop\<close> changes nothing; when the joins are over every worker has left its loop.
\<close>

theorem pool_stop_terminates:
  assumes "pool_run (ThreadPool_new n m) es p"
  shows "(tp_stopper p = Joined \<longrightarrow> (\<forall>i < unat n. tp_workers p ! i = Exited)) \<and>
    (tp_stopper p = Joining k \<longrightarrow>
       (\<exists>e p'. pool_step p e p' \<and> (e = StopTurn \<or> (\<exists>i t. e = Worked i t)))
     \<and> (\<forall>e p'. pool_step p e p' \<longrightarrow>
          (case e of Placed i t \<Rightarrow> stop_rank p' = stop_rank p | StopCalled \<Rightarrow> p' = p
           | _ \<Rightarrow> stop_rank p' < stop_rank p)))"
proof -
  have inv: "stop_inv p" "pool_wf p" "tp_thread_nums p = n"
    using stop_inv_run [OF assms new_stop_inv new_wf] run_wf [OF assms new_wf]
    by (auto simp: ThreadPool_new_def ThreadPool_start_def)
  have "\<exists>e p'. pool_step p e p' \<and> (e = StopTurn \<or> (\<exists>i t. e = Worked i t))"
    if "tp_stopper p = Joining k"
    using joining_can_move [OF inv(1,2) that] pool_step.turn_work pool_step.turn_stop by blast
  moreover have "\<forall>i < unat n. tp_workers p ! i = Exited" if "tp_stopper p = Joined"
    using inv that by (simp add: stop_inv_def)
  ultimately show ?thesis
    using stop_rank_step [OF _ inv(1,2)] by blast
qed

lemma pool_stop_example:
  "pool_run (ThreadPool_new 1 4) ((([] @ [StopCalled]) @ [StopTurn]) @ [StopTurn])
     \<lparr>tp_queues = [Queue_stop (Queue_new 4 :: nat option queue)], tp_thread_nums = 1, tp_running = False,
      tp_workers = [LoopTest], tp_stopper = Joining 0\<rparr>"
proof -
  note cmp = pool_ops ThreadPool_new_def ThreadPool_start_def
  show ?thesis
    apply (rule pool_run.pool_snoc, rule pool_run.pool_snoc, rule pool_run.pool_snoc)
       apply (rule pool_run.pool_nil)
      apply (rule pool_step.turn_call_stop)
     apply (rule pool_step.turn_stop, simp add: cmp)
    apply (rule pool_step.turn_stop, simp add: cmp)
    done
qed

theorem pool_stop_terminates_witness:
  "\<exists>e p'. pool_step \<lparr>tp_queues = [Queue_stop (Queue_new 4 :: nat option queue)], tp_thread_nums = 1,
      tp_running = False, tp_workers = [LoopTest], tp_stopper = Joining 0\<rparr> e p'"
  using pool_stop_terminates [OF pool_stop_example, of 0] by auto

end
