(* ===== verification/Ioc_Pool.thy ===== *)
theory Ioc_Pool
  imports Sparrow_Prelude
begin

text \<open>
  \<open>IocPool\<close> (\<open>net/iocpool.h\<close>, \<open>net/iocpool.cpp\<close>): the io contexts, one thread each, handed out in
  turn. A context is its number. \<open>get_iocontext\<close> is first a whole call, as when one thread makes
  it; then its three accesses to the atomic \<open>m_ioc_pos\<close> are separate steps, because nothing holds
  a lock across them and the acceptor thread and the starting thread both call it.
\<close>

record iocpool =
  m_iocs :: "nat list"
  m_ioc_works :: "nat list"
  m_threads :: "nat list"
  m_ioc_pos :: size_t

definition IocPool_new :: "nat \<Rightarrow> iocpool" where
  "IocPool_new sz = \<lparr>m_iocs = [0..<sz], m_ioc_works = [0..<sz], m_threads = [0..<sz], m_ioc_pos = 0\<rparr>"

definition IocPool_get_iocontext :: "iocpool \<Rightarrow> (nat \<times> iocpool) res" where
  "IocPool_get_iocontext p =
     (if unat (m_ioc_pos p) < length (m_iocs p)
      then let ioc = m_iocs p ! unat (m_ioc_pos p);
               pos = m_ioc_pos p + 1;
               pos' = (if unat pos \<ge> length (m_iocs p) then 0 else pos)
           in Inr (ioc, p\<lparr>m_ioc_pos := pos'\<rparr>)
      else Inl OutOfRange)"

text \<open>The contexts are stopped and destroyed, then the work guards, then the threads are joined.\<close>

definition IocPool_stop :: "iocpool \<Rightarrow> iocpool" where
  "IocPool_stop p = p\<lparr>m_iocs := [], m_ioc_works := [], m_threads := []\<rparr>"

fun IocPool_gets :: "nat \<Rightarrow> iocpool \<Rightarrow> (nat list \<times> iocpool) res" where
  "IocPool_gets 0 p = Inr ([], p)"
| "IocPool_gets (Suc n) p =
     bind_res (IocPool_get_iocontext p) (\<lambda>(i, p1).
       map_res (\<lambda>(is, p2). (i # is, p2)) (IocPool_gets n p1))"

lemma get_iocontext_ok:
  assumes "m_iocs p = [0..<sz]" and "unat (m_ioc_pos p) < sz" and "sz < 2 ^ 64"
  shows "IocPool_get_iocontext p
    = Inr (unat (m_ioc_pos p), p\<lparr>m_ioc_pos := of_nat (Suc (unat (m_ioc_pos p)) mod sz)\<rparr>)"
proof -
  have "unat (m_ioc_pos p + 1) = Suc (unat (m_ioc_pos p))"
    using unat_add_lt [of "m_ioc_pos p" 1] assms(2,3) by simp
  moreover have "of_nat (Suc (unat (m_ioc_pos p))) = m_ioc_pos p + 1" by simp
  ultimately show ?thesis
    using assms by (cases "Suc (unat (m_ioc_pos p)) = sz") (auto simp: IocPool_get_iocontext_def Let_def)
qed

lemma gets_round_robin:
  assumes "m_iocs p = [0..<sz]" and "unat (m_ioc_pos p) < sz" and "sz < 2 ^ 64"
  shows "\<exists>p'. IocPool_gets n p = Inr (map (\<lambda>k. (unat (m_ioc_pos p) + k) mod sz) [0..<n], p')
    \<and> m_iocs p' = m_iocs p \<and> unat (m_ioc_pos p') < sz"
  using assms
proof (induction n arbitrary: p)
  case (Suc n)
  let ?i = "unat (m_ioc_pos p)"
  let ?p = "p\<lparr>m_ioc_pos := of_nat (Suc ?i mod sz)\<rparr>"
  have pos: "unat (m_ioc_pos ?p) = Suc ?i mod sz"
    using Suc.prems by (simp add: unat_of_nat_lt less_trans [OF mod_less_divisor])
  then obtain p' where "IocPool_gets n ?p = Inr (map (\<lambda>k. (Suc ?i mod sz + k) mod sz) [0..<n], p')"
      "m_iocs p' = m_iocs p" "unat (m_ioc_pos p') < sz"
    using Suc.IH [of ?p] Suc.prems by auto
  moreover have "map (\<lambda>k. (?i + k) mod sz) [0..<Suc n] = ?i # map (\<lambda>k. (Suc ?i mod sz + k) mod sz) [0..<n]"
    using Suc.prems(2) by (simp add: upt_conv_Cons map_Suc_upt [symmetric] mod_add_left_eq del: upt_Suc map_Suc_upt)
  ultimately show ?case using get_iocontext_ok [OF Suc.prems] by simp
qed simp

text \<open>
  C39: Called by one thread, \<open>get_iocontext\<close> of a pool of \<open>sz\<close> contexts is a fair round robin: the
  \<open>k\<close>-th call returns context \<open>k mod sz\<close>, for any number of calls, and no call ever indexes
  outside \<open>m_iocs\<close>.
\<close>

theorem get_iocontext_round_robin:
  assumes "0 < sz" and "sz < 2 ^ 64"
  shows "\<exists>p'. IocPool_gets n (IocPool_new sz) = Inr (map (\<lambda>k. k mod sz) [0..<n], p')"
  using gets_round_robin [of "IocPool_new sz" sz n] assms by (auto simp: IocPool_new_def)

theorem get_iocontext_round_robin_witness:
  "\<exists>p'. IocPool_gets 7 (IocPool_new 3) = Inr ([0, 1, 2, 0, 1, 2, 0], p')"
proof -
  have "map (\<lambda>k. k mod 3) [0..<7] = [0, 1, 2, 0, 1, 2, 0 :: nat]" by code_simp
  then show ?thesis using get_iocontext_round_robin [of 3 7] by simp
qed

section \<open>Two threads\<close>

text \<open>The atomic accesses of a call, and a schedule of them on the shared position.\<close>

datatype ioc_part = FetchContext | Increment | WrapAround

definition ioc_access :: "ioc_part \<Rightarrow> iocpool \<Rightarrow> iocpool res" where
  "ioc_access a p =
     (case a of
        FetchContext \<Rightarrow> if unat (m_ioc_pos p) < length (m_iocs p) then Inr p else Inl OutOfRange
      | Increment \<Rightarrow> Inr (p\<lparr>m_ioc_pos := m_ioc_pos p + 1\<rparr>)
      | WrapAround \<Rightarrow>
          Inr (if unat (m_ioc_pos p) \<ge> length (m_iocs p) then p\<lparr>m_ioc_pos := 0\<rparr> else p))"

text \<open>The three accesses in a row are a call.\<close>

lemma get_iocontext_accesses:
  "map_res snd (IocPool_get_iocontext p) = fold_res ioc_access [FetchContext, Increment, WrapAround] p"
  by (simp add: IocPool_get_iocontext_def ioc_access_def Let_def)

text \<open>
  A second thread that fetches its context between the first thread's increment and its wrap-around
  reads past the end of \<open>m_iocs\<close>, for every pool size.
\<close>

lemma get_iocontext_race:
  assumes "0 < sz" and "sz < 2 ^ 64" and "m_iocs p = [0..<sz]" and "unat (m_ioc_pos p) = sz - 1"
  shows "fold_res ioc_access [FetchContext, Increment, FetchContext] p = Inl OutOfRange"
proof -
  have "unat (m_ioc_pos p + 1) = sz"
    using unat_add_lt [of "m_ioc_pos p" 1] assms by simp
  then show ?thesis using assms by (simp add: ioc_access_def)
qed

end
