(* ===== verification/Server.thy ===== *)
theory Server
  imports Write_Path Thread_Pool Ioc_Pool
begin

text \<open>
  \<open>Server\<close> (\<open>net/server.h\<close>, \<open>net/server.cpp\<close>): the accepting side. Its state holds the two pools,
  the acceptors, the accepts in flight (acceptor and connection), the connections it created with the
  context of each (a connection is named by its position) and the connection table of each io thread (\<open>m_conn_manager\<close> is \<open>thread_local\<close>). The results of the operating system (an accept, an
  endpoint, a bind) are arguments; \<open>clock\<close> is the reading of \<open>system_clock\<close> in seconds at a call.
  The handlers are interpretations of the interfaces \<open>frame_consumer\<close> and \<open>steady_observer\<close>.
\<close>

section \<open>State\<close>

type_synonym task = "conn_ref \<times> msgbuffer"
type_synonym endpoint_info = "(bytes \<times> int) \<times> (bytes \<times> int) \<times> size_t"
type_synonym garbage = "conn_ref \<Rightarrow> size_t \<times> int \<times> int \<times> u64 \<times> u64"

record server =
  s_ports :: "int list"
  s_worker_num :: size_t
  s_conn_worker_num :: size_t
  s_run :: bool
  s_worker_pool :: "task threadpool option"
  s_ioc_pool :: "iocpool option"
  s_acceptors :: "u16 list"
  s_acceptor_thread :: bool
  s_accepting :: "(nat \<times> conn_ref) list"
  s_conns :: "conn list"
  s_context :: "nat list"
  s_conn_manager :: "nat \<Rightarrow> size_t \<rightharpoonup> conn_ref"

text \<open>How opening a port goes: \<open>open\<close> and \<open>listen\<close> throw, \<open>bind\<close> and \<open>set_option\<close> report.\<close>

datatype port_outcome = OpenThrows | BindFails | OptionFails | ListenThrows | Listens

section \<open>Operations\<close>

definition Server_new :: "int list \<Rightarrow> size_t \<Rightarrow> size_t \<Rightarrow> server" where
  "Server_new ports worker_num conn_worker_num =
     \<lparr>s_ports = ports, s_worker_num = worker_num, s_conn_worker_num = conn_worker_num,
      s_run = False, s_worker_pool = None, s_ioc_pool = None, s_acceptors = [],
      s_acceptor_thread = False, s_accepting = [], s_conns = [], s_context = [],
      s_conn_manager = (\<lambda>_. Map.empty)\<rparr>"

text \<open>One turn of the loop in \<open>async_accept\<close>: a context, a connection, an accept into it.\<close>

definition Server_accept_on :: "garbage \<Rightarrow> nat \<Rightarrow> server \<Rightarrow> server res" where
  "Server_accept_on g acceptor s =
     (case s_ioc_pool s of
        None \<Rightarrow> Inl NullDeref
      | Some pool \<Rightarrow>
          bind_res (IocPool_get_iocontext pool) (\<lambda>(ioc, pool').
            let i = length (s_conns s) in
            Inr (s\<lparr>s_ioc_pool := Some pool',
                   s_conns := s_conns s @ [Connection_new i True None 1000 (g i)],
                   s_context := s_context s @ [ioc],
                   s_accepting := s_accepting s @ [(acceptor, i)]\<rparr>)))"

definition Server_async_accept :: "garbage \<Rightarrow> server \<Rightarrow> server res" where
  "Server_async_accept g s = fold_res (Server_accept_on g) [0..<length (s_acceptors s)] s"

text \<open>\<open>start\<close>: the loop over the ports returns from the whole function at the first failure.\<close>

fun Server_open_ports :: "(u16 \<Rightarrow> port_outcome) \<Rightarrow> int list \<Rightarrow> server \<Rightarrow> (bool \<times> server) res" where
  "Server_open_ports os [] s = Inr (True, s)"
| "Server_open_ports os (port # ports) s =
     (let p = word_of_int port; s1 = s\<lparr>s_acceptors := s_acceptors s @ [p]\<rparr> in
      case os p of
        OpenThrows \<Rightarrow> Inl SystemError
      | BindFails \<Rightarrow> Inr (False, s1)
      | OptionFails \<Rightarrow> Inr (False, s1)
      | ListenThrows \<Rightarrow> Inl SystemError
      | Listens \<Rightarrow> Server_open_ports os ports s1)"

definition Server_start :: "garbage \<Rightarrow> (u16 \<Rightarrow> port_outcome) \<Rightarrow> server \<Rightarrow> server res" where
  "Server_start g os s =
     (let s1 = s\<lparr>s_worker_pool := Some (ThreadPool_new (s_worker_num s) 10000),
                 s_ioc_pool := Some (IocPool_new (unat (s_conn_worker_num s))), s_run := True\<rparr> in
      bind_res (Server_open_ports os (s_ports s1) s1) (\<lambda>(all_open, s2).
        if \<not> all_open then Inr s2
        else Server_async_accept g (s2\<lparr>s_acceptor_thread := True\<rparr>)))"

definition Server_async_read :: "size_t \<Rightarrow> conn \<Rightarrow> conn step" where
  "Server_async_read expect_size c = Connection_async_read expect_size c"

definition Server_async_write :: "msgbuffer \<Rightarrow> conn \<Rightarrow> conn \<times> effect list" where
  "Server_async_write msg c = Connection_async_write msg c"

text \<open>\<open>info\<close> is \<open>None\<close> when a query of the endpoints or a socket option throws.\<close>

definition Server_handle_accept :: "endpoint_info option \<Rightarrow> conn \<Rightarrow> conn step" where
  "Server_handle_accept info c =
     (case info of
        None \<Rightarrow> Inl SystemError
      | Some (remote, local, native) \<Rightarrow>
          then_step (Inr (Connection_set_conn_info remote local native c, [PostManage (c_id c)]))
            (Server_async_read (ucast g_proto_head_len)))"

text \<open>The completion of the accept at position \<open>k\<close> of the accepts in flight.\<close>

definition Server_on_accept ::
    "garbage \<Rightarrow> error_code \<Rightarrow> endpoint_info option \<Rightarrow> nat \<Rightarrow> server \<Rightarrow> server step" where
  "Server_on_accept g ec info k s =
     (let i = snd (s_accepting s ! k);
          s1 = s\<lparr>s_accepting := take k (s_accepting s) @ drop (Suc k) (s_accepting s)\<rparr> in
      if ec \<noteq> NoError then Inr (s1, [])
      else bind_res (Server_async_accept g s1) (\<lambda>s2.
        map_res (\<lambda>(c, es). (s2\<lparr>s_conns := (s_conns s2)[i := c]\<rparr>, es))
          (Server_handle_accept info ((s_conns s2 ! i)\<lparr>c_open := True\<rparr>))))"

definition Server_handle_read :: "(conn \<Rightarrow> u64) \<Rightarrow> io_handler" where
  "Server_handle_read clock c ec bytes_transferred =
     (case c_recv_buffer c of
        None \<Rightarrow> Inl NullDeref
      | Some buffer \<Rightarrow>
          let c1 = Connection_set_recvbytes (MsgBuffer_available buffer) c;
              c2 = Connection_set_last_recvtime (clock c1) c1
          in Inr (c2\<lparr>c_recv_buffer := None\<rparr>, [AddTask (c_id c2) buffer]))"

definition Server_handle_write :: "(conn \<Rightarrow> u64) \<Rightarrow> io_handler" where
  "Server_handle_write clock c ec bytes_transferred =
     (let c1 = Connection_set_sendbytes bytes_transferred c
      in Inr (Connection_set_last_sendtime (clock c1) c1, []))"

definition Server_async_timeout :: "conn \<Rightarrow> conn" where
  "Server_async_timeout c = Connection_async_timeout (ServerTimeout (c_id c)) c"

text \<open>\<open>timeout_counts\<close> is \<open>static thread_local\<close>: one 8-bit counter for all connections of a thread.\<close>

definition Server_handle_timeout :: "u64 \<Rightarrow> u8 \<Rightarrow> conn \<Rightarrow> u8 \<times> conn \<times> effect list" where
  "Server_handle_timeout now timeout_counts c =
     (if now - c_last_recv_time c > 10
      then let n = timeout_counts + 1 in
        if n > 10 then (n, Connection_close c) else (n, c, [])
      else (0, c, []))"

definition Server_release :: "nat \<Rightarrow> size_t \<Rightarrow> server \<Rightarrow> server" where
  "Server_release thread uuid s =
     s\<lparr>s_conn_manager := (s_conn_manager s)(thread := (s_conn_manager s thread)(uuid := None))\<rparr>"

text \<open>The lambda \<open>handle_accept\<close> posts to the connection's context.\<close>

definition Server_manage :: "conn_ref \<Rightarrow> server \<Rightarrow> server" where
  "Server_manage i s =
     (let thread = s_context s ! i; uuid = c_uuid (s_conns s ! i) in
      s\<lparr>s_conn_manager := (s_conn_manager s)(thread := (s_conn_manager s thread)(uuid \<mapsto> i))\<rparr>)"

text \<open>
  The calls a connection makes on its owner while a handler runs on \<open>thread\<close>: a task goes to the
  worker pool (\<open>None\<close> while the chosen queue is full), \<open>release\<close> to the thread's table. The
  remaining effects are socket operations and posted lambdas.
\<close>

definition Server_perform ::
    "nat \<Rightarrow> u32 option \<Rightarrow> nat \<Rightarrow> effect \<Rightarrow> server \<Rightarrow> server option res" where
  "Server_perform thread tls r e s =
     (case e of
        AddTask i b \<Rightarrow>
          (case s_worker_pool s of
             None \<Rightarrow> Inl NullDeref
           | Some p \<Rightarrow> map_res (map_option (\<lambda>(pos, tls', p'). s\<lparr>s_worker_pool := Some p'\<rparr>))
               (ThreadPool_add_task tls r (Some (i, b)) (- 1) p))
      | Release uuid \<Rightarrow> Inr (Some (Server_release thread uuid s))
      | _ \<Rightarrow> Inr (Some s))"

text \<open>
  The destructor: the worker pool begins to stop, the contexts' pool stops, and the acceptor's thread
  is joined. The acceptor's context is never stopped and its work guard lives as long as the server, so
  the thread that runs it does not return: the flag of the result says that \<open>join\<close> returns.
\<close>

definition Server_destroy :: "server \<Rightarrow> (bool \<times> server) res" where
  "Server_destroy s =
     (case (s_worker_pool s, s_ioc_pool s) of
        (Some w, Some p) \<Rightarrow>
          if s_acceptor_thread s
          then Inr (False, s\<lparr>s_worker_pool := Some (ThreadPool_stop w), s_ioc_pool := Some (IocPool_stop p)\<rparr>)
          else Inl NullDeref
      | _ \<Rightarrow> Inl NullDeref)"

section \<open>Interfaces\<close>

interpretation server_reads: frame_consumer "Server_handle_read clock"
  by unfold_locales (simp add: Server_handle_read_def Connection_set_recvbytes_def
      Connection_set_last_recvtime_def Let_def)

interpretation server_writes: steady_observer "Server_handle_write clock"
  by unfold_locales (simp add: Server_handle_write_def Connection_set_sendbytes_def
      Connection_set_last_sendtime_def Let_def)

section \<open>Reading\<close>

lemma arm_read_frame:
  "Connection_arm_read n c = Inr (c', es) \<Longrightarrow> c_open c' = c_open c \<and> c_uuid c' = c_uuid c"
  by (auto simp: Connection_arm_read_def Connection_use_def map_res_def split: option.splits prod.splits sum.splits)

lemma accepted_arm:
  assumes "c = Connection_new i True None 1000 gb\<lparr>c_open := True\<rparr>" and "12 < length f"
  shows "\<exists>c'. Server_handle_accept (Some (remote, local, native)) c
      = Inr (c', [PostManage i, AsyncReadSome i 12]) \<and> reading [] f c' \<and> c_open c' \<and> c_uuid c' = native"
proof -
  obtain c0 where c0: "c0 = Connection_set_conn_info remote local native c" by simp
  have "pool_good ((=) fresh_buffer) (c_pool c0)" "c_recv_buffer c0 = None" "c_id c0 = i" "c_id c = i"
    "c_open c0" "c_uuid c0 = native"
    using assms(1) by (cases gb, simp add: c0 Connection_set_conn_info_def Connection_new_def)+
  then obtain c' where "Connection_arm_read 12 c0 = Inr (c', [AsyncReadSome i 12])" "reading [] f c'"
      "c_open c'" "c_uuid c' = native" "c_id c = i"
    using arm_read_fresh [of c0 f] assms(2) arm_read_frame by metis
  then show ?thesis
    by (simp add: Server_handle_accept_def Server_async_read_def Connection_async_read_def
        g_proto_head_len_def then_step_def c0)
qed

text \<open>
  C3: the server reassembles messages. On a connection it has just accepted, let the peer send any
  sequence of well-formed frames, and let the kernel deliver the bytes in reads of any sizes (each
  read returns between one byte and what the loop asked for). Then no read faults or closes the
  connection, the worker pool is given exactly the frames, whole, in order and each once, as a
  prefix of what was sent; and once there were as many reads as bytes, all of them.
\<close>

theorem server_reassembles_frames:
  assumes "\<forall>f \<in> set fs. valid_frame f" and "fs \<noteq> []"
    and "Server_handle_accept (Some (remote, local, native))
          (Connection_new i True None 1000 gb\<lparr>c_open := True\<rparr>) = Inr (c, es0)"
  shows "\<exists>c' n es. read_stream (Server_handle_read clock) 12 ks (concat fs) c = Inr ((c', Some n), es)
    \<and> (\<exists>rest. fs = delivered es @ rest \<and> (length (concat fs) \<le> length ks \<longrightarrow> rest = []))"
proof -
  have "12 < length (hd fs)" using assms(1,2) by (cases fs) (auto simp: valid_frame_def)
  then have "reading [] (hd fs) c"
    using accepted_arm [OF refl, of "hd fs" remote local native i gb] assms(3) by auto
  then show ?thesis
    using server_reads.read_stream_frames [of fs "[]" c 12 clock ks] assms(1,2)
    by (simp add: to_read_def) blast
qed

definition sample_frame :: bytes where
  "sample_frame = g_head_magic_num @ [0, 0, 0, 12, 0, 0, 0, 1, 0, 0]"

lemma sample_frame_valid: "valid_frame sample_frame"
  by (simp add: valid_frame_def sample_frame_def g_head_magic_num_def dec32_def)

theorem server_reassembles_frames_witness:
  "\<exists>c c' n es. read_stream (Server_handle_read (\<lambda>_. 7)) 12 (replicate 28 0)
       (sample_frame @ sample_frame) c = Inr ((c', Some n), es)
     \<and> delivered es = [sample_frame, sample_frame]"
proof -
  obtain c es0 where c: "Server_handle_accept (Some (([], 1), ([], 2), 5))
      (Connection_new 0 True None 1000 (0, 0, 0, 0, 0)\<lparr>c_open := True\<rparr>) = Inr (c, es0)"
    using accepted_arm [OF refl, of sample_frame "([], 1)" "([], 2)" 5 0 "(0, 0, 0, 0, 0)"]
    by (auto simp: sample_frame_def g_head_magic_num_def)
  have len: "length sample_frame = 14" by (simp add: sample_frame_def g_head_magic_num_def)
  obtain c' n es where "read_stream (Server_handle_read (\<lambda>_. 7)) 12 (replicate 28 0)
       (sample_frame @ sample_frame) c = Inr ((c', Some n), es)" "delivered es = [sample_frame, sample_frame]"
    using server_reassembles_frames [OF _ _ c, of "[sample_frame, sample_frame]" "\<lambda>_. 7" "replicate 28 0"]
    by (auto simp: sample_frame_valid len)
  then show ?thesis by blast
qed

section \<open>Writing\<close>

text \<open>
  C7: every message posted to an open connection reaches the wire, as long as the kernel takes each
  message in one transfer. From a state in which nothing waits in the send list, let any messages be posted
  and any of their writes complete, and let then as many writes complete as there can be in flight: exactly
  the bytes that were in flight and those of the messages posted have been appended to the wire, in
  order; nothing is in flight, nothing waits in the send list, and the connection is still open. (A message
  that the kernel splits is another matter, see \<open>server_split_write_faults\<close>.)
\<close>

theorem server_write_completes:
  assumes "unsplit s" and "\<forall>e \<in> set es. whole_event e" and "\<forall>k \<in> set ks. 2 ^ 62 \<le> k"
    and "length (w_inflight s) + length es \<le> length ks"
  shows "\<exists>s'. write_run (Server_handle_write clock) (es @ map WDone ks) s = Inr s'
    \<and> w_wire s' = w_wire s @ in_transit s @ posted es \<and> w_inflight s' = [] \<and> c_send_list (w_conn s') = []
    \<and> c_open (w_conn s')"
  using server_writes.write_all [OF assms, of clock] by blast

definition idle_conn :: conn where
  "idle_conn = Connection_new 0 True None 1 (5, 0, 0, 0, 0)\<lparr>c_open := True\<rparr>"

definition idle_sys :: write_sys where
  "idle_sys = \<lparr>w_conn = idle_conn, w_inflight = [], w_wire = []\<rparr>"

definition sample_msg :: "bytes \<Rightarrow> msgbuffer" where
  "sample_msg bs = \<lparr>m_buffer = bs, m_packlen = 0, m_head = 0, m_tail = of_nat (length bs), m_indicator = valid\<rparr>"

lemma idle_sys_ok: "w_inflight idle_sys = []" "c_send_list (w_conn idle_sys) = []"
  "c_open (w_conn idle_sys)" "w_wire idle_sys = []"
  by (simp_all add: idle_sys_def idle_conn_def Connection_new_def)

lemma sample_msg_holds: "length bs < 1000 \<Longrightarrow> holds bs (sample_msg bs)"
  by (simp add: holds_def wf_buffer_def room_def content_def used_def sample_msg_def)

lemma sample_posts:
  "unsplit idle_sys" "\<forall>e \<in> set [WPost (sample_msg [1, 2]), WPost (sample_msg [3, 4]), WDone (2 ^ 62)]. whole_event e"
  "posted [WPost (sample_msg [1, 2]), WPost (sample_msg [3, 4]), WDone (2 ^ 62)] = [1, 2, 3, 4]"
proof -
  have "content (sample_msg bs) = bs" if "length bs < 1000" for bs
    using sample_msg_holds [OF that] by (simp add: holds_def)
  moreover have "m_indicator (sample_msg bs) \<noteq> invalid" for bs by (simp add: sample_msg_def)
  ultimately show "unsplit idle_sys"
    "\<forall>e \<in> set [WPost (sample_msg [1, 2]), WPost (sample_msg [3, 4]), WDone (2 ^ 62)]. whole_event e"
    "posted [WPost (sample_msg [1, 2]), WPost (sample_msg [3, 4]), WDone (2 ^ 62)] = [1, 2, 3, 4]"
    by (simp_all add: idle_sys_ok unsplit_def whole_event_def sample_msg_holds posted_def del: power_numeral)
qed

theorem server_write_completes_witness:
  "\<exists>s'. write_run (Server_handle_write (\<lambda>_. 7))
      ([WPost (sample_msg [1, 2]), WPost (sample_msg [3, 4]), WDone (2 ^ 62)] @ map WDone (replicate 3 (2 ^ 62))) idle_sys = Inr s'
     \<and> w_wire s' = [1, 2, 3, 4] \<and> c_open (w_conn s')"
  using server_write_completes [OF sample_posts(1,2), of "replicate 3 (2 ^ 62)" "\<lambda>_. 7"]
  unfolding sample_posts(3) by (auto simp: idle_sys_ok in_transit_def simp del: power_numeral)

text \<open>
  When the kernel takes only a part of a message at first, the completion that finishes it calls the
  write handler through a reference to a destroyed lambda.
\<close>

lemma server_split_write_faults:
  assumes "w_inflight s = []" and "c_send_list (w_conn s) = []" and "c_open (w_conn s)"
    and "holds bs d" and "m_indicator d \<noteq> invalid" and "Suc k < length bs" and "length bs \<le> length ks"
  shows "write_run (Server_handle_write clock) (WPost d # WDone k # map WDone ks) s = Inl UseAfterFree"
  by (rule split_write_faults [OF assms])

text \<open>
  C8: any number of messages posted at any moments come out in the order they were posted, each
  contiguous, as long as every completion takes all that was handed to it: at every moment the
  wire and the messages still in flight are the concatenation of the messages posted.
\<close>

theorem server_writes_in_order:
  assumes "unsplit s" and "\<forall>e \<in> set es. whole_event e"
  shows "\<exists>s'. write_run (Server_handle_write clock) es s = Inr s'
    \<and> w_wire s' @ in_transit s' = w_wire s @ in_transit s @ posted es"
  using server_writes.whole_run [OF assms, of clock] by blast

theorem server_writes_in_order_witness:
  "\<exists>s'. write_run (Server_handle_write (\<lambda>_. 7))
      [WPost (sample_msg [1, 2]), WPost (sample_msg [3, 4]), WDone (2 ^ 62)] idle_sys = Inr s'
    \<and> w_wire s' @ in_transit s' = [1, 2, 3, 4]"
  using server_writes_in_order [OF sample_posts(1,2), of "\<lambda>_. 7"] unfolding sample_posts(3)
  by (simp add: idle_sys_ok in_transit_def del: power_numeral)

text \<open>
  Without that assumption messages interleave: the send list is empty while a write is in flight, so
  a second message is started at once, and the rest of a partly written first message is queued
  behind it. After the second message is written the rest of the first is still in flight.
\<close>

lemma server_writes_interleave:
  "map_res (\<lambda>s. (w_wire s, in_transit s)) (write_run (Server_handle_write (\<lambda>_. 7))
     [WPost (sample_msg [1, 2]), WPost (sample_msg [3, 4]), WDone 0, WDone 1] idle_sys)
   = Inr ([1, 3, 4], [2])"
  by (simp add: write_run_def write_step_def Connection_write_posted_def Connection_write_some_def
      Connection_write_done_def Connection_handle_write_def idle_sys_def idle_conn_def Connection_new_def
      sample_msg_def then_step_def Let_def MsgBuffer_available_def MsgBuffer_memory_def mem_read_def
      MsgBuffer_consume_def MsgBuffer_update_packlen_def MsgBuffer_empty_def Server_handle_write_def
      Connection_recycle_def Connection_free_def Connection_set_sendbytes_def
      Connection_set_last_sendtime_def in_transit_def)

section \<open>Accepting\<close>

text \<open>
  The states of a started server: contexts to hand out, and every accept in flight waits on one of
  its own acceptors with a connection of its own that was never used.
\<close>

definition contexts_ok :: "server \<Rightarrow> bool" where
  "contexts_ok s \<longleftrightarrow> (\<exists>pool sz. s_ioc_pool s = Some pool \<and> m_iocs pool = [0..<sz]
     \<and> unat (m_ioc_pos pool) < sz \<and> sz < 2 ^ 64) \<and> length (s_context s) = length (s_conns s)"

definition waiting_ok :: "garbage \<Rightarrow> nat \<Rightarrow> conn list \<Rightarrow> nat \<times> conn_ref \<Rightarrow> bool" where
  "waiting_ok g n conns w \<longleftrightarrow> fst w < n \<and> snd w < length conns
     \<and> conns ! snd w = Connection_new (snd w) True None 1000 (g (snd w))"

definition accepting_wf :: "garbage \<Rightarrow> server \<Rightarrow> bool" where
  "accepting_wf g s \<longleftrightarrow> contexts_ok s \<and> distinct (map snd (s_accepting s))
     \<and> (\<forall>w \<in> set (s_accepting s). waiting_ok g (length (s_acceptors s)) (s_conns s) w)"

lemma waiting_ok_append: "waiting_ok g n conns w \<Longrightarrow> waiting_ok g n (conns @ added_cs) w"
  by (simp add: waiting_ok_def nth_append)

lemma waiting_ok_update: "waiting_ok g n conns w \<Longrightarrow> snd w \<noteq> i \<Longrightarrow> waiting_ok g n (conns[i := c]) w"
  by (simp add: waiting_ok_def)

lemma accept_on_ok:
  assumes "accepting_wf g s" and "a < length (s_acceptors s)"
  shows "\<exists>s'. Server_accept_on g a s = Inr s' \<and> accepting_wf g s'
    \<and> s_accepting s' = s_accepting s @ [(a, length (s_conns s))] \<and> s_acceptors s' = s_acceptors s
    \<and> s_conns s' = s_conns s @ [Connection_new (length (s_conns s)) True None 1000 (g (length (s_conns s)))]"
proof -
  obtain pool sz where p: "s_ioc_pool s = Some pool" "m_iocs pool = [0..<sz]" "unat (m_ioc_pos pool) < sz" "sz < 2 ^ 64"
    using assms(1) by (auto simp: accepting_wf_def contexts_ok_def)
  let ?i = "length (s_conns s)"
  let ?pool = "pool\<lparr>m_ioc_pos := of_nat (Suc (unat (m_ioc_pos pool)) mod sz)\<rparr>"
  have "Suc (unat (m_ioc_pos pool)) mod sz < sz" using p(3) by simp
  then have "unat (m_ioc_pos ?pool) < sz" using p(4) by (simp add: unat_of_nat_lt)
  moreover have "waiting_ok g (length (s_acceptors s)) (s_conns s @ [Connection_new ?i True None 1000 (g ?i)]) (a, ?i)"
    using assms(2) by (simp add: waiting_ok_def)
  moreover have "?i \<notin> set (map snd (s_accepting s))"
    using assms(1) by (auto simp: accepting_wf_def waiting_ok_def)
  ultimately show ?thesis
    using assms p get_iocontext_ok [OF p(2-4)]
    by (auto simp: Server_accept_on_def Let_def accepting_wf_def contexts_ok_def waiting_ok_append)
qed

lemma accept_on_frame:
  "Server_accept_on g a s = Inr s' \<Longrightarrow> s_run s' = s_run s \<and> s_worker_pool s' = s_worker_pool s"
  by (auto simp: Server_accept_on_def bind_res_def Let_def split: option.splits sum.splits)

lemma accept_loop_ok:
  assumes "accepting_wf g s" and "\<forall>a \<in> set as. a < length (s_acceptors s)"
  shows "\<exists>s'. fold_res (Server_accept_on g) as s = Inr s' \<and> accepting_wf g s'
    \<and> map fst (s_accepting s') = map fst (s_accepting s) @ as \<and> s_acceptors s' = s_acceptors s
    \<and> (\<exists>added_cs. s_conns s' = s_conns s @ added_cs) \<and> (\<forall>i < length (s_conns s). i \<notin> snd ` set (s_accepting s)
        \<longrightarrow> i \<notin> snd ` set (s_accepting s'))"
  using assms
proof (induction as arbitrary: s)
  case (Cons a as)
  obtain s1 where s1: "Server_accept_on g a s = Inr s1" "accepting_wf g s1"
      "s_accepting s1 = s_accepting s @ [(a, length (s_conns s))]" "s_acceptors s1 = s_acceptors s"
      "\<exists>c. s_conns s1 = s_conns s @ [c]"
    using accept_on_ok [of g s a] Cons.prems by auto
  obtain c where c: "s_conns s1 = s_conns s @ [c]" using s1(5) by blast
  obtain s2 where s2: "fold_res (Server_accept_on g) as s1 = Inr s2" "accepting_wf g s2"
      "map fst (s_accepting s2) = map fst (s_accepting s1) @ as" "s_acceptors s2 = s_acceptors s1"
      "\<exists>added_cs. s_conns s2 = s_conns s1 @ added_cs"
      "\<forall>i < length (s_conns s1). i \<notin> snd ` set (s_accepting s1) \<longrightarrow> i \<notin> snd ` set (s_accepting s2)"
    using Cons.IH [OF s1(2)] Cons.prems(2) s1(4) by auto
  have "\<forall>i < length (s_conns s). i \<notin> snd ` set (s_accepting s) \<longrightarrow> i \<notin> snd ` set (s_accepting s2)"
    using s2(6) s1(3) c by auto
  then show ?case using s1 s2(1-5) c by auto
qed simp

lemma accepting_wf_drop:
  assumes "accepting_wf g s"
  shows "accepting_wf g (s\<lparr>s_accepting := take k (s_accepting s) @ drop (Suc k) (s_accepting s)\<rparr>)"
proof -
  let ?xs = "s_accepting s"
  have sub: "set (take k ?xs @ drop (Suc k) ?xs) \<subseteq> set ?xs"
    using set_take_subset [of k ?xs] set_drop_subset [of "Suc k" ?xs] by auto
  have "distinct (map snd ?xs)" using assms by (simp add: accepting_wf_def)
  then have "distinct (take k (map snd ?xs) @ drop (Suc k) (map snd ?xs))"
    using set_take_disj_set_drop_if_distinct [of "map snd ?xs" k "Suc k"] by simp
  then have "distinct (map snd (take k ?xs @ drop (Suc k) ?xs))"
    by (simp only: take_map drop_map map_append)
  moreover have "contexts_ok s" and all: "\<forall>w \<in> set ?xs. waiting_ok g (length (s_acceptors s)) (s_conns s) w"
    using assms unfolding accepting_wf_def by blast+
  moreover have "\<forall>w \<in> set (take k ?xs @ drop (Suc k) ?xs). waiting_ok g (length (s_acceptors s)) (s_conns s) w"
    using all sub by blast
  ultimately show ?thesis by (simp add: accepting_wf_def contexts_ok_def del: set_append map_append)
qed

lemma accepting_wf_conn:
  assumes "accepting_wf g s" and "i \<notin> snd ` set (s_accepting s)"
  shows "accepting_wf g (s\<lparr>s_conns := (s_conns s)[i := c]\<rparr>)"
  using assms by (force simp: accepting_wf_def contexts_ok_def intro: waiting_ok_update)

lemma accept_served:
  assumes "accepting_wf g s" and "k < length (s_accepting s)"
  shows "\<exists>s' c. Server_on_accept g NoError (Some (remote, local, native)) k s
      = Inr (s', [PostManage (snd (s_accepting s ! k)), AsyncReadSome (snd (s_accepting s ! k)) 12])
    \<and> accepting_wf g s' \<and> s_conns s' ! snd (s_accepting s ! k) = c \<and> c_open c \<and> c_uuid c = native
    \<and> (\<exists>b. c_recv_buffer c = Some b \<and> holds [] b \<and> 12 \<le> length (m_buffer b))
    \<and> map fst (s_accepting s') = map fst (take k (s_accepting s) @ drop (Suc k) (s_accepting s))
        @ [0..<length (s_acceptors s)]"
proof -
  let ?xs = "s_accepting s" and ?i = "snd (s_accepting s ! k)"
  let ?s1 = "s\<lparr>s_accepting := take k ?xs @ drop (Suc k) ?xs\<rparr>"
  have i: "?i < length (s_conns s)" "s_conns s ! ?i = Connection_new ?i True None 1000 (g ?i)"
    using assms nth_mem [OF assms(2)] by (auto simp: accepting_wf_def waiting_ok_def)
  have fresh: "?i \<notin> snd ` set (take k ?xs @ drop (Suc k) ?xs)"
  proof -
    have "distinct (map snd (take k ?xs @ ?xs ! k # drop (Suc k) ?xs))"
      using assms id_take_nth_drop [OF assms(2)] by (simp add: accepting_wf_def)
    then show ?thesis by auto
  qed
  obtain s2 where s2: "Server_async_accept g ?s1 = Inr s2" "accepting_wf g s2"
      "map fst (s_accepting s2) = map fst (take k ?xs @ drop (Suc k) ?xs) @ [0..<length (s_acceptors s)]"
      "\<exists>added_cs. s_conns s2 = s_conns s @ added_cs" "?i \<notin> snd ` set (s_accepting s2)"
    using accept_loop_ok [OF accepting_wf_drop [OF assms(1)], of "[0..<length (s_acceptors s)]" k] i(1) fresh
    by (auto simp: Server_async_accept_def)
  let ?c = "(s_conns s2 ! ?i)\<lparr>c_open := True\<rparr>"
  have c: "?c = Connection_new ?i True None 1000 (g ?i)\<lparr>c_open := True\<rparr>"
    using s2(4) i by (auto simp: nth_append)
  have len: "?i < length (s_conns s2)" using s2(4) i by auto
  obtain c' where c': "Server_handle_accept (Some (remote, local, native)) ?c
      = Inr (c', [PostManage ?i, AsyncReadSome ?i 12])" "reading [] sample_frame c'" "c_open c'" "c_uuid c' = native"
    using accepted_arm [OF c, of sample_frame remote local native] sample_frame_valid
    by (auto simp: valid_frame_def)
  then have "\<exists>b. c_recv_buffer c' = Some b \<and> holds [] b \<and> 12 \<le> length (m_buffer b)"
    by (auto simp: reading_def to_read_def)
  then show ?thesis
    using c' s2(1,3) len accepting_wf_conn [OF s2(2,5), of c']
    by (auto simp: Server_on_accept_def Let_def)
qed

text \<open>
  C25: a completed accept is served and the server keeps accepting. In a started server, when the
  accept at position \<open>k\<close> succeeds, its connection is open, registered for its io thread and has a
  read of the head outstanding into an empty buffer, a new accept is started on every acceptor, each
  with a fresh connection, and the server is again in such a state.
\<close>

theorem server_accept_rearms:
  assumes "accepting_wf g s" and "k < length (s_accepting s)"
  shows "\<exists>s' c. Server_on_accept g NoError (Some (remote, local, native)) k s
      = Inr (s', [PostManage (snd (s_accepting s ! k)), AsyncReadSome (snd (s_accepting s ! k)) 12])
    \<and> accepting_wf g s' \<and> s_conns s' ! snd (s_accepting s ! k) = c \<and> c_open c \<and> c_uuid c = native
    \<and> (\<exists>b. c_recv_buffer c = Some b \<and> holds [] b \<and> 12 \<le> length (m_buffer b))
    \<and> map fst (s_accepting s') = map fst (take k (s_accepting s) @ drop (Suc k) (s_accepting s))
        @ [0..<length (s_acceptors s)]"
  using accept_served [OF assms] .

lemma sample_accepting:
  "accepting_wf (\<lambda>_. (0, 0, 0, 0, 0)) \<lparr>s_ports = [80], s_worker_num = 1, s_conn_worker_num = 2, s_run = True,
     s_worker_pool = None, s_ioc_pool = Some (IocPool_new 2), s_acceptors = [80], s_acceptor_thread = True,
     s_accepting = [(0, 0)], s_conns = [Connection_new 0 True None 1000 (0, 0, 0, 0, 0)], s_context = [0],
     s_conn_manager = (\<lambda>_. Map.empty)\<rparr>"
  by (simp add: accepting_wf_def contexts_ok_def waiting_ok_def IocPool_new_def) (rule exI [of _ 2], simp)

theorem server_accept_rearms_witness:
  "\<exists>s' es. Server_on_accept (\<lambda>_. (0, 0, 0, 0, 0)) NoError (Some (([], 1), ([], 2), 5)) 0
     \<lparr>s_ports = [80], s_worker_num = 1, s_conn_worker_num = 2, s_run = True,
      s_worker_pool = None, s_ioc_pool = Some (IocPool_new 2), s_acceptors = [80], s_acceptor_thread = True,
      s_accepting = [(0, 0)], s_conns = [Connection_new 0 True None 1000 (0, 0, 0, 0, 0)], s_context = [0],
      s_conn_manager = (\<lambda>_. Map.empty)\<rparr> = Inr (s', es) \<and> map fst (s_accepting s') = [0]"
  using server_accept_rearms [OF sample_accepting, of 0 "([], 1)" "([], 2)" 5] by auto

text \<open>
  With one port exactly one accept stays in flight; with more, every accept that completes adds one
  on each of the others, so the accepts in flight (each holding a connection with its pool of
  buffers) grow without bound.
\<close>

lemma accepts_grow:
  assumes "accepting_wf g s" and "k < length (s_accepting s)"
    and "Server_on_accept g NoError (Some info) k s = Inr (s', es)"
  shows "length (s_accepting s') + 1 = length (s_accepting s) + length (s_acceptors s)"
proof -
  obtain remote local native where i: "info = (remote, local, native)" by (cases info)
  have "map fst (s_accepting s') = map fst (take k (s_accepting s) @ drop (Suc k) (s_accepting s))
      @ [0..<length (s_acceptors s)]"
    using accept_served [OF assms(1,2), of remote local native] assms(3) i by auto
  from arg_cong [OF this, of length] show ?thesis using assms(2) by simp
qed

section \<open>Starting and stopping\<close>

lemma open_ports_all:
  assumes "\<forall>p \<in> set ports. os (word_of_int p) = Listens"
  shows "Server_open_ports os ports s = Inr (True, s\<lparr>s_acceptors := s_acceptors s @ map word_of_int ports\<rparr>)"
  using assms by (induction ports arbitrary: s) (auto simp: Let_def)

text \<open>
  \<open>start\<close> with at least one connection worker and every port opening leaves a running server with
  one accept in flight per port, in port order.
\<close>

lemma server_start_accepts:
  assumes "\<forall>p \<in> set ports. os (word_of_int p) = Listens" and "0 < conn_worker_num"
  shows "\<exists>s. Server_start g os (Server_new ports worker_num conn_worker_num) = Inr s
    \<and> accepting_wf g s \<and> s_run s \<and> s_acceptors s = map word_of_int ports
    \<and> map fst (s_accepting s) = [0..<length ports]
    \<and> s_worker_pool s = Some (ThreadPool_new worker_num 10000)"
proof -
  let ?s = "(Server_new ports worker_num conn_worker_num)\<lparr>s_worker_pool := Some (ThreadPool_new worker_num 10000),
      s_ioc_pool := Some (IocPool_new (unat conn_worker_num)), s_run := True,
      s_acceptors := map word_of_int ports, s_acceptor_thread := True\<rparr>"
  have "unat conn_worker_num < 2 ^ 64" "0 < unat conn_worker_num"
    using assms(2) unat_size_t_lt by (simp_all add: word_less_nat_alt)
  then have "accepting_wf g ?s"
    by (auto simp: accepting_wf_def contexts_ok_def IocPool_new_def Server_new_def)
  from accept_loop_ok [OF this, of "[0..<length ports]"]
  obtain s' where "fold_res (Server_accept_on g) [0..<length ports] ?s = Inr s'" "accepting_wf g s'"
      "map fst (s_accepting s') = [0..<length ports]" "s_acceptors s' = map word_of_int ports"
    by (auto simp: Server_new_def)
  moreover have "Server_start g os (Server_new ports worker_num conn_worker_num)
      = fold_res (Server_accept_on g) [0..<length ports] ?s"
    using open_ports_all [OF assms(1)]
    by (simp add: Server_start_def Server_async_accept_def Server_new_def Let_def)
  moreover have "s_run s2 = s_run s1 \<and> s_worker_pool s2 = s_worker_pool s1"
    if "fold_res (Server_accept_on g) as s1 = Inr s2" for as s1 s2
    using that accept_on_frame by (induction as arbitrary: s1) (auto simp: bind_res_def split: sum.splits)
  ultimately show ?thesis by (fastforce simp: Server_new_def)
qed

text \<open>
  A port that cannot be bound makes \<open>start\<close> return without an acceptor thread, and the destructor
  then dereferences the null \<open>m_acceptor_thread\<close>; after a successful start it blocks in \<open>join\<close>.
\<close>

lemma server_destroy_after_failed_bind:
  assumes "os (word_of_int p) = BindFails"
  shows "\<exists>s. Server_start g os (Server_new [p] n m) = Inr s \<and> Server_destroy s = Inl NullDeref"
  using assms by (simp add: Server_start_def Server_new_def Server_destroy_def Let_def)

section \<open>Idle connections\<close>

text \<open>The timer of one connection firing at the given times, nothing else running on the thread.\<close>

fun server_timeouts :: "u64 list \<Rightarrow> u8 \<Rightarrow> conn \<Rightarrow> u8 \<times> conn \<times> effect list" where
  "server_timeouts [] n c = (n, c, [])"
| "server_timeouts (now # nows) n c =
     (let (n1, c1, es) = Server_handle_timeout now n c; (n2, c2, fs) = server_timeouts nows n1 c1
      in (n2, c2, es @ fs))"

lemma idle_tick: "now - c_last_recv_time c > 10 \<Longrightarrow> n < 10 \<Longrightarrow> Server_handle_timeout now n c = (n + 1, c, [])"
proof -
  assume "n < 10" and "now - c_last_recv_time c > 10"
  moreover have "\<not> n + 1 > 10" using \<open>n < 10\<close> inc_le not_le by blast
  ultimately show ?thesis by (simp add: Server_handle_timeout_def Let_def)
qed

lemma idle_ticks:
  assumes "\<forall>now \<in> set nows. now - c_last_recv_time c > 10" and "k + length nows \<le> 10"
  shows "server_timeouts nows (of_nat k) c = (of_nat (k + length nows), c, [])"
  using assms
proof (induction nows arbitrary: k)
  case (Cons now nows)
  have "(of_nat k :: u8) < 10" using Cons.prems(2) by (simp add: word_less_nat_alt)
  then show ?case
    using Cons.IH [of "Suc k"] Cons.prems idle_tick [of now c "of_nat k"] by (simp add: add.commute)
qed simp

text \<open>
  An idle connection survives ten timeouts and is closed by the eleventh: if at each of them more
  than ten seconds have passed since \<open>m_last_recv_time\<close>, nothing happens up to the tenth, and the
  eleventh shuts down and closes the socket and releases the connection from its owner.
\<close>

lemma server_closes_idle:
  assumes "length nows = 10" and "\<forall>now \<in> set (nows @ [last_now]). now - c_last_recv_time c > 10"
    and "c_open c" and "c_holder c"
  shows "server_timeouts nows 0 c = (10, c, [])
    \<and> server_timeouts (nows @ [last_now]) 0 c = (11, c\<lparr>c_open := False\<rparr>,
        [ShutdownSocket (c_id c), CloseSocket (c_id c), Release (c_uuid c)])"
proof -
  have app: "server_timeouts (xs @ [y]) n d = (case server_timeouts xs n d of (m, d', es) \<Rightarrow>
      (case Server_handle_timeout y m d' of (m', d'', fs) \<Rightarrow> (m', d'', es @ fs)))" for xs y n d
    by (induction xs arbitrary: n d) (auto simp: Let_def split: prod.splits)
  have ten: "server_timeouts nows 0 c = (10, c, [])"
    using idle_ticks [of nows c 0] assms(1,2) by simp
  have "Server_handle_timeout last_now 10 c = (11, Connection_close c)"
    using assms(2) by (simp add: Server_handle_timeout_def Let_def)
  then show ?thesis using ten app [of nows last_now 0 c] assms(3,4)
    by (simp add: Connection_close_def)
qed

text \<open>
  But receiving never refreshes the member the timeout reads: \<open>set_last_recvtime\<close> and
  \<open>set_recvbytes\<close> write the send members, so an active connection looks as idle as a silent one.
\<close>

lemma recv_stats_never_change:
  assumes "Server_handle_read clock c ec n = Inr (c', es)"
  shows "c_last_recv_time c' = c_last_recv_time c \<and> c_recv_bytes c' = c_recv_bytes c"
  using assms by (auto simp: Server_handle_read_def Connection_set_recvbytes_def
      Connection_set_last_recvtime_def Let_def split: option.splits)

end
