(* ===== verification/Client.thy ===== *)
theory Client
  imports Server "HOL-Library.AList"
begin

text \<open>
  \<open>Client\<close> (\<open>net/client.h\<close>, \<open>net/client.cpp\<close>): the connecting side with its reconnect timer and its
  keepalive. \<open>m_conn_manager\<close> and \<open>m_server_conns\<close> are association lists in iteration order (the
  order of an \<open>unordered_map\<close> is unspecified: theorems hold for every list). Parsing an address is a
  function of asio and so a parameter; the outcome of a connect is an argument.
\<close>

section \<open>State\<close>

type_synonym endpoint = "bytes \<times> u16"

record client =
  cl_peers :: "(bytes \<times> u16) list"
  cl_conn_worker_num :: size_t
  cl_per_conn_num :: size_t
  cl_ioc_pool :: "iocpool option"
  cl_connector_thread :: bool
  cl_conns :: "conn list"
  cl_context :: "nat list"
  cl_connecting :: "(conn_ref \<times> endpoint) list"
  cl_conn_manager :: "(size_t \<times> conn_ref) list"
  cl_server_conns :: "(endpoint \<times> size_t) list"
  cl_reconnect_timer :: "time_handler repeattimer"
  cl_read_handler :: bool
  cl_server :: bool

section \<open>Operations\<close>

definition Client_new :: "(bytes \<times> u16) list \<Rightarrow> size_t \<Rightarrow> size_t \<Rightarrow> bool \<Rightarrow> client" where
  "Client_new peers conn_woker_num per_conn_num read_handler =
     \<lparr>cl_peers = peers, cl_conn_worker_num = conn_woker_num, cl_per_conn_num = per_conn_num,
      cl_ioc_pool = None, cl_connector_thread = False, cl_conns = [], cl_context = [],
      cl_connecting = [], cl_conn_manager = [], cl_server_conns = [],
      cl_reconnect_timer = RepeatTimer_new 10000 (Some Reconnect), cl_read_handler = read_handler,
      cl_server = False\<rparr>"

text \<open>One turn of the loop in \<open>async_connect\<close>.\<close>

definition Client_connect_one :: "garbage \<Rightarrow> endpoint \<Rightarrow> client \<Rightarrow> client res" where
  "Client_connect_one g endpoint cl =
     (case cl_ioc_pool cl of
        None \<Rightarrow> Inl NullDeref
      | Some pool \<Rightarrow>
          map_res (\<lambda>(ioc, pool').
            let i = length (cl_conns cl) in
            cl\<lparr>cl_ioc_pool := Some pool',
               cl_conns := cl_conns cl @ [Connection_new i True None 1000 (g i)],
               cl_context := cl_context cl @ [ioc],
               cl_connecting := cl_connecting cl @ [(i, endpoint)]\<rparr>)
            (IocPool_get_iocontext pool))"

definition Client_async_connect :: "garbage \<Rightarrow> endpoint \<Rightarrow> client \<Rightarrow> client res" where
  "Client_async_connect g endpoint cl =
     fold_res (\<lambda>_. Client_connect_one g endpoint) [0..<unat (cl_per_conn_num cl)] cl"

text \<open>The handler of the reconnect timer.\<close>

definition Client_reconnect :: "garbage \<Rightarrow> client \<Rightarrow> client res" where
  "Client_reconnect g cl =
     fold_res (\<lambda>(endpoint, conn_num) cl.
        if conn_num < cl_per_conn_num cl then Client_async_connect g endpoint cl else Inr cl)
       (cl_server_conns cl) cl"

text \<open>\<open>start\<close>, and the lambda it posts; \<open>from_string\<close> throws on a host that is not an address.\<close>

definition Client_start :: "client \<Rightarrow> client" where
  "Client_start cl =
     cl\<lparr>cl_ioc_pool := Some (IocPool_new (unat (cl_conn_worker_num cl))), cl_connector_thread := True,
        cl_reconnect_timer := RepeatTimer_start (cl_reconnect_timer cl)\<rparr>"

definition Client_connect_peers :: "(bytes \<Rightarrow> bytes option) \<Rightarrow> garbage \<Rightarrow> client \<Rightarrow> client res" where
  "Client_connect_peers from_string g cl =
     fold_res (\<lambda>(host, port) cl.
        case from_string host of
          None \<Rightarrow> Inl SystemError
        | Some addr \<Rightarrow> Client_async_connect g (addr, port) cl)
       (cl_peers cl) cl"

text \<open>
  \<open>get_conn\<close>: the loop draws a new random number at every position (\<open>random k\<close> is the \<open>k\<close>-th) and
  falls back on \<open>begin()\<close>.
\<close>

fun pick_conn :: "(nat \<Rightarrow> nat) \<Rightarrow> nat \<Rightarrow> nat \<Rightarrow> (size_t \<times> conn_ref) list \<Rightarrow> conn_ref option" where
  "pick_conn random sz i [] = None"
| "pick_conn random sz i ((k, c) # rest) =
     (if i = random i mod sz then Some c else pick_conn random sz (Suc i) rest)"

definition Client_get_conn :: "(nat \<Rightarrow> nat) \<Rightarrow> client \<Rightarrow> conn_ref res" where
  "Client_get_conn random cl =
     (case pick_conn random (length (cl_conn_manager cl)) 0 (cl_conn_manager cl) of
        Some c \<Rightarrow> Inr c
      | None \<Rightarrow> (case cl_conn_manager cl of [] \<Rightarrow> Inl NullDeref | (k, c) # _ \<Rightarrow> Inr c))"

definition Client_async_timeout :: "conn \<Rightarrow> conn" where
  "Client_async_timeout c = Connection_async_timeout (ClientTimeout (c_id c)) c"

definition Client_release :: "size_t \<Rightarrow> client \<Rightarrow> client" where
  "Client_release uuid cl = cl\<lparr>cl_conn_manager := AList.delete uuid (cl_conn_manager cl)\<rparr>"

definition Client_handle_connect :: "endpoint_info option \<Rightarrow> endpoint \<Rightarrow> conn_ref \<Rightarrow> client \<Rightarrow> client res" where
  "Client_handle_connect info endpoint i cl =
     (case info of
        None \<Rightarrow> Inl SystemError
      | Some (remote, local, native) \<Rightarrow>
          let c = Connection_set_conn_info remote local native (cl_conns cl ! i);
              n = (case map_of (cl_server_conns cl) endpoint of None \<Rightarrow> 1 | Some n \<Rightarrow> n + 1)
          in Inr (cl\<lparr>cl_conn_manager := AList.update (c_uuid c) i (cl_conn_manager cl),
                     cl_server_conns := AList.update endpoint n (cl_server_conns cl),
                     cl_conns := (cl_conns cl)[i := Client_async_timeout c]\<rparr>))"

text \<open>The calls a connection makes on its owner.\<close>

definition Client_perform :: "effect \<Rightarrow> client \<Rightarrow> client" where
  "Client_perform e cl = (case e of Release uuid \<Rightarrow> Client_release uuid cl | _ \<Rightarrow> cl)"

text \<open>The completion of the connect at position \<open>k\<close>; asio opened the socket when it started.\<close>

definition Client_on_connect ::
    "error_code \<Rightarrow> endpoint_info option \<Rightarrow> nat \<Rightarrow> client \<Rightarrow> client step" where
  "Client_on_connect ec info k cl =
     (let (i, endpoint) = cl_connecting cl ! k;
          cl1 = cl\<lparr>cl_connecting := take k (cl_connecting cl) @ drop (Suc k) (cl_connecting cl),
                   cl_conns := (cl_conns cl)[i := (cl_conns cl ! i)\<lparr>c_open := True\<rparr>]\<rparr> in
      if ec \<noteq> NoError then
        (let (c, es) = Connection_close (cl_conns cl1 ! i)
         in Inr (fold Client_perform es (cl1\<lparr>cl_conns := (cl_conns cl1)[i := c]\<rparr>), es))
      else map_res (\<lambda>cl2. (cl2, [])) (Client_handle_connect info endpoint i cl1))"

definition Client_async_write :: "msgbuffer \<Rightarrow> conn \<Rightarrow> conn \<times> effect list" where
  "Client_async_write msg c = Connection_async_write msg c"

definition Client_async_read :: "conn \<Rightarrow> conn step" where
  "Client_async_read c = Connection_async_read (ucast g_proto_head_len) c"

definition Client_handle_read :: "client \<Rightarrow> (conn \<Rightarrow> u64) \<Rightarrow> io_handler" where
  "Client_handle_read cl clock c ec bytes_transferred =
     (if cl_read_handler cl \<and> cl_server cl then
        (case c_recv_buffer c of
           None \<Rightarrow> Inl NullDeref
         | Some buffer \<Rightarrow>
             let c1 = Connection_set_recvbytes (MsgBuffer_available buffer) c;
                 c2 = Connection_set_last_recvtime (clock c1) c1
             in Inr (c2\<lparr>c_recv_buffer := None\<rparr>, [AddTask (c_id c2) buffer]))
      else Inr (c, []))"

definition Client_handle_write :: "(conn \<Rightarrow> u64) \<Rightarrow> io_handler" where
  "Client_handle_write clock c ec bytes_transferred =
     (let c1 = Connection_set_sendbytes bytes_transferred c
      in Client_async_read (Connection_set_last_sendtime (clock c1) c1))"

text \<open>\<open>handle_timeout\<close>: the keepalive packet, built in a buffer of the connection's pool.\<close>

definition Client_handle_timeout :: "conn \<Rightarrow> conn step" where
  "Client_handle_timeout c =
     (let (data, c1) = Connection_use c in
      bind_res (seq_res [put_u32 (ucast g_proto_head_len), put_u32 ACT_CMD] (MsgBuffer_seek 4 data)) (\<lambda>data.
      bind_res (MsgBuffer_reset 0 g_head_magic_num (MsgBuffer_vomit 4 data)) (\<lambda>data.
      bind_res (crc16 (m_buffer data) (MsgBuffer_memory data + 8) (ucast (MsgBuffer_available data - 8))) (\<lambda>crc_val.
      map_res (\<lambda>data. Client_async_write (MsgBuffer_set_indicator valid data) c1)
        (put_u16 crc_val data)))))"

text \<open>
  The destructor: every managed connection is closed (the client is gone for its connections, whose
  weak reference is empty by then, so nothing is released), the reconnect timer stops, and the thread of
  a context that is never stopped is joined, as in the server's destructor.
\<close>

definition Client_destroy :: "client \<Rightarrow> (bool \<times> client \<times> effect list) res" where
  "Client_destroy cl =
     (let (cl1, es) = fold (\<lambda>(uuid, i) (cl, es).
            let (c, es') = Connection_close ((cl_conns cl ! i)\<lparr>c_holder := False\<rparr>)
            in (cl\<lparr>cl_conns := (cl_conns cl)[i := c]\<rparr>, es @ es')) (cl_conn_manager cl) (cl, []);
          cl2 = cl1\<lparr>cl_reconnect_timer := RepeatTimer_stop (cl_reconnect_timer cl1)\<rparr> in
      if cl_connector_thread cl2 then Inr (False, cl2, es) else Inl NullDeref)"

section \<open>The keepalive packet\<close>

definition keepalive_frame :: bytes where
  "keepalive_frame = g_head_magic_num @ be32 12 @ be32 ACT_CMD @ be16 (crc16_bytes (be32 ACT_CMD))"

lemma length_magic [simp]: "length g_head_magic_num = 4"
  by (simp add: g_head_magic_num_def)

text \<open>The checksum of \<open>n\<close> bytes behind the first eight of a buffer read from its start.\<close>

lemma crc16_region:
  assumes w: "written 0 p i bs b" and n: "8 + n \<le> length bs" "n < 2 ^ 31"
  shows "crc16 (m_buffer b) (MsgBuffer_memory b + 8) (of_nat n) = Inr (crc16_bytes (take n (drop 8 bs)))"
proof -
  have "sint (of_nat n :: 32 word) = int n"
    using n(2) by (simp add: signed_of_nat signed_take_bit_int_eq_self)
  moreover have u: "take (unat (m_tail b)) (m_buffer b) = bs" "unat (m_tail b) \<le> length (m_buffer b)" "m_head b = 0"
    using w by (auto simp: written_def used_def wf_buffer_def)
  then have t: "unat (m_tail b) = length bs" by (metis length_take min.absorb2)
  have "take n (drop 8 (m_buffer b)) = take n (drop 8 (take (length bs) (m_buffer b)))"
    using n(1) by (simp add: drop_take)
  then have "mem_read (m_buffer b) 8 n = Inr (take n (drop 8 bs))"
    using u t n(1) by (simp add: mem_read_def)
  ultimately show ?thesis using u(3) by (simp add: crc16_def MsgBuffer_memory_def)
qed

lemma crc16_content:
  assumes "written 0 p i bs b" and "8 \<le> length bs" and "length bs < 2 ^ 31"
  shows "crc16 (m_buffer b) (MsgBuffer_memory b + 8) (ucast (MsgBuffer_available b - 8))
    = Inr (crc16_bytes (drop 8 bs))"
proof -
  have av: "unat (MsgBuffer_available b) = length bs" using written_available [OF assms(1)] by simp
  then have "MsgBuffer_available b - 8 = of_nat (length bs - 8)"
    using assms(2) by (intro size_t_eq_of_nat) (simp add: unat_sub word_le_nat_alt)
  then have "ucast (MsgBuffer_available b - 8) = (of_nat (length bs - 8) :: 32 word)"
    using assms(3) by (simp add: ucast_size_t_u32)
  then show ?thesis using crc16_region [OF assms(1), of "length bs - 8"] assms(2,3) by simp
qed

lemma keepalive_valid: "valid_frame keepalive_frame"
  by (simp add: valid_frame_def keepalive_frame_def)

lemma keepalive_built:
  assumes "pool_good ((=) fresh_buffer) (c_pool c)"
  obtains data c' where "Client_handle_timeout c = Inr (c', [PostWrite (c_id c) data])"
    "holds keepalive_frame data" "m_indicator data = valid" "m_head data = 0" "c_id c' = c_id c"
    "pool_good ((=) fresh_buffer) (c_pool c')" "c_recv_buffer c' = c_recv_buffer c"
proof -
  obtain p where use: "Connection_use c = (fresh_buffer, c\<lparr>c_pool := p\<rparr>)" "pool_good ((=) fresh_buffer) p"
    using use_fresh [OF assms] by blast
  obtain g where g: "length g = 4" "written 4 0 none g (MsgBuffer_seek 4 fresh_buffer)"
    using written_seek_fresh [of 4] by auto
  obtain d1 where d1: "fold_res MsgBuffer_append [be32 12, be32 ACT_CMD] (MsgBuffer_seek 4 fresh_buffer) = Inr d1"
      "written 4 0 none (g @ be32 12 @ be32 ACT_CMD) d1"
    using buf_sink.puts_law [OF g(2), of "[be32 12, be32 ACT_CMD]"] g(1) by auto
  obtain d2 where d2: "MsgBuffer_reset 0 g_head_magic_num (MsgBuffer_vomit 4 d1) = Inr d2"
      "written 0 0 none (g_head_magic_num @ be32 12 @ be32 ACT_CMD) d2"
    using vomit_written [OF d1(2), of 4]
      reset_written [of 0 0 none "[]" g "be32 12 @ be32 ACT_CMD" _ 0 g_head_magic_num] g(1) by auto
  have crc: "crc16 (m_buffer d2) (MsgBuffer_memory d2 + 8) (ucast (MsgBuffer_available d2 - 8))
      = Inr (crc16_bytes (be32 ACT_CMD))"
    using crc16_content [OF d2(2)] by simp
  obtain d3 where d3: "MsgBuffer_append (be16 (crc16_bytes (be32 ACT_CMD))) d2 = Inr d3"
      "written 0 0 none keepalive_frame d3"
    using put_written [OF d2(2), of "be16 (crc16_bytes (be32 ACT_CMD))"]
    by (auto simp: keepalive_frame_def)
  have seq: "seq_res [put_u32 (ucast g_proto_head_len), put_u32 ACT_CMD] (MsgBuffer_seek 4 fresh_buffer) = Inr d1"
    using d1(1) by (simp add: put_u32_def g_proto_head_len_def flip: seq_res_map)
  have "Client_handle_timeout c = Inr (c\<lparr>c_pool := p\<rparr>, [PostWrite (c_id c) (MsgBuffer_set_indicator valid d3)])"
    using use seq d2(1) crc d3(1)
    by (simp add: Client_handle_timeout_def put_u16_def Client_async_write_def Connection_async_write_def)
  moreover have "holds keepalive_frame (MsgBuffer_set_indicator valid d3)" "m_head (MsgBuffer_set_indicator valid d3) = 0"
    using written_holds [OF d3(2)] d3(2) by (simp_all add: keepalive_frame_def MsgBuffer_set_indicator_def written_def)
  ultimately show thesis using that use(2) by (simp add: MsgBuffer_set_indicator_def)
qed

text \<open>
  the keepalive the client posts every ten seconds is a frame the server accepts. On a
  connection whose pool holds cleared buffers, \<open>handle_timeout\<close> neither faults nor changes anything
  but the pool, and posts one valid buffer whose bytes are the magic number, the length of all but
  two bytes, the ACT command and the checksum of the command; a receiver that has read those bytes
  into an empty buffer gets \<open>WHOLE\<close> from its package check.
\<close>

lemma keepalive_accepted:
  assumes "pool_good ((=) fresh_buffer) (c_pool c)" and "holds keepalive_frame b" and "m_packlen b = 0"
  shows "\<exists>c' data. Client_handle_timeout c = Inr (c', [PostWrite (c_id c) data])
    \<and> content data = g_head_magic_num @ be32 12 @ be32 ACT_CMD @ be16 (crc16_bytes (be32 ACT_CMD))
    \<and> m_indicator data = valid \<and> valid_frame (content data)
    \<and> map_res fst (PackageCheck b) = Inr WHOLE"
proof -
  obtain data c' where d: "Client_handle_timeout c = Inr (c', [PostWrite (c_id c) data])"
      "holds keepalive_frame data" "m_indicator data = valid"
    using keepalive_built [OF assms(1)] by blast
  have "PackageCheck b = Inr (frame_stat keepalive_frame keepalive_frame, b\<lparr>m_packlen := 14\<rparr>)"
    using check_after_read [OF keepalive_valid assms(2)] assms(3) by (simp add: keepalive_frame_def)
  then show ?thesis using d keepalive_valid by (auto simp: holds_def frame_stat_def keepalive_frame_def)
qed

section \<open>Reading and writing\<close>

text \<open>
  The client's read handler meets the loop's interface once it has a read handler and its server is
  alive; its write handler, which starts a read, meets the write interface on connections whose
  receive buffer can take a head.
\<close>

definition head_ready :: "conn \<Rightarrow> bool" where
  "head_ready c \<longleftrightarrow> (case c_recv_buffer c of
     None \<Rightarrow> pool_good ((=) fresh_buffer) (c_pool c) | Some b \<Rightarrow> wf_buffer b \<and> room 12 b)"

lemma client_reads_frames:
  assumes "cl_read_handler cl" and "cl_server cl"
  shows "frame_consumer (Client_handle_read cl clock)"
  using assms by unfold_locales (simp add: Client_handle_read_def Connection_set_recvbytes_def
      Connection_set_last_recvtime_def Let_def)

lemma arm_head_ready:
  assumes "head_ready c"
  shows "\<exists>c'. Connection_arm_read 12 c = Inr (c', [AsyncReadSome (c_id c) 12])
    \<and> c_send_list c' = c_send_list c \<and> c_open c' = c_open c"
proof (cases "c_recv_buffer c")
  case None
  then obtain p where "Connection_use c = (fresh_buffer, c\<lparr>c_pool := p\<rparr>)"
    using use_fresh [of c] assms by (auto simp: head_ready_def)
  moreover obtain k where "MsgBuffer_adjust 12 fresh_buffer = Inr (fresh_buffer\<lparr>m_buffer := m_buffer fresh_buffer @ replicate k 0\<rparr>)"
    using adjust_ok [of fresh_buffer 12] by auto
  ultimately show ?thesis using None by (simp add: Connection_arm_read_def)
next
  case (Some b)
  then obtain k where "MsgBuffer_adjust 12 b = Inr (b\<lparr>m_buffer := m_buffer b @ replicate k 0\<rparr>)"
    using adjust_ok [of b 12] assms by (auto simp: head_ready_def)
  then show ?thesis using Some by (simp add: Connection_arm_read_def)
qed

interpretation client_writes: write_observer "Client_handle_write clock" head_ready
proof
  fix c ec n
  assume "head_ready c"
  then have "head_ready (c\<lparr>c_send_bytes := x, c_last_send_time := y\<rparr>)" for x y
    by (cases "c_recv_buffer c") (simp_all add: head_ready_def)
  from arm_head_ready [OF this]
  show "\<exists>c' es. Client_handle_write clock c ec n = Inr (c', es) \<and> started es = []
      \<and> c_send_list c' = c_send_list c \<and> c_open c' = c_open c"
    by (fastforce simp: Client_handle_write_def Client_async_read_def Connection_async_read_def
        g_proto_head_len_def Connection_set_sendbytes_def Connection_set_last_sendtime_def Let_def)
qed

lemma keepalive_frame_kept:
  assumes "Client_handle_timeout c = Inr (c', es)"
  shows "\<exists>p. c' = c\<lparr>c_pool := p\<rparr>"
  using assms
  by (auto simp: Client_handle_timeout_def Connection_use_def bind_res_def map_res_def Let_def
      Client_async_write_def Connection_async_write_def split: prod.splits sum.splits)

text \<open>
  C10: the keepalive reaches the wire. On an idle open connection of the client the timeout posts one
  packet, and when the kernel takes its 14 bytes in one transfer, exactly the keepalive frame has been
  appended to the wire, nothing is left in flight or in the send list, and the connection is open.
\<close>

theorem client_keepalive_sent:
  assumes "w_inflight s = []" and "c_send_list (w_conn s) = []" and "c_open (w_conn s)"
    and "head_ready (w_conn s)" and "pool_good ((=) fresh_buffer) (c_pool (w_conn s))"
    and "14 \<le> Suc k"
  shows "\<exists>c' data s'. Client_handle_timeout (w_conn s) = Inr (c', [PostWrite (c_id (w_conn s)) data])
    \<and> write_run (Client_handle_write clock) [WPost data, WDone k] (s\<lparr>w_conn := c'\<rparr>) = Inr s'
    \<and> w_wire s' = w_wire s @ keepalive_frame \<and> w_inflight s' = [] \<and> c_send_list (w_conn s') = [] \<and> c_open (w_conn s')"
proof -
  obtain data c' where d: "Client_handle_timeout (w_conn s) = Inr (c', [PostWrite (c_id (w_conn s)) data])"
      "holds keepalive_frame data" "m_indicator data = valid" "pool_good ((=) fresh_buffer) (c_pool c')"
    using keepalive_built [OF assms(5)] by blast
  have c': "c_send_list c' = []" "c_open c'" "head_ready c'"
    using keepalive_frame_kept [OF d(1)] d(4) assms(2-4)
    by (auto simp: head_ready_def split: option.splits)
  have len: "length keepalive_frame = 14" "keepalive_frame \<noteq> []" by (simp_all add: keepalive_frame_def g_head_magic_num_def)
  let ?s = "s\<lparr>w_conn := c'\<rparr>"
  obtain s' where "write_run (Client_handle_write clock) [WPost data, WDone k] ?s = Inr s'"
      "w_wire s' = w_wire ?s @ keepalive_frame" "w_inflight s' = []" "c_send_list (w_conn s') = []" "c_open (w_conn s')"
    using client_writes.write_post_one [of ?s keepalive_frame data k clock] c' d len assms(1,6) by auto
  then show ?thesis using d(1) by auto
qed

theorem client_keepalive_sent_witness:
  "\<exists>c' data s'. Client_handle_timeout idle_conn = Inr (c', [PostWrite 0 data])
     \<and> write_run (Client_handle_write (\<lambda>_. 7)) [WPost data, WDone 13] (idle_sys\<lparr>w_conn := c'\<rparr>) = Inr s'
     \<and> w_wire s' = keepalive_frame"
proof -
  have "w_conn idle_sys = idle_conn" "head_ready idle_conn" "pool_good ((=) fresh_buffer) (c_pool idle_conn)"
    "c_id idle_conn = 0"
    by (simp_all add: idle_sys_def idle_conn_def Connection_new_def head_ready_def)
  then show ?thesis
    using client_keepalive_sent [of idle_sys 13 "\<lambda>_. 7"] idle_sys_ok by auto
qed

text \<open>
  Every completed write starts another read: after two writes two reads are outstanding into the
  same storage of one receive buffer.
\<close>

lemma client_reads_pile_up:
  assumes "head_ready c" "Client_handle_write clock c NoError n = Inr (c1, es)"
  shows "es = [AsyncReadSome (c_id c) 12]"
proof -
  have "head_ready (c\<lparr>c_send_bytes := x, c_last_send_time := y\<rparr>)" for x y
    using assms(1) by (cases "c_recv_buffer c") (simp_all add: head_ready_def)
  note ready = this
  define c0 where "c0 = c\<lparr>c_send_bytes := c_send_bytes c + n,
    c_last_send_time := clock (c\<lparr>c_send_bytes := c_send_bytes c + n\<rparr>)\<rparr>"
  have "Client_handle_write clock c NoError n = Connection_arm_read 12 c0"
    by (simp add: c0_def Client_handle_write_def Client_async_read_def Connection_async_read_def
        g_proto_head_len_def Connection_set_sendbytes_def Connection_set_last_sendtime_def Let_def)
  moreover have "head_ready c0" "c_id c0 = c_id c" using ready by (simp_all add: c0_def)
  ultimately show ?thesis using arm_head_ready [of c0] assms(2) by auto
qed

section \<open>Choosing a connection\<close>

lemma pick_conn_in: "pick_conn random sz i m = Some c \<Longrightarrow> c \<in> snd ` set m"
  by (induction random sz i m rule: pick_conn.induct) (auto split: if_splits)

lemma get_conn_member:
  "if cl_conn_manager cl = [] then Client_get_conn random cl = Inl NullDeref
   else \<exists>c. Client_get_conn random cl = Inr c \<and> c \<in> snd ` set (cl_conn_manager cl)"
  using pick_conn_in [of random _ 0 "cl_conn_manager cl"]
  by (auto simp: Client_get_conn_def split: option.splits list.splits)

text \<open>
  \<open>get_conn\<close> returns a connection of the table whatever the random engine draws, as long as the
  table is not empty; on an empty table it dereferences \<open>begin()\<close> of an empty map.
\<close>

theorem get_conn_returns_member:
  "if cl_conn_manager cl = [] then Client_get_conn random cl = Inl NullDeref
   else \<exists>c. Client_get_conn random cl = Inr c \<and> c \<in> snd ` set (cl_conn_manager cl)"
  by (rule get_conn_member)

section \<open>Connecting\<close>

lemma connect_loop_ok:
  assumes "cl_ioc_pool cl = Some pool" "m_iocs pool = [0..<sz]" "unat (m_ioc_pos pool) < sz" "sz < 2 ^ 64"
  shows "\<exists>cl' pool'. fold_res (\<lambda>_. Client_connect_one g endpoint) xs cl = Inr cl'
    \<and> map snd (cl_connecting cl') = map snd (cl_connecting cl) @ replicate (length xs) endpoint
    \<and> cl_server_conns cl' = cl_server_conns cl \<and> cl_per_conn_num cl' = cl_per_conn_num cl
    \<and> cl_ioc_pool cl' = Some pool' \<and> m_iocs pool' = [0..<sz] \<and> unat (m_ioc_pos pool') < sz"
  using assms
proof (induction xs arbitrary: cl pool)
  case (Cons x xs)
  let ?pool = "pool\<lparr>m_ioc_pos := of_nat (Suc (unat (m_ioc_pos pool)) mod sz)\<rparr>"
  have "Suc (unat (m_ioc_pos pool)) mod sz < sz" using Cons.prems by simp
  then have pos: "unat (m_ioc_pos ?pool) < sz" using Cons.prems(4) by (simp add: unat_of_nat_lt)
  let ?i = "length (cl_conns cl)"
  let ?cl = "cl\<lparr>cl_ioc_pool := Some ?pool, cl_conns := cl_conns cl @ [Connection_new ?i True None 1000 (g ?i)],
    cl_context := cl_context cl @ [unat (m_ioc_pos pool)], cl_connecting := cl_connecting cl @ [(?i, endpoint)]\<rparr>"
  have "Client_connect_one g endpoint cl = Inr ?cl"
    using get_iocontext_ok [OF Cons.prems(2-4)] Cons.prems(1) by (simp add: Client_connect_one_def Let_def)
  moreover obtain cl' pool' where "fold_res (\<lambda>_. Client_connect_one g endpoint) xs ?cl = Inr cl'"
      "map snd (cl_connecting cl') = map snd (cl_connecting ?cl) @ replicate (length xs) endpoint"
      "cl_server_conns cl' = cl_server_conns cl" "cl_per_conn_num cl' = cl_per_conn_num cl"
      "cl_ioc_pool cl' = Some pool'" "m_iocs pool' = [0..<sz]" "unat (m_ioc_pos pool') < sz"
    using Cons.IH [of ?cl ?pool] Cons.prems pos by auto
  ultimately show ?case by auto
qed simp

lemma connect_peers_ok:
  assumes "cl_ioc_pool cl = Some pool" "m_iocs pool = [0..<sz]" "unat (m_ioc_pos pool) < sz" "sz < 2 ^ 64"
    and "\<forall>(host, port) \<in> set peers. from_string host \<noteq> None"
  shows "\<exists>cl'. fold_res (\<lambda>(host, port) cl. case from_string host of None \<Rightarrow> Inl SystemError
        | Some addr \<Rightarrow> Client_async_connect g (addr, port) cl) peers cl = Inr cl'
    \<and> map snd (cl_connecting cl') = map snd (cl_connecting cl)
        @ concat (map (\<lambda>(host, port). replicate (unat (cl_per_conn_num cl)) (the (from_string host), port)) peers)"
  using assms
proof (induction peers arbitrary: cl pool)
  case (Cons peer peers)
  obtain host port addr where p: "peer = (host, port)" "from_string host = Some addr"
    using Cons.prems(5) by (cases peer) auto
  obtain cl1 pool1 where cl1: "Client_async_connect g (addr, port) cl = Inr cl1"
      "map snd (cl_connecting cl1) = map snd (cl_connecting cl) @ replicate (unat (cl_per_conn_num cl)) (addr, port)"
      "cl_per_conn_num cl1 = cl_per_conn_num cl"
      "cl_ioc_pool cl1 = Some pool1" "m_iocs pool1 = [0..<sz]" "unat (m_ioc_pos pool1) < sz"
    using connect_loop_ok [OF Cons.prems(1-4), of g "(addr, port)" "[0..<unat (cl_per_conn_num cl)]"]
    by (auto simp: Client_async_connect_def)
  then show ?case using Cons.IH [OF cl1(4-6) Cons.prems(4)] Cons.prems(5) p by auto
qed simp

text \<open>
  A started client opens \<open>m_per_conn_num\<close> connections to every peer, in the order of the peers,
  when there is at least one connection worker and every host is an address.
\<close>

lemma client_connects_to_peers:
  assumes "0 < conn_woker_num" and "\<forall>(host, port) \<in> set peers. from_string host \<noteq> None"
  shows "\<exists>cl. Client_connect_peers from_string g (Client_start (Client_new peers conn_woker_num n h)) = Inr cl
    \<and> map snd (cl_connecting cl)
      = concat (map (\<lambda>(host, port). replicate (unat n) (the (from_string host), port)) peers)"
proof -
  let ?cl = "Client_start (Client_new peers conn_woker_num n h)"
  have "cl_ioc_pool ?cl = Some (IocPool_new (unat conn_woker_num))" "unat conn_woker_num < 2 ^ 64"
    "m_iocs (IocPool_new (unat conn_woker_num)) = [0..<unat conn_woker_num]"
    "unat (m_ioc_pos (IocPool_new (unat conn_woker_num))) < unat conn_woker_num"
    using assms(1) unat_size_t_lt by (simp_all add: Client_start_def IocPool_new_def word_less_nat_alt Client_new_def)
  then show ?thesis
    using connect_peers_ok [of ?cl _ "unat conn_woker_num" peers from_string g] assms(2)
    by (auto simp: Client_connect_peers_def Client_start_def Client_new_def)
qed

text \<open>
  A lost connection is never replaced: \<open>release\<close> leaves \<open>m_server_conns\<close> alone, so the count of the
  endpoint stays at its maximum and the reconnect timer skips it. A failed connect releases the
  identifier the connection was born with, which is whatever its memory held.
\<close>

lemma release_keeps_count: "cl_server_conns (Client_release uuid cl) = cl_server_conns cl"
  by (simp add: Client_release_def)

lemma reconnect_skips_full:
  assumes "\<forall>(e, n) \<in> set (cl_server_conns cl). cl_per_conn_num cl \<le> n"
  shows "Client_reconnect g cl = Inr cl"
proof -
  have "fold_res (\<lambda>(endpoint, conn_num) cl.
      if conn_num < cl_per_conn_num cl then Client_async_connect g endpoint cl else Inr cl) xs cl = Inr cl"
    if "\<forall>(e, n) \<in> set xs. cl_per_conn_num cl \<le> n" for xs
    using that by (induction xs) auto
  then show ?thesis using assms by (simp add: Client_reconnect_def)
qed

lemma failed_connect_releases_garbage:
  assumes "cl_connecting cl ! k = (i, e)" "i < length (cl_conns cl)" "cl_conns cl ! i = Connection_new i True None 1000 (u, x)"
    and "ec \<noteq> NoError"
  shows "\<exists>cl' es. Client_on_connect ec info k cl = Inr (cl', es)
    \<and> cl_conn_manager cl' = AList.delete u (cl_conn_manager cl)"
  using assms by (cases x) (simp add: Client_on_connect_def Connection_close_def Connection_new_def
      Client_perform_def Client_release_def Let_def)

end
