(* ===== verification/Application.thy ===== *)
theory Application
  imports Client
begin

text \<open>
  \<open>Application\<close> (\<open>src/application.h\<close>, \<open>src/application.cpp\<close>): what happens to a received package on a
  worker thread (checksum, decoding, dispatch, response) and to a request for the audit server. The
  \<open>world\<close> holds the server's connections, the audit client and the thread's cached audit connection;
  \<open>lock\<close> of a weak pointer consults the sets of live connections. Effects are tagged with the side
  whose connection they concern. Console output and logging are not represented.
\<close>

section \<open>State\<close>

datatype side = ServerSide | ClientSide

record world =
  wd_conns :: "conn list"
  wd_alive :: "conn_ref \<Rightarrow> bool"
  wd_client :: client
  wd_client_alive :: "conn_ref \<Rightarrow> bool"
  wd_audit_conn :: "conn_ref option"

type_synonym world_step = "(world \<times> (side \<times> effect) list) res"
type_synonym deliver_proc = "Request \<Rightarrow> world \<Rightarrow> world_step"

definition on_server_conn :: "conn_ref \<Rightarrow> (conn \<Rightarrow> conn step) \<Rightarrow> world \<Rightarrow> world_step" where
  "on_server_conn i f w =
     (if i < length (wd_conns w)
      then map_res (\<lambda>(c, es). (w\<lparr>wd_conns := (wd_conns w)[i := c]\<rparr>, map (Pair ServerSide) es))
             (f (wd_conns w ! i))
      else Inl NullDeref)"

definition on_client_conn :: "conn_ref \<Rightarrow> (conn \<Rightarrow> conn step) \<Rightarrow> world \<Rightarrow> world_step" where
  "on_client_conn i f w =
     (let cl = wd_client w in
      if i < length (cl_conns cl)
      then map_res (\<lambda>(c, es). (w\<lparr>wd_client := cl\<lparr>cl_conns := (cl_conns cl)[i := c]\<rparr>\<rparr>, map (Pair ClientSide) es))
             (f (cl_conns cl ! i))
      else Inl NullDeref)"

definition then_world :: "world_step \<Rightarrow> (world \<Rightarrow> world_step) \<Rightarrow> world_step" where
  "then_world r f = bind_res r (\<lambda>(w, es). map_res (\<lambda>(w', fs). (w', es @ fs)) (f w))"

section \<open>Receiving\<close>

text \<open>
  \<open>parse_check\<close>. The two checksums start indeterminate (\<open>g1\<close>, \<open>g2\<close>) and stay so when \<open>fetch\<close> does
  not call its handler.
\<close>

definition parse_check :: "u16 \<Rightarrow> u16 \<Rightarrow> msgbuffer \<Rightarrow> (bool \<times> msgbuffer) res" where
  "parse_check g1 g2 data =
     bind_res (MsgBuffer_fetch (MsgBuffer_available data - 2) 2 data) (\<lambda>r1.
     bind_res (MsgBuffer_fetch 8 (MsgBuffer_available data - 8 - 2) data) (\<lambda>r2.
     bind_res (case r2 of None \<Rightarrow> Inr g2
               | Some buf \<Rightarrow> crc16 buf 0 (ucast (MsgBuffer_available data - 8 - 2))) (\<lambda>crc_calc.
       let crc_pack = (case r1 of None \<Rightarrow> g1 | Some buf \<Rightarrow> dec16 buf) in
       if crc_pack \<noteq> crc_calc then Inr (False, data)
       else let inpack_len = ucast (MsgBuffer_available data - 6) :: u32 in
         map_res (\<lambda>data. (True, MsgBuffer_consume 4 data)) (reset_u32 4 inpack_len data))))"

text \<open>
  \<open>handle_read_msg\<close>: the request, or none for a bad checksum or an unknown command; the buffer goes
  back to the pool except after a bad checksum.
\<close>

definition Application_handle_read_msg ::
    "u16 \<Rightarrow> u16 \<Rightarrow> conn \<Rightarrow> msgbuffer \<Rightarrow> (Request option \<times> conn) res" where
  "Application_handle_read_msg g1 g2 c data =
     bind_res (parse_check g1 g2 data) (\<lambda>(ok, data).
       if \<not> ok then Inr (None, c)
       else bind_res (Head_decode Head_init data) (\<lambda>(head, data).
         bind_res
           (if m_cmd head = BIND_CMD then
              map_res (\<lambda>(msg, data). (Some (Request_set_head head msg), data))
                (Request_decode_body (RequestBind Head_init (Some (c_id c)) BindBody_init) data)
            else if m_cmd head = ACT_CMD then
              Inr (Some (Request_set_head head (RequestAct Head_init (Some (c_id c)))), data)
            else if m_cmd head = DELIVER_MSG_CMD then
              map_res (\<lambda>(msg, data). (Some (Request_set_head head msg), data))
                (Request_decode_body (RequestDeliver Head_init (Some (c_id c)) DeliverBody_init) data)
            else Inr (None, data))
           (\<lambda>(msg, data). Inr (msg, Connection_recycle data c))))"

section \<open>Responding\<close>

definition Application_handle_write_msg :: "Response option \<Rightarrow> conn \<Rightarrow> conn step" where
  "Application_handle_write_msg rsp c =
     (let (data, c1) = Connection_use c in
      case rsp of
        None \<Rightarrow> Inr (Server_async_write (MsgBuffer_set_indicator invalid data) c1)
      | Some rsp \<Rightarrow>
          bind_res (Response_makeup rsp (MsgBuffer_seek 4 data)) (\<lambda>(ok, rsp, data).
            if \<not> ok then Inr (c1, [])
            else bind_res (MsgBuffer_reset 0 g_head_magic_num (MsgBuffer_vomit 4 data)) (\<lambda>data.
              let packlen = ucast (MsgBuffer_available data - 4) :: u32 in
              bind_res (reset_u32 4 packlen data) (\<lambda>data.
              bind_res (crc16 (m_buffer data) (MsgBuffer_memory data + 8) (packlen - 8)) (\<lambda>crc_val.
              map_res (\<lambda>data. Server_async_write (MsgBuffer_set_indicator valid data) c1)
                (put_u16 crc_val data))))))"

text \<open>The field setters of the responses; \<open>uid\<close> is assigned to itself, as in the source.\<close>

definition Application_handle_bind_msg :: "Request \<Rightarrow> Response \<Rightarrow> Response" where
  "Application_handle_bind_msg req rsp =
     (case rsp of
        ResponseBind h c u \<Rightarrow>
          ResponseBind (h\<lparr>m_cmd := BIND_CMD_RSP, m_len := 8 + of_nat (length (uid u))\<rparr>) c (u\<lparr>uid := uid u\<rparr>)
      | _ \<Rightarrow> rsp)"

definition Application_handle_act_msg :: "Response \<Rightarrow> Response" where
  "Application_handle_act_msg rsp = Response_upd_head (\<lambda>h. h\<lparr>m_cmd := ACT_CMD_RSP, m_len := 8\<rparr>) rsp"

definition Application_handle_deliver_msg :: "Response \<Rightarrow> Response" where
  "Application_handle_deliver_msg rsp = Response_upd_head (\<lambda>h. h\<lparr>m_cmd := DELIVER_MSG_CMD_RSP\<rparr>) rsp"

text \<open>The dispatch; the cast of a delivery is checked (\<open>dynamic_cast\<close> to a reference).\<close>

definition Application_handle_server_request ::
    "deliver_proc option \<Rightarrow> conn_ref \<Rightarrow> Request \<Rightarrow> world \<Rightarrow> world_step" where
  "Application_handle_server_request proc i req w =
     (let cmd = m_cmd (Request_head req) in
      if cmd = BIND_CMD then
        on_server_conn i (Application_handle_write_msg (Some
          (Application_handle_bind_msg req (ResponseBind Head_init (Some i) BindBody_init)))) w
      else if cmd = ACT_CMD then
        on_server_conn i (Application_handle_write_msg (Some
          (Application_handle_act_msg (ResponseAct Head_init (Some i))))) w
      else if cmd = DELIVER_MSG_CMD then
        (case proc of
           None \<Rightarrow> Inr (w, [])
         | Some p \<Rightarrow> (case req of RequestDeliver h c d \<Rightarrow> p req w | _ \<Rightarrow> Inl BadCast))
      else on_server_conn i (Application_handle_write_msg None) w)"

text \<open>The read handler \<open>set_context\<close> gives the server; it runs as a task on a worker.\<close>

definition Application_on_package ::
    "deliver_proc option \<Rightarrow> u16 \<Rightarrow> u16 \<Rightarrow> conn_ref \<Rightarrow> msgbuffer \<Rightarrow> world \<Rightarrow> world_step" where
  "Application_on_package proc g1 g2 i data w =
     (if i < length (wd_conns w) then
        bind_res (Application_handle_read_msg g1 g2 (wd_conns w ! i) data) (\<lambda>(req, c).
          let w1 = w\<lparr>wd_conns := (wd_conns w)[i := c]\<rparr> in
          case req of
            None \<Rightarrow> on_server_conn i (Application_handle_write_msg None) w1
          | Some req \<Rightarrow> Application_handle_server_request proc i req w1)
      else Inl NullDeref)"

section \<open>The audit server\<close>

definition Application_handle_audit_msg :: "Response \<Rightarrow> msgbuffer \<Rightarrow> (Response \<times> msgbuffer) res" where
  "Application_handle_audit_msg req data =
     map_res (\<lambda>(ok, req, data). (req, data))
       (Response_makeup (Response_upd_head (\<lambda>h. h\<lparr>m_cmd := AUDIT_TOKEN_CMD\<rparr>) req) data)"

text \<open>The cached connection is used while it lives, otherwise \<open>get_conn\<close> picks another.\<close>

definition Application_audit_conn :: "(nat \<Rightarrow> nat) \<Rightarrow> world \<Rightarrow> (conn_ref \<times> world) res" where
  "Application_audit_conn random w =
     (case wd_audit_conn w of
        Some i \<Rightarrow>
          if wd_client_alive w i then Inr (i, w)
          else map_res (\<lambda>i. (i, w\<lparr>wd_audit_conn := Some i\<rparr>)) (Client_get_conn random (wd_client w))
      | None \<Rightarrow> map_res (\<lambda>i. (i, w\<lparr>wd_audit_conn := Some i\<rparr>)) (Client_get_conn random (wd_client w)))"

definition Application_handle_to_audit_request :: "(nat \<Rightarrow> nat) \<Rightarrow> Response \<Rightarrow> world \<Rightarrow> world_step" where
  "Application_handle_to_audit_request random req w =
     (let req1 = Response_upd_head (\<lambda>h. h\<lparr>m_cmd := AUDIT_TOKEN_CMD\<rparr>) req in
      bind_res (Application_audit_conn random w) (\<lambda>(i, w1).
        on_client_conn i (\<lambda>c.
          let (data, c1) = Connection_use c in
          map_res (\<lambda>(_, data). Client_async_write data c1) (Application_handle_audit_msg req1 data)) w1))"

text \<open>The read handler of the audit client: every answer is dropped after its checks.\<close>

definition Application_handle_from_audit_response ::
    "u16 \<Rightarrow> u16 \<Rightarrow> conn \<Rightarrow> msgbuffer \<Rightarrow> (Response option \<times> conn) res" where
  "Application_handle_from_audit_response g1 g2 c data =
     bind_res (parse_check g1 g2 data) (\<lambda>(ok, data).
       if \<not> ok then Inr (None, c)
       else map_res (\<lambda>(head, data). (None, Connection_recycle data c)) (Head_decode Head_init data))"

definition send_adt_msg :: "(nat \<Rightarrow> nat) \<Rightarrow> Response \<Rightarrow> world \<Rightarrow> (bool \<times> world \<times> (side \<times> effect) list) res" where
  "send_adt_msg random req w = map_res (Pair True) (Application_handle_to_audit_request random req w)"

definition send_rsp_msg :: "Response \<Rightarrow> world \<Rightarrow> (bool \<times> world \<times> (side \<times> effect) list) res" where
  "send_rsp_msg rsp w =
     (case Response_owner rsp of
        Some i \<Rightarrow>
          if wd_alive w i then
            map_res (Pair True)
              (on_server_conn i (Application_handle_write_msg (Some (Application_handle_deliver_msg rsp))) w)
          else Inr (False, w, [])
      | None \<Rightarrow> Inr (False, w, []))"

section \<open>The program\<close>

text \<open>
  \<open>main.cpp\<close>: the logic the program installs for a delivery, a response that echoes the request and
  a request to the audit server. \<open>policy_type = 1\<close> assigns a character to a string.
\<close>

definition deliver_response :: "conn_ref option \<Rightarrow> DeliverBody \<Rightarrow> Response" where
  "deliver_response owner d =
     ResponseDeliver Head_init owner
       (DeliverRespBody_init\<lparr>rb_status := 200, rb_msg_id := db_msg_id d, rb_msg_type := db_content_type d,
          rb_svc_type := db_svc_type d, rb_token_id := db_token_id d, rb_session_id := db_session_id d,
          rb_kernel_id := str_bytes ''k02'', rb_detail := str_bytes ''it's ok'',
          rb_inspect_id := str_bytes ''183983488384'', rb_esStatisticsParam := str_bytes ''10'',
          rb_text_is_sync := db_text_is_sync d\<rparr>)"

definition deliver_audit :: "DeliverBody \<Rightarrow> Response" where
  "deliver_audit d =
     RequestAudit Head_init None
       (AuditBody_init\<lparr>ab_msg_id := db_msg_id d, ab_msg_type := db_content_type d, ab_hash := db_hash d,
          ab_policy_type := [1], ab_policy_id := str_bytes ''A123233424234234'', ab_report_type := 2,
          ab_svc_type := db_svc_type d, ab_token_id := db_token_id d, ab_from := db_from d,
          ab_to := db_to d, ab_to_counts := db_counts d\<rparr>)"

definition main_deliver_proc :: "(nat \<Rightarrow> nat) \<Rightarrow> deliver_proc" where
  "main_deliver_proc random req w =
     (case req of
        RequestDeliver h owner d \<Rightarrow>
          then_world (map_res snd (send_rsp_msg (deliver_response owner d) w))
            (\<lambda>w. map_res snd (send_adt_msg random (deliver_audit d) w))
      | _ \<Rightarrow> Inl BadCast)"

section \<open>Setting up\<close>

text \<open>
  The configuration as \<open>cfg.at\<close> and its conversions give it (\<open>Inl\<close>: reading the setting fails with
  that error), the application's members, and the signals it waits for.
\<close>

record 'e config =
  cfg_ports :: "'e + int list"
  cfg_worker_num :: "'e + size_t"
  cfg_server_conn_worker_num :: "'e + size_t"
  cfg_client_conn_worker_num :: "'e + size_t"
  cfg_per_conn_num :: "'e + size_t"

record application =
  app_deliver_msg_proc :: "deliver_proc option"
  app_server :: "server option"
  app_audit_client :: "client option"
  app_signals :: "int list"
  app_waiting :: bool

definition Application_new :: application where
  "Application_new = \<lparr>app_deliver_msg_proc = None, app_server = None, app_audit_client = None,
     app_signals = [], app_waiting = False\<rparr>"

definition Application_set_logic_proc_app :: "deliver_proc \<Rightarrow> server \<Rightarrow> client \<Rightarrow> application \<Rightarrow> application" where
  "Application_set_logic_proc_app logic_proc server client a =
     a\<lparr>app_deliver_msg_proc := Some logic_proc, app_audit_client := Some (client\<lparr>cl_server := True\<rparr>),
       app_server := Some server\<rparr>"

definition audit_peers :: "(bytes \<times> u16) list" where
  "audit_peers = [(str_bytes ''172.21.22.155'', 23071)]"

definition Application_set_context :: "'e config \<Rightarrow> deliver_proc \<Rightarrow> application \<Rightarrow> 'e + application" where
  "Application_set_context cfg logic_proc a =
     (case cfg_ports cfg of Inl e \<Rightarrow> Inl e | Inr ports \<Rightarrow>
      case cfg_worker_num cfg of Inl e \<Rightarrow> Inl e | Inr workers \<Rightarrow>
      case cfg_server_conn_worker_num cfg of Inl e \<Rightarrow> Inl e | Inr sconn \<Rightarrow>
      case cfg_client_conn_worker_num cfg of Inl e \<Rightarrow> Inl e | Inr cconn \<Rightarrow>
      case cfg_per_conn_num cfg of Inl e \<Rightarrow> Inl e | Inr per_conn \<Rightarrow>
        Inr (Application_set_logic_proc_app logic_proc (Server_new ports workers sconn)
               (Client_new audit_peers cconn per_conn True) a))"

datatype signal_action = IgnoreSignal | ProcessHangup | NoSignal

text \<open>SIGINT 2, SIGTERM 15, SIGPIPE 13, SIGHUP 1; the wait is renewed in every case.\<close>

definition Application_handle_signals :: "error_code \<Rightarrow> int \<Rightarrow> application \<Rightarrow> signal_action \<times> application" where
  "Application_handle_signals ec sig a =
     (if ec = NoError then
        if sig = 2 \<or> sig = 15 \<or> sig = 13 then IgnoreSignal
        else if sig = 1 then ProcessHangup else NoSignal
      else NoSignal,
      a\<lparr>app_waiting := True\<rparr>)"

definition Application_start :: "garbage \<Rightarrow> (u16 \<Rightarrow> port_outcome) \<Rightarrow> application \<Rightarrow> application res" where
  "Application_start g os a =
     (let a1 = a\<lparr>app_signals := app_signals a @ [15, 2, 13, 1], app_waiting := True\<rparr> in
      case (app_audit_client a1, app_server a1) of
        (Some client, Some server) \<Rightarrow>
          map_res (\<lambda>server. a1\<lparr>app_audit_client := Some (Client_start client), app_server := Some server\<rparr>)
            (Server_start g os server)
      | _ \<Rightarrow> Inl NullDeref)"

section \<open>The checksum check, exactly\<close>

lemma holds_written: "holds bs b \<Longrightarrow> m_head b = 0 \<Longrightarrow> written 0 (m_packlen b) (m_indicator b) bs b"
  by (simp add: holds_def written_def content_def)

lemma available_minus:
  assumes "holds bs b" and "k \<le> length bs"
  shows "unat (MsgBuffer_available b - of_nat k) = length bs - k"
proof -
  have "unat (MsgBuffer_available b) = length bs" using holds_available [OF assms(1)] holds_length [OF assms(1)] by simp
  moreover have "unat (of_nat k :: size_t) = k" using assms(2) holds_length [OF assms(1)] by simp
  ultimately show ?thesis using assms(2) by (simp add: unat_sub word_le_nat_alt)
qed

lemma crc16_whole: "length xs < 2 ^ 31 \<Longrightarrow> crc16 xs 0 (of_nat (length xs)) = Inr (crc16_bytes xs)"
  by (simp add: crc16_def mem_read_def signed_of_nat signed_take_bit_int_eq_self)

lemma parse_check_exact:
  assumes h: "holds bs b" and z: "m_head b = 0" and n: "10 \<le> length bs" "length bs < 2 ^ 31"
  shows "if dec16 (drop (length bs - 2) bs) = crc16_bytes (take (length bs - 10) (drop 8 bs))
    then \<exists>b'. parse_check g1 g2 b = Inr (True, b') \<and> holds (be32 (of_nat (length bs - 6)) @ drop 8 bs) b'
    else parse_check g1 g2 b = Inr (False, b)"
proof -
  let ?n = "length bs"
  have wf: "wf_buffer b" "room 0 b" "content b = bs" using h by (simp_all add: holds_def)
  note av = available_minus [OF h]
  have f1: "MsgBuffer_fetch (MsgBuffer_available b - 2) 2 b = Inr (Some (drop (?n - 2) bs))"
    using fetch_ok [OF wf(1,2), of "MsgBuffer_available b - 2" 2] av [of 2] n wf(3) by simp
  have a10: "unat (MsgBuffer_available b - 8 - 2) = ?n - 10"
    using av [of 10] n by (simp add: diff_diff_eq)
  have a6: "unat (MsgBuffer_available b - 6) = ?n - 6" using av [of 6] n by simp
  have f2: "MsgBuffer_fetch 8 (MsgBuffer_available b - 8 - 2) b = Inr (Some (take (?n - 10) (drop 8 bs)))"
    using fetch_ok [OF wf(1,2), of 8 "MsgBuffer_available b - 8 - 2"] a10 n wf(3) by simp
  have lx: "length (take (?n - 10) (drop 8 bs)) = ?n - 10" using n by simp
  have "ucast (MsgBuffer_available b - 8 - 2) = (of_nat (?n - 10) :: 32 word)"
    unfolding size_t_eq_of_nat [OF a10] using n by (intro ucast_size_t_u32) simp
  then have crc: "crc16 (take (?n - 10) (drop 8 bs)) 0 (ucast (MsgBuffer_available b - 8 - 2))
      = Inr (crc16_bytes (take (?n - 10) (drop 8 bs)))"
    using crc16_whole [of "take (?n - 10) (drop 8 bs)"] n lx by simp
  have len: "ucast (MsgBuffer_available b - 6) = (of_nat (?n - 6) :: u32)"
    unfolding size_t_eq_of_nat [OF a6] using n by (intro ucast_size_t_u32) simp
  have "written 0 (m_packlen b) (m_indicator b) (take 4 bs @ take 4 (drop 4 bs) @ drop 8 bs) b"
    using holds_written [OF h z] by (metis append_take_drop_id drop_drop numeral_Bit0 numeral_plus_numeral add_numeral_special)
  note w = this
  obtain b1 where b1: "MsgBuffer_reset 4 (be32 (of_nat (?n - 6))) b = Inr b1"
      "written 0 (m_packlen b) (m_indicator b) (take 4 bs @ be32 (of_nat (?n - 6)) @ drop 8 bs) b1"
    by (rule reset_written [OF w, of 4 "be32 (of_nat (?n - 6))"]) (use n in simp_all)
  have "holds (take 4 bs @ be32 (of_nat (?n - 6)) @ drop 8 bs) b1"
    using written_holds [OF b1(2)] n by simp
  then have "holds (be32 (of_nat (?n - 6)) @ drop 8 bs) (MsgBuffer_consume 4 b1)"
    using holds_consume [of "take 4 bs"] n by simp
  then show ?thesis using f1 f2 crc len b1(1) by (simp add: parse_check_def reset_u32_def Let_def)
qed

end
