(* ===== verification/Message_Flow.thy ===== *)
theory Message_Flow
  imports Application
begin

text \<open>
  What a message goes through, end to end: the frame a peer sends, its check and decoding on a
  worker, the dispatch, and the frame the server answers with. \<open>request_frame\<close> and
  \<open>response_frame\<close> are the byte layouts the two directions have.
\<close>

section \<open>Requests\<close>

definition request_frame :: "u32 \<Rightarrow> bytes \<Rightarrow> bytes" where
  "request_frame cmd body = g_head_magic_num @ be32 (of_nat (12 + length body)) @ be32 cmd @ body
     @ be16 (crc16_bytes (be32 cmd @ body))"

primrec request_cmd :: "Request \<Rightarrow> u32" where
  "request_cmd (RequestAct h c) = ACT_CMD"
| "request_cmd (RequestBind h c u) = BIND_CMD"
| "request_cmd (RequestDeliver h c d) = DELIVER_MSG_CMD"

primrec request_wire :: "Request \<Rightarrow> bytes" where
  "request_wire (RequestAct h c) = []"
| "request_wire (RequestBind h c u) = cstr (uid u)"
| "request_wire (RequestDeliver h c d) = concat (deliver_wire d)"

primrec request_strings_ok :: "Request \<Rightarrow> bool" where
  "request_strings_ok (RequestAct h c) = True"
| "request_strings_ok (RequestBind h c u) = (0 \<notin> set (uid u))"
| "request_strings_ok (RequestDeliver h c d) = deliver_strings_ok d"

text \<open>The request a frame stands for: the head as the check rewrites it, the owner it arrived on.\<close>

primrec received_as :: "conn_ref \<Rightarrow> Request \<Rightarrow> Request" where
  "received_as i (RequestAct h c) = RequestAct \<lparr>m_len = 8, m_cmd = ACT_CMD\<rparr> (Some i)"
| "received_as i (RequestBind h c u) =
     RequestBind \<lparr>m_len = of_nat (8 + length (cstr (uid u))), m_cmd = BIND_CMD\<rparr> (Some i) u"
| "received_as i (RequestDeliver h c d) =
     RequestDeliver \<lparr>m_len = of_nat (8 + length (concat (deliver_wire d))), m_cmd = DELIVER_MSG_CMD\<rparr> (Some i) d"

lemma request_frame_length [simp]: "length (request_frame cmd body) = 14 + length body"
  by (simp add: request_frame_def)

lemma request_frame_valid:
  "length body \<le> 2 * 1024 * 1024 - 14 \<Longrightarrow> valid_frame (request_frame cmd body)"
  by (auto simp: valid_frame_def) (simp_all add: request_frame_def)

lemma keepalive_is_request: "keepalive_frame = request_frame ACT_CMD []"
  by (simp add: keepalive_frame_def request_frame_def)

lemma parse_request_frame:
  assumes "holds (request_frame cmd body) b" and "m_head b = 0" and "length body < 2 ^ 30"
  obtains b' where "parse_check g1 g2 b = Inr (True, b')"
    "holds (be32 (of_nat (8 + length body)) @ be32 cmd @ body @ be16 (crc16_bytes (be32 cmd @ body))) b'"
proof -
  let ?f = "request_frame cmd body"
  have "drop (length ?f - 2) ?f = be16 (crc16_bytes (be32 cmd @ body))"
    by (simp add: request_frame_def)
  moreover have "take (length ?f - 10) (drop 8 ?f) = be32 cmd @ body"
    by (simp add: request_frame_def)
  moreover have "drop 8 ?f = be32 cmd @ body @ be16 (crc16_bytes (be32 cmd @ body))"
    by (simp add: request_frame_def)
  moreover have "length ?f - 6 = 8 + length body" by simp
  ultimately show thesis
    using that parse_check_exact [OF assms(1,2), of g1 g2] assms(3) by (auto simp del: of_nat_add)
qed

lemma read_msg_frame:
  assumes "holds (request_frame (request_cmd r) (request_wire r)) b" and "m_head b = 0"
    and "length (request_wire r) < 2 ^ 30" and "request_strings_ok r"
  shows "\<exists>p. Application_handle_read_msg g1 g2 c b = Inr (Some (received_as (c_id c) r), c\<lparr>c_pool := p\<rparr>)
    \<and> p = ObjectPool_free fresh_buffer (c_pool c)"
proof -
  let ?cmd = "request_cmd r" and ?body = "request_wire r"
  obtain b1 where b1: "parse_check g1 g2 b = Inr (True, b1)"
      "holds (be32 (of_nat (8 + length ?body)) @ be32 ?cmd @ ?body @ be16 (crc16_bytes (be32 ?cmd @ ?body))) b1"
    using parse_request_frame [OF assms(1-3)] by blast
  obtain b2 where b2: "Head_decode Head_init b1 = Inr (\<lparr>m_len = of_nat (8 + length ?body), m_cmd = ?cmd\<rparr>, b2)"
      "holds (?body @ be16 (crc16_bytes (be32 ?cmd @ ?body))) b2"
    using Head_decode_ok [OF b1(2)] by blast
  note run = Application_handle_read_msg_def b1(1) b2(1) Connection_recycle_def Connection_free_def
  show ?thesis
  proof (cases r)
    case (RequestAct h o')
    then show ?thesis by (simp add: run, simp add: cmd_defs)
  next
    case (RequestBind h o' u)
    obtain b3 where "BindBody_decode BindBody_init b2 = Inr (u, b3)"
      using BindBody_decode_ok [of u _ b2] b2(2) assms(4) RequestBind by auto
    then show ?thesis using RequestBind by (simp add: run)
  next
    case (RequestDeliver h o' d)
    obtain b3 where "DeliverBody_decode DeliverBody_init b2 = Inr (d, b3)"
      using DeliverBody_decode_ok [of d _ b2] b2(2) assms(4) RequestDeliver by auto
    then show ?thesis using RequestDeliver by (simp add: run, simp add: cmd_defs)
  qed
qed

text \<open>
  C4: a request survives the wire. For every ACT, BIND or DELIVER request without NUL bytes in its
  strings, a buffer holding its frame passes the checksum check, and \<open>handle_read_msg\<close> returns exactly
  that request, every field of the body included, with the length of head and body, the command and
  the receiving connection as owner; the buffer goes back to the pool cleared.
\<close>

theorem request_roundtrip:
  assumes "holds (request_frame (request_cmd r) (request_wire r)) b" and "m_head b = 0"
    and "length (request_wire r) < 2 ^ 30" and "request_strings_ok r"
  shows "Application_handle_read_msg g1 g2 c b
    = Inr (Some (received_as (c_id c) r), c\<lparr>c_pool := ObjectPool_free fresh_buffer (c_pool c)\<rparr>)"
  using read_msg_frame [OF assms, of g1 g2 c] by auto

definition sample_bind :: Request where
  "sample_bind = RequestBind Head_init None \<lparr>uid = str_bytes ''u1''\<rparr>"

theorem request_roundtrip_witness:
  "Application_handle_read_msg 0 0 idle_conn (sample_msg (request_frame BIND_CMD (cstr (str_bytes ''u1''))))
     = Inr (Some (received_as 0 sample_bind), idle_conn\<lparr>c_pool := ObjectPool_free fresh_buffer (c_pool idle_conn)\<rparr>)"
proof -
  let ?f = "request_frame (request_cmd sample_bind) (request_wire sample_bind)"
  have "holds ?f (sample_msg ?f)" "m_head (sample_msg ?f) = 0"
    by (rule sample_msg_holds) (simp_all add: sample_bind_def str_bytes_def sample_msg_def)
  moreover have "c_id idle_conn = 0" by (simp add: idle_conn_def Connection_new_def)
  moreover have "request_strings_ok sample_bind" "length (request_wire sample_bind) < 2 ^ 30"
    by (simp_all add: sample_bind_def str_bytes_def)
  ultimately show ?thesis
    using request_roundtrip [of sample_bind "sample_msg ?f" 0 0 idle_conn] by (simp add: sample_bind_def)
qed

section \<open>Damaged frames\<close>

text \<open>The connections of a world: named by position, with pools of cleared buffers.\<close>

definition conn_ok :: "conn_ref \<Rightarrow> conn \<Rightarrow> bool" where
  "conn_ok i c \<longleftrightarrow> c_id c = i \<and> pool_good ((=) fresh_buffer) (c_pool c)"

definition world_ok :: "world \<Rightarrow> bool" where
  "world_ok w \<longleftrightarrow> (\<forall>i < length (wd_conns w). conn_ok i (wd_conns w ! i))
     \<and> (\<forall>i < length (cl_conns (wd_client w)). conn_ok i (cl_conns (wd_client w) ! i))"

lemma use_ok:
  assumes "conn_ok i c"
  obtains p where "Connection_use c = (fresh_buffer, c\<lparr>c_pool := p\<rparr>)" "pool_good ((=) fresh_buffer) p"
  using assms use_fresh [of c] by (auto simp: conn_ok_def)

lemma refuse_posts:
  assumes "conn_ok i c"
  obtains p where "Application_handle_write_msg None c
      = Inr (c\<lparr>c_pool := p\<rparr>, [PostWrite i (MsgBuffer_set_indicator invalid fresh_buffer)])"
    "pool_good ((=) fresh_buffer) p"
proof -
  obtain p where "Connection_use c = (fresh_buffer, c\<lparr>c_pool := p\<rparr>)" "pool_good ((=) fresh_buffer) p"
    using use_ok [OF assms] .
  then show thesis using that [of p] assms
    by (simp add: Application_handle_write_msg_def Server_async_write_def Connection_async_write_def conn_ok_def)
qed

lemma refused_closes:
  assumes "c_open c" and "c_holder c"
  shows "\<exists>c'. Connection_write_posted (MsgBuffer_set_indicator invalid b) c
      = Inr (c', [ShutdownSocket (c_id c), CloseSocket (c_id c), Release (c_uuid c)]) \<and> \<not> c_open c'"
  using assms by (simp add: Connection_write_posted_def MsgBuffer_set_indicator_def Connection_recycle_def
      Connection_free_def Connection_close_def)

definition framed :: "bytes \<Rightarrow> bytes \<Rightarrow> u16 \<Rightarrow> bytes" where
  "framed front payload crc = front @ payload @ be16 crc"

lemma parse_framed:
  assumes "holds (framed front payload crc) b" "m_head b = 0" "length front = 8" "length payload < 2 ^ 30"
    and "crc \<noteq> crc16_bytes payload"
  shows "parse_check g1 g2 b = Inr (False, b)"
proof -
  let ?f = "framed front payload crc"
  have "drop (length ?f - 2) ?f = be16 crc" "take (length ?f - 10) (drop 8 ?f) = payload"
    "10 \<le> length ?f" "length ?f < 2 ^ 31"
    using assms(3,4) by (simp_all add: framed_def)
  then show ?thesis using parse_check_exact [OF assms(1,2), of g1 g2] assms(5) by auto
qed

text \<open>
  C6: a damaged frame is refused and its connection closed. If any two adjacent bytes between the
  length field and the checksum differ from what the checksum was computed over (a burst of up to
  sixteen bits), the read handler decodes nothing, calls no application logic and only posts a buffer
  marked invalid; when that post runs on the open connection, the socket is shut down and closed and
  the connection released.
\<close>

theorem damaged_frame_closes:
  assumes "world_ok w" and "i < length (wd_conns w)" and "c_open (wd_conns w ! i)" and "c_holder (wd_conns w ! i)"
    and "holds (framed front (pre @ [x', y'] @ post) (crc16_bytes (pre @ [x, y] @ post))) data"
    and "m_head data = 0" and "length front = 8" and "length pre + length post < 2 ^ 29" and "(x, y) \<noteq> (x', y')"
  shows "\<exists>w' d c'. Application_on_package proc g1 g2 i data w = Inr (w', [(ServerSide, PostWrite i d)])
    \<and> Connection_write_posted d (wd_conns w' ! i)
        = Inr (c', [ShutdownSocket i, CloseSocket i, Release (c_uuid (wd_conns w ! i))])
    \<and> \<not> c_open c'"
proof -
  have crc: "crc16_bytes (pre @ [x, y] @ post) \<noteq> crc16_bytes (pre @ [x', y'] @ post)"
    using burst_detected [of pre x y post x' y'] assms(9) by blast
  have "parse_check g1 g2 data = Inr (False, data)"
    using parse_framed [OF assms(5-7) _ crc] assms(8) by simp
  then have read: "Application_handle_read_msg g1 g2 (wd_conns w ! i) data = Inr (None, wd_conns w ! i)"
    by (simp add: Application_handle_read_msg_def)
  have ok: "conn_ok i (wd_conns w ! i)" using assms(1,2) by (simp add: world_ok_def)
  let ?d = "MsgBuffer_set_indicator invalid fresh_buffer"
  obtain p where p: "Application_handle_write_msg None (wd_conns w ! i) = Inr ((wd_conns w ! i)\<lparr>c_pool := p\<rparr>, [PostWrite i ?d])"
    using refuse_posts [OF ok] by metis
  let ?w = "w\<lparr>wd_conns := (wd_conns w)[i := (wd_conns w ! i)\<lparr>c_pool := p\<rparr>]\<rparr>"
  have "Application_on_package proc g1 g2 i data w = Inr (?w, [(ServerSide, PostWrite i ?d)])"
    using assms(2) read p by (simp add: Application_on_package_def on_server_conn_def)
  moreover obtain c' where "Connection_write_posted ?d ((wd_conns w ! i)\<lparr>c_pool := p\<rparr>)
      = Inr (c', [ShutdownSocket i, CloseSocket i, Release (c_uuid (wd_conns w ! i))])" "\<not> c_open c'"
    using refused_closes [of "(wd_conns w ! i)\<lparr>c_pool := p\<rparr>" fresh_buffer] assms(3,4) ok
    by (auto simp: conn_ok_def)
  ultimately show ?thesis using assms(2) by fastforce
qed

definition sample_world :: world where
  "sample_world = \<lparr>wd_conns = [idle_conn], wd_alive = (\<lambda>i. i = 0),
     wd_client = (Client_new audit_peers 1 1 True)\<lparr>cl_conns := [idle_conn], cl_conn_manager := [(5, 0)]\<rparr>,
     wd_client_alive = (\<lambda>i. i = 0), wd_audit_conn = None\<rparr>"

lemma sample_world_ok: "world_ok sample_world" "wd_conns sample_world = [idle_conn]"
  "c_open idle_conn" "c_holder idle_conn" "c_uuid idle_conn = 5" "c_id idle_conn = 0"
  by (simp_all add: sample_world_def world_ok_def conn_ok_def idle_conn_def Connection_new_def Client_new_def)

theorem damaged_frame_closes_witness:
  "\<exists>w' d. Application_on_package None 0 0 0 (sample_msg (framed (replicate 8 0) ([] @ [1, 2] @ [])
       (crc16_bytes ([] @ [1, 3] @ [])))) sample_world = Inr (w', [(ServerSide, PostWrite 0 d)])"
proof -
  let ?f = "framed (replicate 8 0) ([] @ [1, 2] @ []) (crc16_bytes ([] @ [1, 3] @ []))"
  have "holds ?f (sample_msg ?f)" "m_head (sample_msg ?f) = 0"
    by (rule sample_msg_holds) (simp_all add: framed_def sample_msg_def)
  then show ?thesis
    using damaged_frame_closes [of sample_world 0 "replicate 8 0" "[]" 1 2 "[]" 1 3 "sample_msg ?f" None 0 0]
      sample_world_ok by auto
qed

section \<open>Responses\<close>

text \<open>
  The frame \<open>handle_write_msg\<close> produces. The length field counts all but six bytes and the checksum
  covers only as many bytes as the body has, starting at the command.
\<close>

definition response_frame :: "Response \<Rightarrow> bytes" where
  "response_frame r =
     (let cmd = be32 (m_cmd (Response_head r)); body = response_wire r in
      g_head_magic_num @ be32 (of_nat (8 + length body)) @ cmd @ body
      @ be16 (crc16_bytes (take (length body) (cmd @ body))))"

lemma response_frame_length [simp]: "length (response_frame r) = 14 + length (response_wire r)"
  by (simp add: response_frame_def Let_def)

lemma write_msg_ok:
  assumes "conn_ok i c" and len: "length (response_wire r) < 2 ^ 30"
  shows "\<exists>data p. Application_handle_write_msg (Some r) c = Inr (c\<lparr>c_pool := p\<rparr>, [PostWrite i data])
    \<and> pool_good ((=) fresh_buffer) p \<and> holds (response_frame r) data \<and> m_indicator data = valid"
proof -
  let ?cmd = "be32 (m_cmd (Response_head r))" and ?body = "response_wire r"
  let ?n = "length ?body"
  obtain p where use: "Connection_use c = (fresh_buffer, c\<lparr>c_pool := p\<rparr>)" "pool_good ((=) fresh_buffer) p"
    using use_ok [OF assms(1)] .
  obtain g where g: "length g = 4" "written 4 0 none g (MsgBuffer_seek 4 fresh_buffer)"
    using written_seek_fresh [of 4] by auto
  obtain r' d1 where d1: "Response_makeup r (MsgBuffer_seek 4 fresh_buffer) = Inr (True, r', d1)"
      "written 4 0 none (g @ be32 (response_len r) @ ?cmd @ ?body) d1"
    using makeup_ok [OF g(2), of r] g(1) len by auto
  obtain d2 where d2: "MsgBuffer_reset 0 g_head_magic_num (MsgBuffer_vomit 4 d1) = Inr d2"
      "written 0 0 none (g_head_magic_num @ be32 (response_len r) @ ?cmd @ ?body) d2"
    using vomit_written [OF d1(2), of 4]
      reset_written [of 0 0 none "[]" g "be32 (response_len r) @ ?cmd @ ?body" _ 0 g_head_magic_num] g(1) by auto
  have "unat (MsgBuffer_available d2) = 12 + ?n" using written_available [OF d2(2)] by simp
  then have a4: "unat (MsgBuffer_available d2 - 4) = 8 + ?n"
    by (simp add: unat_sub word_le_nat_alt)
  have packlen: "ucast (MsgBuffer_available d2 - 4) = (of_nat (8 + ?n) :: u32)"
    unfolding size_t_eq_of_nat [OF a4] using len by (intro ucast_size_t_u32) simp
  obtain d3 where d3: "MsgBuffer_reset 4 (be32 (of_nat (8 + ?n))) d2 = Inr d3"
      "written 0 0 none (g_head_magic_num @ be32 (of_nat (8 + ?n)) @ ?cmd @ ?body) d3"
    by (rule reset_written [OF d2(2), of 4 "be32 (of_nat (8 + ?n))"]) simp_all
  have "(of_nat (8 + ?n) :: u32) - 8 = of_nat ?n" by simp
  then have crc: "crc16 (m_buffer d3) (MsgBuffer_memory d3 + 8) (of_nat (8 + ?n) - 8)
      = Inr (crc16_bytes (take ?n (?cmd @ ?body)))"
    using crc16_region [OF d3(2), of ?n] len by simp
  obtain d4 where d4: "MsgBuffer_append (be16 (crc16_bytes (take ?n (?cmd @ ?body)))) d3 = Inr d4"
      "written 0 0 none (response_frame r) d4"
    using put_written [OF d3(2), of "be16 (crc16_bytes (take ?n (?cmd @ ?body)))"] len
    by (auto simp: response_frame_def Let_def)
  let ?d = "MsgBuffer_set_indicator valid d4"
  have "Application_handle_write_msg (Some r) c = Inr (c\<lparr>c_pool := p\<rparr>, [PostWrite i ?d])"
    using use d1(1) d2(1) d3(1) d4(1) packlen crc assms(1)
    by (simp add: Application_handle_write_msg_def reset_u32_def put_u16_def Server_async_write_def
        Connection_async_write_def Let_def conn_ok_def del: of_nat_add)
  moreover have "holds (response_frame r) ?d" "m_indicator ?d = valid"
    using written_holds [OF d4(2)] len by (simp_all add: MsgBuffer_set_indicator_def)
  ultimately show ?thesis using use(2) by blast
qed

text \<open>
  The layout of every response. On a connection with a pool of cleared buffers, and for any ACT,
  BIND, DELIVER or audit message, \<open>handle_write_msg\<close> posts one valid buffer: the magic number, the
  length of the message from the length field to the end of the body, the command, the encoded body
  and a checksum over the first bytes of command and body, as many as the body has.
\<close>

lemma response_layout:
  assumes "c_id c = i" and "pool_good ((=) fresh_buffer) (c_pool c)" and "length (response_wire r) < 2 ^ 30"
  shows "\<exists>c' data. Application_handle_write_msg (Some r) c = Inr (c', [PostWrite i data])
    \<and> m_indicator data = valid
    \<and> content data = g_head_magic_num @ be32 (of_nat (8 + length (response_wire r)))
        @ be32 (m_cmd (Response_head r)) @ response_wire r
        @ be16 (crc16_bytes (take (length (response_wire r)) (be32 (m_cmd (Response_head r)) @ response_wire r)))"
  using write_msg_ok [of i c r] assms
  by (auto simp: conn_ok_def holds_def response_frame_def Let_def)

text \<open>
  The program's own package check does not accept these frames as they are: it takes the length
  field plus two for the total, four bytes short, so a body of fewer than four bytes is refused and
  a longer one is cut four bytes before its end.
\<close>

lemma response_frame_misread:
  assumes "holds (response_frame r) b" and "m_packlen b = 0" and "length (response_wire r) < 2 * 1024 * 1024 - 14"
  shows "\<exists>b'. PackageCheck b = Inr (if length (response_wire r) < 4 then INCORRECT else WHOLE, b')
    \<and> unat (m_packlen b') = length (response_frame r) - 4"
proof -
  let ?n = "length (response_wire r)" and ?f = "response_frame r"
  have head: "take 4 ?f = g_head_magic_num" "take 4 (drop 4 ?f) = be32 (of_nat (8 + ?n))"
    by (simp_all add: response_frame_def Let_def)
  have "learned ?f = ucast (of_nat (10 + ?n) :: u32)"
    using head by (simp add: learned_def add.commute)
  moreover have "take_bit 32 (10 + ?n) = 10 + ?n" using assms(3) by (intro take_bit_nat_eq_self) simp
  ultimately have l: "learned ?f = of_nat (10 + ?n)" by (simp only: unsigned_of_nat) simp
  have u: "unat (of_nat (10 + ?n) :: size_t) = 10 + ?n" using assms(3) by (simp del: of_nat_add)
  have "verdict (of_nat (10 + ?n)) ?f = (if ?n < 4 then INCORRECT else WHOLE)"
    unfolding verdict_def u using assms(3) by auto
  then have "classify ?f = (if ?n < 4 then INCORRECT else WHOLE)"
    using head l by (simp add: classify_def)
  then show ?thesis using PackageCheck_unknown [OF assms(1,2)] l u by auto
qed

section \<open>Dispatch\<close>

lemma world_ok_update:
  assumes "world_ok w" and "conn_ok i c"
  shows "world_ok (w\<lparr>wd_conns := (wd_conns w)[i := c]\<rparr>)"
  using assms by (auto simp: world_ok_def) (metis nth_list_update_eq nth_list_update_neq)

lemma on_server_write:
  assumes "world_ok w" and "i < length (wd_conns w)" and "length (response_wire r) < 2 ^ 30"
  obtains data c where "on_server_conn i (Application_handle_write_msg (Some r)) w
      = Inr (w\<lparr>wd_conns := (wd_conns w)[i := c]\<rparr>, [(ServerSide, PostWrite i data)])"
    "holds (response_frame r) data" "m_indicator data = valid" "world_ok (w\<lparr>wd_conns := (wd_conns w)[i := c]\<rparr>)"
proof -
  have ok: "conn_ok i (wd_conns w ! i)" using assms(1,2) by (simp add: world_ok_def)
  obtain data p where "Application_handle_write_msg (Some r) (wd_conns w ! i) = Inr ((wd_conns w ! i)\<lparr>c_pool := p\<rparr>, [PostWrite i data])"
      "pool_good ((=) fresh_buffer) p" "holds (response_frame r) data" "m_indicator data = valid"
    using write_msg_ok [OF ok assms(3)] by blast
  moreover from this ok have "world_ok (w\<lparr>wd_conns := (wd_conns w)[i := (wd_conns w ! i)\<lparr>c_pool := p\<rparr>]\<rparr>)"
    by (intro world_ok_update [OF assms(1)]) (simp add: conn_ok_def)
  ultimately show thesis using that assms(2) by (simp add: on_server_conn_def)
qed

lemma on_package_request:
  assumes w: "world_ok w" and i: "i < length (wd_conns w)"
    and f: "holds (request_frame (request_cmd r) (request_wire r)) data" "m_head data = 0"
      "length (request_wire r) < 2 ^ 30" "request_strings_ok r"
  obtains c where "Application_on_package proc g1 g2 i data w
      = Application_handle_server_request proc i (received_as i r) (w\<lparr>wd_conns := (wd_conns w)[i := c]\<rparr>)"
    "world_ok (w\<lparr>wd_conns := (wd_conns w)[i := c]\<rparr>)"
proof -
  let ?c = "wd_conns w ! i"
  have ok: "conn_ok i ?c" using w i by (simp add: world_ok_def)
  have "pool_good ((=) fresh_buffer) (ObjectPool_free fresh_buffer (c_pool ?c))"
    using ok obj_pool.put_good [of "(=) fresh_buffer" "c_pool ?c" fresh_buffer] by (simp add: conn_ok_def)
  then have "world_ok (w\<lparr>wd_conns := (wd_conns w)[i := ?c\<lparr>c_pool := ObjectPool_free fresh_buffer (c_pool ?c)\<rparr>]\<rparr>)"
    using ok by (intro world_ok_update [OF w]) (simp add: conn_ok_def)
  moreover have "Application_handle_read_msg g1 g2 ?c data
      = Inr (Some (received_as i r), ?c\<lparr>c_pool := ObjectPool_free fresh_buffer (c_pool ?c)\<rparr>)"
    using read_msg_frame [OF f, of g1 g2 ?c] ok by (auto simp: conn_ok_def)
  ultimately show thesis using that i by (simp add: Application_on_package_def Let_def)
qed

text \<open>The answer to a request the server handles itself.\<close>

primrec own_response :: "conn_ref \<Rightarrow> Request \<Rightarrow> Response option" where
  "own_response i (RequestAct h c) = Some (ResponseAct \<lparr>m_len = 8, m_cmd = ACT_CMD_RSP\<rparr> (Some i))"
| "own_response i (RequestBind h c u) = Some (ResponseBind \<lparr>m_len = 8, m_cmd = BIND_CMD_RSP\<rparr> (Some i) \<lparr>uid = []\<rparr>)"
| "own_response i (RequestDeliver h c d) = None"

lemma dispatch_own:
  assumes "own_response i r = Some rsp"
  shows "Application_handle_server_request proc i (received_as i r) w
    = on_server_conn i (Application_handle_write_msg (Some rsp)) w"
  using assms by (cases r) (auto simp: Application_handle_server_request_def Application_handle_bind_msg_def
      Application_handle_act_msg_def Head_init_def BindBody_init_def cmd_defs Let_def)

text \<open>
  C9: a keepalive or a bind is answered on the connection it came in on. For every such request the
  read handler, from the received bytes on, neither faults nor involves the application logic, and
  posts exactly one message to that connection: the response frame with the matching response command.
\<close>

theorem request_answered:
  assumes "world_ok w" and "i < length (wd_conns w)" and "own_response i r = Some rsp"
    and "holds (request_frame (request_cmd r) (request_wire r)) data" and "m_head data = 0"
    and "length (request_wire r) < 2 ^ 30" and "request_strings_ok r"
  shows "\<exists>w' d. Application_on_package proc g1 g2 i data w = Inr (w', [(ServerSide, PostWrite i d)])
    \<and> content d = response_frame rsp \<and> m_indicator d = valid \<and> world_ok w'"
proof -
  obtain c where c: "Application_on_package proc g1 g2 i data w
      = Application_handle_server_request proc i (received_as i r) (w\<lparr>wd_conns := (wd_conns w)[i := c]\<rparr>)"
    "world_ok (w\<lparr>wd_conns := (wd_conns w)[i := c]\<rparr>)"
    using on_package_request [OF assms(1,2,4-7)] .
  have len: "length (response_wire rsp) < 2 ^ 30" using assms(3) by (cases r) auto
  let ?w = "w\<lparr>wd_conns := (wd_conns w)[i := c]\<rparr>"
  have "i < length (wd_conns ?w)" using assms(2) by simp
  then obtain d c2 where "on_server_conn i (Application_handle_write_msg (Some rsp)) ?w
      = Inr (?w\<lparr>wd_conns := (wd_conns ?w)[i := c2]\<rparr>, [(ServerSide, PostWrite i d)])"
    "holds (response_frame rsp) d" "m_indicator d = valid" "world_ok (?w\<lparr>wd_conns := (wd_conns ?w)[i := c2]\<rparr>)"
    using on_server_write [OF c(2) _ len] by metis
  then show ?thesis using c(1) dispatch_own [OF assms(3)] by (auto simp: holds_def)
qed

theorem request_answered_witness:
  "\<exists>w' d. Application_on_package None 0 0 0 (sample_msg keepalive_frame) sample_world
       = Inr (w', [(ServerSide, PostWrite 0 d)])
     \<and> content d = response_frame (ResponseAct \<lparr>m_len = 8, m_cmd = ACT_CMD_RSP\<rparr> (Some 0))"
proof -
  let ?r = "RequestAct Head_init None"
  have "holds (request_frame (request_cmd ?r) (request_wire ?r)) (sample_msg keepalive_frame)"
      "m_head (sample_msg keepalive_frame) = 0"
    using sample_msg_holds [of keepalive_frame] by (simp_all add: keepalive_is_request sample_msg_def)
  then show ?thesis
    using request_answered [of sample_world 0 ?r "ResponseAct \<lparr>m_len = 8, m_cmd = ACT_CMD_RSP\<rparr> (Some 0)"
        "sample_msg keepalive_frame" None 0 0] sample_world_ok by auto
qed

section \<open>Deliveries\<close>

text \<open>The audit connection can be chosen: the table is filled with connections that exist.\<close>

definition audit_ready :: "world \<Rightarrow> bool" where
  "audit_ready w \<longleftrightarrow> cl_conn_manager (wd_client w) \<noteq> []
     \<and> (\<forall>j \<in> snd ` set (cl_conn_manager (wd_client w)). j < length (cl_conns (wd_client w)))
     \<and> (\<forall>j. wd_audit_conn w = Some j \<longrightarrow> j < length (cl_conns (wd_client w)))"

lemma audit_conn_ok:
  assumes "audit_ready w"
  obtains j w1 where "Application_audit_conn random w = Inr (j, w1)" "wd_client w1 = wd_client w"
    "j < length (cl_conns (wd_client w))"
proof -
  obtain k where k: "Client_get_conn random (wd_client w) = Inr k" "k < length (cl_conns (wd_client w))"
    using get_conn_member [of "wd_client w" random] assms by (auto simp: audit_ready_def)
  show thesis
  proof (cases "\<exists>j. wd_audit_conn w = Some j \<and> wd_client_alive w j")
    case True
    then show thesis using that [of _ w] assms by (auto simp: Application_audit_conn_def audit_ready_def)
  next
    case False
    then have "Application_audit_conn random w = Inr (k, w\<lparr>wd_audit_conn := Some k\<rparr>)"
      using k(1) by (auto simp: Application_audit_conn_def split: option.splits)
    then show thesis using that k(2) by simp
  qed
qed

definition audit_frame :: "Response \<Rightarrow> bytes" where
  "audit_frame r = be32 (of_nat (8 + length (response_wire r))) @ be32 AUDIT_TOKEN_CMD @ response_wire r"

lemma audit_msg_ok:
  assumes "r = RequestAudit h c0 a" and "length (response_wire r) < 2 ^ 30"
  shows "\<exists>r' data. Application_handle_audit_msg r fresh_buffer = Inr (r', data)
    \<and> holds (audit_frame r) data \<and> m_indicator data = none"
proof -
  let ?r = "Response_upd_head (\<lambda>h. h\<lparr>m_cmd := AUDIT_TOKEN_CMD\<rparr>) r"
  have r: "response_wire ?r = response_wire r" "m_cmd (Response_head ?r) = AUDIT_TOKEN_CMD"
    "response_len ?r = of_nat (8 + length (response_wire r))"
    using assms(1) by simp_all
  obtain r' data where d: "Response_makeup ?r fresh_buffer = Inr (True, r', data)"
      "written 0 0 none ([] @ be32 (response_len ?r) @ be32 (m_cmd (Response_head ?r)) @ response_wire ?r) data"
    using makeup_ok [OF written_fresh, of ?r] assms(2) r(1) by auto
  then have w: "written 0 0 none (audit_frame r) data" using r by (simp add: audit_frame_def)
  then have "holds (audit_frame r) data"
    using written_holds [OF w] assms(2) by (simp add: audit_frame_def)
  then show ?thesis using d(1) w by (auto simp: Application_handle_audit_msg_def written_def)
qed

lemma to_audit_ok:
  assumes w: "world_ok w" and "audit_ready w" and r: "r = RequestAudit h c0 a" "length (response_wire r) < 2 ^ 30"
  obtains w' j data where "Application_handle_to_audit_request random r w = Inr (w', [(ClientSide, PostWrite j data)])"
    "holds (audit_frame r) data" "m_indicator data = none"
proof -
  obtain j w1 where j: "Application_audit_conn random w = Inr (j, w1)" "wd_client w1 = wd_client w"
      "j < length (cl_conns (wd_client w))"
    using audit_conn_ok [OF assms(2)] .
  let ?c = "cl_conns (wd_client w) ! j"
  have ok: "conn_ok j ?c" using w j(3) by (simp add: world_ok_def)
  obtain p where p: "Connection_use ?c = (fresh_buffer, ?c\<lparr>c_pool := p\<rparr>)" using use_ok [OF ok] by metis
  let ?r = "Response_upd_head (\<lambda>h. h\<lparr>m_cmd := AUDIT_TOKEN_CMD\<rparr>) r"
  obtain r' data where d: "Application_handle_audit_msg ?r fresh_buffer = Inr (r', data)"
      "holds (audit_frame ?r) data" "m_indicator data = none"
    using audit_msg_ok [of ?r _ c0 a] r by auto
  moreover have "audit_frame ?r = audit_frame r" using r(1) by (simp add: audit_frame_def)
  ultimately show thesis
    using that j p ok by (simp add: Application_handle_to_audit_request_def on_client_conn_def
        Client_async_write_def Connection_async_write_def conn_ok_def Let_def)
qed

lemma deliver_wire_length:
  assumes "length (concat (deliver_wire d)) < 2 ^ 28"
  shows "length (response_wire (deliver_response c d)) < 2 ^ 30" "length (response_wire (deliver_audit d)) < 2 ^ 30"
  using assms by (simp_all add: deliver_wire_def deliver_response_def deliver_audit_def deliver_resp_wire_def
      audit_wire_def DeliverRespBody_init_def AuditBody_init_def str_bytes_def)

text \<open>
  What a delivery must lead to, as bytes: the body of the response and that of the audit request, field
  by field in wire order.
\<close>

definition expected_response_body :: "DeliverBody \<Rightarrow> bytes" where
  "expected_response_body d =
     be32 200 @ cstr (db_msg_id d) @ [db_content_type d] @ be32 (db_svc_type d) @ cstr (db_token_id d)
     @ cstr (db_session_id d) @ cstr (str_bytes ''k02'') @ cstr (str_bytes ''it's ok'')
     @ cstr (str_bytes ''183983488384'') @ cstr (str_bytes ''10'') @ be32 (db_text_is_sync d)"

definition expected_audit_body :: "DeliverBody \<Rightarrow> bytes" where
  "expected_audit_body d =
     cstr (db_msg_id d) @ cstr (db_from d) @ cstr (db_to d) @ [db_content_type d] @ be32 (db_svc_type d)
     @ be32 0 @ cstr [] @ cstr (db_hash d) @ [0] @ cstr (str_bytes ''A123233424234234'') @ cstr [1] @ cstr []
     @ cstr [] @ cstr [] @ cstr [] @ cstr [] @ be32 (db_counts d) @ cstr (db_token_id d) @ cstr [] @ cstr []
     @ cstr [] @ [2] @ be32 0 @ [0]"

lemma deliver_frames:
  "response_frame (Application_handle_deliver_msg (deliver_response c d))
     = g_head_magic_num @ be32 (of_nat (8 + length (expected_response_body d))) @ be32 0x8000003 @ expected_response_body d
       @ be16 (crc16_bytes (take (length (expected_response_body d)) (be32 0x8000003 @ expected_response_body d)))"
  "audit_frame (deliver_audit d)
     = be32 (of_nat (8 + length (expected_audit_body d))) @ be32 4 @ expected_audit_body d"
proof -
  have "response_wire (Application_handle_deliver_msg (deliver_response c d)) = expected_response_body d"
    by (simp add: Application_handle_deliver_msg_def deliver_response_def deliver_resp_wire_def DeliverRespBody_init_def
        expected_response_body_def)
  moreover have "m_cmd (Response_head (Application_handle_deliver_msg (deliver_response c d))) = 0x8000003"
    by (simp add: Application_handle_deliver_msg_def deliver_response_def DELIVER_MSG_CMD_RSP_def)
  ultimately show "response_frame (Application_handle_deliver_msg (deliver_response c d))
     = g_head_magic_num @ be32 (of_nat (8 + length (expected_response_body d))) @ be32 0x8000003 @ expected_response_body d
       @ be16 (crc16_bytes (take (length (expected_response_body d)) (be32 0x8000003 @ expected_response_body d)))"
    unfolding response_frame_def Let_def by simp
  have "response_wire (deliver_audit d) = expected_audit_body d"
    by (simp add: deliver_audit_def audit_wire_def AuditBody_init_def expected_audit_body_def)
  then show "audit_frame (deliver_audit d)
     = be32 (of_nat (8 + length (expected_audit_body d))) @ be32 4 @ expected_audit_body d"
    unfolding audit_frame_def AUDIT_TOKEN_CMD_def by simp
qed

text \<open>
  C2: a delivery, end to end. Let the received bytes be the frame of a delivery \<open>d\<close> without NUL bytes
  in its strings, on a connection that is alive, with an audit connection available. Then the
  program answers with exactly two messages, in this order, whose bytes are the ones written out here.
  On the same connection: the magic number, the length, the command 0x8000003 of a delivery response,
  the body with status 200, the message id, content type, service, token, session and \<open>text_is_sync\<close> of
  \<open>d\<close> and the fixed texts, and the checksum over as many bytes from the command on as the body has. To the
  audit server: the length, the command 4, and the body with the message id, sender, receivers and their
  number, content type, service, hash and token of \<open>d\<close>, the fixed policy and report type, all else empty.
\<close>

theorem delivery_end_to_end:
  assumes "world_ok w" and "i < length (wd_conns w)" and "wd_alive w i" and "audit_ready w"
    and "holds (request_frame DELIVER_MSG_CMD (concat (deliver_wire d))) data" and "m_head data = 0"
    and "length (concat (deliver_wire d)) < 2 ^ 28" and "deliver_strings_ok d"
  shows "\<exists>w' j rsp adt. Application_on_package (Some (main_deliver_proc random)) g1 g2 i data w
      = Inr (w', [(ServerSide, PostWrite i rsp), (ClientSide, PostWrite j adt)])
    \<and> content rsp = g_head_magic_num @ be32 (of_nat (8 + length (expected_response_body d))) @ be32 0x8000003
        @ expected_response_body d
        @ be16 (crc16_bytes (take (length (expected_response_body d)) (be32 0x8000003 @ expected_response_body d)))
    \<and> content adt = be32 (of_nat (8 + length (expected_audit_body d))) @ be32 4 @ expected_audit_body d"
proof -
  let ?r = "RequestDeliver Head_init None d"
  obtain c where c: "Application_on_package (Some (main_deliver_proc random)) g1 g2 i data w
      = Application_handle_server_request (Some (main_deliver_proc random)) i (received_as i ?r)
          (w\<lparr>wd_conns := (wd_conns w)[i := c]\<rparr>)" "world_ok (w\<lparr>wd_conns := (wd_conns w)[i := c]\<rparr>)"
    using on_package_request [OF assms(1,2), of ?r data "Some (main_deliver_proc random)" g1 g2] assms(5-8) by auto
  let ?w = "w\<lparr>wd_conns := (wd_conns w)[i := c]\<rparr>"
  let ?rsp = "Application_handle_deliver_msg (deliver_response (Some i) d)"
  have wire: "response_wire ?rsp = response_wire (deliver_response (Some i) d)"
    by (simp add: Application_handle_deliver_msg_def deliver_response_def)
  have len: "length (response_wire ?rsp) < 2 ^ 30" "length (response_wire (deliver_audit d)) < 2 ^ 30"
    unfolding wire using deliver_wire_length [OF assms(7)] by blast+
  have i: "i < length (wd_conns ?w)" using assms(2) by simp
  obtain rsp c2 where rsp: "on_server_conn i (Application_handle_write_msg (Some ?rsp)) ?w
      = Inr (?w\<lparr>wd_conns := (wd_conns ?w)[i := c2]\<rparr>, [(ServerSide, PostWrite i rsp)])"
    "holds (response_frame ?rsp) rsp" "world_ok (?w\<lparr>wd_conns := (wd_conns ?w)[i := c2]\<rparr>)"
    using on_server_write [OF c(2) i len(1)] by metis
  let ?w2 = "?w\<lparr>wd_conns := (wd_conns ?w)[i := c2]\<rparr>"
  have "audit_ready ?w2" using assms(4) by (simp add: audit_ready_def)
  then obtain w' j adt where adt: "Application_handle_to_audit_request random (deliver_audit d) ?w2
      = Inr (w', [(ClientSide, PostWrite j adt)])" "holds (audit_frame (deliver_audit d)) adt"
    using to_audit_ok [OF rsp(3), of "deliver_audit d"] len(2) by (metis deliver_audit_def)
  have "send_rsp_msg (deliver_response (Some i) d) ?w = Inr (True, ?w2, [(ServerSide, PostWrite i rsp)])"
    using rsp(1) assms(3) by (simp add: send_rsp_msg_def deliver_response_def)
  then have "main_deliver_proc random (received_as i ?r) ?w
      = Inr (w', [(ServerSide, PostWrite i rsp), (ClientSide, PostWrite j adt)])"
    using adt(1) by (simp add: main_deliver_proc_def then_world_def send_adt_msg_def)
  moreover have "content rsp = response_frame ?rsp" "content adt = audit_frame (deliver_audit d)"
    using rsp(2) adt(2) by (simp_all add: holds_def)
  moreover have "Application_handle_server_request (Some (main_deliver_proc random)) i (received_as i ?r) ?w
      = main_deliver_proc random (received_as i ?r) ?w"
    by (simp add: Application_handle_server_request_def cmd_defs Let_def)
  ultimately show ?thesis using c(1) deliver_frames(2) deliver_frames(1) [of "Some i"] by auto
qed

definition sample_deliver :: DeliverBody where
  "sample_deliver = DeliverBody_init\<lparr>db_msg_id := str_bytes ''m1''\<rparr>"

lemma sample_deliver_small: "length (concat (deliver_wire sample_deliver)) < 100" "deliver_strings_ok sample_deliver"
  by (simp_all add: sample_deliver_def DeliverBody_init_def deliver_wire_def deliver_strings_ok_def str_bytes_def)

theorem delivery_end_to_end_witness:
  "\<exists>w' j rsp adt. Application_on_package (Some (main_deliver_proc (\<lambda>_. 0))) 0 0 0
       (sample_msg (request_frame DELIVER_MSG_CMD (concat (deliver_wire sample_deliver)))) sample_world
     = Inr (w', [(ServerSide, PostWrite 0 rsp), (ClientSide, PostWrite j adt)])
     \<and> content adt = be32 (of_nat (8 + length (expected_audit_body sample_deliver))) @ be32 4
         @ expected_audit_body sample_deliver"
proof -
  let ?f = "request_frame DELIVER_MSG_CMD (concat (deliver_wire sample_deliver))"
  have "length ?f < 1000" using sample_deliver_small by (simp del: length_concat)
  then have "holds ?f (sample_msg ?f)" "m_head (sample_msg ?f) = 0"
    by (rule sample_msg_holds) (simp add: sample_msg_def)
  moreover have "audit_ready sample_world" "wd_alive sample_world 0"
    by (simp_all add: audit_ready_def sample_world_def Client_new_def)
  ultimately show ?thesis
    using delivery_end_to_end [of sample_world 0 sample_deliver "sample_msg ?f" "\<lambda>_. 0" 0 0]
      sample_world_ok sample_deliver_small by auto
qed

end
