(* ===== verification/Db_Field.thy ===== *)
theory Db_Field
  imports Sparrow_Prelude
begin

text \<open>
  \<open>Field\<close> (\<open>dao/field.h\<close>, \<open>dao/field.cpp\<close>): one column of a row as text, with conversions to the
  integer types. \<open>text_integer\<close> is what the C library reads: white space, a sign, digits up to the first
  other character. \<open>atol\<close> and \<open>atoll\<close> (both 64 bits wide on Linux) are \<open>c_atol\<close>; \<open>atoi\<close> is
  \<open>c_atoi\<close>. ISO C leaves a number outside the result type undefined; the definitions follow the GNU C
  library, where \<open>atol\<close> is \<open>strtol\<close>, which stops at the ends of the 64-bit range, and \<open>atoi\<close> is its
  result cut to 32 bits. The casts of the getters keep the low bits of the target's width.
  \<open>get_float\<close> (floating point), the declared but undefined \<open>convert_value\<close> and the two-argument
  \<open>set_value\<close> are left out.
\<close>

section \<open>State and operations\<close>

datatype DataTypes = DB_TYPE_UNKNOWN | DB_TYPE_STRING | DB_TYPE_INTEGER | DB_TYPE_FLOAT | DB_TYPE_BOOL

record Field =
  m_field_value :: bytes
  m_field_name :: bytes
  m_field_type :: DataTypes
  m_bnull :: bool

definition Field_new :: Field where
  "Field_new = \<lparr>m_field_value = [], m_field_name = [], m_field_type = DB_TYPE_UNKNOWN, m_bnull = False\<rparr>"

text \<open>The copy constructor and the constructor from text leave \<open>m_bnull\<close> indeterminate.\<close>

definition Field_copy :: "bool \<Rightarrow> Field \<Rightarrow> Field" where
  "Field_copy garbage f = f\<lparr>m_bnull := garbage\<rparr>"

definition Field_of :: "bool \<Rightarrow> bytes \<Rightarrow> DataTypes \<Rightarrow> Field" where
  "Field_of garbage v t =
     \<lparr>m_field_value = takeWhile (\<lambda>c. c \<noteq> 0) v, m_field_name = [], m_field_type = t, m_bnull = garbage\<rparr>"

text \<open>\<open>assign(const char*)\<close> stops at the first NUL.\<close>

definition Field_set_value :: "bytes \<Rightarrow> Field \<Rightarrow> Field" where
  "Field_set_value v f = f\<lparr>m_field_value := takeWhile (\<lambda>c. c \<noteq> 0) v\<rparr>"

definition Field_set_type :: "DataTypes \<Rightarrow> Field \<Rightarrow> Field" where
  "Field_set_type t f = f\<lparr>m_field_type := t\<rparr>"

definition lower_char :: "u8 \<Rightarrow> u8" where
  "lower_char c = (if 65 \<le> c \<and> c \<le> 90 then c + (97 - 65) else c)"

definition toLowerString :: "bytes \<Rightarrow> bytes" where
  "toLowerString s = map lower_char s"

definition Field_set_name :: "bytes \<Rightarrow> Field \<Rightarrow> Field" where
  "Field_set_name n f = f\<lparr>m_field_name := toLowerString n\<rparr>"

section \<open>Conversions\<close>

definition is_space :: "u8 \<Rightarrow> bool" where
  "is_space c \<longleftrightarrow> c = 32 \<or> (9 \<le> c \<and> c \<le> 13)"

definition text_integer :: "bytes \<Rightarrow> int" where
  "text_integer s =
     (let t = dropWhile is_space s in
      case t of
        [] \<Rightarrow> 0
      | c # rest \<Rightarrow>
          if c = 45 then - int (digits_value (takeWhile is_digit rest))
          else if c = 43 then int (digits_value (takeWhile is_digit rest))
          else int (digits_value (takeWhile is_digit t)))"

definition c_atol :: "bytes \<Rightarrow> 64 word" where
  "c_atol s = word_of_int (max (- (2 ^ 63)) (min (2 ^ 63 - 1) (text_integer s)))"

definition c_atoi :: "bytes \<Rightarrow> 32 word" where
  "c_atoi s = ucast (c_atol s)"

definition Field_get_bool :: "Field \<Rightarrow> bool" where
  "Field_get_bool f \<longleftrightarrow> sint (c_atoi (m_field_value f)) > 0"

definition Field_get_int32 :: "Field \<Rightarrow> 32 word" where
  "Field_get_int32 f = ucast (c_atol (m_field_value f))"

definition Field_get_uint8 :: "Field \<Rightarrow> u8" where
  "Field_get_uint8 f = ucast (c_atol (m_field_value f))"

definition Field_get_uint16 :: "Field \<Rightarrow> u16" where
  "Field_get_uint16 f = ucast (c_atol (m_field_value f))"

definition Field_get_int16 :: "Field \<Rightarrow> 16 word" where
  "Field_get_int16 f = ucast (c_atol (m_field_value f))"

definition Field_get_uint32 :: "Field \<Rightarrow> u32" where
  "Field_get_uint32 f = ucast (c_atol (m_field_value f))"

definition Field_get_uint64 :: "Field \<Rightarrow> u64" where
  "Field_get_uint64 f = c_atol (m_field_value f)"

section \<open>Round trip with decimal text\<close>

lemma text_integer_digits:
  assumes "\<forall>c \<in> set ds. is_digit c" and "ds \<noteq> []"
  shows "text_integer ds = int (digits_value ds)"
proof -
  obtain d rest where d: "ds = d # rest" "is_digit d" using assms by (cases ds) auto
  then have "\<not> is_space d" "d \<noteq> 45" "d \<noteq> 43"
    by (auto simp: is_digit_def is_space_def word_le_nat_alt)
  moreover have "takeWhile is_digit ds = ds" using assms(1) by (simp add: takeWhile_eq_all_conv)
  ultimately show ?thesis using d(1) by (simp add: text_integer_def Let_def)
qed

lemma text_integer_int_text: "text_integer (int_text i) = i"
proof (cases "i < 0")
  case True
  have "takeWhile is_digit (dec_text (nat (- i))) = dec_text (nat (- i))"
    using dec_text_digits by (simp add: takeWhile_eq_all_conv)
  note tw = this
  have "text_integer (45 # xs) = - int (digits_value (takeWhile is_digit xs))" for xs
    by (simp add: text_integer_def is_space_def)
  then have "text_integer (45 # dec_text (nat (- i))) = - int (nat (- i))" by (simp only: tw dec_text_value)
  then show ?thesis using True by (simp add: int_text_def)
next
  case False
  then show ?thesis
    using text_integer_digits [OF dec_text_digits dec_text_nonempty] by (simp add: int_text_def dec_text_value)
qed

lemma digit_not_nul: "is_digit c \<Longrightarrow> c \<noteq> 0"
  by (auto simp: is_digit_def)

lemma int_text_no_nul: "0 \<notin> set (int_text i)"
  using dec_text_digits digit_not_nul by (auto simp: int_text_def)

lemma set_value_atol: "c_atol (m_field_value (Field_set_value (int_text i) f0)) = word_of_int (max (- (2 ^ 63)) (min (2 ^ 63 - 1) i))"
proof -
  have tw: "takeWhile (\<lambda>c. c \<noteq> 0) (int_text i) = int_text i"
    using int_text_no_nul by (auto simp: takeWhile_eq_all_conv)
  have "m_field_value (Field_set_value v f0) = takeWhile (\<lambda>c. c \<noteq> 0) v" for v
    by (simp add: Field_set_value_def)
  then show ?thesis by (simp only: tw c_atol_def text_integer_int_text)
qed

lemma set_value_atol_long:
  assumes "- (2 ^ 63) \<le> i" and "i < 2 ^ 63"
  shows "c_atol (m_field_value (Field_set_value (int_text i) f0)) = word_of_int i"
proof -
  have "max (- (2 ^ 63)) (min (2 ^ 63 - 1) i) = i" using assms by linarith
  then show ?thesis by (simp only: set_value_atol)
qed

lemma ucast_long: "ucast (word_of_int i :: 64 word) = (word_of_int i :: 'a::len word)" if "LENGTH('a) \<le> 64"
proof -
  have "take_bit LENGTH('a) (take_bit LENGTH(64) i) = take_bit LENGTH('a) i" using that by (simp add: min_def)
  then show ?thesis by (simp only: ucast_eq uint_word_of_int_eq word_of_int_eq_iff)
qed

lemma sint_in_range:
  assumes "- (2 ^ (LENGTH('a) - 1)) \<le> i" and "i < 2 ^ (LENGTH('a) - 1)"
  shows "sint (word_of_int i :: 'a::len word) = i"
  using assms by (simp add: sint_sbintrunc' signed_take_bit_int_eq_self)

lemma uint_in_range: "0 \<le> i \<Longrightarrow> i < 2 ^ LENGTH('a) \<Longrightarrow> uint (word_of_int i :: 'a::len word) = i"
  by (simp add: uint_word_of_int)

text \<open>
  C40: an integer column reads back as the integer. For every integer of the 64-bit range, a field set
  from its decimal text (with a sign if negative) converts to that integer reduced to the width of each
  target type; so it is the value itself whenever that lies in the range of the unsigned or signed
  target type (for \<open>get_uint64\<close> the upper half of the type's range lies outside the 64-bit signed range
  the conversion goes through, see \<open>get_uint64_saturates\<close>), and \<open>get_bool\<close> tells whether a 32-bit
  integer is positive.
\<close>

theorem field_integer_roundtrip:
  assumes "- (2 ^ 63) \<le> i" and "i < 2 ^ 63"
  shows "let f = Field_set_value (int_text i) f0 in
     Field_get_uint8 f = word_of_int i \<and> Field_get_uint16 f = word_of_int i \<and> Field_get_uint32 f = word_of_int i
   \<and> Field_get_uint64 f = word_of_int i \<and> Field_get_int16 f = word_of_int i \<and> Field_get_int32 f = word_of_int i
   \<and> (0 \<le> i \<and> i < 2 ^ 8 \<longrightarrow> uint (Field_get_uint8 f) = i)
   \<and> (0 \<le> i \<and> i < 2 ^ 16 \<longrightarrow> uint (Field_get_uint16 f) = i)
   \<and> (0 \<le> i \<and> i < 2 ^ 32 \<longrightarrow> uint (Field_get_uint32 f) = i)
   \<and> (0 \<le> i \<longrightarrow> uint (Field_get_uint64 f) = i)
   \<and> (- (2 ^ 15) \<le> i \<and> i < 2 ^ 15 \<longrightarrow> sint (Field_get_int16 f) = i)
   \<and> (- (2 ^ 31) \<le> i \<and> i < 2 ^ 31 \<longrightarrow> sint (Field_get_int32 f) = i \<and> Field_get_bool f = (0 < i))"
proof -
  note a = set_value_atol_long [OF assms, of f0]
  have g: "Field_get_uint8 (Field_set_value (int_text i) f0) = word_of_int i"
      "Field_get_uint16 (Field_set_value (int_text i) f0) = word_of_int i"
      "Field_get_uint32 (Field_set_value (int_text i) f0) = word_of_int i"
      "Field_get_uint64 (Field_set_value (int_text i) f0) = word_of_int i"
      "Field_get_int16 (Field_set_value (int_text i) f0) = word_of_int i"
      "Field_get_int32 (Field_set_value (int_text i) f0) = word_of_int i"
      "c_atoi (m_field_value (Field_set_value (int_text i) f0)) = word_of_int i"
    by (simp_all only: Field_get_uint8_def Field_get_uint16_def Field_get_uint32_def Field_get_uint64_def
        Field_get_int16_def Field_get_int32_def c_atoi_def a) (simp_all add: ucast_long)
  have r: "0 \<le> i \<Longrightarrow> i < 2 ^ 8 \<Longrightarrow> uint (word_of_int i :: u8) = i"
      "0 \<le> i \<Longrightarrow> i < 2 ^ 16 \<Longrightarrow> uint (word_of_int i :: u16) = i"
      "0 \<le> i \<Longrightarrow> i < 2 ^ 32 \<Longrightarrow> uint (word_of_int i :: u32) = i"
      "0 \<le> i \<Longrightarrow> uint (word_of_int i :: u64) = i"
      "- (2 ^ 15) \<le> i \<Longrightarrow> i < 2 ^ 15 \<Longrightarrow> sint (word_of_int i :: 16 word) = i"
      "- (2 ^ 31) \<le> i \<Longrightarrow> i < 2 ^ 31 \<Longrightarrow> sint (word_of_int i :: 32 word) = i"
    using assms by (simp_all add: uint_in_range sint_in_range)
  show ?thesis unfolding Let_def Field_get_bool_def g using r by metis
qed

theorem field_integer_roundtrip_witness:
  "uint (Field_get_uint64 (Field_set_value (int_text 9223372036854775807) Field_new)) = 9223372036854775807
   \<and> sint (Field_get_int32 (Field_set_value (int_text (- 70000)) Field_new)) = - 70000
   \<and> \<not> Field_get_bool (Field_set_value (int_text (- 70000)) Field_new)"
  using field_integer_roundtrip [of 9223372036854775807 Field_new] field_integer_roundtrip [of "- 70000" Field_new]
  by (simp add: Let_def)

text \<open>\<open>get_uint64\<close> goes through \<open>atoll\<close>, so every unsigned column from 2^63 on reads as 2^63 - 1.\<close>

lemma get_uint64_saturates:
  "2 ^ 63 \<le> i \<Longrightarrow> uint (Field_get_uint64 (Field_set_value (int_text i) f0)) = 2 ^ 63 - 1"
  unfolding Field_get_uint64_def set_value_atol by (simp add: min_def max_def)

lemma lower_idempotent: "toLowerString (toLowerString s) = toLowerString s"
  by (auto simp: toLowerString_def lower_char_def word_le_nat_alt unat_word_ariths)

end
