(* ===== verification/Mysql_Db.thy ===== *)
theory Mysql_Db
  imports Db_Field
begin

text \<open>
  \<open>Mysql\<close> (\<open>dao/mysql_db.h\<close>, \<open>dao/mysql_db.cpp\<close>): one link to the database. The MySQL C API is not part
  of the repository: it is the parameter \<open>api\<close>, one function per call the sources build, on an
  arbitrary state \<open>'db\<close> of the client library and the server. A link's handle is absent, live, or
  freed by \<open>mysql_close\<close>; a call on a freed handle is a use after free. \<open>connect\<close> carries the
  \<open>static thread_local\<close> counter \<open>retry\<close> of the calling thread. Times are ticks of
  \<open>system_clock\<close>, nanoseconds.
\<close>

section \<open>The C API\<close>

datatype native_type = T_TIMESTAMP | T_DATE | T_TIME | T_DATETIME | T_YEAR | T_STRING | T_VAR_STRING
  | T_BLOB | T_SET | T_NULL | T_TINY | T_SHORT | T_LONG | T_INT24 | T_LONGLONG | T_ENUM | T_DECIMAL
  | T_FLOAT | T_DOUBLE | T_OTHER nat

record result_set =
  rs_fields :: "(bytes \<times> native_type) list"
  rs_rows :: "bytes option list list"

record conn_args =
  arg_host :: bytes
  arg_user :: bytes
  arg_passwd :: bytes
  arg_db :: bytes
  arg_port :: int
  arg_timeout :: int

datatype mysql_option = OptConnectTimeout int | OptCharset bytes | OptReconnect bool

record 'db mysql_api =
  api_init :: "'db \<Rightarrow> bool \<times> 'db"
  api_options :: "mysql_option \<Rightarrow> 'db \<Rightarrow> int \<times> 'db"
  api_real_connect :: "conn_args \<Rightarrow> 'db \<Rightarrow> bool \<times> 'db"
  api_errno :: "'db \<Rightarrow> int"
  api_error :: "'db \<Rightarrow> bytes"
  api_ping :: "'db \<Rightarrow> int \<times> 'db"
  api_real_query :: "bytes \<Rightarrow> 'db \<Rightarrow> int \<times> 'db"
  api_close :: "'db \<Rightarrow> 'db"
  api_affected_rows :: "'db \<Rightarrow> u64"
  api_insert_id :: "'db \<Rightarrow> u64"
  api_info :: "'db \<Rightarrow> bytes option"
  api_escape :: "bytes \<Rightarrow> 'db \<Rightarrow> bytes"
  api_store_result :: "'db \<Rightarrow> result_set option \<times> 'db"
  api_client_version :: u64

section \<open>State\<close>

datatype handle = NoHandle | Live | Freed

record 'db mysql =
  my_db :: 'db
  my_handle :: handle
  my_res :: "result_set option"
  my_row :: "bytes option list option"
  my_res_num :: int
  my_need_free :: bool
  my_connected :: bool
  my_err_msg :: bytes
  my_err :: int
  my_use_matched :: int
  my_latest_time :: int

text \<open>\<open>std::make_shared<Mysql>()\<close> value-initialises the members without initialiser.\<close>

definition Mysql_new :: "int \<Rightarrow> 'db \<Rightarrow> 'db mysql" where
  "Mysql_new now db = \<lparr>my_db = db, my_handle = NoHandle, my_res = None, my_row = None, my_res_num = 0,
     my_need_free = False, my_connected = False, my_err_msg = [], my_err = 0, my_use_matched = 0,
     my_latest_time = now\<rparr>"

definition CR_SERVER_GONE_ERROR :: int where "CR_SERVER_GONE_ERROR = 2006"
definition CR_SERVER_LOST :: int where "CR_SERVER_LOST = 2013"

section \<open>Operations\<close>

text \<open>Every call that passes the handle: it must be live.\<close>

definition on_handle :: "'db mysql \<Rightarrow> ('db mysql \<Rightarrow> 'a res) \<Rightarrow> 'a res" where
  "on_handle m f = (case my_handle m of NoHandle \<Rightarrow> Inl NullDeref | Freed \<Rightarrow> Inl UseAfterFree | Live \<Rightarrow> f m)"

definition record_error :: "'db mysql_api \<Rightarrow> 'db mysql \<Rightarrow> 'db mysql" where
  "record_error api m = m\<lparr>my_err := api_errno api (my_db m), my_err_msg := api_error api (my_db m)\<rparr>"

definition Mysql_use_matched_rows :: "'db mysql \<Rightarrow> 'db mysql" where
  "Mysql_use_matched_rows m = m\<lparr>my_use_matched := 1\<rparr>"

definition Mysql_has_error :: "'db mysql \<Rightarrow> bool" where
  "Mysql_has_error m = (if my_err m = 0 then False else True)"

definition Mysql_update_operate_time :: "int \<Rightarrow> 'db mysql \<Rightarrow> 'db mysql" where
  "Mysql_update_operate_time now m = m\<lparr>my_latest_time := now\<rparr>"

definition Mysql_close :: "'db mysql_api \<Rightarrow> 'db mysql \<Rightarrow> 'db mysql" where
  "Mysql_close api m =
     (if my_connected m
      then m\<lparr>my_db := api_close api (my_db m), my_handle := Freed, my_connected := False\<rparr> else m)"

definition Mysql_ping :: "'db mysql_api \<Rightarrow> 'db mysql \<Rightarrow> (bool \<times> 'db mysql) res" where
  "Mysql_ping api m =
     on_handle m (\<lambda>m. let (r, db) = api_ping api (my_db m); m1 = m\<lparr>my_db := db\<rparr> in
       if r \<noteq> 0 then Inr (False, Mysql_close api (record_error api m1)) else Inr (True, m1))"

definition Mysql_query_exec :: "'db mysql_api \<Rightarrow> bytes \<Rightarrow> 'db mysql \<Rightarrow> (bool \<times> 'db mysql) res" where
  "Mysql_query_exec api sql m =
     on_handle m (\<lambda>m. let (r, db) = api_real_query api (takeWhile (\<lambda>c. c \<noteq> 0) sql) (my_db m);
         m1 = m\<lparr>my_db := db\<rparr> in
       if r \<noteq> 0 then Inr (False, Mysql_close api (record_error api m1)) else Inr (True, m1))"

definition Mysql_begin :: "'db mysql_api \<Rightarrow> 'db mysql \<Rightarrow> (bool \<times> 'db mysql) res" where
  "Mysql_begin api = Mysql_query_exec api (str_bytes ''begin'')"

definition Mysql_commit :: "'db mysql_api \<Rightarrow> 'db mysql \<Rightarrow> (bool \<times> 'db mysql) res" where
  "Mysql_commit api = Mysql_query_exec api (str_bytes ''commit'')"

definition Mysql_rollback :: "'db mysql_api \<Rightarrow> 'db mysql \<Rightarrow> (bool \<times> 'db mysql) res" where
  "Mysql_rollback api = Mysql_query_exec api (str_bytes ''rollback'')"

text \<open>\<open>rowNum < 0\<close> never holds of an unsigned number.\<close>

definition Mysql_affected_rows :: "'db mysql_api \<Rightarrow> 'db mysql \<Rightarrow> (64 word \<times> 'db mysql) res" where
  "Mysql_affected_rows api m =
     on_handle m (\<lambda>m. let rowNum = api_affected_rows api (my_db m) in
       if rowNum < 0 then Inr (- 1, Mysql_close api (record_error api m)) else Inr (rowNum, m))"

definition Mysql_result_info :: "'db mysql_api \<Rightarrow> 'db mysql \<Rightarrow> bytes option res" where
  "Mysql_result_info api m = on_handle m (\<lambda>m. Inr (api_info api (my_db m)))"

definition Mysql_insert_id :: "'db mysql_api \<Rightarrow> 'db mysql \<Rightarrow> u64 res" where
  "Mysql_insert_id api m = on_handle m (\<lambda>m. Inr (api_insert_id api (my_db m)))"

definition Mysql_client_version :: "'db mysql_api \<Rightarrow> 32 word" where
  "Mysql_client_version api = ucast (api_client_version api)"

definition Mysql_escape_string :: "'db mysql_api \<Rightarrow> bytes \<Rightarrow> 'db mysql \<Rightarrow> (bytes \<times> u32) res" where
  "Mysql_escape_string api from m =
     on_handle m (\<lambda>m. let to = api_escape api from (my_db m) in Inr (to, of_nat (length to)))"

subsection \<open>Results\<close>

text \<open>\<open>mysql_num_rows\<close> is stored in an \<open>int\<close>.\<close>

definition Mysql_use_result :: "'db mysql_api \<Rightarrow> 'db mysql \<Rightarrow> (bool \<times> 'db mysql) res" where
  "Mysql_use_result api m =
     on_handle m (\<lambda>m. let (r, db) = api_store_result api (my_db m); m1 = m\<lparr>my_db := db, my_res := r\<rparr> in
       case r of
         None \<Rightarrow>
           if api_errno api db \<noteq> 0 then Inr (False, Mysql_close api (record_error api m1))
           else Inr (False, m1\<lparr>my_res_num := 0\<rparr>)
       | Some rs \<Rightarrow>
           let m2 = m1\<lparr>my_res_num := sint (of_nat (length (rs_rows rs)) :: 32 word)\<rparr> in
           if my_res_num m2 < 0 then Inr (False, Mysql_close api ((record_error api m2)\<lparr>my_res := None\<rparr>))
           else Inr (True, m2\<lparr>my_need_free := True\<rparr>))"

text \<open>\<open>fetch_row\<close>: 0 a row, 1 the end, -1 an error.\<close>

definition Mysql_fetch_row :: "'db mysql_api \<Rightarrow> 'db mysql \<Rightarrow> (int \<times> 'db mysql) res" where
  "Mysql_fetch_row api m =
     (case my_res m of
        None \<Rightarrow> Inl NullDeref
      | Some rs \<Rightarrow>
          (case rs_rows rs of
             row # rest \<Rightarrow> Inr (0, m\<lparr>my_row := Some row, my_res := Some (rs\<lparr>rs_rows := rest\<rparr>)\<rparr>)
           | [] \<Rightarrow>
               on_handle (m\<lparr>my_row := None\<rparr>) (\<lambda>m. let m1 = m\<lparr>my_err := api_errno api (my_db m)\<rparr> in
                 if my_err m1 \<noteq> 0
                 then Inr (- 1, Mysql_close api (m1\<lparr>my_err_msg := api_error api (my_db m1), my_res := None\<rparr>))
                 else Inr (1, m1))))"

text \<open>\<open>m_res.release()\<close> forgets the result set without freeing it.\<close>

definition Mysql_free_result :: "'db mysql \<Rightarrow> 'db mysql" where
  "Mysql_free_result m = (if my_need_free m then m\<lparr>my_res := None, my_need_free := False\<rparr> else m)"

definition Mysql_destroy :: "'db mysql_api \<Rightarrow> 'db mysql \<Rightarrow> 'db mysql" where
  "Mysql_destroy api m = Mysql_close api (if my_need_free m then Mysql_free_result m else m)"

fun Mysql_convert_native_type :: "native_type \<Rightarrow> DataTypes" where
  "Mysql_convert_native_type T_TINY = DB_TYPE_INTEGER"
| "Mysql_convert_native_type T_SHORT = DB_TYPE_INTEGER"
| "Mysql_convert_native_type T_LONG = DB_TYPE_INTEGER"
| "Mysql_convert_native_type T_INT24 = DB_TYPE_INTEGER"
| "Mysql_convert_native_type T_LONGLONG = DB_TYPE_INTEGER"
| "Mysql_convert_native_type T_ENUM = DB_TYPE_INTEGER"
| "Mysql_convert_native_type T_DECIMAL = DB_TYPE_FLOAT"
| "Mysql_convert_native_type T_FLOAT = DB_TYPE_FLOAT"
| "Mysql_convert_native_type T_DOUBLE = DB_TYPE_FLOAT"
| "Mysql_convert_native_type (T_OTHER n) = DB_TYPE_UNKNOWN"
| "Mysql_convert_native_type _ = DB_TYPE_STRING"

text \<open>\<open>query\<close>: the fields are made once and refilled from every row; a row must have a value per field.\<close>

definition field_of_column :: "bytes \<times> native_type \<Rightarrow> Field" where
  "field_of_column c =
     Field_set_type (Mysql_convert_native_type (snd c)) (Field_set_name (fst c) Field_new)"

definition fill_field :: "bytes option \<Rightarrow> Field \<Rightarrow> Field" where
  "fill_field v f =
     (case v of
        None \<Rightarrow> Field_set_value [] (f\<lparr>m_bnull := True\<rparr>)
      | Some s \<Rightarrow> Field_set_value s (f\<lparr>m_bnull := False\<rparr>))"

definition fill_row :: "bytes option list \<Rightarrow> Field list \<Rightarrow> Field list res" where
  "fill_row row cur =
     (if length cur \<le> length row then Inr (map2 fill_field row cur) else Inl OutOfRange)"

text \<open>The loop over the rows; the fuel is the number of rows left plus one, each turn takes one.\<close>

fun Mysql_fetch_all ::
    "'db mysql_api \<Rightarrow> (Field list \<Rightarrow> 'a) \<Rightarrow> nat \<Rightarrow> Field list \<Rightarrow> 'db mysql \<Rightarrow> ('a list \<times> 'db mysql) res" where
  "Mysql_fetch_all api build 0 cur m = Inr ([], m)"
| "Mysql_fetch_all api build (Suc n) cur m =
     bind_res (Mysql_fetch_row api m) (\<lambda>(r, m1).
       if r = 0 then
         bind_res (fill_row (the (my_row m1)) cur) (\<lambda>cur1.
           map_res (\<lambda>(xs, m2). (build cur1 # xs, m2)) (Mysql_fetch_all api build n cur1 m1))
       else Inr ([], m1))"

definition Mysql_query ::
    "'db mysql_api \<Rightarrow> (Field list \<Rightarrow> 'a) \<Rightarrow> bytes \<Rightarrow> 'db mysql \<Rightarrow> ('a list \<times> 'db mysql) res" where
  "Mysql_query api build sql m =
     bind_res (Mysql_query_exec api sql m) (\<lambda>(ok, m).
       if \<not> ok then Inr ([], m)
       else bind_res (Mysql_use_result api m) (\<lambda>(ok, m).
         if \<not> ok then Inr ([], m)
         else case my_res m of
             None \<Rightarrow> Inl NullDeref
           | Some rs \<Rightarrow>
               map_res (\<lambda>(xs, m). (xs, Mysql_free_result m))
                 (Mysql_fetch_all api build (Suc (length (rs_rows rs))) (map field_of_column (rs_fields rs)) m)))"

text \<open>\<open>execute\<close> returns 1 after a successful statement and asks for the row count after a failed one.\<close>

definition Mysql_execute :: "'db mysql_api \<Rightarrow> bytes \<Rightarrow> 'db mysql \<Rightarrow> (32 word \<times> 'db mysql) res" where
  "Mysql_execute api sql m =
     bind_res (Mysql_query_exec api sql m) (\<lambda>(ok, m).
       let ret = (if ok then 1 else 0) in
       if ret \<noteq> 0 then Inr (ret, m)
       else on_handle m (\<lambda>m. Inr (ucast (api_affected_rows api (my_db m)), m)))"

text \<open>\<open>get_variable\<close> compares the two \<open>bool\<close> results with 0, so it goes on only after failures.\<close>

definition Mysql_get_variable :: "'db mysql_api \<Rightarrow> bytes \<Rightarrow> 'db mysql \<Rightarrow> (int \<times> 'db mysql) res" where
  "Mysql_get_variable api variable m =
     bind_res (Mysql_query_exec api (take 127 (str_bytes ''show variables like '' @ [39] @ variable @ [39])) m) (\<lambda>(ok, m).
       if ok then Inr (- 1, m)
       else bind_res (Mysql_use_result api m) (\<lambda>(ok, m).
         if ok then Inr (- 1, m)
         else map_res (\<lambda>(r, m).
           (if r = 0 then (case my_row m of
              Some (Some k # Some v # _) \<Rightarrow> if toLowerString k = toLowerString variable then sint (c_atol v) else - 1
            | _ \<Rightarrow> - 1) else - 1, Mysql_free_result m)) (Mysql_fetch_row api m)))"

subsection \<open>Connecting\<close>

definition Mysql_options_set :: "'db mysql_api \<Rightarrow> 'db mysql \<Rightarrow> bool \<times> 'db mysql" where
  "Mysql_options_set api m =
     (let (r1, db1) = api_options api (OptConnectTimeout (- 1)) (my_db m); m1 = m\<lparr>my_db := db1\<rparr> in
      if r1 \<noteq> 0 then (False, record_error api m1)
      else let (r2, db2) = api_options api (OptCharset (str_bytes ''utf8'')) (my_db m1); m2 = m1\<lparr>my_db := db2\<rparr> in
      if r2 \<noteq> 0 then (False, record_error api m2)
      else let (r3, db3) = api_options api (OptReconnect True) (my_db m2); m3 = m2\<lparr>my_db := db3\<rparr> in
      if r3 \<noteq> 0 then (False, record_error api m3) else (True, m3))"

text \<open>
  One attempt of \<open>connect\<close>: \<open>None\<close> when \<open>mysql_init\<close> fails, otherwise whether the server was
  reached. The timeout of the arguments is dropped by \<open>get_tp\<close>, and the result of
  \<open>mysql_options_set\<close> is ignored. That \<open>reset\<close> deletes the handle of an earlier attempt, with the wrong
  deleter, is left out.
\<close>

definition Mysql_attempt :: "'db mysql_api \<Rightarrow> conn_args \<Rightarrow> 'db mysql \<Rightarrow> bool option \<times> 'db mysql" where
  "Mysql_attempt api args m =
     (let (ok, db) = api_init api (my_db m);
          m1 = m\<lparr>my_db := db, my_handle := if ok then Live else NoHandle\<rparr> in
      if \<not> ok then (None, record_error api m1)
      else let m2 = snd (Mysql_options_set api m1);
               (up, db2) = api_real_connect api args (my_db m2); m3 = m2\<lparr>my_db := db2\<rparr> in
        if up then (Some True, m3) else (Some False, record_error api m3))"

text \<open>
  \<open>connect\<close>: the result, the thread's retry counter and the link. It calls itself only below three
  retries.
\<close>

function Mysql_connect :: "'db mysql_api \<Rightarrow> conn_args \<Rightarrow> int \<Rightarrow> 'db mysql \<Rightarrow> bool \<times> int \<times> 'db mysql" where
  "Mysql_connect api args retry m =
     (if my_connected m then (True, retry, m)
      else case Mysql_attempt api args m of
        (None, m1) \<Rightarrow> (False, retry, m1)
      | (Some True, m1) \<Rightarrow> (True, retry, m1\<lparr>my_connected := True\<rparr>)
      | (Some False, m1) \<Rightarrow>
          if my_err m1 \<noteq> CR_SERVER_GONE_ERROR \<and> my_err m1 \<noteq> CR_SERVER_LOST then (False, retry + 1, m1)
          else if retry + 1 < 3 then
            (case Mysql_connect api args (retry + 1) m1 of
               (ok, r, m2) \<Rightarrow> if ok then (True, r, m2\<lparr>my_connected := True\<rparr>) else (False, r, m2))
          else (False, retry + 1, m1))"
  by pat_completeness auto

termination by (relation "measure (\<lambda>(api, args, retry, m). nat (3 - retry))") auto

declare Mysql_connect.simps [simp del]

definition Mysql_open :: "'db mysql_api \<Rightarrow> conn_args \<Rightarrow> int \<Rightarrow> 'db mysql \<Rightarrow> bool \<times> int \<times> 'db mysql" where
  "Mysql_open api args retry m =
     (case Mysql_connect api args retry m of
        (ret, retry1, m1) \<Rightarrow>
          if ret \<and> (my_err m1 = CR_SERVER_GONE_ERROR \<or> my_err m1 = CR_SERVER_LOST)
          then Mysql_connect api args retry1 m1
          else (ret, retry1, m1))"

section \<open>The invariant\<close>

text \<open>A connected link has a live handle.\<close>

definition link_inv :: "'db mysql \<Rightarrow> bool" where
  "link_inv m \<longleftrightarrow> (my_connected m \<longrightarrow> my_handle m = Live)"

lemma record_error_frame [simp]:
  "my_connected (record_error api m) = my_connected m" "my_handle (record_error api m) = my_handle m"
  "my_db (record_error api m) = my_db m"
  by (simp_all add: record_error_def)

lemma options_frame [simp]:
  "my_connected (snd (Mysql_options_set api m)) = my_connected m"
  "my_handle (snd (Mysql_options_set api m)) = my_handle m"
  by (simp_all add: Mysql_options_set_def Let_def split: prod.splits)

lemma attempt_frame:
  assumes "Mysql_attempt api args m = (r, m1)"
  shows "my_connected m1 = my_connected m \<and> (r \<noteq> None \<longrightarrow> my_handle m1 = Live)"
  using assms by (auto simp: Mysql_attempt_def Let_def split: prod.splits if_splits)

lemma connect_result:
  assumes "link_inv m" and "Mysql_connect api args retry m = (ok, r, m')"
  shows "link_inv m' \<and> my_connected m' = ok"
  using assms
proof (induction "nat (3 - retry)" arbitrary: retry m ok r m' rule: less_induct)
  case less
  note step = Mysql_connect.simps [of api args retry m]
  show ?case
  proof (cases "my_connected m")
    case True
    then show ?thesis using less.prems by (simp add: step)
  next
    case False
    obtain o1 m1 where a: "Mysql_attempt api args m = (o1, m1)" by force
    note f = attempt_frame [OF a]
    have inv: "link_inv m1" using f False by (simp add: link_inv_def)
    obtain ok2 r2 m2 where c: "Mysql_connect api args (retry + 1) m1 = (ok2, r2, m2)" by (metis prod_cases3)
    consider "o1 = None" | "o1 = Some True" | "o1 = Some False" by auto
    then show ?thesis
    proof cases
      case 3
      then show ?thesis
        using less.prems(2) False a f c inv less.hyps [of "retry + 1" m1 ok2 r2 m2]
        by (auto simp: step link_inv_def split: if_splits)
    qed (use less.prems(2) False a f in \<open>auto simp: step link_inv_def\<close>)
  qed
qed

text \<open>The calls a client makes on a link, with the result as a number.\<close>

datatype link_op = LPing | LExec bytes | LUse | LFetch | LFree | LClose | LConnect conn_args int

definition link_step :: "'db mysql_api \<Rightarrow> link_op \<Rightarrow> 'db mysql \<Rightarrow> 'db mysql res" where
  "link_step api op m =
     (case op of
        LPing \<Rightarrow> map_res snd (Mysql_ping api m)
      | LExec sql \<Rightarrow> map_res snd (Mysql_query_exec api sql m)
      | LUse \<Rightarrow> map_res snd (Mysql_use_result api m)
      | LFetch \<Rightarrow> map_res snd (Mysql_fetch_row api m)
      | LFree \<Rightarrow> Inr (Mysql_free_result m)
      | LClose \<Rightarrow> Inr (Mysql_close api m)
      | LConnect args retry \<Rightarrow> Inr (snd (snd (Mysql_connect api args retry m))))"

lemma close_inv [simp]: "link_inv (Mysql_close api m)" "\<not> my_connected (Mysql_close api m)"
  by (simp_all add: link_inv_def Mysql_close_def)

lemma on_handle_live: "link_inv m \<Longrightarrow> my_connected m \<Longrightarrow> on_handle m f = f m"
  by (simp add: on_handle_def link_inv_def)

lemma on_handle_Inr: "on_handle m f = Inr y \<longleftrightarrow> my_handle m = Live \<and> f m = Inr y"
  by (simp add: on_handle_def split: handle.splits)

lemma step_inv: "link_inv m \<Longrightarrow> link_step api op m = Inr m' \<Longrightarrow> link_inv m'"
proof (cases op)
  case (LConnect args retry)
  then show "link_inv m \<Longrightarrow> link_step api op m = Inr m' \<Longrightarrow> link_inv m'"
    using connect_result [of m api args retry] by (cases "Mysql_connect api args retry m") (auto simp: link_step_def)
qed (auto simp: link_step_def map_res_def Mysql_ping_def Mysql_query_exec_def Mysql_use_result_def
      Mysql_fetch_row_def Mysql_free_result_def on_handle_Inr Let_def link_inv_def Mysql_close_def
      split: sum.splits prod.splits option.splits if_splits list.splits)

lemma live_returns:
  assumes "my_handle m = Live"
  shows "\<exists>y. Mysql_ping api m = Inr y" "\<exists>y. Mysql_query_exec api sql m = Inr y" "\<exists>y. Mysql_use_result api m = Inr y"
proof -
  show "\<exists>y. Mysql_ping api m = Inr y"
    using assms by (cases "api_ping api (my_db m)") (auto simp: Mysql_ping_def on_handle_def Let_def)
  show "\<exists>y. Mysql_query_exec api sql m = Inr y"
    using assms by (cases "api_real_query api (takeWhile (\<lambda>c. c \<noteq> 0) sql) (my_db m)")
      (auto simp: Mysql_query_exec_def on_handle_def Let_def)
  obtain r db where "api_store_result api (my_db m) = (r, db)" by force
  then show "\<exists>y. Mysql_use_result api m = Inr y"
    using assms by (cases r) (auto simp: Mysql_use_result_def on_handle_def Let_def)
qed

text \<open>
  A connected link has a live handle, always. From a new link, through every sequence of connects,
  pings, statements, result calls and closes that returns, and whatever the client library answers,
  \<open>m_connected\<close> implies that the handle is live; in such a state a ping, a statement and a result
  request return without touching a null or freed handle.
\<close>

lemma connected_link_is_live:
  assumes "fold_res (link_step api) ops (Mysql_new now db) = Inr m" and "my_connected m"
  shows "my_handle m = Live \<and> (\<exists>y. Mysql_ping api m = Inr y) \<and> (\<exists>y. Mysql_query_exec api sql m = Inr y)
    \<and> (\<exists>y. Mysql_use_result api m = Inr y)"
proof -
  have "link_inv m0 \<Longrightarrow> fold_res (link_step api) ops m0 = Inr m \<Longrightarrow> link_inv m" for m0
    by (induction ops arbitrary: m0) (auto simp: bind_res_eq_Inr dest: step_inv)
  moreover have "link_inv (Mysql_new now db)" by (simp add: link_inv_def Mysql_new_def)
  ultimately have "link_inv m" using assms(1) by blast
  then have "my_handle m = Live" using assms(2) by (simp add: link_inv_def)
  then show ?thesis using live_returns by blast
qed

text \<open>A client library that always succeeds and counts the connection attempts.\<close>

definition sample_api :: "nat mysql_api" where
  "sample_api = \<lparr>api_init = (\<lambda>n. (True, n)), api_options = (\<lambda>_ n. (0, n)),
     api_real_connect = (\<lambda>_ n. (True, Suc n)), api_errno = (\<lambda>_. 0), api_error = (\<lambda>_. []),
     api_ping = (\<lambda>n. (0, n)), api_real_query = (\<lambda>_ n. (0, n)), api_close = (\<lambda>n. n),
     api_affected_rows = (\<lambda>_. 0), api_insert_id = (\<lambda>_. 0), api_info = (\<lambda>_. None),
     api_escape = (\<lambda>s _. s),
     api_store_result = (\<lambda>n. (Some \<lparr>rs_fields = [([73, 100], T_LONG)], rs_rows = [[Some [52, 50]], [None]]\<rparr>, n)),
     api_client_version = 0\<rparr>"

definition sample_args :: conn_args where
  "sample_args = \<lparr>arg_host = [], arg_user = [], arg_passwd = [], arg_db = [], arg_port = 3306, arg_timeout = 1\<rparr>"

lemma sample_connect:
  "Mysql_connect sample_api sample_args 0 (Mysql_new 0 0)
     = (True, 0, (Mysql_new 0 1)\<lparr>my_handle := Live, my_connected := True\<rparr>)"
  by (simp add: Mysql_connect.simps Mysql_attempt_def Mysql_options_set_def sample_api_def Mysql_new_def)

section \<open>Queries\<close>

lemma fill_field_again: "fill_field v (fill_field u f) = fill_field v f"
  by (cases u; cases v) (simp_all add: fill_field_def Field_set_value_def)

lemma refill_row:
  assumes "length u = length cols" and "length v = length cols"
  shows "map2 fill_field v (map2 fill_field u cols) = map2 fill_field v cols"
proof -
  have "length u = length v" using assms by simp
  then show ?thesis using assms(2)
    by (induction u v cols rule: list_induct3) (auto simp: fill_field_again)
qed

lemma fetch_all_rows:
  assumes "my_res m = Some rs" and "\<forall>row \<in> set (rs_rows rs). length row = length cols" and "my_handle m = Live"
    and "api_errno api (my_db m) = 0" and "length cur = length cols"
    and "\<forall>v. length v = length cols \<longrightarrow> map2 fill_field v cur = map2 fill_field v cols"
    and "length (rs_rows rs) < n"
  shows "\<exists>m'. Mysql_fetch_all api build n cur m = Inr (map (\<lambda>row. build (map2 fill_field row cols)) (rs_rows rs), m')
    \<and> my_need_free m' = my_need_free m \<and> my_err m' = 0 \<and> my_connected m' = my_connected m"
  using assms
proof (induction "rs_rows rs" arbitrary: m rs cur n)
  case Nil
  then obtain k where "n = Suc k" by (cases n) auto
  then show ?case using Nil by (simp add: Mysql_fetch_row_def on_handle_def)
next
  case (Cons row rows)
  then obtain k where n: "n = Suc k" by (cases n) auto
  let ?m = "m\<lparr>my_row := Some row, my_res := Some (rs\<lparr>rs_rows := rows\<rparr>)\<rparr>"
  let ?cur = "map2 fill_field row cur"
  have row: "length row = length cols" using Cons.prems(2) Cons.hyps(2) [symmetric] by simp
  have "map2 fill_field v ?cur = map2 fill_field v cols" if "length v = length cols" for v
    using refill_row [OF row that] Cons.prems(6) row by simp
  moreover have "\<forall>r \<in> set rows. length r = length cols" using Cons.prems(2) Cons.hyps(2) [symmetric] by simp
  ultimately obtain m' where m': "Mysql_fetch_all api build k ?cur ?m
      = Inr (map (\<lambda>row. build (map2 fill_field row cols)) rows, m')"
      "my_need_free m' = my_need_free m" "my_err m' = 0" "my_connected m' = my_connected m"
    using Cons.hyps(1) [of "rs\<lparr>rs_rows := rows\<rparr>" ?m ?cur k] Cons.prems row n Cons.hyps(2) [symmetric] by auto
  have "Mysql_fetch_row api m = Inr (0, ?m)"
    using Cons.prems(1) Cons.hyps(2) [symmetric] by (simp add: Mysql_fetch_row_def)
  moreover have "fill_row row cur = Inr ?cur" "?cur = map2 fill_field row cols"
    using row Cons.prems(5,6) by (simp_all add: fill_row_def)
  ultimately show ?case using n m' Cons.hyps(2) [symmetric] by simp
qed

text \<open>
  a query returns its rows. When the statement succeeds and the library stores a result whose
  rows have a value per column and reports no error, \<open>query\<close> returns one object per row, in order,
  each built from the column names in lower case, the converted types, and the row's own values (a
  NULL as an empty null field), although the same fields are refilled for every row; the result set
  is given up and no error is left behind.
\<close>

lemma query_returns_rows:
  assumes "my_handle m = Live" and "api_real_query api (takeWhile (\<lambda>c. c \<noteq> 0) sql) (my_db m) = (0, db1)"
    and "api_store_result api db1 = (Some rs, db2)" and "api_errno api db2 = 0"
    and "\<forall>row \<in> set (rs_rows rs). length row = length (rs_fields rs)" and "length (rs_rows rs) < 2 ^ 31"
  shows "\<exists>m'. Mysql_query api build sql m
      = Inr (map (\<lambda>row. build (map2 fill_field row (map field_of_column (rs_fields rs)))) (rs_rows rs), m')
    \<and> my_err m' = 0 \<and> my_res m' = None \<and> \<not> my_need_free m'"
proof -
  let ?m1 = "m\<lparr>my_db := db2, my_res := Some rs, my_res_num := int (length (rs_rows rs)), my_need_free := True\<rparr>"
  have "sint (of_nat (length (rs_rows rs)) :: 32 word) = int (length (rs_rows rs))"
    using assms(6) by (simp add: signed_of_nat signed_take_bit_int_eq_self)
  then have use: "Mysql_use_result api (m\<lparr>my_db := db1\<rparr>) = Inr (True, ?m1)"
    using assms(1,3) by (simp add: Mysql_use_result_def on_handle_def Let_def)
  have exec: "Mysql_query_exec api sql m = Inr (True, m\<lparr>my_db := db1\<rparr>)"
    using assms(1,2) by (simp add: Mysql_query_exec_def on_handle_def Let_def)
  obtain m' where "Mysql_fetch_all api build (Suc (length (rs_rows rs))) (map field_of_column (rs_fields rs)) ?m1
      = Inr (map (\<lambda>row. build (map2 fill_field row (map field_of_column (rs_fields rs)))) (rs_rows rs), m')"
      "my_need_free m'" "my_err m' = 0"
    using fetch_all_rows [of ?m1 rs "map field_of_column (rs_fields rs)" api "map field_of_column (rs_fields rs)"
        "Suc (length (rs_rows rs))" build] assms by auto
  then show ?thesis using exec use by (simp add: Mysql_query_def Mysql_free_result_def)
qed

section \<open>Attempts\<close>

lemma attempt_calls:
  assumes "\<And>db. calls (snd (api_init api db)) = calls db" and "\<And>o' db. calls (snd (api_options api o' db)) = calls db"
    and "\<And>a db. calls (snd (api_real_connect api a db)) = calls db + 1"
    and "Mysql_attempt api args m = (r, m1)"
  shows "calls (my_db m1) \<le> calls (my_db m) + (1 :: nat)"
proof -
  have opts: "calls (my_db (snd (Mysql_options_set api x))) = calls (my_db x)" for x
    using assms(2) by (auto simp: Mysql_options_set_def Let_def split: prod.splits) (metis snd_conv)+
  obtain ok db where i: "api_init api (my_db m) = (ok, db)" by force
  let ?m1 = "m\<lparr>my_db := db, my_handle := if ok then Live else NoHandle\<rparr>"
  obtain up db2 where u: "api_real_connect api args (my_db (snd (Mysql_options_set api ?m1))) = (up, db2)" by force
  have "calls db = calls (my_db m)" using assms(1) [of "my_db m"] i by simp
  moreover have "calls db2 = calls db + 1"
    using assms(3) [of args "my_db (snd (Mysql_options_set api ?m1))"] u opts [of ?m1] by simp
  ultimately show ?thesis using assms(4) i u by (auto simp: Mysql_attempt_def Let_def split: if_splits)
qed

text \<open>
  Connecting gives up. However often the server drops the connection, a \<open>connect\<close> on a thread
  whose retry counter is \<open>r\<close> makes at most \<open>3 - r\<close> attempts, and one when the counter is exhausted; it
  returns with the link connected exactly when it reports success.
\<close>

lemma connect_bounded:
  assumes "\<And>db. calls (snd (api_init api db)) = calls db" and "\<And>o' db. calls (snd (api_options api o' db)) = calls db"
    and "\<And>a db. calls (snd (api_real_connect api a db)) = calls db + (1 :: nat)"
    and "link_inv m" and "Mysql_connect api args retry m = (ok, r, m')"
  shows "calls (my_db m') \<le> calls (my_db m) + max 1 (nat (3 - retry)) \<and> my_connected m' = ok"
proof -
  have "calls (my_db m') \<le> calls (my_db m) + max 1 (nat (3 - retry))"
    using assms(5)
  proof (induction "nat (3 - retry)" arbitrary: retry m ok r m' rule: less_induct)
    case less
    obtain o1 m1 where a: "Mysql_attempt api args m = (o1, m1)" by force
    have c1: "calls (my_db m1) \<le> calls (my_db m) + 1" by (rule attempt_calls [OF assms(1-3) a])
    obtain ok2 r2 m2 where c: "Mysql_connect api args (retry + 1) m1 = (ok2, r2, m2)" by (metis prod_cases3)
    have "retry + 1 < 3 \<Longrightarrow> calls (my_db m2) \<le> calls (my_db m1) + max 1 (nat (3 - (retry + 1)))"
      using less.hyps [OF _ c] by simp
    then show ?case
      using less.prems a c c1 Mysql_connect.simps [of api args retry m]
      by (auto split: if_splits option.splits bool.splits)
  qed
  then show ?thesis using connect_result [OF assms(4,5)] by blast
qed

section \<open>Where the class goes wrong\<close>

text \<open>
  \<open>execute\<close> takes success for failure: after a failed statement, which closes the link, it asks the
  freed handle for the row count. \<open>get_variable\<close> gives up after a successful statement.
\<close>

lemma execute_failed_use_after_free:
  assumes "my_connected m" and "link_inv m" and "fst (api_real_query api (takeWhile (\<lambda>c. c \<noteq> 0) sql) (my_db m)) \<noteq> 0"
  shows "Mysql_execute api sql m = Inl UseAfterFree"
  using assms by (cases "api_real_query api (takeWhile (\<lambda>c. c \<noteq> 0) sql) (my_db m)")
    (simp add: Mysql_execute_def Mysql_query_exec_def on_handle_def link_inv_def Mysql_close_def Let_def)

lemma get_variable_never_found:
  assumes "Mysql_query_exec api (take 127 (str_bytes ''show variables like '' @ [39] @ v @ [39])) m = Inr (True, m1)"
  shows "Mysql_get_variable api v m = Inr (- 1, m1)"
  using assms by (simp add: Mysql_get_variable_def)

end
