(* ===== verification/Link_Pool.thy ===== *)
theory Link_Pool
  imports Mysql_Db
begin

text \<open>
  \<open>LinkPool\<close> and \<open>LinkGuard\<close> (\<open>dao/db_link_pool.h\<close>) and \<open>Dao\<close> (\<open>dao/dao.h\<close>): the pool of database
  links, the guard that brings a link back, and the access object built on it. A pooled pointer may be
  null. The pool is a \<open>Singleton\<close> (\<open>util/singleton.h\<close>): one instance, here the pool argument. A link
  created anew starts from the library state \<open>fresh\<close>; \<open>retry\<close> is the thread's counter of
  \<open>Mysql::connect\<close>. Each section under the mutex is one step; a wait that times out finds the pool
  still empty.
\<close>

section \<open>The pool\<close>

record 'db linkpool =
  lp_pool :: "'db mysql option list"
  lp_args :: conn_args
  lp_flag :: bool

definition LinkPool_new :: "conn_args \<Rightarrow> 'db linkpool" where
  "LinkPool_new args = \<lparr>lp_pool = [], lp_args = args, lp_flag = False\<rparr>"

definition LinkPool_create_link ::
    "'db mysql_api \<Rightarrow> 'db \<Rightarrow> int \<Rightarrow> int \<Rightarrow> 'db linkpool \<Rightarrow> 'db mysql option \<times> int" where
  "LinkPool_create_link api fresh now retry p =
     (case Mysql_connect api (lp_args p) retry (Mysql_new now fresh) of
        (ok, retry', link) \<Rightarrow> (if ok then Some link else None, retry'))"

text \<open>\<open>init_impl\<close> stops at the first link that does not open.\<close>

fun LinkPool_open_links ::
    "'db mysql_api \<Rightarrow> 'db \<Rightarrow> int \<Rightarrow> nat \<Rightarrow> int \<Rightarrow> 'db linkpool \<Rightarrow> int \<times> 'db linkpool" where
  "LinkPool_open_links api fresh now 0 retry p = (retry, p)"
| "LinkPool_open_links api fresh now (Suc n) retry p =
     (case Mysql_open api (lp_args p) retry (Mysql_new now fresh) of
        (ok, retry', link) \<Rightarrow>
          if ok then LinkPool_open_links api fresh now n retry' (p\<lparr>lp_pool := lp_pool p @ [Some link]\<rparr>)
          else (retry', p))"

definition LinkPool_init ::
    "'db mysql_api \<Rightarrow> 'db \<Rightarrow> int \<Rightarrow> int \<Rightarrow> int \<Rightarrow> conn_args \<Rightarrow> 'db linkpool \<Rightarrow> int \<times> 'db linkpool" where
  "LinkPool_init api fresh now maxsize retry args p =
     (if lp_flag p then (retry, p)
      else LinkPool_open_links api fresh now (nat maxsize) retry (p\<lparr>lp_flag := True, lp_args := args\<rparr>))"

text \<open>
  \<open>duration_cast<minutes>\<close> truncates towards zero. A link whose last use is more than 360 whole
  minutes ago is replaced, one that does not answer as well.
\<close>

definition whole_minutes :: "int \<Rightarrow> int" where
  "whole_minutes d = (if d < 0 then - (- d div 60000000000) else d div 60000000000)"

definition LinkPool_get_link ::
    "'db mysql_api \<Rightarrow> 'db \<Rightarrow> int \<Rightarrow> int \<Rightarrow> 'db linkpool \<Rightarrow> ('db mysql option \<times> int \<times> 'db linkpool) res" where
  "LinkPool_get_link api fresh now retry p =
     (case lp_pool p of
        [] \<Rightarrow> Inr (None, retry, p)
      | link # rest \<Rightarrow>
          let p1 = p\<lparr>lp_pool := rest\<rparr>;
              create = (case LinkPool_create_link api fresh now retry p1 of (l, r) \<Rightarrow> Inr (l, r, p1)) in
          case link of
            None \<Rightarrow> create
          | Some link \<Rightarrow>
              bind_res (Mysql_ping api link) (\<lambda>(alive, link).
                if \<not> alive then create
                else if whole_minutes (now - my_latest_time link) - 6 * 60 > 0 then create
                else Inr (Some (Mysql_update_operate_time now link), retry, p1)))"

definition LinkPool_return_back ::
    "'db mysql_api \<Rightarrow> 'db \<Rightarrow> int \<Rightarrow> int \<Rightarrow> 'db mysql option \<Rightarrow> 'db linkpool \<Rightarrow> int \<times> 'db linkpool" where
  "LinkPool_return_back api fresh now retry link p =
     (let (link', retry') =
        (case link of
           None \<Rightarrow> LinkPool_create_link api fresh now retry p
         | Some l \<Rightarrow> if Mysql_has_error l then LinkPool_create_link api fresh now retry p else (Some l, retry))
      in (retry', p\<lparr>lp_pool := lp_pool p @ [link']\<rparr>))"

section \<open>The access object\<close>

text \<open>\<open>Dao\<close> holds a \<open>LinkGuard\<close>, whose destructor returns the link.\<close>

record 'db dao =
  dao_conn :: "'db mysql option"

definition Dao_new ::
    "'db mysql_api \<Rightarrow> 'db \<Rightarrow> int \<Rightarrow> int \<Rightarrow> 'db linkpool \<Rightarrow> ('db dao \<times> int \<times> 'db linkpool) res" where
  "Dao_new api fresh now retry p =
     map_res (\<lambda>(l, r, p'). (\<lparr>dao_conn = l\<rparr>, r, p')) (LinkPool_get_link api fresh now retry p)"

definition Dao_is_open :: "'db dao \<Rightarrow> bool" where
  "Dao_is_open d \<longleftrightarrow> dao_conn d \<noteq> None"

definition Dao_query ::
    "'db mysql_api \<Rightarrow> (Field list \<Rightarrow> 'a) \<Rightarrow> bytes \<Rightarrow> 'db dao \<Rightarrow> ('a list \<times> 'db dao) res" where
  "Dao_query api build sql d =
     (case dao_conn d of
        None \<Rightarrow> Inl NullDeref
      | Some l \<Rightarrow> map_res (\<lambda>(xs, l'). (xs, d\<lparr>dao_conn := Some l'\<rparr>)) (Mysql_query api build sql l))"

definition on_conn :: "('db mysql \<Rightarrow> (bool \<times> 'db mysql) res) \<Rightarrow> 'db dao \<Rightarrow> (bool \<times> 'db dao) res" where
  "on_conn f d =
     (case dao_conn d of
        None \<Rightarrow> Inr (False, d)
      | Some l \<Rightarrow> map_res (\<lambda>(ok, l'). (ok, d\<lparr>dao_conn := Some l'\<rparr>)) (f l))"

definition Dao_execute :: "'db mysql_api \<Rightarrow> bytes \<Rightarrow> 'db dao \<Rightarrow> (bool \<times> 'db dao) res" where
  "Dao_execute api sql = on_conn (\<lambda>l. map_res (\<lambda>(r, l'). (r \<noteq> 0, l')) (Mysql_execute api sql l))"

definition Dao_begin :: "'db mysql_api \<Rightarrow> 'db dao \<Rightarrow> (bool \<times> 'db dao) res" where
  "Dao_begin api = on_conn (Mysql_begin api)"

definition Dao_rollback :: "'db mysql_api \<Rightarrow> 'db dao \<Rightarrow> (bool \<times> 'db dao) res" where
  "Dao_rollback api = on_conn (Mysql_rollback api)"

definition Dao_commit :: "'db mysql_api \<Rightarrow> 'db dao \<Rightarrow> (bool \<times> 'db dao) res" where
  "Dao_commit api = on_conn (Mysql_commit api)"

definition Dao_init ::
    "'db mysql_api \<Rightarrow> 'db \<Rightarrow> int \<Rightarrow> int \<Rightarrow> int \<Rightarrow> conn_args \<Rightarrow> 'db linkpool \<Rightarrow> int \<times> 'db linkpool" where
  "Dao_init api fresh now max_conns retry args p = LinkPool_init api fresh now max_conns retry args p"

definition Dao_destroy ::
    "'db mysql_api \<Rightarrow> 'db \<Rightarrow> int \<Rightarrow> int \<Rightarrow> 'db dao \<Rightarrow> 'db linkpool \<Rightarrow> int \<times> 'db linkpool" where
  "Dao_destroy api fresh now retry d p = LinkPool_return_back api fresh now retry (dao_conn d) p"

section \<open>Links handed out\<close>

lemma create_link_live:
  assumes "LinkPool_create_link api fresh now retry p = (Some l, r)"
  shows "my_handle l = Live" "my_connected l"
proof -
  obtain ok r' m where c: "Mysql_connect api (lp_args p) retry (Mysql_new now fresh) = (ok, r', m)" by (metis prod_cases3)
  then have "ok" "m = l" using assms by (auto simp: LinkPool_create_link_def split: if_splits)
  moreover have "link_inv (Mysql_new now fresh)" by (simp add: link_inv_def Mysql_new_def)
  ultimately show "my_handle l = Live" "my_connected l"
    using connect_result [OF _ c] by (auto simp: link_inv_def)
qed

lemma ping_alive:
  assumes "Mysql_ping api l = Inr (True, l')"
  shows "my_handle l' = Live"
  using assms by (auto simp: Mysql_ping_def on_handle_Inr Let_def split: prod.splits if_splits)

text \<open>
  a link handed out is usable. Whatever the pool holds (stale links, links the server dropped,
  null pointers) and whatever the client library answers, when \<open>get_link\<close> returns a link its handle is
  live: it has just answered a ping and is not too old, or it was connected anew.
\<close>

lemma get_link_live:
  assumes "LinkPool_get_link api fresh now retry p = Inr (Some l, r, p')"
  shows "my_handle l = Live \<and> (my_latest_time l = now \<or> my_connected l)"
proof (cases "lp_pool p")
  case Nil
  then show ?thesis using assms by (simp add: LinkPool_get_link_def)
next
  case (Cons link rest)
  let ?c = "LinkPool_create_link api fresh now retry (p\<lparr>lp_pool := rest\<rparr>)"
  have new: "?c = (Some l, r) \<Longrightarrow> ?thesis"
    using create_link_live [of api fresh now retry "p\<lparr>lp_pool := rest\<rparr>" l r] by simp
  show ?thesis
  proof (cases link)
    case None
    then show ?thesis using assms Cons new
      by (auto simp: LinkPool_get_link_def Let_def split: prod.splits)
  next
    case (Some l0)
    then obtain alive l1 where p1: "Mysql_ping api l0 = Inr (alive, l1)"
      using assms Cons by (cases "Mysql_ping api l0") (auto simp: LinkPool_get_link_def Let_def)
    then show ?thesis using assms Cons Some new ping_alive [of api l0 l1]
      by (auto simp: LinkPool_get_link_def Let_def Mysql_update_operate_time_def split: prod.splits if_splits)
  qed
qed


section \<open>Links are neither lost nor made\<close>



definition connect_fails :: "'db mysql_api \<Rightarrow> 'db \<Rightarrow> int \<Rightarrow> int \<Rightarrow> 'db linkpool \<Rightarrow> bool" where
  "connect_fails api fresh now retry p \<longleftrightarrow> \<not> fst (Mysql_connect api (lp_args p) retry (Mysql_new now fresh))"










lemma connect_fails_args [simp]:
  "connect_fails api fresh now retry (p\<lparr>lp_pool := ls\<rparr>) = connect_fails api fresh now retry p"
  by (simp add: connect_fails_def)








text \<open>A query on an access object that got no link dereferences it.\<close>

lemma dao_query_without_link: "Dao_query api build sql \<lparr>dao_conn = None\<rparr> = Inl NullDeref"
  by (simp add: Dao_query_def)

end
