(* ===== verification/Nano_Line.thy ===== *)
theory Nano_Line
  imports Sparrow_Prelude
begin

text \<open>
  \<open>NanoLogLine\<close> (\<open>util/nanolog.hpp\<close>): a log record. The constructor and the insertion operators encode
  the values into a byte buffer (on the stack, later on the heap), \<open>stringify\<close> decodes them on the
  logger's thread. The model keeps the bytes: integers are stored in host order (little endian), a
  pointer to a string literal is its address, a \<open>double\<close> its 64 bits. What \<open>stringify\<close> inserts into the
  stream is the list of decoded values; turning a value into characters is the iostream library.
  Sizes are natural numbers: a record never approaches the range of \<open>size_t\<close>.
\<close>

section \<open>Host byte order\<close>

definition le32 :: "u32 \<Rightarrow> bytes" where
  "le32 v = [ucast v, ucast (drop_bit 8 v), ucast (drop_bit 16 v), ucast (drop_bit 24 v)]"

definition le64 :: "u64 \<Rightarrow> bytes" where
  "le64 v = le32 (ucast v) @ le32 (ucast (drop_bit 32 v))"

definition un32 :: "bytes \<Rightarrow> u32" where
  "un32 bs = ucast (bs ! 0) OR push_bit 8 (ucast (bs ! 1)) OR push_bit 16 (ucast (bs ! 2))
     OR push_bit 24 (ucast (bs ! 3))"

definition un64 :: "bytes \<Rightarrow> u64" where
  "un64 bs = ucast (un32 (take 4 bs)) OR push_bit 32 (ucast (un32 (drop 4 bs)))"

lemma length_le [simp]: "length (le32 v) = 4" "length (le64 w) = 8"
  by (simp_all add: le32_def le64_def)

lemma un32_le32 [simp]: "un32 (le32 v) = v"
proof (rule bit_word_eqI)
  fix n assume "n < LENGTH(32)"
  then consider "n < 8" | "8 \<le> n" "n < 16" | "16 \<le> n" "n < 24" | "24 \<le> n" "n < 32"
    by (simp; linarith)
  then show "bit (un32 (le32 v)) n = bit v n"
    by cases (auto simp: un32_def le32_def bit_simps)
qed

lemma un64_le64 [simp]: "un64 (le64 v) = v"
proof -
  have "un64 (le64 v) = ucast (ucast v :: u32) OR push_bit 32 (ucast (ucast (drop_bit 32 v) :: u32))"
    by (simp add: un64_def le64_def)
  also have "\<dots> = v" by (rule bit_word_eqI) (auto simp: bit_simps)
  finally show ?thesis .
qed

section \<open>State and encoding\<close>

datatype LogLevel = DEBUG | INFO | WARN | ERR | CRIT

record NanoLogLine =
  nl_bytes_used :: nat
  nl_buffer_size :: nat
  nl_heap_buffer :: "bytes option"
  nl_stack_buffer :: bytes

text \<open>\<open>256 - 2 * sizeof(size_t) - sizeof(unique_ptr) - 8\<close>.\<close>

definition stack_buffer_size :: nat where
  "stack_buffer_size = 224"

definition LogLevel_byte :: "LogLevel \<Rightarrow> u8" where
  "LogLevel_byte l = (case l of DEBUG \<Rightarrow> 0 | INFO \<Rightarrow> 1 | WARN \<Rightarrow> 2 | ERR \<Rightarrow> 3 | CRIT \<Rightarrow> 4)"

definition LogLevel_of :: "u8 \<Rightarrow> LogLevel option" where
  "LogLevel_of b = (if b = 0 then Some DEBUG else if b = 1 then Some INFO else if b = 2 then Some WARN
     else if b = 3 then Some ERR else if b = 4 then Some CRIT else None)"

definition level_string :: "LogLevel option \<Rightarrow> string" where
  "level_string l = (case l of Some DEBUG \<Rightarrow> ''DEBUG'' | Some INFO \<Rightarrow> ''INFO'' | Some WARN \<Rightarrow> ''WARN''
     | Some ERR \<Rightarrow> ''ERROR'' | Some CRIT \<Rightarrow> ''CRIT'' | None \<Rightarrow> ''XXXX'')"

definition nl_cells :: "NanoLogLine \<Rightarrow> bytes" where
  "nl_cells n = (case nl_heap_buffer n of None \<Rightarrow> nl_stack_buffer n | Some h \<Rightarrow> h)"

definition nl_set_cells :: "bytes \<Rightarrow> NanoLogLine \<Rightarrow> NanoLogLine" where
  "nl_set_cells v n =
     (case nl_heap_buffer n of None \<Rightarrow> n\<lparr>nl_stack_buffer := v\<rparr> | Some h \<Rightarrow> n\<lparr>nl_heap_buffer := Some v\<rparr>)"

text \<open>\<open>encode(Arg)\<close> writes at \<open>buffer()\<close>, with no check of its own.\<close>

definition NanoLogLine_encode :: "bytes \<Rightarrow> NanoLogLine \<Rightarrow> NanoLogLine res" where
  "NanoLogLine_encode bs n =
     map_res (\<lambda>v. (nl_set_cells v n)\<lparr>nl_bytes_used := nl_bytes_used n + length bs\<rparr>)
       (mem_write (nl_cells n) (nl_bytes_used n) bs)"

text \<open>
  The new heap storage is not initialised; the bytes behind those copied are written before they
  are read, so their value (0 here) never matters.
\<close>

definition resize_buffer_if_needed :: "nat \<Rightarrow> NanoLogLine \<Rightarrow> NanoLogLine" where
  "resize_buffer_if_needed additional_bytes n =
     (let required_size = nl_bytes_used n + additional_bytes in
      if required_size \<le> nl_buffer_size n then n
      else let size = (case nl_heap_buffer n of
                 None \<Rightarrow> max 512 required_size | Some h \<Rightarrow> max (2 * nl_buffer_size n) required_size);
               old = take (nl_bytes_used n) (nl_cells n)
           in n\<lparr>nl_buffer_size := size, nl_heap_buffer := Some (old @ replicate (size - length old) 0)\<rparr>)"

text \<open>The values the insertion operators take; \<open>CStr None\<close> is a null \<open>char*\<close>.\<close>

datatype log_arg = AChar u8 | AU32 u32 | AU64 u64 | AI32 u32 | AI64 u64 | ADouble u64
  | ALit u64 | CStr "bytes option"

fun type_id :: "log_arg \<Rightarrow> u8" where
  "type_id (AChar _) = 0"
| "type_id (AU32 _) = 1"
| "type_id (AU64 _) = 2"
| "type_id (AI32 _) = 3"
| "type_id (AI64 _) = 4"
| "type_id (ADouble _) = 5"
| "type_id (ALit _) = 6"
| "type_id (CStr _) = 7"

fun arg_bytes :: "log_arg \<Rightarrow> bytes" where
  "arg_bytes (AChar c) = [c]"
| "arg_bytes (AU32 v) = le32 v"
| "arg_bytes (AU64 v) = le64 v"
| "arg_bytes (AI32 v) = le32 v"
| "arg_bytes (AI64 v) = le64 v"
| "arg_bytes (ADouble v) = le64 v"
| "arg_bytes (ALit p) = le64 p"
| "arg_bytes (CStr s) = (case s of None \<Rightarrow> [] | Some s \<Rightarrow> s @ [0])"

definition encode_typed :: "u8 \<Rightarrow> bytes \<Rightarrow> NanoLogLine \<Rightarrow> NanoLogLine res" where
  "encode_typed tid bs n =
     bind_res (NanoLogLine_encode [tid] (resize_buffer_if_needed (length bs + 1) n)) (NanoLogLine_encode bs)"

definition encode_c_string :: "bytes \<Rightarrow> NanoLogLine \<Rightarrow> NanoLogLine res" where
  "encode_c_string s n =
     (if s = [] then Inr n
      else NanoLogLine_encode ([7] @ s @ [0]) (resize_buffer_if_needed (1 + length s + 1) n))"

text \<open>\<open>operator<<\<close>.\<close>

definition NanoLogLine_insert :: "log_arg \<Rightarrow> NanoLogLine \<Rightarrow> NanoLogLine res" where
  "NanoLogLine_insert a n =
     (case a of
        CStr None \<Rightarrow> Inr n
      | CStr (Some s) \<Rightarrow> encode_c_string s n
      | _ \<Rightarrow> encode_typed (type_id a) (arg_bytes a) n)"

text \<open>What the constructor stores ahead of the values.\<close>

record log_head =
  lh_timestamp :: u64
  lh_thread :: u64
  lh_file :: u64
  lh_function :: u64
  lh_line :: u32
  lh_level :: LogLevel

definition head_bytes :: "log_head \<Rightarrow> bytes list" where
  "head_bytes h = [le64 (lh_timestamp h), le64 (lh_thread h), le64 (lh_file h), le64 (lh_function h),
     le32 (lh_line h), [LogLevel_byte (lh_level h)]]"

definition NanoLogLine_new :: "log_head \<Rightarrow> NanoLogLine res" where
  "NanoLogLine_new h =
     fold_res NanoLogLine_encode (head_bytes h)
       \<lparr>nl_bytes_used = 0, nl_buffer_size = stack_buffer_size, nl_heap_buffer = None,
        nl_stack_buffer = replicate stack_buffer_size 0\<rparr>"

section \<open>Decoding\<close>

text \<open>
  \<open>stringify(os, start, end)\<close>: from the position \<open>start\<close> on, until exactly \<open>end\<close>; an unknown type
  ends it. A value or a string that runs past the storage is a read out of range.
\<close>

definition take_bytes :: "nat \<Rightarrow> bytes \<Rightarrow> (bytes \<Rightarrow> log_arg) \<Rightarrow> (log_arg \<times> bytes) res" where
  "take_bytes n mem f = map_res (\<lambda>bs. (f bs, drop n mem)) (mem_read mem 0 n)"

definition decode_arg :: "u8 \<Rightarrow> bytes \<Rightarrow> (log_arg \<times> bytes) option res" where
  "decode_arg tid mem =
     (if tid = 0 then map_res Some (take_bytes 1 mem (\<lambda>bs. AChar (bs ! 0)))
      else if tid = 1 then map_res Some (take_bytes 4 mem (\<lambda>bs. AU32 (un32 bs)))
      else if tid = 2 then map_res Some (take_bytes 8 mem (\<lambda>bs. AU64 (un64 bs)))
      else if tid = 3 then map_res Some (take_bytes 4 mem (\<lambda>bs. AI32 (un32 bs)))
      else if tid = 4 then map_res Some (take_bytes 8 mem (\<lambda>bs. AI64 (un64 bs)))
      else if tid = 5 then map_res Some (take_bytes 8 mem (\<lambda>bs. ADouble (un64 bs)))
      else if tid = 6 then map_res Some (take_bytes 8 mem (\<lambda>bs. ALit (un64 bs)))
      else if tid = 7 then
        map_res (\<lambda>n. Some (CStr (Some (take n mem)), drop (Suc n) mem)) (mem_strlen mem 0)
      else Inr None)"

lemma decode_arg_shrinks: "decode_arg tid mem = Inr (Some (a, mem2)) \<Longrightarrow> length mem2 \<le> length mem"
  by (auto simp: decode_arg_def take_bytes_def res_simps split: if_splits)

text \<open>
  The recursion of \<open>stringify\<close> on the storage from \<open>start\<close> on, with \<open>rest\<close> bytes of it behind \<open>end\<close>;
  \<open>start\<close> may jump over \<open>end\<close> and go on. Each turn takes a byte at least, so it ends.
\<close>

function stringify_args :: "nat \<Rightarrow> bytes \<Rightarrow> log_arg list res" where
  "stringify_args rest mem =
     (if length mem = rest then Inr []
      else case mem of
          [] \<Rightarrow> Inl OutOfRange
        | tid # mem1 \<Rightarrow>
            (case decode_arg tid mem1 of
               Inl e \<Rightarrow> Inl e
             | Inr None \<Rightarrow> Inr []
             | Inr (Some (a, mem2)) \<Rightarrow> map_res (\<lambda>as. a # as) (stringify_args rest mem2)))"
  by pat_completeness auto

termination stringify_args
  by (relation "measure (\<lambda>(rest, mem). length mem)") (auto dest: decode_arg_shrinks)

declare stringify_args.simps [simp del]

text \<open>
  What \<open>stringify(os)\<close> puts on the stream, in order: behind the values the end of the line, which
  \<open>std::endl\<close> inserts before it flushes the stream; \<open>lo_flushes\<close> counts the flushes at the end, the one
  of \<open>std::endl\<close> and the explicit one.
\<close>

record log_output =
  lo_timestamp :: u64
  lo_level :: string
  lo_thread :: u64
  lo_file :: u64
  lo_function :: u64
  lo_line :: u32
  lo_args :: "log_arg list"
  lo_end :: bytes
  lo_flushes :: nat

definition NanoLogLine_stringify :: "NanoLogLine \<Rightarrow> log_output res" where
  "NanoLogLine_stringify n =
     (let b = nl_cells n; rest = length b - nl_bytes_used n in
      bind_res (mem_read b 0 37) (\<lambda>h.
        map_res (\<lambda>args.
          \<lparr>lo_timestamp = un64 (take 8 h), lo_level = level_string (LogLevel_of (h ! 36)),
           lo_thread = un64 (take 8 (drop 8 h)), lo_file = un64 (take 8 (drop 16 h)),
           lo_function = un64 (take 8 (drop 24 h)), lo_line = un32 (take 4 (drop 32 h)),
           lo_args = args, lo_end = [10], lo_flushes = 1 + (if 4 \<le> h ! 36 then 1 else 0)\<rparr>)
          (stringify_args rest (drop 37 b))))"

section \<open>Encoding writes the values behind each other\<close>

text \<open>The storage holds at least \<open>m_buffer_size\<close> bytes and the used ones are \<open>bs\<close>.\<close>

definition nl_holds :: "bytes \<Rightarrow> NanoLogLine \<Rightarrow> bool" where
  "nl_holds bs n \<longleftrightarrow> nl_bytes_used n = length bs \<and> length (nl_cells n) = nl_buffer_size n
     \<and> length bs \<le> nl_buffer_size n \<and> take (length bs) (nl_cells n) = bs"

lemma cells_set [simp]:
  "nl_cells ((nl_set_cells v n)\<lparr>nl_bytes_used := k\<rparr>) = v" "nl_buffer_size (nl_set_cells v n) = nl_buffer_size n"
  "nl_bytes_used (nl_set_cells v n) = nl_bytes_used n"
  by (simp_all add: nl_cells_def nl_set_cells_def split: option.splits)

lemma encode_holds:
  assumes "nl_holds bs n" and "length bs + length xs \<le> nl_buffer_size n"
  shows "\<exists>n'. NanoLogLine_encode xs n = Inr n' \<and> nl_holds (bs @ xs) n' \<and> nl_buffer_size n' = nl_buffer_size n"
proof -
  let ?v = "take (length bs) (nl_cells n) @ xs @ drop (length bs + length xs) (nl_cells n)"
  have "mem_write (nl_cells n) (nl_bytes_used n) xs = Inr ?v"
    using assms by (simp add: nl_holds_def mem_write_ok)
  moreover have "length ?v = length (nl_cells n)" "take (length (bs @ xs)) ?v = bs @ xs"
    using assms by (simp_all add: nl_holds_def)
  ultimately show ?thesis using assms
    by (simp add: NanoLogLine_encode_def nl_holds_def)
qed

lemma resize_holds:
  assumes "nl_holds bs n"
  shows "nl_holds bs (resize_buffer_if_needed k n)"
    "length bs + k \<le> nl_buffer_size (resize_buffer_if_needed k n)"
  using assms by (auto simp: resize_buffer_if_needed_def nl_holds_def nl_cells_def Let_def split: option.splits)

fun wire :: "log_arg \<Rightarrow> bytes" where
  "wire (CStr None) = []"
| "wire (CStr (Some s)) = (if s = [] then [] else 7 # s @ [0])"
| "wire a = type_id a # arg_bytes a"

lemma insert_holds:
  assumes h: "nl_holds bs n"
  shows "\<exists>n'. NanoLogLine_insert a n = Inr n' \<and> nl_holds (bs @ wire a) n'"
proof -
  have typed: "\<exists>n'. encode_typed t xs n = Inr n' \<and> nl_holds (bs @ t # xs) n'" for t xs
  proof -
    let ?n = "resize_buffer_if_needed (length xs + 1) n"
    note r = resize_holds [OF h, of "length xs + 1"]
    obtain n1 where n1: "NanoLogLine_encode [t] ?n = Inr n1" "nl_holds (bs @ [t]) n1" "nl_buffer_size n1 = nl_buffer_size ?n"
      using encode_holds [OF r(1), of "[t]"] r(2) by auto
    then obtain n2 where "NanoLogLine_encode xs n1 = Inr n2" "nl_holds ((bs @ [t]) @ xs) n2"
      using encode_holds [OF n1(2), of xs] r(2) by auto
    then show ?thesis using n1(1) by (simp add: encode_typed_def)
  qed
  have str: "\<exists>n'. encode_c_string s n = Inr n' \<and> nl_holds (bs @ 7 # s @ [0]) n'" if "s \<noteq> []" for s
    using encode_holds [OF resize_holds(1) [OF h], of "[7] @ s @ [0]" "1 + length s + 1"]
      resize_holds(2) [OF h, of "1 + length s + 1"] that by (auto simp: encode_c_string_def)
  show ?thesis
  proof (cases a)
    case (CStr s)
    then show ?thesis using h str by (cases s) (auto simp: NanoLogLine_insert_def encode_c_string_def)
  qed (use typed in \<open>auto simp: NanoLogLine_insert_def\<close>)
qed

lemma inserts_hold:
  assumes "nl_holds bs n"
  shows "\<exists>n'. fold_res NanoLogLine_insert as n = Inr n' \<and> nl_holds (bs @ concat (map wire as)) n'"
  using assms
proof (induction as arbitrary: bs n)
  case (Cons a as)
  obtain n1 where "NanoLogLine_insert a n = Inr n1" "nl_holds (bs @ wire a) n1"
    using insert_holds [OF Cons.prems] by blast
  then show ?case using Cons.IH [of "bs @ wire a" n1] by simp
qed simp

lemma new_holds: "\<exists>n. NanoLogLine_new h = Inr n \<and> nl_holds (concat (head_bytes h)) n"
proof -
  have "\<exists>n'. fold_res NanoLogLine_encode xss n = Inr n' \<and> nl_holds (bs @ concat xss) n'"
    if "nl_holds bs n" "length bs + length (concat xss) \<le> nl_buffer_size n" for xss bs n
    using that
  proof (induction xss arbitrary: bs n)
    case (Cons xs xss)
    then obtain n1 where "NanoLogLine_encode xs n = Inr n1" "nl_holds (bs @ xs) n1" "nl_buffer_size n1 = nl_buffer_size n"
      using encode_holds [of bs n xs] by auto
    then show ?case using Cons.IH [of "bs @ xs" n1] Cons.prems by simp
  qed simp
  moreover have "length (concat (head_bytes h)) \<le> stack_buffer_size"
    by (simp add: head_bytes_def stack_buffer_size_def)
  moreover have "nl_holds [] \<lparr>nl_bytes_used = 0, nl_buffer_size = stack_buffer_size, nl_heap_buffer = None,
        nl_stack_buffer = replicate stack_buffer_size 0\<rparr>"
    by (simp add: nl_holds_def nl_cells_def)
  ultimately show ?thesis
    unfolding NanoLogLine_new_def by fastforce
qed

section \<open>Decoding gives the values back\<close>

text \<open>What a reader of the log sees of the inserted values: null and empty strings leave nothing.\<close>

fun visible :: "log_arg \<Rightarrow> bool" where
  "visible (CStr s) = (s \<noteq> None \<and> s \<noteq> Some [])"
| "visible _ = True"

fun no_nul :: "log_arg \<Rightarrow> bool" where
  "no_nul (CStr (Some s)) = (0 \<notin> set s)"
| "no_nul _ = True"

lemma take_bytes_append [simp]: "length bs = n \<Longrightarrow> take_bytes n (bs @ mem) f = Inr (f bs, mem)"
  by (simp add: take_bytes_def mem_read_ok)

lemma decode_c_string:
  assumes "0 \<notin> set s"
  shows "decode_arg 7 (s @ 0 # mem) = Inr (Some (CStr (Some s), mem))"
proof -
  have "takeWhile (\<lambda>c. c \<noteq> 0) (s @ 0 # mem) = s"
    using assms by (subst takeWhile_append2) auto
  then show ?thesis by (simp add: decode_arg_def mem_strlen_def)
qed

lemma decode_arg_wire:
  assumes "visible a" and "no_nul a"
  shows "\<exists>tid rest. wire a = tid # rest \<and> (\<forall>mem. decode_arg tid (rest @ mem) = Inr (Some (a, mem)))"
proof (cases a)
  case (AChar c)
  then show ?thesis using take_bytes_append [of "[c]" 1] by (simp add: decode_arg_def)
next
  case (CStr s)
  with assms obtain t where t: "s = Some t" "t \<noteq> []" "0 \<notin> set t" by (cases s) auto
  then show ?thesis using CStr decode_c_string by simp
qed (simp_all add: decode_arg_def)

lemma stringify_args_wire:
  assumes "\<forall>a \<in> set as. no_nul a"
  shows "stringify_args (length tail) (concat (map wire as) @ tail) = Inr (filter visible as)"
  using assms
proof (induction as)
  case Nil
  then show ?case by (simp add: stringify_args.simps [of "length tail" tail])
next
  case (Cons a as)
  show ?case
  proof (cases "visible a")
    case True
    obtain tid rest where w: "wire a = tid # rest" "\<And>mem. decode_arg tid (rest @ mem) = Inr (Some (a, mem))"
      using decode_arg_wire [OF True] Cons.prems by auto
    then show ?thesis using Cons True by (subst stringify_args.simps) simp
  next
    case False
    then have "wire a = []" by (cases a rule: wire.cases) auto
    then show ?thesis using False Cons by simp
  qed
qed

lemma LogLevel_of_byte [simp]: "LogLevel_of (LogLevel_byte l) = Some l"
  by (cases l) (simp_all add: LogLevel_of_def LogLevel_byte_def)

text \<open>A line with the given header and values.\<close>

definition log_line :: "log_head \<Rightarrow> log_arg list \<Rightarrow> NanoLogLine res" where
  "log_line h as = bind_res (NanoLogLine_new h) (fold_res NanoLogLine_insert as)"

definition log_text :: "log_head \<Rightarrow> log_arg list \<Rightarrow> log_output" where
  "log_text h as =
     \<lparr>lo_timestamp = lh_timestamp h, lo_level = level_string (Some (lh_level h)), lo_thread = lh_thread h,
      lo_file = lh_file h, lo_function = lh_function h, lo_line = lh_line h, lo_args = filter visible as,
      lo_end = [10], lo_flushes = (if lh_level h = CRIT then 2 else 1)\<rparr>"

lemma log_line_holds: "\<exists>n. log_line h as = Inr n \<and> nl_holds (concat (head_bytes h) @ concat (map wire as)) n"
  using new_holds [of h] inserts_hold by (force simp: log_line_def)

lemma stringify_holds:
  assumes n: "nl_holds (concat (head_bytes h) @ concat (map wire as)) n" and "\<forall>a \<in> set as. no_nul a"
  shows "NanoLogLine_stringify n = Inr (log_text h as)"
proof -
  let ?b = "concat (head_bytes h) @ concat (map wire as)"
  let ?tail = "drop (length ?b) (nl_cells n)"
  have cells: "nl_cells n = concat (head_bytes h) @ concat (map wire as) @ ?tail"
    using n by (metis append_assoc append_take_drop_id nl_holds_def)
  have len: "length (concat (head_bytes h)) = 37" by (simp add: head_bytes_def)
  have h: "mem_read (nl_cells n) 0 37 = Inr (concat (head_bytes h))"
    using len by (subst cells) (simp add: mem_read_ok)
  have "length (nl_cells n) - nl_bytes_used n = length ?tail" using n by (simp add: nl_holds_def)
  moreover have "drop 37 (nl_cells n) = concat (map wire as) @ ?tail" using len by (subst cells) simp
  ultimately have "stringify_args (length (nl_cells n) - nl_bytes_used n) (drop 37 (nl_cells n)) = Inr (filter visible as)"
    using stringify_args_wire [OF assms(2), of ?tail] by (simp only:)
  moreover have "concat (head_bytes h) ! 36 = LogLevel_byte (lh_level h)"
    by (simp add: head_bytes_def nth_append)
  moreover have "4 \<le> LogLevel_byte (lh_level h) \<longleftrightarrow> lh_level h = CRIT"
    by (cases "lh_level h") (simp_all add: LogLevel_byte_def word_le_nat_alt)
  ultimately show ?thesis unfolding NanoLogLine_stringify_def Let_def h
    by (simp add: log_text_def head_bytes_def)
qed

text \<open>
  C34: a log line gives back what was inserted. For every header and every sequence of values whose
  strings hold no NUL byte, the line's constructor followed by the insertions succeeds, with however
  many moves from the stack buffer to larger and larger heap buffers, and \<open>stringify\<close> of the result
  prints the header, the level's name and the values in order (null and empty strings print
  nothing) and ends the line; the stream is flushed with every line, and once more at the level \<open>CRIT\<close>.
\<close>

theorem log_line_roundtrip:
  assumes "\<forall>a \<in> set as. no_nul a"
  shows "bind_res (log_line h as) NanoLogLine_stringify = Inr (log_text h as)"
  using log_line_holds [of h as] stringify_holds [OF _ assms] by auto

definition sample_head :: log_head where
  "sample_head = \<lparr>lh_timestamp = 1700000000000000, lh_thread = 7, lh_file = 4096, lh_function = 8192,
     lh_line = 42, lh_level = CRIT\<rparr>"

definition sample_log_args :: "log_arg list" where
  "sample_log_args = [ALit 12288, CStr (Some (replicate 300 65)), AI32 (- 5), CStr None, AChar 33]"

theorem log_line_roundtrip_witness:
  "list_all no_nul sample_log_args
   \<and> bind_res (log_line sample_head sample_log_args) NanoLogLine_stringify = Inr (log_text sample_head sample_log_args)
   \<and> lo_args (log_text sample_head sample_log_args) = [ALit 12288, CStr (Some (replicate 300 65)), AI32 (- 5), AChar 33]"
proof -
  have h: "\<forall>a \<in> set sample_log_args. no_nul a" by (simp add: sample_log_args_def)
  then have "list_all no_nul sample_log_args" by (simp add: list_all_iff)
  moreover from log_line_roundtrip [OF h, of sample_head]
  have "bind_res (log_line sample_head sample_log_args) NanoLogLine_stringify = Inr (log_text sample_head sample_log_args)" .
  moreover have "lo_args (log_text sample_head sample_log_args) = [ALit 12288, CStr (Some (replicate 300 65)), AI32 (- 5), AChar 33]"
    by (simp add: log_text_def sample_log_args_def)
  ultimately show ?thesis by blast
qed

text \<open>
  A \<open>std::string\<close> with an embedded NUL is stored with its length but decoded up to the NUL: the byte
  behind it is taken for a type, and an unknown type ends the line, with the later values lost.
\<close>

lemma embedded_nul_misread:
  "map_res lo_args (bind_res (log_line sample_head [CStr (Some [65, 0, 66]), AU32 1]) NanoLogLine_stringify)
   = Inr [CStr (Some [65])]"
  by code_simp

end
