(* ===== verification/Nano_Buffers.thy ===== *)
theory Nano_Buffers
  imports Sparrow_Prelude
begin

text \<open>
  The two buffers between the threads that log and the thread that writes (\<open>util/nanolog.hpp\<close>):
  \<open>RingBuffer\<close>, whose indices are 32-bit counters taken modulo the ring's size, and \<open>QueueBuffer\<close>, a
  queue of fixed-size \<open>Buffer\<close>s that grows without losing lines. Each call runs alone here; the lines
  are a type parameter, as both only move them. The interface \<open>BufferBase\<close> is the locale
  \<open>line_buffer\<close>, interpreted on both.
\<close>

section \<open>The interface\<close>

text \<open>
  \<open>holds q b\<close>: the buffer \<open>b\<close> keeps the lines \<open>q\<close>, oldest first; \<open>fits n\<close>: it can keep \<open>n\<close> lines.
\<close>

locale line_buffer =
  fixes push :: "'l \<Rightarrow> 'b \<Rightarrow> 'b res"
    and try_pop :: "'b \<Rightarrow> ('l option \<times> 'b) res"
    and holds :: "'l list \<Rightarrow> 'b \<Rightarrow> bool"
    and fits :: "nat \<Rightarrow> bool"
  assumes push_holds: "holds q b \<Longrightarrow> fits (Suc (length q)) \<Longrightarrow> \<exists>b'. push l b = Inr b' \<and> holds (q @ [l]) b'"
    and pop_first: "holds (l # q) b \<Longrightarrow> \<exists>b'. try_pop b = Inr (Some l, b') \<and> holds q b'"
    and pop_empty: "holds [] b \<Longrightarrow> \<exists>b'. try_pop b = Inr (None, b') \<and> holds [] b'"

text \<open>Pushes and pops in any order; the popped lines, in the order they came out.\<close>

fun buffer_run :: "('l \<Rightarrow> 'b \<Rightarrow> 'b res) \<Rightarrow> ('b \<Rightarrow> ('l option \<times> 'b) res) \<Rightarrow> 'l option list \<Rightarrow> 'b \<Rightarrow> ('l list \<times> 'b) res" where
  "buffer_run push pop [] b = Inr ([], b)"
| "buffer_run push pop (Some l # evs) b = bind_res (push l b) (buffer_run push pop evs)"
| "buffer_run push pop (None # evs) b =
     bind_res (pop b) (\<lambda>(r, b').
       map_res (\<lambda>(out, b''). (case r of None \<Rightarrow> out | Some l \<Rightarrow> l # out, b'')) (buffer_run push pop evs b'))"

text \<open>The same trace on the ideal queue.\<close>

fun ideal_run :: "'l option list \<Rightarrow> 'l list \<Rightarrow> 'l list \<times> 'l list" where
  "ideal_run [] q = ([], q)"
| "ideal_run (Some l # evs) q = ideal_run evs (q @ [l])"
| "ideal_run (None # evs) q =
     (case q of [] \<Rightarrow> ideal_run evs [] | l # q' \<Rightarrow> (let (out, r) = ideal_run evs q' in (l # out, r)))"

text \<open>The trace never keeps more lines than fit.\<close>

fun ideal_fits :: "(nat \<Rightarrow> bool) \<Rightarrow> 'l option list \<Rightarrow> nat \<Rightarrow> bool" where
  "ideal_fits fits [] n = True"
| "ideal_fits fits (Some l # evs) n = (fits (Suc n) \<and> ideal_fits fits evs (Suc n))"
| "ideal_fits fits (None # evs) n = ideal_fits fits evs (n - 1)"

context line_buffer
begin

lemma run_refines:
  assumes "holds q b" and "ideal_fits fits evs (length q)"
  shows "\<exists>b'. buffer_run push try_pop evs b = Inr (fst (ideal_run evs q), b') \<and> holds (snd (ideal_run evs q)) b'"
  using assms
proof (induction evs q arbitrary: b rule: ideal_run.induct)
  case (2 l evs q)
  then show ?case using push_holds [of q b l] by fastforce
next
  case (3 evs q)
  show ?case
  proof (cases q)
    case Nil
    then show ?thesis using 3 pop_empty [of b] by fastforce
  next
    case (Cons l q')
    obtain b1 where "try_pop b = Inr (Some l, b1)" "holds q' b1" using pop_first 3(3) Cons by blast
    then show ?thesis using 3(2) [OF Cons, of b1] 3(4) Cons by (auto simp: case_prod_beta)
  qed
qed simp

end

lemma ideal_run_conserves:
  "fst (ideal_run evs q) @ snd (ideal_run evs q) = q @ [l. Some l \<leftarrow> evs]"
  by (induction evs q rule: ideal_run.induct) (auto simp: case_prod_beta split: list.splits)

lemma ideal_fits_always: "(\<And>n. fits n) \<Longrightarrow> ideal_fits fits evs n"
  by (induction fits evs n rule: ideal_fits.induct) auto

text \<open>The lines of one thread, in a history of pairs of thread and line.\<close>

definition lines_of :: "nat \<Rightarrow> (nat \<times> 'l) list \<Rightarrow> 'l list" where
  "lines_of t log = map snd (filter (\<lambda>e. fst e = t) log)"

section \<open>RingBuffer\<close>

text \<open>\<open>Item\<close>: the lock flag is held only within a call.\<close>

record 'l ring_item =
  ri_written :: bool
  ri_logline :: 'l

record 'l RingBuffer =
  rb_size :: size_t
  rb_ring :: "'l ring_item list"
  rb_write_index :: u32
  rb_read_index :: u32

definition RingBuffer_new :: "'l \<Rightarrow> size_t \<Rightarrow> 'l RingBuffer" where
  "RingBuffer_new blank sz =
     \<lparr>rb_size = sz, rb_ring = replicate (unat sz) \<lparr>ri_written = False, ri_logline = blank\<rparr>,
      rb_write_index = 0, rb_read_index = 0\<rparr>"

text \<open>
  \<open>m_ring[index % m_size]\<close>; the 32-bit index is widened to \<open>size_t\<close> for the modulo.
\<close>

definition ring_slot :: "u32 \<Rightarrow> 'l RingBuffer \<Rightarrow> nat res" where
  "ring_slot index b =
     (if rb_size b = 0 then Inl DivByZero
      else let i = unat (ucast index mod rb_size b) in
        if i < length (rb_ring b) then Inr i else Inl OutOfRange)"

definition RingBuffer_push :: "'l \<Rightarrow> 'l RingBuffer \<Rightarrow> 'l RingBuffer res" where
  "RingBuffer_push logline b =
     map_res (\<lambda>i. b\<lparr>rb_write_index := rb_write_index b + 1,
         rb_ring := (rb_ring b)[i := \<lparr>ri_written = True, ri_logline = logline\<rparr>]\<rparr>)
       (ring_slot (rb_write_index b) b)"

definition RingBuffer_try_pop :: "'l RingBuffer \<Rightarrow> ('l option \<times> 'l RingBuffer) res" where
  "RingBuffer_try_pop b =
     map_res (\<lambda>i.
         let item = rb_ring b ! i in
         if ri_written item
         then (Some (ri_logline item),
               b\<lparr>rb_ring := (rb_ring b)[i := item\<lparr>ri_written := False\<rparr>], rb_read_index := rb_read_index b + 1\<rparr>)
         else (None, b))
       (ring_slot (rb_read_index b) b)"

text \<open>The destructor destroys \<open>m_size\<close> items and frees the storage; the result is the number of items left alive.\<close>

definition RingBuffer_destroy :: "'l RingBuffer \<Rightarrow> nat res" where
  "RingBuffer_destroy b =
     (if unat (rb_size b) \<le> length (rb_ring b) then Inr (length (rb_ring b) - unat (rb_size b)) else Inl OutOfRange)"

text \<open>
  A ring of \<open>n\<close> items, \<open>n\<close> a divisor of \<open>2 ^ 32\<close>, keeps \<open>q\<close> in the slots from the read index on.
\<close>

definition ring_at :: "'l RingBuffer \<Rightarrow> nat \<Rightarrow> 'l ring_item" where
  "ring_at b k = rb_ring b ! ((unat (rb_read_index b) + k) mod length (rb_ring b))"

definition ring_holds :: "nat \<Rightarrow> 'l list \<Rightarrow> 'l RingBuffer \<Rightarrow> bool" where
  "ring_holds n q b \<longleftrightarrow> 0 < n \<and> n dvd 2 ^ 32 \<and> unat (rb_size b) = n \<and> length (rb_ring b) = n \<and> length q \<le> n
     \<and> rb_write_index b = rb_read_index b + of_nat (length q)
     \<and> (\<forall>k < n. ri_written (ring_at b k) \<longleftrightarrow> k < length q) \<and> (\<forall>k < length q. ri_logline (ring_at b k) = q ! k)"

lemma unat_add_mod_dvd:
  assumes "n dvd 2 ^ 32"
  shows "unat (w + of_nat k :: u32) mod n = (unat w + k) mod n"
  using assms by (simp add: unat_word_ariths mod_mod_cancel unat_of_nat mod_simps)

lemma ring_slot_mod:
  assumes n: "0 < n" "n dvd 2 ^ 32" "unat (rb_size b) = n" "length (rb_ring b) = n"
  shows "ring_slot w b = Inr (unat w mod n)"
proof -
  have "unat (ucast w mod rb_size b) = unat (ucast w :: size_t) mod n"
    using n by (simp add: unat_mod_distrib)
  also have "unat w < 2 ^ 64" by (rule order_less_le_trans [OF unsigned_less]) simp
  then have "unat (ucast w :: size_t) = unat w" by (simp add: unsigned_ucast_eq take_bit_nat_eq_self)
  finally show ?thesis using n by (auto simp: ring_slot_def)
qed

lemma ring_slot_eq:
  assumes "ring_holds n q b"
  shows "ring_slot (rb_read_index b + of_nat k) b = Inr ((unat (rb_read_index b) + k) mod n)"
proof -
  have n: "0 < n" "n dvd 2 ^ 32" "unat (rb_size b) = n" "length (rb_ring b) = n"
    using assms by (auto simp: ring_holds_def)
  show ?thesis using ring_slot_mod [OF n] unat_add_mod_dvd [OF n(2)] by simp
qed

lemma mod_shift_inj:
  fixes r :: nat
  assumes "(r + j) mod n = (r + k) mod n" and "j < n" and "k < n"
  shows "j = k"
proof -
  obtain a b where "r + j + n * a = r + k + n * b" using assms(1) nat_mod_eq_iff by blast
  then have "(j + n * a) mod n = (k + n * b) mod n" by simp
  then show ?thesis using assms(2,3) by simp
qed

lemma ring_at_update:
  assumes "ring_holds n q b" and "j < n" and "k < n"
  shows "ring_at (b\<lparr>rb_ring := (rb_ring b)[(unat (rb_read_index b) + j) mod n := x]\<rparr>) k
    = (if k = j then x else ring_at b k)"
proof -
  have n: "0 < n" "length (rb_ring b) = n" using assms by (auto simp: ring_holds_def)
  show ?thesis
    using mod_shift_inj [of "unat (rb_read_index b)" j n k] assms(2,3) n
    by (auto simp: ring_at_def nth_list_update)
qed

lemma ring_push_holds:
  assumes h: "ring_holds n q b" and f: "Suc (length q) \<le> n"
  shows "\<exists>b'. RingBuffer_push l b = Inr b' \<and> ring_holds n (q @ [l]) b'"
proof -
  let ?x = "\<lparr>ri_written = True, ri_logline = l\<rparr>"
  have w: "rb_write_index b = rb_read_index b + of_nat (length q)" using h by (simp add: ring_holds_def)
  obtain b' where b': "RingBuffer_push l b = Inr b'"
    "b' = b\<lparr>rb_ring := (rb_ring b)[(unat (rb_read_index b) + length q) mod n := ?x],
           rb_write_index := rb_write_index b + 1\<rparr>"
    unfolding RingBuffer_push_def w ring_slot_eq [OF h] by simp
  have at: "ring_at b' k = (if k = length q then ?x else ring_at b k)" if "k < n" for k
    using ring_at_update [OF h _ that, of "length q" ?x] f by (simp add: b' ring_at_def)
  have "rb_size b' = rb_size b" "rb_read_index b' = rb_read_index b" "length (rb_ring b') = length (rb_ring b)"
    "rb_write_index b' = rb_write_index b + 1" by (simp_all add: b')
  then have "ring_holds n (q @ [l]) b'" using h f
    by (auto simp: ring_holds_def at nth_append less_Suc_eq)
  then show ?thesis using b'(1) by blast
qed

lemma ring_pop_holds:
  assumes h: "ring_holds n (l # q) b"
  shows "\<exists>b'. RingBuffer_try_pop b = Inr (Some l, b') \<and> ring_holds n q b'"
proof -
  have n: "0 < n" "n dvd 2 ^ 32" "length (rb_ring b) = n" "Suc (length q) \<le> n" using h by (auto simp: ring_holds_def)
  define x where "x = (ring_at b 0)\<lparr>ri_written := False\<rparr>"
  have first: "ri_written (ring_at b 0)" "ri_logline (ring_at b 0) = l" using h by (auto simp: ring_holds_def)
  have slot: "ring_slot (rb_read_index b) b = Inr (unat (rb_read_index b) mod n)"
    using ring_slot_eq [OF h, of 0] by simp
  have at0: "rb_ring b ! (unat (rb_read_index b) mod n) = ring_at b 0" using n(3) by (simp add: ring_at_def)
  obtain b' where b': "RingBuffer_try_pop b = Inr (Some l, b')"
    "b' = b\<lparr>rb_ring := (rb_ring b)[(unat (rb_read_index b) + 0) mod n := x], rb_read_index := rb_read_index b + 1\<rparr>"
    unfolding RingBuffer_try_pop_def slot using first by (simp add: at0 x_def)
  have at: "ring_at b' k = (if Suc k = n then x else ring_at b (Suc k))" if "k < n" for k
  proof -
    have "ring_at b' k = ring_at (b\<lparr>rb_ring := (rb_ring b)[(unat (rb_read_index b) + 0) mod n := x]\<rparr>) (Suc k mod n)"
      using n unat_add_mod_dvd [OF n(2), of "rb_read_index b" 1]
      by (simp add: b' ring_at_def mod_simps) (metis add_Suc_right add_Suc mod_add_left_eq plus_1_eq_Suc)
    also have "\<dots> = (if Suc k mod n = 0 then x else ring_at b (Suc k mod n))"
      using ring_at_update [OF h, of 0 "Suc k mod n" x] n(1) by simp
    finally show ?thesis using that by (auto simp: mod_Suc)
  qed
  have "rb_size b' = rb_size b" "rb_read_index b' = rb_read_index b + 1" "length (rb_ring b') = length (rb_ring b)"
    "rb_write_index b' = rb_write_index b" by (simp_all add: b')
  moreover have "ri_written (ring_at b' k) \<longleftrightarrow> k < length q" if "k < n" for k
    using h that by (auto simp: at x_def ring_holds_def)
  moreover have "ri_logline (ring_at b' k) = q ! k" if "k < length q" for k
    using h that n(4) by (auto simp: at ring_holds_def)
  ultimately have "ring_holds n q b'" using h by (auto simp: ring_holds_def)
  then show ?thesis using b'(1) by blast
qed

lemma ring_pop_empty:
  assumes h: "ring_holds n [] b"
  shows "RingBuffer_try_pop b = Inr (None, b)"
proof -
  have "0 < n" "\<not> ri_written (ring_at b 0)" "length (rb_ring b) = n" using h by (auto simp: ring_holds_def)
  then show ?thesis using ring_slot_eq [OF h, of 0] by (simp add: RingBuffer_try_pop_def ring_at_def)
qed

lemma ring_new_holds:
  assumes "0 < sz" and "unat sz dvd 2 ^ 32"
  shows "ring_holds (unat sz) [] (RingBuffer_new blank sz)"
  using assms by (auto simp: ring_holds_def RingBuffer_new_def ring_at_def word_less_nat_alt)

interpretation ring: line_buffer RingBuffer_push RingBuffer_try_pop "ring_holds n" "\<lambda>k. k \<le> n" for n
  by unfold_locales (use ring_push_holds ring_pop_holds ring_pop_empty in fastforce)+

section \<open>Buffer\<close>

definition Buffer_size :: nat where
  "Buffer_size = 32768"

text \<open>
  \<open>m_buffer\<close> is raw storage, an item exists once constructed; \<open>m_write_state[i]\<close> tells whether item
  \<open>i\<close> was written and \<open>m_write_state[size]\<close> counts the written items.
\<close>

record 'l Buffer =
  bf_items :: "nat \<Rightarrow> 'l option"
  bf_write_state :: "nat \<Rightarrow> u32"

definition Buffer_new :: "'l Buffer" where
  "Buffer_new = \<lparr>bf_items = (\<lambda>i. None), bf_write_state = (\<lambda>i. 0)\<rparr>"

text \<open>Returns whether the buffer is full now.\<close>

definition Buffer_push :: "'l \<Rightarrow> u32 \<Rightarrow> 'l Buffer \<Rightarrow> (bool \<times> 'l Buffer) res" where
  "Buffer_push logline write_index b =
     (let i = unat write_index in
      if i < Buffer_size then
        let st = (bf_write_state b)(i := 1); n = st Buffer_size in
        Inr (n + 1 = of_nat Buffer_size,
          b\<lparr>bf_items := (bf_items b)(i := Some logline), bf_write_state := st(Buffer_size := n + 1)\<rparr>)
      else Inl OutOfRange)"

definition Buffer_try_pop :: "u32 \<Rightarrow> 'l Buffer \<Rightarrow> 'l option res" where
  "Buffer_try_pop read_index b =
     (let i = unat read_index in
      if Buffer_size \<le> i then Inl OutOfRange
      else if bf_write_state b i \<noteq> 0 then
        (case bf_items b i of None \<Rightarrow> Inl UseAfterFree | Some l \<Rightarrow> Inr (Some l))
      else Inr None)"

text \<open>
  The destructor destroys the first \<open>write_count\<close> items, which must exist, and frees the storage; the
  result is the number of items left alive.
\<close>

definition Buffer_destroy :: "'l Buffer \<Rightarrow> nat res" where
  "Buffer_destroy b =
     (let n = unat (bf_write_state b Buffer_size) in
      if \<forall>i \<in> set [0..<n]. i < Buffer_size \<and> bf_items b i \<noteq> None
      then Inr (length (filter (\<lambda>i. bf_items b i \<noteq> None) [n..<Buffer_size])) else Inl UseAfterFree)"

text \<open>The buffer was given the lines \<open>ls\<close>.\<close>

definition buffer_of :: "'l list \<Rightarrow> 'l Buffer \<Rightarrow> bool" where
  "buffer_of ls b \<longleftrightarrow> length ls \<le> Buffer_size \<and> bf_write_state b Buffer_size = of_nat (length ls)
     \<and> (\<forall>i < Buffer_size. bf_write_state b i = (if i < length ls then 1 else 0))
     \<and> (\<forall>i < length ls. bf_items b i = Some (ls ! i))"

lemma buffer_of_new: "buffer_of [] Buffer_new"
  by (simp add: buffer_of_def Buffer_new_def)

lemma index_word: "i \<le> Buffer_size \<Longrightarrow> unat (of_nat i :: u32) = i"
  by (simp add: Buffer_size_def)

lemma buffer_push_of:
  assumes "buffer_of ls b" and "length ls < Buffer_size"
  shows "\<exists>b'. Buffer_push l (of_nat (length ls)) b = Inr (Suc (length ls) = Buffer_size, b') \<and> buffer_of (ls @ [l]) b'"
proof -
  let ?n = "length ls"
  have full: "(of_nat ?n + 1 = (of_nat Buffer_size :: u32)) \<longleftrightarrow> Suc ?n = Buffer_size"
    using assms(2) index_word [of "Suc ?n"] index_word [of Buffer_size]
    by (metis Suc_leI add.commute of_nat_Suc order_refl)
  define b' where "b' = b\<lparr>bf_items := (bf_items b)(?n := Some l),
    bf_write_state := (bf_write_state b)(?n := 1, Buffer_size := of_nat ?n + 1)\<rparr>"
  have "Buffer_push l (of_nat ?n) b = Inr (Suc ?n = Buffer_size, b')"
    using assms by (simp add: Buffer_push_def Let_def index_word full b'_def buffer_of_def)
  moreover have "buffer_of (ls @ [l]) b'"
    unfolding buffer_of_def using assms by (simp add: b'_def buffer_of_def nth_append add.commute)
  ultimately show ?thesis by blast
qed

lemma buffer_destroy_full:
  assumes "buffer_of ls b" and "length ls = Buffer_size"
  shows "Buffer_destroy b = Inr 0"
  using assms by (auto simp: Buffer_destroy_def buffer_of_def index_word)

lemma ring_destroy_holds: "ring_holds n q b \<Longrightarrow> RingBuffer_destroy b = Inr 0"
  by (simp add: RingBuffer_destroy_def ring_holds_def)

lemma buffer_pop_of:
  assumes "buffer_of ls b" and "r < Buffer_size"
  shows "Buffer_try_pop (of_nat r) b = Inr (if r < length ls then Some (ls ! r) else None)"
  using assms by (simp add: Buffer_try_pop_def buffer_of_def index_word)

section \<open>QueueBuffer\<close>

text \<open>
  The buffers live on the heap (\<open>qb_heap\<close>, addresses \<open>0, 1, 2, \<dots>\<close> in the order of allocation) and are
  owned by the queue \<open>m_buffers\<close>, whose \<open>pop\<close> frees the front one; the two current buffers are plain
  pointers.
\<close>

record 'l QueueBuffer =
  qb_heap :: "nat \<Rightarrow> 'l Buffer option"
  qb_allocated :: nat
  qb_buffers :: "nat list"
  qb_current_write_buffer :: "nat option"
  qb_current_read_buffer :: "nat option"
  qb_write_index :: u32
  qb_read_index :: u32

definition qb_deref :: "nat option \<Rightarrow> 'l QueueBuffer \<Rightarrow> (nat \<times> 'l Buffer) res" where
  "qb_deref p q =
     (case p of
        None \<Rightarrow> Inl NullDeref
      | Some a \<Rightarrow> (case qb_heap q a of None \<Rightarrow> Inl UseAfterFree | Some b \<Rightarrow> Inr (a, b)))"

definition setup_next_write_buffer :: "'l QueueBuffer \<Rightarrow> 'l QueueBuffer" where
  "setup_next_write_buffer q =
     (let a = qb_allocated q in
      q\<lparr>qb_heap := (qb_heap q)(a \<mapsto> Buffer_new), qb_allocated := Suc a,
        qb_current_write_buffer := Some a, qb_buffers := qb_buffers q @ [a], qb_write_index := 0\<rparr>)"

definition get_next_read_buffer :: "'l QueueBuffer \<Rightarrow> nat option" where
  "get_next_read_buffer q = (case qb_buffers q of [] \<Rightarrow> None | a # _ \<Rightarrow> Some a)"

definition QueueBuffer_new :: "'l QueueBuffer" where
  "QueueBuffer_new = setup_next_write_buffer
     \<lparr>qb_heap = Map.empty, qb_allocated = 0, qb_buffers = [], qb_current_write_buffer = None,
      qb_current_read_buffer = None, qb_write_index = 0, qb_read_index = 0\<rparr>"

text \<open>With no other thread running, the wait for \<open>m_write_index\<close> to fall does not end.\<close>

definition QueueBuffer_push :: "'l \<Rightarrow> 'l QueueBuffer \<Rightarrow> 'l QueueBuffer res" where
  "QueueBuffer_push logline q =
     (let write_index = qb_write_index q; q = q\<lparr>qb_write_index := write_index + 1\<rparr> in
      if unat write_index < Buffer_size then
        bind_res (qb_deref (qb_current_write_buffer q) q) (\<lambda>(a, b).
          map_res (\<lambda>(full, b'). let q = q\<lparr>qb_heap := (qb_heap q)(a \<mapsto> b')\<rparr> in
              if full then setup_next_write_buffer q else q)
            (Buffer_push logline write_index b))
      else Inl Spin)"

definition QueueBuffer_try_pop :: "'l QueueBuffer \<Rightarrow> ('l option \<times> 'l QueueBuffer) res" where
  "QueueBuffer_try_pop q0 =
     (let q = (if qb_current_read_buffer q0 = None
               then q0\<lparr>qb_current_read_buffer := get_next_read_buffer q0\<rparr> else q0) in
      if qb_current_read_buffer q = None then Inr (None, q)
      else bind_res (qb_deref (qb_current_read_buffer q) q) (\<lambda>(a, b).
        bind_res (Buffer_try_pop (qb_read_index q) b) (\<lambda>r.
          if r = None then Inr (None, q)
          else let q = q\<lparr>qb_read_index := qb_read_index q + 1\<rparr> in
            if qb_read_index q = of_nat Buffer_size then
              (case qb_buffers q of
                 [] \<Rightarrow> Inl NullDeref
               | f # fs \<Rightarrow> Inr (r, q\<lparr>qb_read_index := 0, qb_current_read_buffer := None,
                   qb_buffers := fs, qb_heap := (qb_heap q)(f := None)\<rparr>))
            else Inr (r, q))))"

text \<open>
  The state between calls: the buffers \<open>bs\<close> of the queue are full of the lines \<open>lss\<close>, the buffer \<open>w\<close>
  behind them is the current write buffer and was given \<open>cs\<close>, and \<open>r\<close> lines of the first buffer are read.
\<close>

definition buffer_at :: "'l QueueBuffer \<Rightarrow> nat \<Rightarrow> 'l list \<Rightarrow> bool" where
  "buffer_at q a ls \<longleftrightarrow> (\<exists>b. qb_heap q a = Some b \<and> buffer_of ls b)"

definition queue_of :: "nat list \<Rightarrow> nat \<Rightarrow> 'l list list \<Rightarrow> 'l list \<Rightarrow> nat \<Rightarrow> 'l QueueBuffer \<Rightarrow> bool" where
  "queue_of bs w lss cs r q \<longleftrightarrow>
     qb_buffers q = bs @ [w] \<and> distinct (bs @ [w]) \<and> (\<forall>a \<in> set (bs @ [w]). a < qb_allocated q)
     \<and> list_all2 (buffer_at q) bs lss \<and> buffer_at q w cs
     \<and> (\<forall>ls \<in> set lss. length ls = Buffer_size) \<and> length cs < Buffer_size
     \<and> qb_current_write_buffer q = Some w \<and> qb_write_index q = of_nat (length cs)
     \<and> qb_current_read_buffer q \<in> {None, Some (hd (bs @ [w]))}
     \<and> qb_read_index q = of_nat r \<and> r < Buffer_size \<and> r \<le> length (hd (lss @ [cs]))"

definition queue_holds :: "'l list \<Rightarrow> 'l QueueBuffer \<Rightarrow> bool" where
  "queue_holds ls q \<longleftrightarrow> (\<exists>bs w lss cs r. queue_of bs w lss cs r q \<and> ls = drop r (concat lss @ cs))"

lemma queue_new_holds: "queue_holds [] QueueBuffer_new"
proof -
  have "queue_of [] 0 [] [] 0 QueueBuffer_new"
    by (simp add: queue_of_def QueueBuffer_new_def setup_next_write_buffer_def buffer_at_def buffer_of_new Buffer_size_def)
  then show ?thesis unfolding queue_holds_def by fastforce
qed

lemma buffers_at_frame:
  assumes "list_all2 (buffer_at q) bs lss" and "\<forall>a \<in> set bs. qb_heap q' a = qb_heap q a"
  shows "list_all2 (buffer_at q') bs lss"
  using assms by (auto simp: list_all2_conv_all_nth buffer_at_def)

lemma queue_push_holds:
  assumes "queue_holds ls q"
  shows "\<exists>q'. QueueBuffer_push l q = Inr q' \<and> queue_holds (ls @ [l]) q'"
proof -
  obtain bs w lss cs r where q: "queue_of bs w lss cs r q" and ls: "ls = drop r (concat lss @ cs)"
    using assms by (auto simp: queue_holds_def)
  have r: "r \<le> length (concat lss @ cs)" using q by (cases lss) (auto simp: queue_of_def)
  have c: "length cs < Buffer_size" "qb_current_write_buffer q = Some w" "qb_write_index q = of_nat (length cs)"
    using q by (auto simp: queue_of_def)
  obtain b where b: "qb_heap q w = Some b" "buffer_of cs b" using q by (auto simp: queue_of_def buffer_at_def)
  obtain b' where b': "Buffer_push l (of_nat (length cs)) b = Inr (Suc (length cs) = Buffer_size, b')" "buffer_of (cs @ [l]) b'"
    using buffer_push_of [OF b(2) c(1)] by blast
  let ?q = "q\<lparr>qb_write_index := of_nat (length cs) + 1, qb_heap := (qb_heap q)(w \<mapsto> b')\<rparr>"
  let ?q' = "if Suc (length cs) = Buffer_size then setup_next_write_buffer ?q else ?q"
  have push: "QueueBuffer_push l q = Inr ?q'"
    using c b b' by (simp add: QueueBuffer_push_def qb_deref_def Let_def index_word)
  have old: "list_all2 (buffer_at ?q) bs lss" "buffer_at ?q w (cs @ [l])"
    using q b' by (auto simp: queue_of_def buffer_at_def intro!: buffers_at_frame [of q])
  have "queue_holds (ls @ [l]) ?q'"
  proof (cases "Suc (length cs) = Buffer_size")
    case True
    obtain s where s: "s = setup_next_write_buffer ?q" by blast
    have sel: "qb_heap s = (qb_heap ?q)(qb_allocated q \<mapsto> Buffer_new)" "qb_allocated s = Suc (qb_allocated q)"
      "qb_current_write_buffer s = Some (qb_allocated q)" "qb_buffers s = qb_buffers q @ [qb_allocated q]"
      "qb_write_index s = 0" "qb_current_read_buffer s = qb_current_read_buffer q" "qb_read_index s = qb_read_index q"
      by (simp_all add: s setup_next_write_buffer_def Let_def)
    have new: "\<forall>a \<in> set (bs @ [w]). a < qb_allocated q" using q by (auto simp: queue_of_def)
    have "list_all2 (buffer_at ?q) (bs @ [w]) (lss @ [cs @ [l]])"
      using old by (simp add: list_all2_appendI)
    then have "list_all2 (buffer_at s) (bs @ [w]) (lss @ [cs @ [l]])"
      by (rule buffers_at_frame) (use new in \<open>auto simp: sel(1)\<close>)
    moreover have "buffer_at s (qb_allocated q) []" by (simp add: buffer_at_def sel(1) buffer_of_new)
    moreover have "qb_allocated q \<notin> set (bs @ [w])" using new by blast
    moreover have "hd (bs @ [w]) = hd ((bs @ [w]) @ [qb_allocated q])" by (cases bs) auto
    moreover have "r \<le> length (hd ((lss @ [cs @ [l]]) @ [[]]))" using q by (cases lss) (auto simp: queue_of_def)
    ultimately have "queue_of (bs @ [w]) (qb_allocated q) (lss @ [cs @ [l]]) [] r s"
      using q True new unfolding queue_of_def sel by (simp add: less_SucI)
    then show ?thesis unfolding queue_holds_def using True ls r by (simp flip: s) (fastforce intro!: exI)
  next
    case False
    then have "queue_of bs w lss (cs @ [l]) r ?q"
      using q old by (cases lss) (auto simp: queue_of_def add.commute)
    then show ?thesis unfolding queue_holds_def using False ls r by (intro exI conjI) auto
  qed
  then show ?thesis using push by blast
qed

text \<open>The read buffer is the first of the queue, before and after the look for the next one.\<close>

lemma queue_pop_eq:
  assumes q: "queue_of bs w lss cs r q"
  defines "p \<equiv> q\<lparr>qb_current_read_buffer := Some (hd (bs @ [w]))\<rparr>"
  shows "queue_of bs w lss cs r p"
    "r = length (hd (lss @ [cs])) \<Longrightarrow> QueueBuffer_try_pop q = Inr (None, p)"
    "r < length (hd (lss @ [cs])) \<Longrightarrow> QueueBuffer_try_pop q =
       Inr (Some (hd (lss @ [cs]) ! r),
         if Suc r = Buffer_size
         then p\<lparr>qb_read_index := 0, qb_current_read_buffer := None, qb_buffers := tl (bs @ [w]),
                qb_heap := (qb_heap q)(hd (bs @ [w]) := None)\<rparr>
         else p\<lparr>qb_read_index := of_nat (Suc r)\<rparr>)"
proof -
  have f: "qb_buffers q = bs @ [w]" "qb_current_read_buffer q \<in> {None, Some (hd (bs @ [w]))}"
    "qb_read_index q = of_nat r" "r < Buffer_size" using q by (auto simp: queue_of_def)
  have p: "(if qb_current_read_buffer q = None then q\<lparr>qb_current_read_buffer := get_next_read_buffer q\<rparr> else q) = p"
    using f by (cases bs) (auto simp: p_def get_next_read_buffer_def)
  show "queue_of bs w lss cs r p" using q by (simp add: queue_of_def p_def buffer_at_def [abs_def])
  have "list_all2 (buffer_at q) (bs @ [w]) (lss @ [cs])" using q by (simp add: queue_of_def list_all2_appendI)
  then have "buffer_at q (hd (bs @ [w])) (hd (lss @ [cs]))" by (cases bs; cases lss) auto
  then obtain b where b: "qb_heap q (hd (bs @ [w])) = Some b" "buffer_of (hd (lss @ [cs])) b"
    by (auto simp: buffer_at_def)
  have "qb_deref (qb_current_read_buffer p) p = Inr (hd (bs @ [w]), b)" by (simp add: p_def qb_deref_def b)
  then have eq: "QueueBuffer_try_pop q = bind_res (Buffer_try_pop (of_nat r) b) (\<lambda>x.
          if x = None then Inr (None, p)
          else if of_nat r + 1 = (of_nat Buffer_size :: u32)
          then Inr (x, p\<lparr>qb_read_index := 0, qb_current_read_buffer := None, qb_buffers := tl (bs @ [w]),
                qb_heap := (qb_heap q)(hd (bs @ [w]) := None)\<rparr>)
          else Inr (x, p\<lparr>qb_read_index := of_nat (Suc r)\<rparr>))"
    using f by (cases bs) (simp_all add: QueueBuffer_try_pop_def p Let_def, simp_all add: p_def add.commute cong: if_cong)
  have "(of_nat r + 1 = (of_nat Buffer_size :: u32)) \<longleftrightarrow> Suc r = Buffer_size"
    using f(4) index_word [of "Suc r"] index_word [of Buffer_size] by (metis Suc_leI add.commute of_nat_Suc order_refl)
  then show "r = length (hd (lss @ [cs])) \<Longrightarrow> QueueBuffer_try_pop q = Inr (None, p)"
    "r < length (hd (lss @ [cs])) \<Longrightarrow> QueueBuffer_try_pop q =
       Inr (Some (hd (lss @ [cs]) ! r),
         if Suc r = Buffer_size
         then p\<lparr>qb_read_index := 0, qb_current_read_buffer := None, qb_buffers := tl (bs @ [w]),
                qb_heap := (qb_heap q)(hd (bs @ [w]) := None)\<rparr>
         else p\<lparr>qb_read_index := of_nat (Suc r)\<rparr>)"
    unfolding eq using buffer_pop_of [OF b(2) f(4)] by simp_all
qed

lemma queue_pop_empty:
  assumes "queue_holds [] q"
  shows "\<exists>q'. QueueBuffer_try_pop q = Inr (None, q') \<and> queue_holds [] q'"
proof -
  obtain bs w lss cs r where q: "queue_of bs w lss cs r q" and e: "[] = drop r (concat lss @ cs)"
    using assms by (auto simp: queue_holds_def)
  then have "r = length (hd (lss @ [cs]))" by (cases lss) (auto simp: queue_of_def)
  then show ?thesis using queue_pop_eq(1,2) [OF q] e unfolding queue_holds_def by blast
qed

lemma queue_pop_first:
  assumes "queue_holds (l # ls) q"
  shows "\<exists>q'. QueueBuffer_try_pop q = Inr (Some l, q') \<and> queue_holds ls q'"
proof -
  obtain bs w lss cs r where q: "queue_of bs w lss cs r q" and e: "l # ls = drop r (concat lss @ cs)"
    using assms by (auto simp: queue_holds_def)
  let ?h = "hd (lss @ [cs])"
  let ?p = "q\<lparr>qb_current_read_buffer := Some (hd (bs @ [w]))\<rparr>"
  have r: "r < length ?h"
    using q e by (cases lss) (auto simp: queue_of_def intro: ccontr)
  have "drop r (concat lss @ cs) = drop r ?h @ concat (tl (lss @ [cs]))" using r by (cases lss) auto
  then have l: "l = ?h ! r" "ls = drop (Suc r) ?h @ concat (tl (lss @ [cs]))"
    using e r by (auto simp: Cons_nth_drop_Suc [symmetric])
  show ?thesis
  proof (cases "Suc r = Buffer_size")
    case True
    then obtain x lss' b bs' where x: "lss = x # lss'" "bs = b # bs'"
      using q r by (cases lss; cases bs) (auto simp: queue_of_def)
    let ?q = "?p\<lparr>qb_read_index := 0, qb_current_read_buffer := None, qb_buffers := tl (bs @ [w]),
                qb_heap := (qb_heap q)(hd (bs @ [w]) := None)\<rparr>"
    have "list_all2 (buffer_at q) (bs' @ [w]) (lss' @ [cs])" using q x by (simp add: queue_of_def list_all2_appendI)
    then have "list_all2 (buffer_at ?q) (bs' @ [w]) (lss' @ [cs])"
      by (rule buffers_at_frame) (use q x in \<open>auto simp: queue_of_def\<close>)
    then have "list_all2 (buffer_at ?q) bs' lss'" "buffer_at ?q w cs"
      by (auto simp: list_all2_append2 list_all2_Cons2 append_eq_append_conv2 Cons_eq_append_conv)
    then have "queue_of bs' w lss' cs 0 ?q"
      using q x by (simp add: queue_of_def)
    moreover have "ls = drop 0 (concat lss' @ cs)" using l(2) x True q by (simp add: queue_of_def)
    ultimately have "queue_holds ls ?q" unfolding queue_holds_def by blast
    then show ?thesis using queue_pop_eq(3) [OF q r] True l(1) by auto
  next
    case False
    have "queue_of bs w lss cs (Suc r) (?p\<lparr>qb_read_index := of_nat (Suc r)\<rparr>)"
      using queue_pop_eq(1) [OF q] r False by (auto simp: queue_of_def buffer_at_def [abs_def])
    moreover have "ls = drop (Suc r) (concat lss @ cs)" using e by (metis drop_Suc list.sel(3) tl_drop)
    ultimately have "queue_holds ls (?p\<lparr>qb_read_index := of_nat (Suc r)\<rparr>)" unfolding queue_holds_def by blast
    then show ?thesis using queue_pop_eq(3) [OF q r] False l(1) by auto
  qed
qed

interpretation queue: line_buffer QueueBuffer_push QueueBuffer_try_pop queue_holds "\<lambda>k. True"
  by unfold_locales (erule queue_push_holds queue_pop_first queue_pop_empty)+

section \<open>Properties\<close>

text \<open>
  The ring buffer is a first-in first-out queue, for as many pushes and pops as one likes. If the
  ring's size divides \<open>2 ^ 32\<close> and no more lines are outstanding than the ring has items, then no call
  faults and the lines come out exactly as from the ideal queue, also when the two 32-bit indices have
  wrapped around; what came out and what is still there are together the pushed lines, in order.
\<close>

lemma ring_buffer_fifo:
  assumes "0 < sz" and "unat sz dvd 2 ^ 32" and "ideal_fits (\<lambda>k. k \<le> unat sz) evs 0"
  shows "\<exists>out rest b. buffer_run RingBuffer_push RingBuffer_try_pop evs (RingBuffer_new blank sz) = Inr (out, b)
     \<and> ideal_run evs [] = (out, rest) \<and> ring_holds (unat sz) rest b \<and> out @ rest = [l. Some l \<leftarrow> evs]"
  using ring.run_refines [OF ring_new_holds [OF assms(1,2)], of evs] assms(3) ideal_run_conserves [of evs "[]"]
  by (auto simp: prod_eq_iff)

text \<open>
  C36: the queue buffer loses nothing and keeps the order. For every sequence of pushes and pops,
  across any number of allocated and freed buffers of 32768 lines, no call faults (no access outside a
  buffer, no use of a freed buffer, no endless wait) and the lines come out exactly as from the ideal
  queue; what came out and what is still there are together the pushed lines, in order.
\<close>

theorem queue_buffer_fifo:
  "\<exists>out rest b. buffer_run QueueBuffer_push QueueBuffer_try_pop evs QueueBuffer_new = Inr (out, b)
     \<and> ideal_run evs [] = (out, rest) \<and> queue_holds rest b \<and> out @ rest = [l. Some l \<leftarrow> evs]"
  using queue.run_refines [OF queue_new_holds, of evs] ideal_fits_always [of "\<lambda>k. True" evs 0]
    ideal_run_conserves [of evs "[]"]
  by (auto simp: prod_eq_iff)

text \<open>
  A ring whose size does not divide \<open>2 ^ 32\<close> (a logger configured with 3 MB, for example) loses a line
  when the write index wraps, with room left: the counters jump from slot 0 back to slot 0.
\<close>

lemma ring_wrap_loses_line:
  "map_res fst (buffer_run RingBuffer_push RingBuffer_try_pop [Some ''a'', Some ''b'', None, None]
     ((RingBuffer_new '''' 3)\<lparr>rb_write_index := 4294967295, rb_read_index := 4294967295\<rparr>)) = Inr [''b'']"
  by code_simp

text \<open>An overrun ring drops old lines, and the newest one comes out ahead of older ones.\<close>

lemma ring_overrun_reorders:
  "map_res fst (buffer_run RingBuffer_push RingBuffer_try_pop
     [Some ''a'', Some ''b'', Some ''c'', None, None] (RingBuffer_new '''' 2)) = Inr [''c'', ''b'']"
  by code_simp

end
