(* ===== verification/Nano_Logger.thy ===== *)
theory Nano_Logger
  imports Nano_Line Nano_Buffers
begin

text \<open>
  The logger behind the macros \<open>LOG_DBG\<close> to \<open>LOG_CRIT\<close> (\<open>util/nanolog.hpp\<close>): \<open>FileWriter\<close> with its
  rolling files, \<open>NanoLogger\<close> with the thread that pops lines and writes them, and the interface class
  \<open>Logger\<close> with the level filter. The statements of the logging threads and the turns of the logger's
  thread are events that may come in any order; each of them is one step. The clock, the local time
  and whether a file opens are inputs of the steps; the number of characters a line takes is a
  parameter (\<open>text_size\<close>), as formatting is the iostream library.
\<close>

section \<open>NanologBase\<close>

record tm =
  tm_year :: int
  tm_mon :: int
  tm_mday :: int
  tm_hour :: int
  tm_min :: int
  tm_sec :: int

text \<open>\<open>printf\<close>'s \<open>%0kd\<close> for the numbers used here.\<close>

definition fmt0 :: "nat \<Rightarrow> int \<Rightarrow> bytes" where
  "fmt0 k i = (let t = int_text i in replicate (k - length t) 48 @ t)"

text \<open>The argument \<open>gmtime\<close> is what \<open>std::localtime\<close> returned, \<open>None\<close> for a null pointer.\<close>

definition get_datetime :: "tm option \<Rightarrow> u64 \<Rightarrow> bytes" where
  "get_datetime gmtime timestamp =
     (case gmtime of
        None \<Rightarrow> fmt0 3 (uint (timestamp mod 1000))
      | Some t \<Rightarrow> int_text (tm_year t + 1900) @ fmt0 2 (tm_mon t + 1) @ fmt0 2 (tm_mday t) @ fmt0 2 (tm_hour t))"

definition format_timestamp :: "tm option \<Rightarrow> u64 \<Rightarrow> bytes" where
  "format_timestamp gmtime timestamp =
     (let miliseconds = fmt0 3 (uint (timestamp mod 1000)) in
      case gmtime of
        None \<Rightarrow> str_bytes ''['' @ miliseconds @ str_bytes '']''
      | Some t \<Rightarrow> str_bytes ''['' @ int_text (tm_year t + 1900) @ str_bytes ''-'' @ fmt0 2 (tm_mon t + 1)
          @ str_bytes ''-'' @ fmt0 2 (tm_mday t) @ str_bytes '' '' @ fmt0 2 (tm_hour t) @ str_bytes '':''
          @ fmt0 2 (tm_min t) @ str_bytes '':'' @ fmt0 2 (tm_sec t) @ str_bytes ''.'' @ miliseconds @ str_bytes '']'')"

section \<open>FileWriter\<close>

text \<open>
  What the environment gives a step: the time, whether a file can be opened, and how many bytes a file
  held before the program ran. \<open>fw_os\<close> is the open file, \<open>None\<close> when the open failed, in which case
  the stream swallows what it is given; \<open>fw_pos\<close> is what \<open>tellp()\<close> returns: 0 after a file is opened for
  appending, the end of the file after a write (every line is flushed). \<open>fw_disk\<close> lists what was appended to
  which file, oldest first.
\<close>

record log_world =
  w_localtime :: "tm option"
  w_now :: u64
  w_can_open :: bool
  w_old_size :: "bytes \<Rightarrow> nat"

record FileWriter =
  fw_file_number :: u32
  fw_bytes_written :: int
  fw_roll_size_bytes :: u32
  fw_name :: bytes
  fw_os :: "bytes option"
  fw_pos :: int
  fw_disk :: "(bytes \<times> log_output) list"

definition get_real_logfilename :: "log_world \<Rightarrow> FileWriter \<Rightarrow> bytes \<times> FileWriter" where
  "get_real_logfilename w f =
     (let n = fw_file_number f + 1 in
      (fw_name f @ str_bytes ''_'' @ get_datetime (w_localtime w) (w_now w) @ str_bytes ''_'' @ dec_text (unat n),
       f\<lparr>fw_file_number := n\<rparr>))"

definition create_file :: "log_world \<Rightarrow> FileWriter \<Rightarrow> FileWriter" where
  "create_file w f =
     (let (file_name, f) = get_real_logfilename w f in
      f\<lparr>fw_os := (if w_can_open w then Some file_name else None), fw_pos := (if w_can_open w then 0 else - 1)\<rparr>)"

definition FileWriter_new :: "log_world \<Rightarrow> bytes \<Rightarrow> bytes \<Rightarrow> u32 \<Rightarrow> FileWriter" where
  "FileWriter_new w log_directory log_file_name log_file_roll_size_mb =
     create_file w
       \<lparr>fw_file_number = 0, fw_bytes_written = 0, fw_roll_size_bytes = log_file_roll_size_mb * 1024 * 1024,
        fw_name = log_directory @ log_file_name, fw_os = None, fw_pos = - 1, fw_disk = []\<rparr>"

definition roll_file :: "log_world \<Rightarrow> FileWriter \<Rightarrow> FileWriter" where
  "roll_file w f = create_file w (f\<lparr>fw_bytes_written := 0, fw_file_number := 0\<rparr>)"

text \<open>
  The size of a file, and \<open>write\<close>: the bytes written are the difference of \<open>tellp()\<close> after and before,
  so the first line on a file that already has contents counts these too. On a failed stream \<open>tellp()\<close> is -1
  before and after, and nothing is written.
\<close>

definition file_size :: "(log_output \<Rightarrow> nat) \<Rightarrow> log_world \<Rightarrow> bytes \<Rightarrow> FileWriter \<Rightarrow> nat" where
  "file_size text_size w name f =
     w_old_size w name + sum_list (map (\<lambda>(n, t). text_size t) (filter (\<lambda>(n, t). n = name) (fw_disk f)))"

definition FileWriter_write :: "(log_output \<Rightarrow> nat) \<Rightarrow> log_world \<Rightarrow> NanoLogLine \<Rightarrow> FileWriter \<Rightarrow> FileWriter res" where
  "FileWriter_write text_size w logline f =
     map_res (\<lambda>t.
         let pos = fw_pos f;
             f = (case fw_os f of
                    None \<Rightarrow> f
                  | Some name \<Rightarrow> f\<lparr>fw_disk := fw_disk f @ [(name, t)], fw_pos := int (file_size text_size w name f + text_size t)\<rparr>);
             f = f\<lparr>fw_bytes_written := fw_bytes_written f + (fw_pos f - pos)\<rparr>
         in if fw_bytes_written f > uint (fw_roll_size_bytes f) then roll_file w f else f)
       (NanoLogLine_stringify logline)"

section \<open>BufferBase\<close>

text \<open>The virtual calls of the two buffers.\<close>

datatype BufferBase = Ring "NanoLogLine RingBuffer" | Queue "NanoLogLine QueueBuffer"

fun BufferBase_push :: "NanoLogLine \<Rightarrow> BufferBase \<Rightarrow> BufferBase res" where
  "BufferBase_push l (Ring b) = map_res Ring (RingBuffer_push l b)"
| "BufferBase_push l (Queue b) = map_res Queue (QueueBuffer_push l b)"

fun BufferBase_try_pop :: "BufferBase \<Rightarrow> (NanoLogLine option \<times> BufferBase) res" where
  "BufferBase_try_pop (Ring b) = map_res (map_prod id Ring) (RingBuffer_try_pop b)"
| "BufferBase_try_pop (Queue b) = map_res (map_prod id Queue) (QueueBuffer_try_pop b)"

fun base_holds :: "nat option \<Rightarrow> NanoLogLine list \<Rightarrow> BufferBase \<Rightarrow> bool" where
  "base_holds (Some n) q (Ring b) = ring_holds n q b"
| "base_holds None q (Queue b) = queue_holds q b"
| "base_holds _ q _ = False"

definition base_fits :: "nat option \<Rightarrow> nat \<Rightarrow> bool" where
  "base_fits cap k = (case cap of None \<Rightarrow> True | Some n \<Rightarrow> k \<le> n)"

lemma base_push_holds:
  assumes "base_holds cap q b" and "base_fits cap (Suc (length q))"
  shows "\<exists>b'. BufferBase_push l b = Inr b' \<and> base_holds cap (q @ [l]) b'"
  using assms ring.push_holds [of _ q _ l] queue.push_holds [of q _ l]
  by (cases "(cap, q, b)" rule: base_holds.cases) (fastforce simp: base_fits_def)+

lemma base_pop_first:
  assumes "base_holds cap (l # q) b"
  shows "\<exists>b'. BufferBase_try_pop b = Inr (Some l, b') \<and> base_holds cap q b'"
  using assms ring.pop_first [of _ l q] queue.pop_first [of l q]
  by (cases "(cap, q, b)" rule: base_holds.cases) fastforce+

lemma base_pop_empty:
  assumes "base_holds cap [] b"
  shows "\<exists>b'. BufferBase_try_pop b = Inr (None, b') \<and> base_holds cap [] b'"
  using assms ring.pop_empty queue.pop_empty
  by (cases "(cap, [] :: NanoLogLine list, b)" rule: base_holds.cases) fastforce+

interpretation base: line_buffer BufferBase_push BufferBase_try_pop "base_holds cap" "base_fits cap" for cap
  by unfold_locales (use base_push_holds base_pop_first base_pop_empty in blast)+


section \<open>NanoLogger\<close>

datatype State = INIT | READY | SHUTDOWN

text \<open>Where the logger's thread is in \<open>pop()\<close>: in which of its three loops, or behind them.\<close>

datatype pop_loop = Waiting | Popping | Draining | Finished

record NanoLogger =
  ng_state :: State
  ng_buffer_base :: BufferBase
  ng_file_writer :: FileWriter
  ng_thread :: pop_loop

text \<open>
  The constructors up to the start of the thread, which also ends them: the store of \<open>READY\<close> follows.
  \<open>blank\<close> is the line the ring's items are built with.
\<close>

definition NanoLogger_new :: "BufferBase \<Rightarrow> log_world \<Rightarrow> bytes \<Rightarrow> bytes \<Rightarrow> u32 \<Rightarrow> NanoLogger" where
  "NanoLogger_new buf w log_directory log_file_name log_file_roll_size_mb =
     \<lparr>ng_state = INIT, ng_buffer_base = buf,
      ng_file_writer = FileWriter_new w log_directory log_file_name (max 1 log_file_roll_size_mb), ng_thread = Waiting\<rparr>"

definition NanoLogger_guaranteed :: "log_world \<Rightarrow> bytes \<Rightarrow> bytes \<Rightarrow> u32 \<Rightarrow> NanoLogger" where
  "NanoLogger_guaranteed w d f mb = (NanoLogger_new (Queue QueueBuffer_new) w d f mb)\<lparr>ng_state := READY\<rparr>"

definition NanoLogger_nonguaranteed :: "u32 \<Rightarrow> NanoLogLine \<Rightarrow> log_world \<Rightarrow> bytes \<Rightarrow> bytes \<Rightarrow> u32 \<Rightarrow> NanoLogger" where
  "NanoLogger_nonguaranteed ring_buffer_size_mb blank w d f mb =
     (NanoLogger_new (Ring (RingBuffer_new blank (ucast (max 1 ring_buffer_size_mb * 1024 * 4)))) w d f mb)
       \<lparr>ng_state := READY\<rparr>"

definition NanoLogger_add :: "NanoLogLine \<Rightarrow> NanoLogger \<Rightarrow> NanoLogger res" where
  "NanoLogger_add logline g =
     map_res (\<lambda>b. g\<lparr>ng_buffer_base := b\<rparr>) (BufferBase_push logline (ng_buffer_base g))"

text \<open>\<open>if (try_pop(logline)) write(logline)\<close>, with what \<open>try_pop\<close> returned.\<close>

definition pop_one :: "(log_output \<Rightarrow> nat) \<Rightarrow> log_world \<Rightarrow> NanoLogger \<Rightarrow> (bool \<times> NanoLogger) res" where
  "pop_one text_size w g =
     bind_res (BufferBase_try_pop (ng_buffer_base g)) (\<lambda>(r, b).
       case r of
         None \<Rightarrow> Inr (False, g\<lparr>ng_buffer_base := b\<rparr>)
       | Some logline \<Rightarrow>
           map_res (\<lambda>f. (True, g\<lparr>ng_buffer_base := b, ng_file_writer := f\<rparr>))
             (FileWriter_write text_size w logline (ng_file_writer g)))"

text \<open>One turn of the loop the thread is in.\<close>

definition NanoLogger_pop :: "(log_output \<Rightarrow> nat) \<Rightarrow> log_world \<Rightarrow> NanoLogger \<Rightarrow> NanoLogger res" where
  "NanoLogger_pop text_size w g =
     (case ng_thread g of
        Waiting \<Rightarrow> Inr (if ng_state g = INIT then g else g\<lparr>ng_thread := Popping\<rparr>)
      | Popping \<Rightarrow>
          if ng_state g = READY then map_res snd (pop_one text_size w g) else Inr (g\<lparr>ng_thread := Draining\<rparr>)
      | Draining \<Rightarrow>
          map_res (\<lambda>(popped, g). if popped then g else g\<lparr>ng_thread := Finished\<rparr>) (pop_one text_size w g)
      | Finished \<Rightarrow> Inr g)"

text \<open>The destructor up to \<open>join\<close>, which waits for the thread to be \<open>Finished\<close>.\<close>

definition NanoLogger_shutdown :: "NanoLogger \<Rightarrow> NanoLogger" where
  "NanoLogger_shutdown g = g\<lparr>ng_state := SHUTDOWN\<rparr>"

section \<open>Logger\<close>

text \<open>
  The globals \<open>loglevel\<close> and \<open>nanologger\<close> (\<open>atomic_nanologger\<close> points to the same object);
  \<open>sy_retired\<close> are loggers a later \<open>initialize\<close> replaced, with \<open>reset\<close> waiting for their threads.
\<close>

record log_system =
  sy_loglevel :: u32
  sy_nanologger :: "NanoLogger option"
  sy_retired :: "NanoLogger list"

definition log_system_new :: log_system where
  "log_system_new = \<lparr>sy_loglevel = 0, sy_nanologger = None, sy_retired = []\<rparr>"

definition level_number :: "LogLevel \<Rightarrow> u32" where
  "level_number l = ucast (LogLevel_byte l)"

definition Logger_initialize :: "NanoLogger \<Rightarrow> log_system \<Rightarrow> log_system" where
  "Logger_initialize g s =
     s\<lparr>sy_nanologger := Some g,
       sy_retired := sy_retired s @ (case sy_nanologger s of None \<Rightarrow> [] | Some old \<Rightarrow> [NanoLogger_shutdown old])\<rparr>"

definition Logger_set_log_level :: "LogLevel \<Rightarrow> log_system \<Rightarrow> log_system" where
  "Logger_set_log_level level s = s\<lparr>sy_loglevel := level_number level\<rparr>"

definition Logger_is_logged :: "LogLevel \<Rightarrow> log_system \<Rightarrow> bool" where
  "Logger_is_logged level s \<longleftrightarrow> level_number level \<ge> sy_loglevel s"

text \<open>\<open>operator==\<close>.\<close>

definition Logger_log :: "NanoLogLine \<Rightarrow> log_system \<Rightarrow> log_system res" where
  "Logger_log logline s =
     (case sy_nanologger s of
        None \<Rightarrow> Inl NullDeref
      | Some g \<Rightarrow> map_res (\<lambda>g. s\<lparr>sy_nanologger := Some g\<rparr>) (NanoLogger_add logline g))"

text \<open>\<open>LOG_X << a << b ...\<close>: the line is built only when the level is logged.\<close>

definition NANO_LOG :: "log_head \<Rightarrow> log_arg list \<Rightarrow> log_system \<Rightarrow> log_system res" where
  "NANO_LOG h as s =
     (if Logger_is_logged (lh_level h) s then bind_res (log_line h as) (\<lambda>l. Logger_log l s) else Inr s)"

text \<open>A step of the program: a log statement, a change of the level, a turn of the logger's thread, the end.\<close>

datatype log_event = Statement log_head "log_arg list" | SetLevel LogLevel | Turn log_world | Shutdown

definition on_logger :: "(NanoLogger \<Rightarrow> NanoLogger res) \<Rightarrow> log_system \<Rightarrow> log_system res" where
  "on_logger f s =
     (case sy_nanologger s of None \<Rightarrow> Inr s | Some g \<Rightarrow> map_res (\<lambda>g. s\<lparr>sy_nanologger := Some g\<rparr>) (f g))"

fun log_step :: "(log_output \<Rightarrow> nat) \<Rightarrow> log_event \<Rightarrow> log_system \<Rightarrow> log_system res" where
  "log_step ts (Statement h as) s = NANO_LOG h as s"
| "log_step ts (SetLevel l) s = Inr (Logger_set_log_level l s)"
| "log_step ts (Turn w) s = on_logger (NanoLogger_pop ts w) s"
| "log_step ts Shutdown s = on_logger (\<lambda>g. Inr (NanoLogger_shutdown g)) s"

section \<open>Nothing is lost on the way to the disk\<close>

text \<open>The statements \<open>added\<close> so far are the lines on disk followed by those in the buffer.\<close>

definition log_inv :: "nat option \<Rightarrow> (log_head \<times> log_arg list) list \<Rightarrow> (log_head \<times> log_arg list) list \<Rightarrow> NanoLogger \<Rightarrow> bool" where
  "log_inv cap out rest g \<longleftrightarrow>
     (\<exists>q. base_holds cap q (ng_buffer_base g) \<and> list_all2 (\<lambda>(h, as) l. log_line h as = Inr l) rest q)
     \<and> fw_os (ng_file_writer g) \<noteq> None
     \<and> map snd (fw_disk (ng_file_writer g)) = map (\<lambda>(h, as). log_text h as) out
     \<and> (\<forall>(h, as) \<in> set rest. \<forall>a \<in> set as. no_nul a)"

lemma create_file_keeps:
  assumes "w_can_open w"
  shows "\<exists>name. fw_os (create_file w f) = Some name" "fw_disk (create_file w f) = fw_disk f"
  using assms by (simp_all add: create_file_def get_real_logfilename_def Let_def)

lemma write_appends:
  assumes "w_can_open w" and "fw_os f \<noteq> None" and "NanoLogLine_stringify l = Inr t"
  shows "\<exists>f'. FileWriter_write ts w l f = Inr f' \<and> fw_os f' \<noteq> None \<and> map snd (fw_disk f') = map snd (fw_disk f) @ [t]"
  using assms by (auto simp: FileWriter_write_def Let_def roll_file_def create_file_keeps)

lemma stringify_log_line:
  assumes "log_line h as = Inr l" and "\<forall>a \<in> set as. no_nul a"
  shows "NanoLogLine_stringify l = Inr (log_text h as)"
  using log_line_holds [of h as] stringify_holds [OF _ assms(2)] assms(1) by auto

lemma add_inv:
  assumes i: "log_inv cap out rest g" and f: "base_fits cap (Suc (length rest))"
    and l: "log_line h as = Inr l" and n: "\<forall>a \<in> set as. no_nul a"
  shows "\<exists>g'. NanoLogger_add l g = Inr g' \<and> log_inv cap out (rest @ [(h, as)]) g'
    \<and> ng_state g' = ng_state g \<and> ng_thread g' = ng_thread g"
proof -
  obtain q where q: "base_holds cap q (ng_buffer_base g)" "list_all2 (\<lambda>(h, as) l. log_line h as = Inr l) rest q"
    using i by (auto simp: log_inv_def)
  then have "base_fits cap (Suc (length q))" using f by (simp add: list_all2_lengthD)
  then obtain b where b: "BufferBase_push l (ng_buffer_base g) = Inr b" "base_holds cap (q @ [l]) b"
    using base.push_holds [OF q(1)] by blast
  have "list_all2 (\<lambda>(h, as) l. log_line h as = Inr l) (rest @ [(h, as)]) (q @ [l])"
    using q(2) l by (simp add: list_all2_appendI)
  then show ?thesis using b i n by (auto simp: NanoLogger_add_def log_inv_def)
qed

lemma pop_one_inv:
  assumes i: "log_inv cap out rest g" and w: "w_can_open w"
  shows "\<exists>g'. pop_one ts w g = Inr (rest \<noteq> [], g') \<and> log_inv cap (out @ take 1 rest) (drop 1 rest) g'
    \<and> ng_state g' = ng_state g \<and> ng_thread g' = ng_thread g"
proof (cases rest)
  case Nil
  then have "base_holds cap [] (ng_buffer_base g)" using i by (auto simp: log_inv_def)
  then obtain b where "BufferBase_try_pop (ng_buffer_base g) = Inr (None, b)" "base_holds cap [] b"
    using base.pop_empty by blast
  then show ?thesis using Nil i by (auto simp: pop_one_def log_inv_def)
next
  case (Cons r rest')
  obtain h as where r: "r = (h, as)" by (cases r)
  obtain l q where q: "base_holds cap (l # q) (ng_buffer_base g)" "log_line h as = Inr l"
    "list_all2 (\<lambda>(h, as) l. log_line h as = Inr l) rest' q"
    using i Cons r by (auto simp: log_inv_def list_all2_Cons1)
  obtain b where b: "BufferBase_try_pop (ng_buffer_base g) = Inr (Some l, b)" "base_holds cap q b"
    using base.pop_first [OF q(1)] by blast
  have "NanoLogLine_stringify l = Inr (log_text h as)"
    using stringify_log_line [OF q(2)] i Cons r by (auto simp: log_inv_def)
  then obtain f where "FileWriter_write ts w l (ng_file_writer g) = Inr f" "fw_os f \<noteq> None"
    "map snd (fw_disk f) = map snd (fw_disk (ng_file_writer g)) @ [log_text h as]"
    using write_appends [OF w, of "ng_file_writer g" l "log_text h as" ts] i by (auto simp: log_inv_def)
  then show ?thesis using b q(3) i Cons r by (auto simp: pop_one_def log_inv_def)
qed

text \<open>The logged statements of a trace, from the level at its start on.\<close>

fun logged :: "u32 \<Rightarrow> log_event list \<Rightarrow> (log_head \<times> log_arg list) list" where
  "logged lv [] = []"
| "logged lv (Statement h as # evs) =
     (if lv \<le> level_number (lh_level h) then (h, as) # logged lv evs else logged lv evs)"
| "logged lv (SetLevel l # evs) = logged (level_number l) evs"
| "logged lv (_ # evs) = logged lv evs"

text \<open>Events of the running program: strings without NUL, files that open.\<close>

fun plain_event :: "log_event \<Rightarrow> bool" where
  "plain_event (Statement h as) = (\<forall>a \<in> set as. no_nul a)"
| "plain_event (SetLevel l) = True"
| "plain_event (Turn w) = w_can_open w"
| "plain_event Shutdown = False"

lemma turn_inv:
  assumes "log_inv cap out rest g" and "ng_state g = READY" and "ng_thread g \<in> {Waiting, Popping}" and "w_can_open w"
  shows "\<exists>g1 out1 rest1. NanoLogger_pop ts w g = Inr g1 \<and> log_inv cap out1 rest1 g1 \<and> ng_state g1 = READY
    \<and> ng_thread g1 \<in> {Waiting, Popping} \<and> out1 @ rest1 = out @ rest \<and> length rest1 \<le> length rest"
proof (cases "ng_thread g = Waiting")
  case True
  then have "NanoLogger_pop ts w g = Inr (g\<lparr>ng_thread := Popping\<rparr>)" using assms(2) by (simp add: NanoLogger_pop_def)
  moreover have "log_inv cap out rest (g\<lparr>ng_thread := Popping\<rparr>)" using assms(1) by (simp add: log_inv_def)
  ultimately show ?thesis using assms(2) by fastforce
next
  case False
  then obtain g1 where "NanoLogger_pop ts w g = Inr g1" "log_inv cap (out @ take 1 rest) (drop 1 rest) g1"
    "ng_state g1 = READY" "ng_thread g1 = Popping"
    using pop_one_inv [OF assms(1,4), of ts] assms(2,3) by (auto simp: NanoLogger_pop_def)
  moreover have "(out @ take 1 rest) @ drop 1 rest = out @ rest" "length (drop 1 rest) \<le> length rest" by simp_all
  ultimately show ?thesis by blast
qed

lemma running_inv:
  assumes "sy_nanologger s = Some g" and "log_inv cap out rest g" and "ng_state g = READY"
    and "ng_thread g \<in> {Waiting, Popping}" and "\<forall>e \<in> set evs. plain_event e"
    and "\<forall>k \<le> length rest + length (logged (sy_loglevel s) evs). base_fits cap k"
  shows "\<exists>s' g' out' rest'. fold_res (log_step ts) evs s = Inr s' \<and> sy_nanologger s' = Some g'
    \<and> log_inv cap out' rest' g' \<and> ng_state g' = READY \<and> ng_thread g' \<in> {Waiting, Popping}
    \<and> out' @ rest' = out @ rest @ logged (sy_loglevel s) evs"
  using assms
proof (induction evs arbitrary: s g out rest)
  case (Cons e evs)
  show ?case
  proof (cases e)
    case (Statement h as)
    show ?thesis
    proof (cases "sy_loglevel s \<le> level_number (lh_level h)")
      case True
      obtain l where l: "log_line h as = Inr l" using log_line_holds by blast
      obtain g1 where g1: "NanoLogger_add l g = Inr g1" "log_inv cap out (rest @ [(h, as)]) g1"
        "ng_state g1 = ng_state g" "ng_thread g1 = ng_thread g"
        using add_inv [OF Cons.prems(2) _ l] Cons.prems(5,6) Statement True by auto
      have "log_step ts e s = Inr (s\<lparr>sy_nanologger := Some g1\<rparr>)"
        using Statement True l g1 Cons.prems(1) by (simp add: NANO_LOG_def Logger_is_logged_def Logger_log_def)
      then show ?thesis
        using Cons.IH [of "s\<lparr>sy_nanologger := Some g1\<rparr>" g1 out "rest @ [(h, as)]"] g1 Cons.prems Statement True by simp
    next
      case False
      then show ?thesis
        using Cons.IH [of s g out rest] Cons.prems Statement by (simp add: NANO_LOG_def Logger_is_logged_def)
    qed
  next
    case (SetLevel l)
    then show ?thesis
      using Cons.IH [of "Logger_set_log_level l s" g out rest] Cons.prems by (simp add: Logger_set_log_level_def)
  next
    case (Turn w)
    obtain g1 out1 rest1 where g1: "NanoLogger_pop ts w g = Inr g1" "log_inv cap out1 rest1 g1" "ng_state g1 = READY"
      "ng_thread g1 \<in> {Waiting, Popping}" "out1 @ rest1 = out @ rest" "length rest1 \<le> length rest"
      using turn_inv [OF Cons.prems(2-4), of w ts] Cons.prems(5) Turn by auto
    have "log_step ts e s = Inr (s\<lparr>sy_nanologger := Some g1\<rparr>)" using Turn Cons.prems(1) g1(1) by (simp add: on_logger_def)
    moreover have "out1 @ rest1 @ x = out @ rest @ x" for x using g1(5) by (metis append_assoc)
    note eq = this [of "logged (sy_loglevel s) evs"]
    ultimately show ?thesis
      using Cons.IH [of "s\<lparr>sy_nanologger := Some g1\<rparr>" g1 out1 rest1] g1(1-4,6) Cons.prems Turn by (simp add: eq)
  next
    case Shutdown
    then show ?thesis using Cons.prems(5) by simp
  qed
qed auto

text \<open>Turns the thread needs to leave its loops once the state is \<open>SHUTDOWN\<close> and \<open>n\<close> lines are left.\<close>

definition turns_left :: "NanoLogger \<Rightarrow> nat \<Rightarrow> nat" where
  "turns_left g n = (case ng_thread g of Waiting \<Rightarrow> n + 3 | Popping \<Rightarrow> n + 2 | Draining \<Rightarrow> n + 1 | Finished \<Rightarrow> 0)"

lemma closing_turn:
  assumes i: "log_inv cap out rest g" and s: "ng_state g = SHUTDOWN" and f: "ng_thread g = Finished \<longrightarrow> rest = []"
    and w: "w_can_open w"
  shows "\<exists>g1 out1 rest1. NanoLogger_pop ts w g = Inr g1 \<and> log_inv cap out1 rest1 g1 \<and> ng_state g1 = SHUTDOWN
    \<and> (ng_thread g1 = Finished \<longrightarrow> rest1 = []) \<and> out1 @ rest1 = out @ rest
    \<and> turns_left g1 (length rest1) \<le> turns_left g (length rest) - 1"
proof (cases "ng_thread g")
  case Draining
  obtain g1 where g1: "pop_one ts w g = Inr (rest \<noteq> [], g1)" "log_inv cap (out @ take 1 rest) (drop 1 rest) g1"
    "ng_state g1 = SHUTDOWN" "ng_thread g1 = Draining"
    using pop_one_inv [OF i w, of ts] s Draining by auto
  show ?thesis
  proof (cases "rest = []")
    case True
    then have "NanoLogger_pop ts w g = Inr (g1\<lparr>ng_thread := Finished\<rparr>)" "log_inv cap out [] (g1\<lparr>ng_thread := Finished\<rparr>)"
      using g1 Draining by (simp_all add: NanoLogger_pop_def log_inv_def)
    then show ?thesis using True g1 by (fastforce simp: turns_left_def)
  next
    case False
    then have "NanoLogger_pop ts w g = Inr g1" using g1 Draining by (simp add: NanoLogger_pop_def)
    moreover have "(out @ take 1 rest) @ drop 1 rest = out @ rest" by simp
    moreover have "turns_left g1 (length (drop 1 rest)) \<le> turns_left g (length rest) - 1"
      using g1(4) Draining False by (cases rest) (auto simp: turns_left_def)
    ultimately show ?thesis using g1 by fastforce
  qed
qed (use assms in \<open>fastforce simp: NanoLogger_pop_def log_inv_def turns_left_def\<close>)+

lemma closing_inv:
  assumes "sy_nanologger s = Some g" and "log_inv cap out rest g" and "ng_state g = SHUTDOWN"
    and "ng_thread g = Finished \<longrightarrow> rest = []" and "\<forall>w \<in> set ws. w_can_open w" and "turns_left g (length rest) \<le> length ws"
  shows "\<exists>s' g'. fold_res (log_step ts) (map Turn ws) s = Inr s' \<and> sy_nanologger s' = Some g'
    \<and> log_inv cap (out @ rest) [] g' \<and> ng_thread g' = Finished"
  using assms
proof (induction ws arbitrary: s g out rest)
  case Nil
  then have "ng_thread g = Finished" by (simp add: turns_left_def split: pop_loop.splits)
  then show ?case using Nil by auto
next
  case (Cons w ws)
  obtain g1 out1 rest1 where g1: "NanoLogger_pop ts w g = Inr g1" "log_inv cap out1 rest1 g1" "ng_state g1 = SHUTDOWN"
    "ng_thread g1 = Finished \<longrightarrow> rest1 = []" "out1 @ rest1 = out @ rest"
    "turns_left g1 (length rest1) \<le> turns_left g (length rest) - 1"
    using closing_turn [OF Cons.prems(2-4), of w ts] Cons.prems(5) by auto
  have "log_step ts (Turn w) s = Inr (s\<lparr>sy_nanologger := Some g1\<rparr>)" using Cons.prems(1) g1(1) by (simp add: on_logger_def)
  then show ?case
    using Cons.IH [of "s\<lparr>sy_nanologger := Some g1\<rparr>" g1 out1 rest1] g1 Cons.prems(5,6) by simp
qed

lemma log_until_shutdown:
  assumes "sy_nanologger s = Some g" and "log_inv cap [] [] g" and "ng_state g = READY" and "ng_thread g = Waiting"
    and "\<forall>e \<in> set evs. plain_event e" and "\<forall>w \<in> set ws. w_can_open w"
    and "\<forall>k \<le> length (logged (sy_loglevel s) evs). base_fits cap k"
    and "length (logged (sy_loglevel s) evs) + 3 \<le> length ws"
  shows "\<exists>s' g'. fold_res (log_step ts) (evs @ Shutdown # map Turn ws) s = Inr s' \<and> sy_nanologger s' = Some g'
    \<and> ng_thread g' = Finished
    \<and> map snd (fw_disk (ng_file_writer g')) = map (\<lambda>(h, as). log_text h as) (logged (sy_loglevel s) evs)"
proof -
  let ?all = "logged (sy_loglevel s) evs"
  obtain s1 g1 out rest where r: "fold_res (log_step ts) evs s = Inr s1" "sy_nanologger s1 = Some g1" "log_inv cap out rest g1"
    "ng_thread g1 \<in> {Waiting, Popping}" "out @ rest = ?all"
    using running_inv [of s g cap "[]" "[]" evs ts] assms(1-5,7) by auto
  let ?g = "NanoLogger_shutdown g1" and ?s = "s1\<lparr>sy_nanologger := Some (NanoLogger_shutdown g1)\<rparr>"
  have i: "log_inv cap out rest ?g" "ng_state ?g = SHUTDOWN" "ng_thread ?g = ng_thread g1"
    using r(3) by (simp_all add: log_inv_def NanoLogger_shutdown_def)
  have "length rest \<le> length ?all" using r(5) by (metis length_append le_add2)
  then have "turns_left ?g (length rest) \<le> length ws" using r(4) i(3) assms(8) by (auto simp: turns_left_def)
  then obtain s2 g2 where "fold_res (log_step ts) (map Turn ws) ?s = Inr s2" "sy_nanologger s2 = Some g2"
    "log_inv cap (out @ rest) [] g2" "ng_thread g2 = Finished"
    using closing_inv [of ?s ?g cap out rest ws ts] i r(4) assms(6) by auto
  moreover have "log_step ts Shutdown s1 = Inr ?s" using r(2) by (simp add: on_logger_def)
  ultimately show ?thesis using r(1,5) by (simp add: fold_res_append log_inv_def)
qed

lemma new_logger_inv:
  assumes "base_holds cap [] buf" and "w_can_open w"
  shows "log_inv cap [] [] ((NanoLogger_new buf w d f mb)\<lparr>ng_state := READY\<rparr>)"
  using assms create_file_keeps [OF assms(2)]
  by (auto simp: log_inv_def NanoLogger_new_def FileWriter_new_def)

text \<open>
  C33: the guaranteed logger writes every logged statement, in order, before it is gone. Whatever the
  order of log statements, changes of the level and turns of the logger's thread, and however many
  32768-line buffers and file rolls it takes: once the destructor has set \<open>SHUTDOWN\<close>, at most three
  turns more than there are logged statements bring the thread to its end, so the destructor's \<open>join\<close>
  returns, no step faults, and the files hold, appended in this order, exactly the texts of the
  statements whose level was at or above the level in force (strings without NUL, files that open).
\<close>

theorem shutdown_writes_everything:
  assumes "w_can_open w" and "\<forall>e \<in> set evs. plain_event e" and "\<forall>w \<in> set ws. w_can_open w"
    and "length (logged (sy_loglevel s0) evs) + 3 \<le> length ws"
  shows "\<exists>s g. fold_res (log_step ts) (evs @ Shutdown # map Turn ws)
       (Logger_initialize (NanoLogger_guaranteed w dir name mb) s0) = Inr s
     \<and> sy_nanologger s = Some g \<and> ng_thread g = Finished
     \<and> map snd (fw_disk (ng_file_writer g)) = map (\<lambda>(h, as). log_text h as) (logged (sy_loglevel s0) evs)"
proof -
  let ?g = "NanoLogger_guaranteed w dir name mb" and ?s = "Logger_initialize (NanoLogger_guaranteed w dir name mb) s0"
  have "log_inv None [] [] ?g"
    unfolding NanoLogger_guaranteed_def using new_logger_inv [of None "Queue QueueBuffer_new"] queue_new_holds assms(1) by simp
  moreover have "sy_nanologger ?s = Some ?g" "sy_loglevel ?s = sy_loglevel s0" by (simp_all add: Logger_initialize_def)
  ultimately show ?thesis
    using log_until_shutdown [of ?s ?g None evs ws ts] assms
    by (simp add: NanoLogger_guaranteed_def NanoLogger_new_def base_fits_def)
qed

definition sample_clock :: log_world where
  "sample_clock = \<lparr>w_localtime = Some \<lparr>tm_year = 124, tm_mon = 0, tm_mday = 5, tm_hour = 9, tm_min = 30, tm_sec = 0\<rparr>,
     w_now = 1704447000123, w_can_open = True, w_old_size = (\<lambda>_. 0)\<rparr>"

definition sample_events :: "log_event list" where
  "sample_events = [Statement sample_head [AU32 1], Turn sample_clock, SetLevel WARN,
     Statement (sample_head\<lparr>lh_level := INFO\<rparr>) [AU32 2], Turn sample_clock, Statement sample_head [CStr (Some [72, 105])]]"

theorem shutdown_writes_everything_witness:
  "\<exists>s g. fold_res (log_step (\<lambda>t. 80)) (sample_events @ Shutdown # map Turn (replicate 5 sample_clock))
       (Logger_initialize (NanoLogger_guaranteed sample_clock (str_bytes ''/tmp/'') (str_bytes ''sparrow'') 1) log_system_new) = Inr s
     \<and> sy_nanologger s = Some g \<and> ng_thread g = Finished
     \<and> map (\<lambda>(file, t). lo_args t) (fw_disk (ng_file_writer g)) = [[AU32 1], [CStr (Some [72, 105])]]"
proof -
  have l: "logged (sy_loglevel log_system_new) sample_events
    = [(sample_head, [AU32 1]), (sample_head, [CStr (Some [72, 105])])]" by code_simp
  have "w_can_open sample_clock" "\<forall>e \<in> set sample_events. plain_event e" "\<forall>w \<in> set (replicate 5 sample_clock). w_can_open w"
    by (simp_all add: sample_clock_def sample_events_def)
  from shutdown_writes_everything [OF this, of log_system_new "\<lambda>t. 80" "str_bytes ''/tmp/''" "str_bytes ''sparrow''" 1]
  obtain s g where "fold_res (log_step (\<lambda>t. 80)) (sample_events @ Shutdown # map Turn (replicate 5 sample_clock))
       (Logger_initialize (NanoLogger_guaranteed sample_clock (str_bytes ''/tmp/'') (str_bytes ''sparrow'') 1) log_system_new) = Inr s"
    "sy_nanologger s = Some g" "ng_thread g = Finished"
    and d: "map snd (fw_disk (ng_file_writer g)) = map (\<lambda>(h, as). log_text h as) (logged (sy_loglevel log_system_new) sample_events)"
    by (auto simp: l)
  moreover have "map (\<lambda>(file, t). lo_args t) (fw_disk (ng_file_writer g)) = map lo_args (map snd (fw_disk (ng_file_writer g)))"
    by (simp add: case_prod_beta)
  moreover have "\<dots> = [[AU32 1], [CStr (Some [72, 105])]]" unfolding d l by (simp add: log_text_def)
  ultimately show ?thesis by auto
qed

text \<open>
  Rolling starts the file number at 0 again and the name holds the date to the hour, so within an hour
  the file that grew past its size is opened again and goes on growing.
\<close>

lemma roll_reuses_file:
  "fw_os (roll_file sample_clock (FileWriter_new sample_clock d n mb)) = fw_os (FileWriter_new sample_clock d n mb)"
  by (simp add: roll_file_def FileWriter_new_def create_file_def get_real_logfilename_def Let_def)

text \<open>The first line on it then counts the whole file, so each further line of that hour rolls the file again.\<close>

lemma reopened_file_rolls_again:
  assumes "fw_os f = Some name" and "fw_pos f = 0" and "fw_bytes_written f = 0"
    and "uint (fw_roll_size_bytes f) < int (file_size ts w name f)" and "NanoLogLine_stringify l = Inr t"
  shows "\<exists>f1. FileWriter_write ts w l f = Inr (roll_file w f1) \<and> fw_disk f1 = fw_disk f @ [(name, t)]"
  using assms by (simp add: FileWriter_write_def Let_def) (rule exI, rule conjI, rule refl, simp)

text \<open>The roll size in bytes is a 32-bit product: 4096 MB are 0 bytes, and every line rolls the file.\<close>

lemma roll_size_wraps: "fw_roll_size_bytes (FileWriter_new w d n 4096) = 0"
  by (simp add: FileWriter_new_def create_file_def get_real_logfilename_def Let_def)

text \<open>A log statement before \<open>initialize\<close> uses a null pointer.\<close>

lemma log_before_initialize:
  assumes "Logger_is_logged (lh_level h) s" and "sy_nanologger s = None"
  shows "NANO_LOG h as s = Inl NullDeref"
  using assms log_line_holds [of h as] by (auto simp: NANO_LOG_def Logger_log_def)

end
