(* ===== verification/Nano_Concurrent.thy ===== *)
theory Nano_Concurrent
  imports Nano_Buffers
begin

text \<open>
  \<open>QueueBuffer\<close> under concurrency (\<open>util/nanolog.hpp\<close>): any number of threads push while one thread pops.
  A push is split at its atomic accesses: \<open>fetch_add\<close> on the write index, the load of the current write
  buffer, the construction of the item with the store of its write state, \<open>fetch_add\<close> on the count, the
  allocation of the next buffer with the store of the pointer, and the locked section that publishes
  it. A pop is one step: what it returns is settled at its load of the write state, and what it frees
  is a buffer all of whose lines are stored, which no thread can enter between that load and the
  release. Atomic accesses are sequentially consistent; the locked sections exclude each other and
  are one step each.
\<close>

section \<open>The step function\<close>

text \<open>Where a thread is in \<open>push\<close>; the line travels with it until it is stored.\<close>

datatype 'l pusher =
    Idle
  | Start 'l
  | Claimed nat 'l
  | Loaded nat nat 'l
  | Counting nat
  | NewBuffer
  | Publishing nat
  | Spinning 'l

text \<open>
  \<open>cq_calls\<close>, \<open>cq_log\<close> and \<open>cq_out\<close> are history: the calls of \<open>push\<close>, the lines in the order their
  indices were claimed, and the lines popped. No step reads them.
\<close>

record 'l cqueue =
  cq_mem :: "'l QueueBuffer"
  cq_threads :: "'l pusher list"
  cq_calls :: "(nat \<times> 'l) list"
  cq_log :: "(nat \<times> 'l) list"
  cq_out :: "'l list"

datatype 'l cq_event = Call nat 'l | Step nat | Pop

definition cq_goto :: "nat \<Rightarrow> 'l pusher \<Rightarrow> 'l cqueue \<Rightarrow> 'l cqueue" where
  "cq_goto t p s = s\<lparr>cq_threads := (cq_threads s)[t := p]\<rparr>"

definition push_claim :: "nat \<Rightarrow> 'l \<Rightarrow> 'l cqueue \<Rightarrow> 'l cqueue" where
  "push_claim t l s =
     (let m = cq_mem s; i = unat (qb_write_index m);
          s1 = s\<lparr>cq_mem := m\<lparr>qb_write_index := qb_write_index m + 1\<rparr>\<rparr> in
      if i < Buffer_size then cq_goto t (Claimed i l) (s1\<lparr>cq_log := cq_log s @ [(t, l)]\<rparr>)
      else cq_goto t (Spinning l) s1)"

definition push_load :: "nat \<Rightarrow> nat \<Rightarrow> 'l \<Rightarrow> 'l cqueue \<Rightarrow> 'l cqueue res" where
  "push_load t i l s =
     (case qb_current_write_buffer (cq_mem s) of
        None \<Rightarrow> Inl NullDeref
      | Some a \<Rightarrow> Inr (cq_goto t (Loaded a i l) s))"

definition push_store :: "nat \<Rightarrow> nat \<Rightarrow> nat \<Rightarrow> 'l \<Rightarrow> 'l cqueue \<Rightarrow> 'l cqueue res" where
  "push_store t a i l s =
     (let m = cq_mem s in
      case qb_heap m a of
        None \<Rightarrow> Inl UseAfterFree
      | Some b \<Rightarrow>
          if i < Buffer_size then
            Inr (cq_goto t (Counting a) (s\<lparr>cq_mem := m\<lparr>qb_heap := (qb_heap m)(a \<mapsto>
              b\<lparr>bf_items := (bf_items b)(i := Some l), bf_write_state := (bf_write_state b)(i := 1)\<rparr>)\<rparr>\<rparr>))
          else Inl OutOfRange)"

definition push_count :: "nat \<Rightarrow> nat \<Rightarrow> 'l cqueue \<Rightarrow> 'l cqueue res" where
  "push_count t a s =
     (let m = cq_mem s in
      case qb_heap m a of
        None \<Rightarrow> Inl UseAfterFree
      | Some b \<Rightarrow>
          let n = bf_write_state b Buffer_size + 1 in
          Inr (cq_goto t (if n = of_nat Buffer_size then NewBuffer else Idle)
            (s\<lparr>cq_mem := m\<lparr>qb_heap := (qb_heap m)(a \<mapsto> b\<lparr>bf_write_state := (bf_write_state b)(Buffer_size := n)\<rparr>)\<rparr>\<rparr>)))"

definition push_new :: "nat \<Rightarrow> 'l cqueue \<Rightarrow> 'l cqueue" where
  "push_new t s =
     (let m = cq_mem s; a = qb_allocated m in
      cq_goto t (Publishing a) (s\<lparr>cq_mem := m\<lparr>qb_heap := (qb_heap m)(a \<mapsto> Buffer_new), qb_allocated := Suc a,
        qb_current_write_buffer := Some a\<rparr>\<rparr>))"

definition push_publish :: "nat \<Rightarrow> nat \<Rightarrow> 'l cqueue \<Rightarrow> 'l cqueue" where
  "push_publish t a s =
     (let m = cq_mem s in
      cq_goto t Idle (s\<lparr>cq_mem := m\<lparr>qb_buffers := qb_buffers m @ [a], qb_write_index := 0\<rparr>\<rparr>))"

definition push_spin :: "nat \<Rightarrow> 'l \<Rightarrow> 'l cqueue \<Rightarrow> 'l cqueue" where
  "push_spin t l s =
     (if unat (qb_write_index (cq_mem s)) \<ge> Buffer_size then s else cq_goto t (Start l) s)"

definition push_step :: "nat \<Rightarrow> 'l cqueue \<Rightarrow> 'l cqueue res" where
  "push_step t s =
     (case cq_threads s ! t of
        Idle \<Rightarrow> Inr s
      | Start l \<Rightarrow> Inr (push_claim t l s)
      | Claimed i l \<Rightarrow> push_load t i l s
      | Loaded a i l \<Rightarrow> push_store t a i l s
      | Counting a \<Rightarrow> push_count t a s
      | NewBuffer \<Rightarrow> Inr (push_new t s)
      | Publishing a \<Rightarrow> Inr (push_publish t a s)
      | Spinning l \<Rightarrow> Inr (push_spin t l s))"

definition pop_step :: "'l cqueue \<Rightarrow> 'l cqueue res" where
  "pop_step s =
     map_res (\<lambda>(r, m). s\<lparr>cq_mem := m, cq_out := cq_out s @ (case r of None \<Rightarrow> [] | Some l \<Rightarrow> [l])\<rparr>)
       (QueueBuffer_try_pop (cq_mem s))"

text \<open>A thread calls \<open>push\<close> when it is idle; there is no thread beyond the list.\<close>

definition cq_step :: "'l cq_event \<Rightarrow> 'l cqueue \<Rightarrow> 'l cqueue res" where
  "cq_step e s =
     (case e of
        Call t l \<Rightarrow>
          Inr (if t < length (cq_threads s) \<and> cq_threads s ! t = Idle
               then cq_goto t (Start l) (s\<lparr>cq_calls := cq_calls s @ [(t, l)]\<rparr>) else s)
      | Step t \<Rightarrow> if t < length (cq_threads s) then push_step t s else Inr s
      | Pop \<Rightarrow> pop_step s)"

definition cq_init :: "nat \<Rightarrow> 'l cqueue" where
  "cq_init n = \<lparr>cq_mem = QueueBuffer_new, cq_threads = replicate n Idle, cq_calls = [], cq_log = [], cq_out = []\<rparr>"

section \<open>The invariant\<close>

text \<open>The index a thread has claimed and not stored yet; the line it has not claimed an index for yet.\<close>

fun pending_index :: "'l pusher \<Rightarrow> nat option" where
  "pending_index (Claimed i l) = Some i"
| "pending_index (Loaded a i l) = Some i"
| "pending_index _ = None"

fun pending_line :: "'l pusher \<Rightarrow> 'l option" where
  "pending_line (Claimed i l) = Some l"
| "pending_line (Loaded a i l) = Some l"
| "pending_line _ = None"

fun unclaimed :: "'l pusher \<Rightarrow> 'l list" where
  "unclaimed (Start l) = [l]"
| "unclaimed (Spinning l) = [l]"
| "unclaimed _ = []"

text \<open>
  A thread is busy with the current buffer until it has counted its line; at most one thread at a time
  switches to the next buffer.
\<close>

fun counting :: "'l pusher \<Rightarrow> bool" where
  "counting (Counting a) = True"
| "counting _ = False"

fun publishing :: "'l pusher \<Rightarrow> bool" where
  "publishing (Publishing a) = True"
| "publishing _ = False"

fun switching :: "'l pusher \<Rightarrow> bool" where
  "switching NewBuffer = True"
| "switching (Publishing a) = True"
| "switching _ = False"

fun spinning :: "'l pusher \<Rightarrow> bool" where
  "spinning (Spinning l) = True"
| "spinning _ = False"

definition busy :: "'l pusher \<Rightarrow> bool" where
  "busy p \<longleftrightarrow> pending_index p \<noteq> None \<or> counting p"

text \<open>The buffer a thread has in hand: the last published one, or the one to be published.\<close>

fun placed :: "nat \<Rightarrow> 'l pusher \<Rightarrow> bool" where
  "placed w (Loaded a i l) = (a = w - 1)"
| "placed w (Counting a) = (a = w - 1)"
| "placed w (Publishing a) = (a = w)"
| "placed w _ = True"

text \<open>
  \<open>f\<close> buffers have been freed, \<open>w\<close> published; buffer \<open>a\<close> keeps the lines of the log from \<open>a * size\<close> on.
\<close>

definition shape_inv :: "nat \<Rightarrow> nat \<Rightarrow> 'l QueueBuffer \<Rightarrow> 'l pusher list \<Rightarrow> bool" where
  "shape_inv f w m T \<longleftrightarrow> f \<le> w \<and> 0 < w \<and> qb_buffers m = [f..<w] \<and> qb_allocated m = w + threads_at publishing T
     \<and> qb_current_write_buffer m = Some (qb_allocated m - 1)
     \<and> (\<forall>a. qb_heap m a \<noteq> None \<longleftrightarrow> f \<le> a \<and> a < qb_allocated m)
     \<and> (0 < threads_at publishing T \<longrightarrow> qb_heap m w = Some Buffer_new)"

definition phase_inv :: "nat \<Rightarrow> nat \<Rightarrow> u32 \<Rightarrow> 'l pusher list \<Rightarrow> bool" where
  "phase_inv f w wi T \<longleftrightarrow> (0 < threads_at busy T \<longrightarrow> f < w \<and> threads_at switching T = 0)
     \<and> threads_at switching T \<le> 1 \<and> (0 < threads_at switching T \<longrightarrow> Buffer_size \<le> unat wi)
     \<and> (Buffer_size \<le> unat wi \<longrightarrow> 0 < threads_at busy T + threads_at switching T)
     \<and> unat wi \<le> Buffer_size + threads_at spinning T
     \<and> (\<forall>p \<in> set T. placed w p)"

text \<open>What a buffer in use holds; the last published one has a free place for each pending thread.\<close>

definition cells_inv :: "(nat \<times> 'l) list \<Rightarrow> nat \<Rightarrow> 'l Buffer \<Rightarrow> bool" where
  "cells_inv log a b \<longleftrightarrow> (\<forall>i < Buffer_size. bf_write_state b i = 0
     \<or> bf_write_state b i = 1 \<and> a * Buffer_size + i < length log \<and> bf_items b i = Some (snd (log ! (a * Buffer_size + i))))"

definition current_inv :: "nat \<Rightarrow> u32 \<Rightarrow> 'l Buffer \<Rightarrow> 'l pusher list \<Rightarrow> bool" where
  "current_inv w wi b T \<longleftrightarrow>
     (\<forall>i < min (unat wi) Buffer_size. bf_write_state b i = 0 \<longleftrightarrow> (\<exists>t < length T. pending_index (T ! t) = Some i))
     \<and> unat (bf_write_state b Buffer_size) + threads_at counting T = card {i. i < Buffer_size \<and> bf_write_state b i \<noteq> 0}"

definition data_inv :: "nat \<Rightarrow> 'l QueueBuffer \<Rightarrow> 'l pusher list \<Rightarrow> (nat \<times> 'l) list \<Rightarrow> bool" where
  "data_inv w m T log \<longleftrightarrow>
     length log = (w - 1) * Buffer_size + min (unat (qb_write_index m)) Buffer_size
     \<and> (\<forall>a b. qb_heap m a = Some b \<longrightarrow> cells_inv log a b \<and> (a < w - 1 \<longrightarrow> (\<forall>i < Buffer_size. bf_write_state b i = 1)))
     \<and> (\<forall>b. qb_heap m (w - 1) = Some b \<longrightarrow> current_inv w (qb_write_index m) b T)
     \<and> (\<forall>t < length T. \<forall>i. pending_index (T ! t) = Some i \<longrightarrow> i < min (unat (qb_write_index m)) Buffer_size
          \<and> (\<exists>l. pending_line (T ! t) = Some l \<and> log ! ((w - 1) * Buffer_size + i) = (t, l)))"

definition read_inv :: "nat \<Rightarrow> 'l QueueBuffer \<Rightarrow> (nat \<times> 'l) list \<Rightarrow> 'l list \<Rightarrow> bool" where
  "read_inv f m log out \<longleftrightarrow> (\<exists>r < Buffer_size. qb_read_index m = of_nat r \<and> length out = f * Buffer_size + r
     \<and> out = map snd (take (length out) log)
     \<and> qb_current_read_buffer m \<in> {None, get_next_read_buffer m}
     \<and> (\<forall>b. qb_heap m f = Some b \<longrightarrow> (\<forall>i < r. bf_write_state b i = 1)))"

definition call_inv :: "'l pusher list \<Rightarrow> (nat \<times> 'l) list \<Rightarrow> (nat \<times> 'l) list \<Rightarrow> bool" where
  "call_inv T calls log \<longleftrightarrow> (\<forall>t < length T. lines_of t calls = lines_of t log @ unclaimed (T ! t))"

definition cq_inv :: "nat \<Rightarrow> nat \<Rightarrow> 'l cqueue \<Rightarrow> bool" where
  "cq_inv f w s \<longleftrightarrow> shape_inv f w (cq_mem s) (cq_threads s)
     \<and> phase_inv f w (qb_write_index (cq_mem s)) (cq_threads s) \<and> data_inv w (cq_mem s) (cq_threads s) (cq_log s)
     \<and> read_inv f (cq_mem s) (cq_log s) (cq_out s) \<and> call_inv (cq_threads s) (cq_calls s) (cq_log s)"

lemma placed_update: "\<forall>q \<in> set T. placed w q \<Longrightarrow> placed w p \<Longrightarrow> \<forall>q \<in> set (T[t := p]). placed w q"
  using set_update_subset_insert [of T t p] by auto

lemma cq_inv_init: "cq_inv 0 1 (cq_init n)"
proof -
  have "threads_at P (replicate n Idle) = 0" if "\<not> P Idle" for P :: "'a pusher \<Rightarrow> bool"
    using that by (simp add: threads_at_def)
  note none = this [of publishing] this [of busy] this [of switching] this [of counting] this [of spinning]
  show ?thesis
    using none by (auto simp: cq_inv_def cq_init_def shape_inv_def phase_inv_def data_inv_def read_inv_def call_inv_def
        cells_inv_def current_inv_def QueueBuffer_new_def setup_next_write_buffer_def Buffer_new_def busy_def
        lines_of_def get_next_read_buffer_def Buffer_size_def)
qed

text \<open>A thread that moves on without a change of its role.\<close>

lemma shape_inv_thread:
  assumes "shape_inv f w m T" and "t < length T" and "publishing (T ! t) = publishing p"
  shows "shape_inv f w m (T[t := p])"
  using assms threads_at_same [of t T publishing p] by (simp add: shape_inv_def)

lemma data_inv_thread:
  assumes "data_inv w m T log" and "t < length T" and "pending_index (T ! t) = pending_index p"
    and "pending_line (T ! t) = pending_line p" and "counting (T ! t) = counting p"
  shows "data_inv w m (T[t := p]) log"
proof -
  have i: "pending_index (T[t := p] ! u) = pending_index (T ! u)" "pending_line (T[t := p] ! u) = pending_line (T ! u)"
    if "u < length T" for u
    using assms(2-4) by (cases "u = t"; simp)+
  then show ?thesis
    using assms(1) threads_at_same [OF assms(2), of counting p] assms(5)
    by (auto simp: data_inv_def current_inv_def i)
qed

lemma phase_inv_thread:
  assumes "phase_inv f w wi T" and "t < length T" and "busy (T ! t) = busy p" and "switching (T ! t) = switching p"
    and "spinning (T ! t) \<Longrightarrow> spinning p \<or> unat wi < Buffer_size"
    and "placed w p"
  shows "phase_inv f w wi (T[t := p])"
proof -
  have "unat wi \<le> Buffer_size + threads_at spinning (T[t := p])"
    using assms(1,5) threads_at_update [OF assms(2), of spinning p] by (cases "spinning (T ! t)"; cases "spinning p") (auto simp: phase_inv_def)
  then show ?thesis
    using assms(1) placed_update [OF _ assms(6), of T t] threads_at_same [OF assms(2) assms(3)] threads_at_same [OF assms(2) assms(4)]
    by (simp add: phase_inv_def)
qed

lemma call_inv_thread:
  assumes "call_inv T calls log" and "t < length T" and "unclaimed (T ! t) = unclaimed p"
  shows "call_inv (T[t := p]) calls log"
  using assms by (auto simp: call_inv_def nth_list_update)

lemma call_step_inv:
  assumes "cq_inv f w s" and "t < length (cq_threads s)" and "cq_threads s ! t = Idle"
  shows "cq_inv f w (cq_goto t (Start l) (s\<lparr>cq_calls := cq_calls s @ [(t, l)]\<rparr>))"
proof -
  have "call_inv ((cq_threads s)[t := Start l]) (cq_calls s @ [(t, l)]) (cq_log s)"
    using assms by (auto simp: cq_inv_def call_inv_def nth_list_update lines_of_def)
  then show ?thesis
    using assms shape_inv_thread [of f w "cq_mem s" "cq_threads s" t "Start l"]
      data_inv_thread [of w "cq_mem s" "cq_threads s" "cq_log s" t "Start l"]
      phase_inv_thread [of f w "qb_write_index (cq_mem s)" "cq_threads s" t "Start l"]
    by (simp add: cq_inv_def cq_goto_def busy_def)
qed

lemma spin_step_inv:
  assumes "cq_inv f w s" and "t < length (cq_threads s)" and "cq_threads s ! t = Spinning l"
  shows "cq_inv f w (push_spin t l s)"
  using assms shape_inv_thread [of f w "cq_mem s" "cq_threads s" t "Start l"]
    data_inv_thread [of w "cq_mem s" "cq_threads s" "cq_log s" t "Start l"]
    phase_inv_thread [of f w "qb_write_index (cq_mem s)" "cq_threads s" t "Start l"]
    call_inv_thread [of "cq_threads s" "cq_calls s" "cq_log s" t "Start l"]
  by (simp add: cq_inv_def cq_goto_def busy_def push_spin_def)

lemma load_step_inv:
  assumes i: "cq_inv f w s" and t: "t < length (cq_threads s)" and p: "cq_threads s ! t = Claimed i l"
  shows "\<exists>s'. push_load t i l s = Inr s' \<and> cq_inv f w s'"
proof -
  let ?T = "cq_threads s"
  have "0 < threads_at busy ?T" using threads_at_pos [OF t, of busy] p by (simp add: busy_def)
  then have "threads_at switching ?T = 0" using i by (simp add: cq_inv_def phase_inv_def)
  then have "threads_at publishing ?T = 0" by (auto simp: threads_at_0 elim!: publishing.elims)
  then have "qb_current_write_buffer (cq_mem s) = Some (w - 1)" using i by (simp add: cq_inv_def shape_inv_def)
  then show ?thesis
    using i t p shape_inv_thread [of f w "cq_mem s" ?T t "Loaded (w - 1) i l"]
      data_inv_thread [of w "cq_mem s" ?T "cq_log s" t "Loaded (w - 1) i l"]
      phase_inv_thread [of f w "qb_write_index (cq_mem s)" ?T t "Loaded (w - 1) i l"]
      call_inv_thread [of ?T "cq_calls s" "cq_log s" t "Loaded (w - 1) i l"]
    by (simp add: cq_inv_def cq_goto_def busy_def push_load_def)
qed

subsection \<open>Claiming an index\<close>

lemma unat_u32_Suc: "Suc (unat x) < 2 ^ 32 \<Longrightarrow> unat (x + 1 :: u32) = Suc (unat x)"
  using unat_add_lt [of x 1] by simp

lemma inv_parts:
  assumes "cq_inv f w s"
  shows "shape_inv f w (cq_mem s) (cq_threads s)" "phase_inv f w (qb_write_index (cq_mem s)) (cq_threads s)"
    "data_inv w (cq_mem s) (cq_threads s) (cq_log s)" "read_inv f (cq_mem s) (cq_log s) (cq_out s)"
    "call_inv (cq_threads s) (cq_calls s) (cq_log s)"
  using assms by (simp_all add: cq_inv_def)

lemma shape_inv_index [simp]: "shape_inv f w (m\<lparr>qb_write_index := i\<rparr>) T = shape_inv f w m T"
  by (simp add: shape_inv_def)

lemma read_inv_index [simp]: "read_inv f (m\<lparr>qb_write_index := i\<rparr>) log out = read_inv f m log out"
  by (simp add: read_inv_def get_next_read_buffer_def)

lemma read_inv_le: "read_inv f m log out \<Longrightarrow> length out \<le> length log"
  by (auto simp: read_inv_def)

lemma read_inv_log:
  assumes "read_inv f m log out"
  shows "read_inv f m (log @ xs) out"
  using read_inv_le [OF assms] assms by (auto simp: read_inv_def)

lemma cells_inv_log: "cells_inv log a b \<Longrightarrow> cells_inv (log @ xs) a b"
  by (fastforce simp: cells_inv_def nth_append)

text \<open>As long as indices are handed out, the last published buffer is alive.\<close>

lemma open_buffer_alive:
  assumes "data_inv w m T log" and "read_inv f m log out" and "f \<le> w" and "0 < w" and "unat (qb_write_index m) < Buffer_size"
  shows "f < w"
proof (rule ccontr)
  assume "\<not> f < w"
  then have "w * Buffer_size \<le> length log" using assms(2,3) read_inv_le [OF assms(2)] by (auto simp: read_inv_def)
  moreover have "w * Buffer_size = (w - 1) * Buffer_size + Buffer_size" using assms(4) by (cases w) auto
  ultimately show False using assms(1,5) by (simp add: data_inv_def)
qed

lemma claim_data_inv:
  assumes d: "data_inv w m T log" and t: "t < length T" and p: "T ! t = Start l" and i: "unat (qb_write_index m) < Buffer_size"
  shows "data_inv w (m\<lparr>qb_write_index := qb_write_index m + 1\<rparr>) (T[t := Claimed (unat (qb_write_index m)) l]) (log @ [(t, l)])"
proof -
  let ?i = "unat (qb_write_index m)" and ?T = "T[t := Claimed (unat (qb_write_index m)) l]"
  have i': "unat (qb_write_index m + 1) = Suc ?i" using i by (intro unat_u32_Suc) (simp add: Buffer_size_def)
  note D = d [unfolded data_inv_def]
  have len: "length log = (w - 1) * Buffer_size + ?i" using D i by simp
  have pend: "(\<exists>u < length T. pending_index (?T ! u) = Some j) \<longleftrightarrow> j = ?i \<or> (\<exists>u < length T. pending_index (T ! u) = Some j)" for j
    using t p by (auto simp: nth_list_update) (metis option.distinct(1) pending_index.simps(4))
  have cur: "current_inv w (qb_write_index m + 1) b ?T" if b: "qb_heap m (w - 1) = Some b" for b
  proof -
    have c: "cells_inv log (w - 1) b" "current_inv w (qb_write_index m) b T" using D b by auto
    have "bf_write_state b ?i = 0" using c(1) i len by (auto simp: cells_inv_def)
    moreover have "threads_at counting ?T = threads_at counting T" using threads_at_same [OF t, of counting] p by simp
    ultimately show ?thesis
      using c(2) i by (auto simp: current_inv_def i' less_Suc_eq pend)
  qed
  have "u < length ?T \<Longrightarrow> pending_index (?T ! u) = Some j \<Longrightarrow> j < Suc ?i \<and> j < Buffer_size
      \<and> (\<exists>l'. pending_line (?T ! u) = Some l' \<and> (log @ [(t, l)]) ! ((w - 1) * Buffer_size + j) = (u, l'))" for u j
    using D t i len by (cases "u = t") (fastforce simp: nth_append)+
  then show ?thesis
    using D len i cur unfolding data_inv_def by (auto simp: i' cells_inv_log)
qed

lemma claim_phase_inv:
  assumes ph: "phase_inv f w wi T" and t: "t < length T" and p: "T ! t = Start l" and i: "unat wi < Buffer_size" and "f < w"
  shows "phase_inv f w (wi + 1) (T[t := Claimed (unat wi) l])"
proof -
  let ?T = "T[t := Claimed (unat wi) l]"
  have "threads_at switching ?T = threads_at switching T" "threads_at busy ?T = Suc (threads_at busy T)"
    using threads_at_same [OF t, of switching "Claimed (unat wi) l"] threads_at_update [OF t, of busy "Claimed (unat wi) l"] p
    by (simp_all add: busy_def)
  moreover have "threads_at switching T = 0" using ph i by (auto simp: phase_inv_def)
  moreover have "unat (wi + 1) = Suc (unat wi)" using i by (intro unat_u32_Suc) (simp add: Buffer_size_def)
  moreover have "\<forall>q \<in> set ?T. placed w q" using ph placed_update [of T w "Claimed (unat wi) l" t] by (simp add: phase_inv_def)
  ultimately show ?thesis using assms(5) i by (simp add: phase_inv_def)
qed

lemma spin_phase_inv:
  assumes ph: "phase_inv f w wi T" and t: "t < length T" and p: "T ! t = Start l" and i: "Buffer_size \<le> unat wi"
    and n: "length T + Buffer_size < 2 ^ 32"
  shows "unat (wi + 1) = Suc (unat wi)" "phase_inv f w (wi + 1) (T[t := Spinning l])"
proof -
  let ?T = "T[t := Spinning l]"
  have c: "threads_at switching ?T = threads_at switching T" "threads_at busy ?T = threads_at busy T"
    "threads_at spinning ?T = Suc (threads_at spinning T)"
    using threads_at_same [OF t, of switching "Spinning l"] threads_at_same [OF t, of busy "Spinning l"]
      threads_at_update [OF t, of spinning "Spinning l"] p by (simp_all add: busy_def)
  have "threads_at spinning ?T \<le> length T" unfolding threads_at_def by (metis length_filter_le length_list_update)
  then show u: "unat (wi + 1) = Suc (unat wi)"
    using ph c(3) n by (intro unat_u32_Suc) (simp add: phase_inv_def)
  have "\<forall>q \<in> set ?T. placed w q" using ph placed_update [of T w "Spinning l" t] by (simp add: phase_inv_def)
  then show "phase_inv f w (wi + 1) ?T" using ph c u i by (auto simp: phase_inv_def)
qed

lemma spin_data_inv:
  assumes "data_inv w m T log" and "Buffer_size \<le> unat (qb_write_index m)" and "Buffer_size \<le> unat i"
  shows "data_inv w (m\<lparr>qb_write_index := i\<rparr>) T log"
  using assms by (simp add: data_inv_def current_inv_def)

lemma claim_step_inv:
  assumes i: "cq_inv f w s" and t: "t < length (cq_threads s)" and p: "cq_threads s ! t = Start l"
    and n: "length (cq_threads s) + Buffer_size < 2 ^ 32"
  shows "cq_inv f w (push_claim t l s)"
proof -
  let ?T = "cq_threads s" and ?m = "cq_mem s" and ?i = "unat (qb_write_index (cq_mem s))"
  note I = inv_parts [OF i]
  show ?thesis
  proof (cases "?i < Buffer_size")
    case True
    have "f < w" using open_buffer_alive [OF I(3,4)] I(1) True by (simp add: shape_inv_def)
    moreover have "call_inv (?T[t := Claimed ?i l]) (cq_calls s) (cq_log s @ [(t, l)])"
      using I(5) t p by (auto simp: call_inv_def nth_list_update lines_of_def)
    ultimately show ?thesis
      using True claim_data_inv [OF I(3) t p True] claim_phase_inv [OF I(2) t p True] read_inv_log [OF I(4), of "[(t, l)]"]
        shape_inv_thread [OF I(1) t, of "Claimed ?i l"] p
      by (simp add: push_claim_def cq_inv_def cq_goto_def Let_def)
  next
    case False
    then have le: "Buffer_size \<le> ?i" by simp
    note sp = spin_phase_inv [OF I(2) t p le n]
    have "data_inv w ?m (?T[t := Spinning l]) (cq_log s)" using data_inv_thread [OF I(3) t, of "Spinning l"] p by simp
    from spin_data_inv [OF this le, of "qb_write_index ?m + 1"] show ?thesis
      using False sp I(4) shape_inv_thread [OF I(1) t, of "Spinning l"] call_inv_thread [OF I(5) t, of "Spinning l"] p
      by (simp add: push_claim_def cq_inv_def cq_goto_def Let_def)
  qed
qed

subsection \<open>Storing and counting a line\<close>

text \<open>A busy thread works on the last published buffer, which is alive, and nobody switches.\<close>

lemma busy_buffer:
  assumes i: "cq_inv f w s" and t: "t < length (cq_threads s)" and b: "busy (cq_threads s ! t)"
  shows "f < w" "threads_at switching (cq_threads s) = 0" "\<exists>b. qb_heap (cq_mem s) (w - 1) = Some b"
proof -
  note I = inv_parts [OF i]
  have "0 < threads_at busy (cq_threads s)" using threads_at_pos [OF t, of busy] b .
  then show w: "f < w" "threads_at switching (cq_threads s) = 0" using I(2) by (simp_all add: phase_inv_def)
  show "\<exists>b. qb_heap (cq_mem s) (w - 1) = Some b"
    using I(1) w by (auto simp: shape_inv_def simp flip: not_None_eq)
qed

lemma shape_inv_write:
  assumes "shape_inv f w m T" and "a < w" and "qb_heap m a = Some b"
  shows "shape_inv f w (m\<lparr>qb_heap := (qb_heap m)(a \<mapsto> b')\<rparr>) T"
  using assms unfolding shape_inv_def by auto

lemma read_inv_write:
  assumes "read_inv f m log out" and "qb_heap m a = Some b" and "\<And>i. i < Buffer_size \<Longrightarrow> bf_write_state b i = 1 \<Longrightarrow> bf_write_state b' i = 1"
  shows "read_inv f (m\<lparr>qb_heap := (qb_heap m)(a \<mapsto> b')\<rparr>) log out"
  using assms by (fastforce simp: read_inv_def get_next_read_buffer_def)

lemma store_data_inv:
  assumes d: "data_inv w m T log" and t: "t < length T" and p: "T ! t = Loaded (w - 1) i l" and b: "qb_heap m (w - 1) = Some b"
  shows "i < Buffer_size" "data_inv w (m\<lparr>qb_heap := (qb_heap m)(w - 1 \<mapsto>
      b\<lparr>bf_items := (bf_items b)(i := Some l), bf_write_state := (bf_write_state b)(i := 1)\<rparr>)\<rparr>) (T[t := Counting (w - 1)]) log"
proof -
  let ?b = "b\<lparr>bf_items := (bf_items b)(i := Some l), bf_write_state := (bf_write_state b)(i := 1)\<rparr>"
  let ?T = "T[t := Counting (w - 1)]" and ?n = "min (unat (qb_write_index m)) Buffer_size"
  note D = d [unfolded data_inv_def]
  have pend: "j < ?n \<and> log ! ((w - 1) * Buffer_size + j) = (u, the (pending_line (T ! u)))"
    if "u < length T" "pending_index (T ! u) = Some j" for u j using D that by fastforce
  have i: "i < ?n" "log ! ((w - 1) * Buffer_size + i) = (t, l)" using pend [OF t] p by auto
  then show size: "i < Buffer_size" by simp
  have only: "u = t" if "u < length T" "pending_index (T ! u) = Some i" for u using pend [OF that] i(2) by simp
  have c: "cells_inv log (w - 1) b" and cur: "current_inv w (qb_write_index m) b T" using D b by auto
  have "bf_write_state b i = 0" using cur i(1) t p by (auto simp: current_inv_def intro!: exI [of _ t])
  then have card: "card {j. j < Buffer_size \<and> bf_write_state ?b j \<noteq> 0} = Suc (card {j. j < Buffer_size \<and> bf_write_state b j \<noteq> 0})"
    using size by (subst card_Suc_eq) (intro exI [of _ i] exI [of _ "{j. j < Buffer_size \<and> bf_write_state b j \<noteq> 0}"], auto)
  have "threads_at counting ?T = Suc (threads_at counting T)" using threads_at_update [OF t, of counting "Counting (w - 1)"] p by simp
  moreover have "(\<exists>u < length T. pending_index (?T ! u) = Some j) \<longleftrightarrow> j \<noteq> i \<and> (\<exists>u < length T. pending_index (T ! u) = Some j)" for j
  proof -
    have "pending_index (?T ! u) = Some j \<longleftrightarrow> j \<noteq> i \<and> pending_index (T ! u) = Some j" if u: "u < length T" for u
    proof (cases "u = t")
      case True
      then show ?thesis using t p by auto
    next
      case False
      then have "pending_index (T ! u) \<noteq> Some i" using only [OF u] by blast
      then show ?thesis using False by auto
    qed
    then show ?thesis by blast
  qed
  ultimately have cur': "current_inv w (qb_write_index m) ?b ?T"
    using cur card size by (auto simp: current_inv_def)
  have "cells_inv log (w - 1) ?b" using c i size D by (auto simp: cells_inv_def)
  moreover have "u < length ?T \<Longrightarrow> pending_index (?T ! u) = Some j \<Longrightarrow> pending_index (T ! u) = Some j \<and> ?T ! u = T ! u" for u j
    using t by (cases "u = t") auto
  ultimately show "data_inv w (m\<lparr>qb_heap := (qb_heap m)(w - 1 \<mapsto> ?b)\<rparr>) ?T log"
    using D cur' unfolding data_inv_def by (auto split: if_splits)
qed

lemma store_step_inv:
  assumes i: "cq_inv f w s" and t: "t < length (cq_threads s)" and p: "cq_threads s ! t = Loaded a i l"
  shows "\<exists>s'. push_store t a i l s = Inr s' \<and> cq_inv f w s'"
proof -
  note I = inv_parts [OF i]
  have "placed w (cq_threads s ! t)" using I(2) t by (auto simp: phase_inv_def)
  then have a: "a = w - 1" using p by simp
  obtain b where b: "f < w" "qb_heap (cq_mem s) (w - 1) = Some b" using busy_buffer [OF i t] p by (auto simp: busy_def)
  note d = store_data_inv [OF I(3) t p [unfolded a] b(2)]
  show ?thesis
    using d shape_inv_write [OF shape_inv_thread [OF I(1) t, of "Counting (w - 1)"] _ b(2)] b(1) p
      phase_inv_thread [OF I(2) t, of "Counting (w - 1)"] call_inv_thread [OF I(5) t, of "Counting (w - 1)"]
      read_inv_write [OF I(4) b(2)] b(2)
    by (simp add: push_store_def a cq_inv_def cq_goto_def busy_def Let_def)
qed

text \<open>When the count reaches the size, every line of the buffer is stored and counted.\<close>

lemma current_full:
  assumes "current_inv w wi b T" and "Buffer_size \<le> unat wi" and "threads_at busy T = 0"
  shows "unat (bf_write_state b Buffer_size) = Buffer_size" "\<forall>i < Buffer_size. bf_write_state b i \<noteq> 0"
proof -
  have idle: "\<not> busy p" if "p \<in> set T" for p using assms(3) that by (simp add: threads_at_0)
  then have "threads_at counting T = 0" by (auto simp: threads_at_0 busy_def)
  moreover show all: "\<forall>i < Buffer_size. bf_write_state b i \<noteq> 0"
    using assms(1,2) idle unfolding current_inv_def busy_def by (metis min.absorb2 nth_mem option.distinct(1))
  then have "{i. i < Buffer_size \<and> bf_write_state b i \<noteq> 0} = {..<Buffer_size}" by auto
  ultimately show "unat (bf_write_state b Buffer_size) = Buffer_size" using assms(1) by (simp add: current_inv_def)
qed

lemma full_current:
  assumes c: "current_inv w wi b T" and k: "unat (bf_write_state b Buffer_size) = Buffer_size" and d: "data_inv w m T log"
    and m: "qb_write_index m = wi" "qb_heap m (w - 1) = Some b"
  shows "Buffer_size \<le> unat wi" "threads_at busy T = 0"
proof -
  let ?S = "{i. i < Buffer_size \<and> bf_write_state b i \<noteq> 0}"
  have le: "card ?S \<le> Buffer_size" using card_mono [of "{..<Buffer_size}" ?S] by auto
  then have e: "card ?S = Buffer_size" "threads_at counting T = 0" using c k by (auto simp: current_inv_def)
  then have "?S = {..<Buffer_size}" by (intro card_subset_eq) auto
  then have all: "bf_write_state b i \<noteq> 0" if "i < Buffer_size" for i using that by blast
  have "bf_write_state b (Buffer_size - 1) \<noteq> 0" by (rule all) (simp add: Buffer_size_def)
  moreover have "cells_inv log (w - 1) b" using d m(2) by (simp add: data_inv_def)
  then have "bf_write_state b (Buffer_size - 1) \<noteq> 0 \<Longrightarrow> (w - 1) * Buffer_size + (Buffer_size - 1) < length log"
    unfolding cells_inv_def by (metis Buffer_size_def diff_less zero_less_numeral zero_less_one)
  ultimately have "(w - 1) * Buffer_size + (Buffer_size - 1) < length log" by blast
  then show wi: "Buffer_size \<le> unat wi" using d m(1) by (auto simp: data_inv_def Buffer_size_def)
  have "pending_index (T ! t) = None" if "t < length T" for t
  proof (cases "pending_index (T ! t)")
    case (Some i)
    then have "i < min (unat wi) Buffer_size" using d m(1) that by (auto simp: data_inv_def)
    then show ?thesis using c all [of i] Some that by (auto simp: current_inv_def)
  qed simp
  moreover have "\<not> counting p" if "p \<in> set T" for p using e(2) that by (simp add: threads_at_0)
  ultimately show "threads_at busy T = 0" by (auto simp: threads_at_0 busy_def in_set_conv_nth)
qed

lemma count_data_inv:
  assumes d: "data_inv w m T log" and t: "t < length T" and p: "T ! t = Counting (w - 1)" and b: "qb_heap m (w - 1) = Some b"
    and q: "q = NewBuffer \<or> q = Idle"
  defines "b' \<equiv> b\<lparr>bf_write_state := (bf_write_state b)(Buffer_size := bf_write_state b Buffer_size + 1)\<rparr>"
  shows "current_inv w (qb_write_index m) b' (T[t := q])" "data_inv w (m\<lparr>qb_heap := (qb_heap m)(w - 1 \<mapsto> b')\<rparr>) (T[t := q]) log"
proof -
  let ?T = "T[t := q]"
  note D = d [unfolded data_inv_def]
  have c: "cells_inv log (w - 1) b" and cur: "current_inv w (qb_write_index m) b T" using D b by auto
  have q': "pending_index q = None" "\<not> counting q" using q by auto
  have n: "Suc (threads_at counting ?T) = threads_at counting T"
    using threads_at_update [OF t, of counting q] p q' by simp
  have S: "{i. i < Buffer_size \<and> bf_write_state b' i \<noteq> 0} = {i. i < Buffer_size \<and> bf_write_state b i \<noteq> 0}"
    by (auto simp: b'_def)
  have "card {i. i < Buffer_size \<and> bf_write_state b i \<noteq> 0} \<le> Buffer_size"
    using card_mono [of "{..<Buffer_size}" "{i. i < Buffer_size \<and> bf_write_state b i \<noteq> 0}"] by auto
  then have "Suc (unat (bf_write_state b Buffer_size)) < 2 ^ 32"
    using cur n by (simp add: current_inv_def Buffer_size_def)
  from unat_u32_Suc [OF this]
  have "unat (bf_write_state b' Buffer_size) = Suc (unat (bf_write_state b Buffer_size))" by (simp add: b'_def)
  moreover have pend: "pending_index (?T ! u) = pending_index (T ! u)" "pending_line (?T ! u) = pending_line (T ! u)"
    if "u < length T" for u
    using p q by (cases "u = t"; use that in auto)+
  moreover have "i < Buffer_size \<Longrightarrow> bf_write_state b' i = bf_write_state b i" for i by (simp add: b'_def)
  ultimately show cur': "current_inv w (qb_write_index m) b' ?T"
    using cur n S by (auto simp: current_inv_def)
  have "cells_inv log (w - 1) b'" using c by (simp add: cells_inv_def b'_def)
  then show "data_inv w (m\<lparr>qb_heap := (qb_heap m)(w - 1 \<mapsto> b')\<rparr>) ?T log"
    using D cur' unfolding data_inv_def by (auto simp: pend split: if_splits)
qed

lemma count_step_inv:
  assumes i: "cq_inv f w s" and t: "t < length (cq_threads s)" and p: "cq_threads s ! t = Counting a"
  shows "\<exists>s'. push_count t a s = Inr s' \<and> cq_inv f w s'"
proof -
  let ?m = "cq_mem s" and ?wi = "qb_write_index (cq_mem s)"
  note I = inv_parts [OF i]
  have "placed w (cq_threads s ! t)" using I(2) t by (auto simp: phase_inv_def)
  then have a: "a = w - 1" using p by simp
  obtain b where b: "f < w" "threads_at switching (cq_threads s) = 0" "qb_heap ?m (w - 1) = Some b"
    using busy_buffer [OF i t] p by (auto simp: busy_def)
  define n where "n = bf_write_state b Buffer_size + 1"
  define b' where "b' = b\<lparr>bf_write_state := (bf_write_state b)(Buffer_size := n)\<rparr>"
  define q :: "'a pusher" where "q = (if n = of_nat Buffer_size then NewBuffer else Idle)"
  let ?T = "(cq_threads s)[t := q]" and ?m' = "?m\<lparr>qb_heap := (qb_heap ?m)(w - 1 \<mapsto> b')\<rparr>"
  have q: "q = NewBuffer \<or> q = Idle" by (simp add: q_def)
  have cd: "current_inv w ?wi b' ?T" "data_inv w ?m' ?T (cq_log s)"
    using count_data_inv [OF I(3) t p [unfolded a] b(3) q] by (simp_all add: b'_def n_def)
  have n: "n = of_nat Buffer_size \<longleftrightarrow> unat (bf_write_state b' Buffer_size) = Buffer_size"
  proof -
    have "n = of_nat Buffer_size \<longleftrightarrow> unat n = unat (of_nat Buffer_size :: u32)" by (rule word_unat_eq_iff)
    then show ?thesis by (simp add: b'_def index_word)
  qed
  have phase: "phase_inv f w ?wi ?T"
  proof -
    have "threads_at spinning ?T = threads_at spinning (cq_threads s)" "threads_at switching ?T = of_bool (q = NewBuffer)"
      using threads_at_same [OF t, of spinning q] threads_at_update [OF t, of switching q] p q b(2) by auto
    moreover have "\<forall>r \<in> set ?T. placed w r" using I(2) placed_update [of "cq_threads s" w q t] q by (auto simp: phase_inv_def)
    moreover have "q = NewBuffer \<Longrightarrow> Buffer_size \<le> unat ?wi \<and> threads_at busy ?T = 0"
      using full_current [OF cd(1) n [THEN iffD1] cd(2)] by (simp add: q_def split: if_splits)
    moreover have "0 < threads_at busy ?T" if "q = Idle" "Buffer_size \<le> unat ?wi"
    proof (rule ccontr)
      assume "\<not> 0 < threads_at busy ?T"
      then have "n = of_nat Buffer_size" using current_full(1) [OF cd(1) that(2)] n by simp
      then show False using that(1) by (simp add: q_def)
    qed
    ultimately show ?thesis using I(2) b(1) q by (auto simp: phase_inv_def)
  qed
  have "push_count t a s = Inr (s\<lparr>cq_mem := ?m', cq_threads := ?T\<rparr>)"
    using b(3) by (simp add: push_count_def a cq_goto_def Let_def n_def b'_def q_def)
  moreover have "shape_inv f w ?m' ?T"
    using shape_inv_write [OF shape_inv_thread [OF I(1) t, of q] _ b(3)] p q b(1) by auto
  moreover have "read_inv f ?m' (cq_log s) (cq_out s)" using read_inv_write [OF I(4) b(3), of b'] by (simp add: b'_def)
  moreover have "call_inv ?T (cq_calls s) (cq_log s)" using call_inv_thread [OF I(5) t, of q] p q by auto
  ultimately show ?thesis using phase cd(2) by (simp add: cq_inv_def)
qed

subsection \<open>Switching to the next buffer\<close>

lemma switching_split: "threads_at switching T = threads_at publishing T + threads_at (\<lambda>p. p = NewBuffer) T"
proof (induction T)
  case (Cons p T)
  then show ?case by (cases p) (simp_all add: threads_at_def)
qed (simp add: threads_at_def)

text \<open>While a thread switches, all lines of the last published buffer are stored and counted.\<close>

lemma switching_facts:
  assumes i: "cq_inv f w s" and t: "t < length (cq_threads s)" and p: "switching (cq_threads s ! t)"
  shows "threads_at switching (cq_threads s) = 1" "threads_at busy (cq_threads s) = 0"
    "Buffer_size \<le> unat (qb_write_index (cq_mem s))" "length (cq_log s) = w * Buffer_size"
    "\<And>b. qb_heap (cq_mem s) (w - 1) = Some b \<Longrightarrow> \<forall>i < Buffer_size. bf_write_state b i = 1"
proof -
  note I = inv_parts [OF i]
  have s: "0 < threads_at switching (cq_threads s)" using threads_at_pos [OF t, of switching] p .
  then show one: "threads_at switching (cq_threads s) = 1" and idle: "threads_at busy (cq_threads s) = 0"
    and wi: "Buffer_size \<le> unat (qb_write_index (cq_mem s))"
    using I(2) by (auto simp: phase_inv_def)
  show "length (cq_log s) = w * Buffer_size" using I(1,3) wi by (cases w) (auto simp: data_inv_def shape_inv_def)
  show "\<forall>i < Buffer_size. bf_write_state b i = 1" if b: "qb_heap (cq_mem s) (w - 1) = Some b" for b
  proof -
    have "current_inv w (qb_write_index (cq_mem s)) b (cq_threads s)" "cells_inv (cq_log s) (w - 1) b"
      using I(3) b by (auto simp: data_inv_def)
    then show ?thesis using current_full(2) [OF _ wi idle] by (auto simp: cells_inv_def)
  qed
qed

lemma new_step_inv:
  assumes i: "cq_inv f w s" and t: "t < length (cq_threads s)" and p: "cq_threads s ! t = NewBuffer"
  shows "cq_inv f w (push_new t s)"
proof -
  let ?m = "cq_mem s" and ?T = "(cq_threads s)[t := Publishing w]"
  let ?m' = "?m\<lparr>qb_heap := (qb_heap ?m)(w \<mapsto> Buffer_new), qb_allocated := Suc w, qb_current_write_buffer := Some w\<rparr>"
  note I = inv_parts [OF i]
  have s: "threads_at switching (cq_threads s) = 1" "threads_at busy (cq_threads s) = 0"
    using switching_facts(1,2) [OF i t] p by simp_all
  have "0 < threads_at (\<lambda>p. p = NewBuffer) (cq_threads s)" using threads_at_pos [OF t, of "\<lambda>p. p = NewBuffer"] p .
  then have pub: "threads_at publishing (cq_threads s) = 0" using switching_split [of "cq_threads s"] s(1) by simp
  then have pub': "threads_at publishing ?T = 1" using threads_at_update [OF t, of publishing "Publishing w"] p by simp
  have alloc: "qb_allocated ?m = w" using I(1) pub by (simp add: shape_inv_def)
  have eq: "push_new t s = s\<lparr>cq_mem := ?m', cq_threads := ?T\<rparr>" by (simp add: push_new_def cq_goto_def Let_def alloc)
  have heap: "qb_heap ?m' a \<noteq> None \<longleftrightarrow> f \<le> a \<and> a < Suc w" for a
    using I(1) alloc by (auto simp: shape_inv_def less_Suc_eq)
  then have "shape_inv f w ?m' ?T" using I(1) pub' by (simp add: shape_inv_def)
  moreover have "phase_inv f w (qb_write_index ?m') ?T"
    using phase_inv_thread [OF I(2) t, of "Publishing w"] p by (simp add: busy_def)
  moreover have "data_inv w ?m' ?T (cq_log s)"
  proof -
    have "data_inv w ?m ?T (cq_log s)" using data_inv_thread [OF I(3) t, of "Publishing w"] p by simp
    moreover have "cells_inv (cq_log s) w Buffer_new" by (simp add: cells_inv_def Buffer_new_def)
    moreover have "0 < w" using I(1) by (simp add: shape_inv_def)
    then have "w - 1 \<noteq> w" by simp
    ultimately show ?thesis by (auto simp: data_inv_def)
  qed
  moreover have "read_inv f ?m' (cq_log s) (cq_out s)"
  proof -
    obtain r where r: "r < Buffer_size" "qb_read_index ?m = of_nat r" "length (cq_out s) = f * Buffer_size + r"
      "cq_out s = map snd (take (length (cq_out s)) (cq_log s))" "qb_current_read_buffer ?m \<in> {None, get_next_read_buffer ?m}"
      "\<forall>b. qb_heap ?m f = Some b \<longrightarrow> (\<forall>i < r. bf_write_state b i = 1)"
      using I(4) by (auto simp: read_inv_def)
    have "length (cq_out s) \<le> w * Buffer_size"
      using read_inv_le [OF I(4)] switching_facts(4) [OF i t] p by simp
    then have "f = w \<Longrightarrow> r = 0" using r(3) by simp
    then show ?thesis using r unfolding read_inv_def by (intro exI [of _ r]) (auto simp: get_next_read_buffer_def)
  qed
  moreover have "call_inv ?T (cq_calls s) (cq_log s)" using call_inv_thread [OF I(5) t, of "Publishing w"] p by simp
  ultimately show ?thesis unfolding eq by (simp add: cq_inv_def)
qed

lemma publish_step_inv:
  assumes i: "cq_inv f w s" and t: "t < length (cq_threads s)" and p: "cq_threads s ! t = Publishing a"
  shows "cq_inv f (Suc w) (push_publish t a s)"
proof -
  let ?m = "cq_mem s" and ?T = "(cq_threads s)[t := Idle]"
  let ?m' = "?m\<lparr>qb_buffers := qb_buffers ?m @ [w], qb_write_index := 0\<rparr>"
  note I = inv_parts [OF i]
  have sw: "switching (cq_threads s ! t)" using p by simp
  note s = switching_facts [OF i t sw]
  have "placed w (cq_threads s ! t)" using I(2) t by (auto simp: phase_inv_def)
  then have a: "a = w" using p by simp
  have pub: "threads_at publishing (cq_threads s) = 1" "threads_at publishing ?T = 0" "threads_at switching ?T = 0"
    "threads_at busy ?T = 0"
    using s(1,2) threads_at_pos [OF t, of publishing] p switching_split [of "cq_threads s"]
      threads_at_update [OF t, of publishing Idle] threads_at_update [OF t, of switching Idle] threads_at_update [OF t, of busy Idle]
    by (auto simp: busy_def)
  have wf: "f \<le> w" "0 < w" "qb_heap ?m w = Some Buffer_new" "qb_allocated ?m = Suc w" using I(1) pub(1) by (simp_all add: shape_inv_def)
  have idle: "pending_index q = None \<and> \<not> counting q" if "q \<in> set ?T" for q
    using pub(4) that by (auto simp: threads_at_0 busy_def)
  have "shape_inv f (Suc w) ?m' ?T" using I(1) pub wf by (simp add: shape_inv_def)
  moreover have "phase_inv f (Suc w) (qb_write_index ?m') ?T"
  proof -
    have "placed (Suc w) q" if q: "q \<in> set ?T" for q
    proof -
      have "\<not> publishing q" using q pub(2) by (simp add: threads_at_0)
      then show ?thesis using idle [OF q] by (cases q) simp_all
    qed
    then show ?thesis using pub by (simp add: phase_inv_def Buffer_size_def)
  qed
  moreover have "data_inv (Suc w) ?m' ?T (cq_log s)"
  proof -
    have "current_inv (Suc w) 0 Buffer_new ?T"
      using pub(4) by (simp add: current_inv_def Buffer_new_def threads_at_0 busy_def)
    moreover have "bf_write_state b j = 1" if "qb_heap ?m c = Some b" "c < w" "j < Buffer_size" for b c j
      using I(3) that s(5) by (cases "c = w - 1") (auto simp: data_inv_def)
    moreover have "pending_index (?T ! u) = None" if "u < length ?T" for u using idle nth_mem [OF that] by blast
    ultimately show ?thesis using I(3) wf(3) s(4) by (auto simp: data_inv_def)
  qed
  moreover have "read_inv f ?m' (cq_log s) (cq_out s)"
    using I(1,4) by (cases "qb_buffers ?m") (auto simp: read_inv_def get_next_read_buffer_def)
  moreover have "call_inv ?T (cq_calls s) (cq_log s)" using call_inv_thread [OF I(5) t, of Idle] p by simp
  ultimately show ?thesis by (simp add: cq_inv_def push_publish_def cq_goto_def Let_def a)
qed

subsection \<open>Popping\<close>

text \<open>
  The pop of a buffer's last line frees the buffer. It is hasty while a thread has stored its line there
  but not counted it.
\<close>

definition hasty :: "'l cq_event \<Rightarrow> 'l cqueue \<Rightarrow> bool" where
  "hasty e s \<longleftrightarrow> (case e of
     Pop \<Rightarrow> Suc (unat (qb_read_index (cq_mem s))) = Buffer_size
       \<and> (case get_next_read_buffer (cq_mem s) of None \<Rightarrow> False | Some a \<Rightarrow> Counting a \<in> set (cq_threads s))
   | _ \<Rightarrow> False)"

text \<open>What a pop does: the line at the read position, once it is stored.\<close>

lemma try_pop_eq:
  assumes sh: "shape_inv f w m T" and d: "data_inv w m T log" and rd: "read_inv f m log out"
  defines "m1 \<equiv> m\<lparr>qb_current_read_buffer := get_next_read_buffer m\<rparr>"
  shows "f = w \<Longrightarrow> QueueBuffer_try_pop m = Inr (None, m1)"
    "qb_heap m f = Some b \<Longrightarrow> f < w \<Longrightarrow> length out = f * Buffer_size + r \<Longrightarrow> bf_write_state b r = 0 \<Longrightarrow>
       QueueBuffer_try_pop m = Inr (None, m1)"
    "qb_heap m f = Some b \<Longrightarrow> f < w \<Longrightarrow> length out = f * Buffer_size + r \<Longrightarrow> bf_write_state b r \<noteq> 0 \<Longrightarrow>
       QueueBuffer_try_pop m = Inr (Some (snd (log ! length out)),
         if Suc r = Buffer_size
         then m\<lparr>qb_read_index := 0, qb_current_read_buffer := None, qb_buffers := [Suc f..<w], qb_heap := (qb_heap m)(f := None)\<rparr>
         else m1\<lparr>qb_read_index := of_nat (Suc r)\<rparr>)"
proof -
  have m1: "(if qb_current_read_buffer m = None then m\<lparr>qb_current_read_buffer := get_next_read_buffer m\<rparr> else m) = m1"
    using rd by (auto simp: read_inv_def m1_def)
  have bufs: "qb_buffers m = [f..<w]" using sh by (simp add: shape_inv_def)
  show "f = w \<Longrightarrow> QueueBuffer_try_pop m = Inr (None, m1)"
    unfolding QueueBuffer_try_pop_def m1 by (simp add: m1_def get_next_read_buffer_def bufs Let_def)
  assume b: "qb_heap m f = Some b" "f < w" "length out = f * Buffer_size + r"
  have r: "r < Buffer_size" "qb_read_index m = of_nat r" using rd b(3) by (auto simp: read_inv_def)
  have nxt: "get_next_read_buffer m = Some f" using bufs b(2) by (simp add: get_next_read_buffer_def upt_conv_Cons)
  have eq: "QueueBuffer_try_pop m = bind_res (Buffer_try_pop (of_nat r) b) (\<lambda>x. if x = None then Inr (None, m1)
      else if of_nat r + 1 = (of_nat Buffer_size :: u32)
      then Inr (x, m\<lparr>qb_read_index := 0, qb_current_read_buffer := None, qb_buffers := [Suc f..<w], qb_heap := (qb_heap m)(f := None)\<rparr>)
      else Inr (x, m1\<lparr>qb_read_index := of_nat (Suc r)\<rparr>))"
    unfolding QueueBuffer_try_pop_def m1
    using nxt b(1,2) r(2) bufs by (simp add: m1_def qb_deref_def Let_def upt_conv_Cons add.commute cong: if_cong)
  have full: "(of_nat r + 1 = (of_nat Buffer_size :: u32)) \<longleftrightarrow> Suc r = Buffer_size"
    using r(1) index_word [of "Suc r"] index_word [of Buffer_size] by (metis Suc_leI add.commute of_nat_Suc order_refl)
  have cell: "bf_write_state b r = 0 \<or> bf_items b r = Some (snd (log ! length out))"
    using d b(1,3) r(1) by (auto simp: data_inv_def cells_inv_def)
  show "bf_write_state b r = 0 \<Longrightarrow> QueueBuffer_try_pop m = Inr (None, m1)"
    unfolding eq using r(1) by (simp add: Buffer_try_pop_def index_word)
  show "bf_write_state b r \<noteq> 0 \<Longrightarrow> QueueBuffer_try_pop m = Inr (Some (snd (log ! length out)),
         if Suc r = Buffer_size
         then m\<lparr>qb_read_index := 0, qb_current_read_buffer := None, qb_buffers := [Suc f..<w], qb_heap := (qb_heap m)(f := None)\<rparr>
         else m1\<lparr>qb_read_index := of_nat (Suc r)\<rparr>)"
    unfolding eq using r(1) cell by (simp add: Buffer_try_pop_def index_word full)
qed

lemma read_inv_buffer:
  assumes "shape_inv f w m T" and "f < w"
  obtains b where "qb_heap m f = Some b"
proof -
  have "f \<le> f \<and> f < qb_allocated m" using assms by (simp add: shape_inv_def)
  then have "qb_heap m f \<noteq> None" using assms(1) unfolding shape_inv_def by blast
  then show ?thesis using that by blast
qed

text \<open>The line that is popped next is the next of the log.\<close>

lemma read_inv_more:
  assumes d: "data_inv w m T log" and rd: "read_inv f m log out" and b: "qb_heap m f = Some b" "bf_write_state b r \<noteq> 0"
    and r: "length out = f * Buffer_size + r" "r < Buffer_size"
  shows "length out < length log" "out @ [snd (log ! length out)] = map snd (take (Suc (length out)) log)"
    "\<forall>i < Suc r. bf_write_state b i = 1"
proof -
  have c: "cells_inv log f b" using d b(1) by (simp add: data_inv_def)
  then show l: "length out < length log" using b(2) r by (auto simp: cells_inv_def)
  have "out = map snd (take (length out) log)" using rd by (auto simp: read_inv_def)
  then show "out @ [snd (log ! length out)] = map snd (take (Suc (length out)) log)"
    using l by (metis list.simps(8,9) map_append take_Suc_conv_app_nth)
  have "bf_write_state b r = 1" using c b(2) r(2) by (auto simp: cells_inv_def)
  moreover have "\<forall>i < r. bf_write_state b i = 1" using rd b(1) r(1) by (auto simp: read_inv_def)
  ultimately show "\<forall>i < Suc r. bf_write_state b i = 1" by (auto simp: less_Suc_eq)
qed

text \<open>Once all lines of the last published buffer are stored and none is being counted, nobody is busy.\<close>

lemma last_buffer_idle:
  assumes i: "cq_inv f w s" and b: "qb_heap (cq_mem s) (w - 1) = Some b" and all: "\<forall>i < Buffer_size. bf_write_state b i = 1"
    and calm: "Counting (w - 1) \<notin> set (cq_threads s)"
  shows "threads_at busy (cq_threads s) = 0"
proof -
  let ?T = "cq_threads s" and ?wi = "qb_write_index (cq_mem s)"
  note I = inv_parts [OF i]
  have cur: "current_inv w ?wi b ?T" using I(3) b by (simp add: data_inv_def)
  have "pending_index (?T ! t) = None" if t: "t < length ?T" for t
  proof (cases "pending_index (?T ! t)")
    case (Some j)
    then have "j < min (unat ?wi) Buffer_size" using I(3) t by (auto simp: data_inv_def)
    then show ?thesis using cur all Some t by (auto simp: current_inv_def)
  qed simp
  moreover have "\<not> counting p" if p: "p \<in> set ?T" for p
  proof -
    have "placed w p" using I(2) p by (simp add: phase_inv_def)
    then show ?thesis using calm p by (cases p) auto
  qed
  ultimately show ?thesis by (auto simp: threads_at_0 busy_def in_set_conv_nth)
qed

lemma freed_inv:
  assumes i: "cq_inv f w s" and h: "\<not> hasty Pop s" and b: "qb_heap (cq_mem s) f = Some b" and f: "f < w"
    and full: "Suc r = Buffer_size" and r: "qb_read_index (cq_mem s) = of_nat r" "length (cq_out s) = f * Buffer_size + r"
    and more: "length (cq_out s) < length (cq_log s)"
      "cq_out s @ [snd (cq_log s ! length (cq_out s))] = map snd (take (Suc (length (cq_out s))) (cq_log s))"
      "\<forall>i < Suc r. bf_write_state b i = 1"
  shows "cq_inv (Suc f) w (s\<lparr>cq_mem := (cq_mem s)\<lparr>qb_read_index := 0, qb_current_read_buffer := None,
      qb_buffers := [Suc f..<w], qb_heap := (qb_heap (cq_mem s))(f := None)\<rparr>,
    cq_out := cq_out s @ [snd (cq_log s ! length (cq_out s))]\<rparr>)"
proof -
  let ?m = "cq_mem s" and ?T = "cq_threads s" and ?out = "cq_out s @ [snd (cq_log s ! length (cq_out s))]"
  let ?m' = "?m\<lparr>qb_read_index := 0, qb_current_read_buffer := None, qb_buffers := [Suc f..<w], qb_heap := (qb_heap ?m)(f := None)\<rparr>"
  note I = inv_parts [OF i]
  have nxt: "get_next_read_buffer ?m = Some f"
    using I(1) f by (simp add: get_next_read_buffer_def shape_inv_def upt_conv_Cons)
  have calm: "Counting f \<notin> set ?T"
    using h nxt r(1) full index_word [of r] by (simp add: hasty_def)
  have idle: "threads_at busy ?T = 0" if "Suc f = w"
    using last_buffer_idle [OF i, of b] b more(3) calm full that by auto
  have "shape_inv (Suc f) w ?m' ?T" using I(1) f by (auto simp: shape_inv_def)
  moreover have "phase_inv (Suc f) w (qb_write_index ?m') ?T"
  proof -
    have "Suc f < w" if "0 < threads_at busy ?T" using idle that f by (cases "Suc f = w") auto
    then show ?thesis using I(2) by (simp add: phase_inv_def)
  qed
  moreover have "data_inv w ?m' ?T (cq_log s)" using I(3) by (auto simp: data_inv_def)
  moreover have "read_inv (Suc f) ?m' (cq_log s) ?out"
  proof -
    have l: "length ?out = Suc f * Buffer_size" "length ?out = Suc (length (cq_out s))" using r(2) full by simp_all
    have "?out = map snd (take (length ?out) (cq_log s))" using more(2) unfolding l(2) .
    moreover have "(0 :: nat) < Buffer_size" by (simp add: Buffer_size_def)
    ultimately show ?thesis unfolding read_inv_def using l(1)
      by (intro exI [of _ 0] conjI) (assumption | simp del: append_Nil2 length_append)+
  qed
  ultimately show ?thesis using I(5) by (simp add: cq_inv_def)
qed

lemma pop_step_inv:
  assumes i: "cq_inv f w s" and h: "\<not> hasty Pop s"
  shows "\<exists>s' f'. pop_step s = Inr s' \<and> cq_inv f' w s' \<and> cq_threads s' = cq_threads s"
proof -
  let ?m = "cq_mem s" and ?m1 = "(cq_mem s)\<lparr>qb_current_read_buffer := get_next_read_buffer (cq_mem s)\<rparr>"
  note I = inv_parts [OF i]
  obtain r where r: "r < Buffer_size" "qb_read_index ?m = of_nat r" "length (cq_out s) = f * Buffer_size + r"
    using I(4) by (auto simp: read_inv_def)
  note pop = try_pop_eq [OF I(1,3,4)]
  have idle: "cq_inv f w (s\<lparr>cq_mem := ?m1, cq_out := cq_out s @ []\<rparr>)"
    using i by (auto simp: cq_inv_def shape_inv_def data_inv_def read_inv_def get_next_read_buffer_def)
  have "f \<le> w" using I(1) by (simp add: shape_inv_def)
  then consider "f = w" | "f < w" by linarith
  then show ?thesis
  proof cases
    case 1
    then show ?thesis using pop(1) idle by (auto simp: pop_step_def)
  next
    case 2
    obtain b where b: "qb_heap ?m f = Some b" using read_inv_buffer [OF I(1) 2] .
    show ?thesis
    proof (cases "bf_write_state b r = 0")
      case True
      then show ?thesis using pop(2) [OF b 2 r(3)] idle by (auto simp: pop_step_def)
    next
      case False
      note more = read_inv_more [OF I(3,4) b False r(3,1)]
      let ?out = "cq_out s @ [snd (cq_log s ! length (cq_out s))]"
      show ?thesis
      proof (cases "Suc r = Buffer_size")
        case True
        let ?m' = "?m\<lparr>qb_read_index := 0, qb_current_read_buffer := None, qb_buffers := [Suc f..<w], qb_heap := (qb_heap ?m)(f := None)\<rparr>"
        have "cq_inv (Suc f) w (s\<lparr>cq_mem := ?m', cq_out := ?out\<rparr>)"
          by (rule freed_inv [OF i h b 2 True r(2,3) more])
        then show ?thesis using pop(3) [OF b 2 r(3) False] True by (auto simp: pop_step_def)
      next
        case no: False
        have "read_inv f (?m1\<lparr>qb_read_index := of_nat (Suc r)\<rparr>) (cq_log s) ?out"
          using r no more b I(4) unfolding read_inv_def by (intro exI [of _ "Suc r"]) (auto simp: get_next_read_buffer_def)
        then have "cq_inv f w (s\<lparr>cq_mem := ?m1\<lparr>qb_read_index := of_nat (Suc r)\<rparr>, cq_out := ?out\<rparr>)"
          using i by (auto simp: cq_inv_def shape_inv_def data_inv_def)
        then show ?thesis using pop(3) [OF b 2 r(3) False] no by (auto simp: pop_step_def)
      qed
    qed
  qed
qed
section \<open>Runs\<close>

lemmas push_defs = push_claim_def push_load_def push_store_def push_count_def push_new_def push_publish_def push_spin_def

text \<open>A step of \<open>push\<close> moves its own thread only; it pops nothing and calls nothing.\<close>

lemma list_update_self: "\<exists>p. T = T[t := p]"
  by (rule exI [of _ "T ! t"]) simp

lemma push_step_frame:
  assumes "push_step t s = Inr s'"
  shows "\<exists>p. cq_threads s' = (cq_threads s)[t := p]" "cq_calls s' = cq_calls s" "cq_out s' = cq_out s"
    "\<exists>xs. cq_log s' = cq_log s @ xs"
  using assms list_update_self [of "cq_threads s" t] by (cases "cq_threads s ! t";
      auto simp: push_step_def push_defs cq_goto_def Let_def split: if_splits option.splits)+

lemma push_step_inv:
  assumes i: "cq_inv f w s" and t: "t < length (cq_threads s)" and n: "length (cq_threads s) + Buffer_size < 2 ^ 32"
  shows "\<exists>s' w'. push_step t s = Inr s' \<and> cq_inv f w' s'"
proof (cases "cq_threads s ! t")
  case Idle
  then show ?thesis using i by (auto simp: push_step_def)
next
  case (Start l)
  then show ?thesis using claim_step_inv [OF i t Start n] by (auto simp: push_step_def)
next
  case (Claimed j l)
  then show ?thesis using load_step_inv [OF i t Claimed] by (auto simp: push_step_def)
next
  case (Loaded a j l)
  then show ?thesis using store_step_inv [OF i t Loaded] by (auto simp: push_step_def)
next
  case (Counting a)
  then show ?thesis using count_step_inv [OF i t Counting] by (auto simp: push_step_def)
next
  case NewBuffer
  then show ?thesis using new_step_inv [OF i t NewBuffer] by (auto simp: push_step_def)
next
  case (Publishing a)
  then show ?thesis using publish_step_inv [OF i t Publishing] by (auto simp: push_step_def)
next
  case (Spinning l)
  then show ?thesis using spin_step_inv [OF i t Spinning] by (auto simp: push_step_def)
qed

lemma cq_step_inv:
  assumes i: "cq_inv f w s" and h: "\<not> hasty e s" and n: "length (cq_threads s) + Buffer_size < 2 ^ 32"
  shows "\<exists>s' f' w'. cq_step e s = Inr s' \<and> cq_inv f' w' s' \<and> length (cq_threads s') = length (cq_threads s)"
proof (cases e)
  case (Call t l)
  then show ?thesis using i call_step_inv [OF i, of t l] by (auto simp: cq_step_def cq_goto_def)
next
  case (Step t)
  then show ?thesis
    using i push_step_inv [OF i _ n, of t] push_step_frame(1) [of t s] by (auto simp: cq_step_def) (metis length_list_update)
next
  case Pop
  then show ?thesis using pop_step_inv [OF i] h by (fastforce simp: cq_step_def)
qed

text \<open>
  The runs in which the reader leaves a buffer alone until all its lines are counted; a fault would
  not make a run less polite.
\<close>

fun polite :: "'l cq_event list \<Rightarrow> 'l cqueue \<Rightarrow> bool" where
  "polite [] s = True"
| "polite (e # es) s = (\<not> hasty e s \<and> (case cq_step e s of Inl _ \<Rightarrow> True | Inr s' \<Rightarrow> polite es s'))"

lemma polite_run_inv:
  assumes "cq_inv f w s" and "polite es s" and "length (cq_threads s) + Buffer_size < 2 ^ 32"
  shows "\<exists>s' f' w'. fold_res cq_step es s = Inr s' \<and> cq_inv f' w' s' \<and> length (cq_threads s') = length (cq_threads s)"
  using assms
proof (induction es arbitrary: f w s)
  case (Cons e es)
  obtain s1 f1 w1 where s1: "cq_step e s = Inr s1" "cq_inv f1 w1 s1" "length (cq_threads s1) = length (cq_threads s)"
    using cq_step_inv [OF Cons.prems(1) _ Cons.prems(3), of e] Cons.prems(2) by auto
  then show ?case using Cons.IH [OF s1(2)] Cons.prems(2,3) by simp
qed auto

subsection \<open>Every push can finish\<close>

text \<open>
  The steps a thread still has to make. A thread that finds no place waits for the one that switches;
  when nobody works on the buffer and nobody switches, there is a place.
\<close>

fun steps_left :: "'l pusher \<Rightarrow> nat" where
  "steps_left Idle = 0"
| "steps_left (Publishing a) = 1"
| "steps_left NewBuffer = 2"
| "steps_left (Counting a) = 3"
| "steps_left (Loaded a i l) = 4"
| "steps_left (Claimed i l) = 5"
| "steps_left (Start l) = 6"
| "steps_left (Spinning l) = 7"

definition work_left :: "'l pusher list \<Rightarrow> nat" where
  "work_left T = sum_list (map steps_left T)"

lemma steps_left_0: "steps_left p = 0 \<longleftrightarrow> p = Idle"
  by (cases p) simp_all

lemma work_left_0: "work_left T = 0 \<Longrightarrow> T = replicate (length T) Idle"
  by (simp add: work_left_def steps_left_0 replicate_length_same)

lemma work_left_le: "work_left T \<le> 7 * length T"
proof (induction T)
  case (Cons p T)
  have "steps_left p \<le> 7" by (cases p) simp_all
  then show ?case using Cons by (simp add: work_left_def)
qed (simp add: work_left_def)

lemma work_left_update:
  "t < length T \<Longrightarrow> steps_left p < steps_left (T ! t) \<Longrightarrow> work_left (T[t := p]) < work_left T"
proof (induction T arbitrary: t)
  case (Cons q T)
  then show ?case by (cases t) (auto simp: work_left_def)
qed simp

text \<open>A step that is not a failed claim and not a turn of the waiting loop brings its thread forward.\<close>

lemma step_forward:
  assumes "push_step t s = Inr s'" and "t < length (cq_threads s)" and "cq_threads s ! t \<noteq> Idle"
    and "busy (cq_threads s ! t) \<or> switching (cq_threads s ! t) \<or> unat (qb_write_index (cq_mem s)) < Buffer_size"
  shows "steps_left (cq_threads s' ! t) < steps_left (cq_threads s ! t)"
  using assms by (cases "cq_threads s ! t")
    (auto simp: push_step_def push_defs cq_goto_def Let_def busy_def split: if_splits option.splits)

lemma some_thread_moves:
  assumes i: "cq_inv f w s" and n: "length (cq_threads s) + Buffer_size < 2 ^ 32" and work: "work_left (cq_threads s) \<noteq> 0"
  shows "\<exists>t s' w'. cq_step (Step t) s = Inr s' \<and> cq_inv f w' s' \<and> work_left (cq_threads s') < work_left (cq_threads s)
    \<and> length (cq_threads s') = length (cq_threads s) \<and> cq_calls s' = cq_calls s"
proof -
  let ?T = "cq_threads s"
  have "\<exists>p \<in> set ?T. p \<noteq> Idle \<and> (busy p \<or> switching p \<or> unat (qb_write_index (cq_mem s)) < Buffer_size)"
  proof (cases "unat (qb_write_index (cq_mem s)) < Buffer_size")
    case True
    have "\<exists>p \<in> set ?T. p \<noteq> Idle" using work by (auto simp: work_left_def steps_left_0)
    then show ?thesis using True by blast
  next
    case False
    then have "threads_at busy ?T \<noteq> 0 \<or> threads_at switching ?T \<noteq> 0" using inv_parts(2) [OF i] by (auto simp: phase_inv_def)
    then obtain p where p: "p \<in> set ?T" "busy p \<or> switching p" by (auto simp: threads_at_0)
    moreover have "p \<noteq> Idle" using p(2) by (auto simp: busy_def)
    ultimately show ?thesis by blast
  qed
  then obtain t where t: "t < length ?T" "?T ! t \<noteq> Idle"
    "busy (?T ! t) \<or> switching (?T ! t) \<or> unat (qb_write_index (cq_mem s)) < Buffer_size"
    by (auto simp: in_set_conv_nth)
  obtain s' w' where s': "push_step t s = Inr s'" "cq_inv f w' s'" using push_step_inv [OF i t(1) n] by blast
  obtain p where p: "cq_threads s' = ?T[t := p]" using push_step_frame(1) [OF s'(1)] by blast
  have "work_left (cq_threads s') < work_left ?T"
    using work_left_update [OF t(1)] step_forward [OF s'(1) t] t(1) by (simp add: p)
  then show ?thesis using s' t(1) p push_step_frame(2) [OF s'(1)] by (intro exI [of _ t] exI [of _ s'] exI [of _ w']) (simp add: cq_step_def)
qed

lemma pushes_finish:
  assumes "cq_inv f w s" and "length (cq_threads s) + Buffer_size < 2 ^ 32"
  shows "\<exists>ts s' w'. fold_res cq_step (map Step ts) s = Inr s' \<and> cq_inv f w' s' \<and> length ts \<le> work_left (cq_threads s)
    \<and> cq_threads s' = replicate (length (cq_threads s)) Idle \<and> cq_calls s' = cq_calls s"
  using assms
proof (induction "work_left (cq_threads s)" arbitrary: s w rule: less_induct)
  case less
  show ?case
  proof (cases "work_left (cq_threads s) = 0")
    case True
    then show ?thesis using less.prems by (intro exI [of _ "[]"]) (simp, metis work_left_0)
  next
    case False
    obtain t s1 w1 where s1: "cq_step (Step t) s = Inr s1" "cq_inv f w1 s1" "work_left (cq_threads s1) < work_left (cq_threads s)"
      "length (cq_threads s1) = length (cq_threads s)" "cq_calls s1 = cq_calls s"
      using some_thread_moves [OF less.prems False] by blast
    obtain ts s' w' where "fold_res cq_step (map Step ts) s1 = Inr s'" "cq_inv f w' s'" "length ts \<le> work_left (cq_threads s1)"
      "cq_threads s' = replicate (length (cq_threads s)) Idle" "cq_calls s' = cq_calls s"
      using less.hyps [OF s1(3,2)] less.prems(2) s1(4,5) by auto
    then show ?thesis using s1(1,3) by (intro exI [of _ "t # ts"]) auto
  qed
qed
subsection \<open>Every line comes out\<close>

text \<open>With no thread between its claim and its store, every line of the log is stored: a pop returns the next.\<close>

lemma pop_next:
  assumes i: "cq_inv f w s" and calm: "\<And>p. p \<in> set (cq_threads s) \<Longrightarrow> pending_index p = None"
    and more: "length (cq_out s) < length (cq_log s)"
  shows "\<exists>m l. pop_step s = Inr (s\<lparr>cq_mem := m, cq_out := cq_out s @ [l]\<rparr>)
    \<and> (Suc (unat (qb_read_index (cq_mem s))) = Buffer_size \<longrightarrow> f < w \<and> get_next_read_buffer (cq_mem s) = Some f \<and> qb_heap m f = None)"
proof -
  let ?m = "cq_mem s" and ?B = Buffer_size
  note I = inv_parts [OF i]
  obtain r where r: "r < ?B" "qb_read_index ?m = of_nat r" "length (cq_out s) = f * ?B + r" using I(4) by (auto simp: read_inv_def)
  have w: "f \<le> w" "0 < w" "qb_buffers ?m = [f..<w]" using I(1) by (simp_all add: shape_inv_def)
  have len: "length (cq_log s) = (w - 1) * ?B + min (unat (qb_write_index ?m)) ?B" using I(3) by (simp add: data_inv_def)
  have f: "f < w"
  proof (rule ccontr)
    assume "\<not> f < w"
    then have "w * ?B \<le> length (cq_out s)" using w r(3) by simp
    moreover have "w * ?B = (w - 1) * ?B + ?B" using w(2) by (cases w) auto
    ultimately show False using more len by simp
  qed
  obtain b where b: "qb_heap ?m f = Some b" using read_inv_buffer [OF I(1) f] .
  have "bf_write_state b r \<noteq> 0"
  proof (cases "f = w - 1")
    case True
    then have "current_inv w (qb_write_index ?m) b (cq_threads s)" "r < min (unat (qb_write_index ?m)) ?B"
      using I(3) b more len r(3) by (auto simp: data_inv_def)
    then show ?thesis using calm nth_mem by (fastforce simp: current_inv_def)
  next
    case False
    then show ?thesis using I(3) b f r(1) by (auto simp: data_inv_def)
  qed
  note pop = try_pop_eq(3) [OF I(1,3,4) b f r(3) this]
  have "get_next_read_buffer ?m = Some f" using w f by (simp add: get_next_read_buffer_def upt_conv_Cons)
  moreover have "unat (qb_read_index ?m) = r" using r index_word [of r] by simp
  ultimately show ?thesis using f by (cases "Suc r = ?B") (auto simp: pop_step_def pop)
qed

text \<open>Threads that have stored their lines do not hold the reader up; it must stop before a hasty pop.\<close>

lemma pops_return:
  assumes "cq_inv f w s" and "\<And>p. p \<in> set (cq_threads s) \<Longrightarrow> pending_index p = None"
    and "length (cq_out s) + k \<le> length (cq_log s)"
    and "(\<exists>p \<in> set (cq_threads s). counting p) \<Longrightarrow> unat (qb_read_index (cq_mem s)) + k < Buffer_size"
  shows "\<exists>m out f'. fold_res cq_step (replicate k Pop) s = Inr (s\<lparr>cq_mem := m, cq_out := out\<rparr>)
    \<and> cq_inv f' w (s\<lparr>cq_mem := m, cq_out := out\<rparr>) \<and> length out = length (cq_out s) + k"
  using assms
proof (induction k arbitrary: f s)
  case 0
  then show ?case by (intro exI [of _ "cq_mem s"] exI [of _ "cq_out s"] exI [of _ f]) simp
next
  case (Suc k)
  obtain m l where m: "pop_step s = Inr (s\<lparr>cq_mem := m, cq_out := cq_out s @ [l]\<rparr>)"
    using pop_next [OF Suc.prems(1,2)] Suc.prems(3) by auto
  let ?s = "s\<lparr>cq_mem := m, cq_out := cq_out s @ [l]\<rparr>"
  have "\<not> hasty Pop s"
  proof
    assume "hasty Pop s"
    then obtain a where "Counting a \<in> set (cq_threads s)" "Suc (unat (qb_read_index (cq_mem s))) = Buffer_size"
      by (auto simp: hasty_def split: option.splits)
    then show False using Suc.prems(4) by force
  qed
  then obtain f1 where i: "cq_inv f1 w ?s" using pop_step_inv [OF Suc.prems(1)] m by auto
  have idx: "unat (qb_read_index m) + k < Buffer_size" if "\<exists>p \<in> set (cq_threads s). counting p"
  proof -
    obtain r where r: "r < Buffer_size" "qb_read_index (cq_mem s) = of_nat r" "length (cq_out s) = f * Buffer_size + r"
      using inv_parts(4) [OF Suc.prems(1)] by (auto simp: read_inv_def)
    obtain r' where r': "r' < Buffer_size" "qb_read_index m = of_nat r'" "Suc (length (cq_out s)) = f1 * Buffer_size + r'"
      using inv_parts(4) [OF i] by (auto simp: read_inv_def)
    have "r + Suc k < Buffer_size" using Suc.prems(4) [OF that] r index_word [of r] by simp
    moreover from this have "r' = Suc r"
    proof -
      have "(f1 * Buffer_size + r') mod Buffer_size = (f * Buffer_size + Suc r) mod Buffer_size" using r(3) r'(3) by simp
      then show ?thesis using \<open>r + Suc k < Buffer_size\<close> r'(1) by simp
    qed
    ultimately show ?thesis using r'(2) index_word [of r'] by simp
  qed
  obtain m' out f' where "fold_res cq_step (replicate k Pop) ?s = Inr (?s\<lparr>cq_mem := m', cq_out := out\<rparr>)"
    "cq_inv f' w (?s\<lparr>cq_mem := m', cq_out := out\<rparr>)" "length out = length (cq_out s) + Suc k"
    using Suc.IH [OF i] Suc.prems(2,3) idx by auto
  moreover have "cq_step Pop s = Inr ?s" using m by (simp add: cq_step_def)
  ultimately show ?case by (intro exI [of _ m'] exI [of _ out] exI [of _ f']) simp
qed

lemma drain:
  assumes i: "cq_inv f w s" and idle: "cq_threads s = replicate n Idle"
  shows "\<exists>k s'. fold_res cq_step (replicate k Pop) s = Inr s' \<and> cq_threads s' = cq_threads s \<and> cq_calls s' = cq_calls s
    \<and> cq_log s' = cq_log s \<and> cq_out s' = map snd (cq_log s)"
proof -
  let ?k = "length (cq_log s) - length (cq_out s)"
  have le: "length (cq_out s) \<le> length (cq_log s)" using read_inv_le [OF inv_parts(4) [OF i]] .
  obtain m out f' where p: "fold_res cq_step (replicate ?k Pop) s = Inr (s\<lparr>cq_mem := m, cq_out := out\<rparr>)"
    "cq_inv f' w (s\<lparr>cq_mem := m, cq_out := out\<rparr>)" "length out = length (cq_log s)"
    using pops_return [OF i, of ?k] idle le by auto
  have "out = map snd (take (length out) (cq_log s))" using inv_parts(4) [OF p(2)] by (auto simp: read_inv_def)
  then have "out = map snd (cq_log s)" using p(3) by simp
  then show ?thesis using p(1) by (intro exI [of _ ?k]) auto
qed
section \<open>Properties\<close>

text \<open>
  One thread that runs its steps in a row pushes as the sequential \<open>QueueBuffer_push\<close> does: the split
  into atomic accesses adds nothing and leaves nothing out.
\<close>

lemma push_alone:
  assumes t: "t < length (cq_threads s)" "cq_threads s ! t = Idle" and push: "QueueBuffer_push l (cq_mem s) = Inr m"
  shows "fold_res cq_step (Call t l # replicate 6 (Step t)) s
    = Inr (s\<lparr>cq_mem := m, cq_calls := cq_calls s @ [(t, l)], cq_log := cq_log s @ [(t, l)]\<rparr>)"
proof -
  let ?m = "cq_mem s"
  obtain a b where ab: "unat (qb_write_index ?m) < Buffer_size" "qb_current_write_buffer ?m = Some a" "qb_heap ?m a = Some b"
    using push by (auto simp: QueueBuffer_push_def qb_deref_def Let_def bind_res_def split: if_splits option.splits)
  have "(cq_threads s)[t := Idle] = cq_threads s" using t(2) by (metis list_update_id)
  then show ?thesis
    using t push ab by (auto simp: eval_nat_numeral(2,3) cq_step_def push_step_def push_defs cq_goto_def Let_def QueueBuffer_push_def
        qb_deref_def Buffer_push_def setup_next_write_buffer_def)
qed

text \<open>
  C35: the queue buffer under concurrency. Any number of threads (below \<open>2 ^ 32 - 32768\<close>) push while one
  thread pops, interleaved at every atomic access in any way, except that the reader does not pop the
  last line of a buffer while a thread has stored a line there and not counted it. Then no access
  faults (no null or freed buffer, no place outside a buffer); the lines come out in the order in which
  their indices were claimed, each once, each the line that was pushed; every thread's lines keep their
  order, and the only lines not in the log are those whose push has not claimed an index yet. Nobody
  is stuck: from every such state the waiting threads can finish (in at most seven steps each), and
  popping then returns every line of every call.
\<close>

theorem queue_buffer_concurrent:
  assumes "n + Buffer_size < 2 ^ 32" and "polite evs (cq_init n)"
  shows "\<exists>s. fold_res cq_step evs (cq_init n) = Inr s
    \<and> cq_out s = map snd (take (length (cq_out s)) (cq_log s))
    \<and> (\<forall>t < n. lines_of t (cq_calls s) = lines_of t (cq_log s) @ unclaimed (cq_threads s ! t))
    \<and> (\<exists>ts k s'. fold_res cq_step (map Step ts @ replicate k Pop) s = Inr s' \<and> length ts \<le> 7 * n
         \<and> cq_threads s' = replicate n Idle \<and> cq_out s' = map snd (cq_log s')
         \<and> (\<forall>t < n. lines_of t (cq_log s') = lines_of t (cq_calls s)))"
proof -
  have n: "length (cq_threads (cq_init n :: 'a cqueue)) = n" by (simp add: cq_init_def)
  obtain s f w where s: "fold_res cq_step evs (cq_init n) = Inr s" "cq_inv f w s" "length (cq_threads s) = n"
    using polite_run_inv [OF cq_inv_init assms(2)] assms(1) n by auto
  note I = inv_parts [OF s(2)]
  obtain ts s1 w1 where s1: "fold_res cq_step (map Step ts) s = Inr s1" "cq_inv f w1 s1" "length ts \<le> work_left (cq_threads s)"
      "cq_threads s1 = replicate n Idle" "cq_calls s1 = cq_calls s"
    using pushes_finish [OF s(2)] s(3) assms(1) by auto
  obtain k s2 where s2: "fold_res cq_step (replicate k Pop) s1 = Inr s2" "cq_threads s2 = cq_threads s1" "cq_calls s2 = cq_calls s1"
      "cq_log s2 = cq_log s1" "cq_out s2 = map snd (cq_log s1)"
    using drain [OF s1(2,4)] by blast
  have "fold_res cq_step (map Step ts @ replicate k Pop) s = Inr s2" using s1(1) s2(1) by (simp add: fold_res_append)
  moreover have "length ts \<le> 7 * n" using s1(3) work_left_le [of "cq_threads s"] s(3) by simp
  moreover have "\<forall>t < n. lines_of t (cq_log s2) = lines_of t (cq_calls s)"
    using inv_parts(5) [OF s1(2)] s1(4,5) s2(4) by (simp add: call_inv_def)
  moreover have "cq_out s = map snd (take (length (cq_out s)) (cq_log s))" using I(4) by (auto simp: read_inv_def)
  moreover have "\<forall>t < n. lines_of t (cq_calls s) = lines_of t (cq_log s) @ unclaimed (cq_threads s ! t)"
    using I(5) s(3) by (simp add: call_inv_def)
  ultimately show ?thesis using s(1) s1(4) s2(2,4,5)
    by (intro exI [of _ s] conjI exI [of _ ts] exI [of _ k] exI [of _ s2]) simp_all
qed

text \<open>Two threads interleave; the second claims its index first and stores its line last.\<close>

definition sample_race :: "string cq_event list" where
  "sample_race = [Call 0 ''a'', Call 1 ''b'', Step 1, Step 0, Step 0, Step 0, Pop, Step 1, Step 0, Step 1, Pop, Pop, Step 1, Pop]"

theorem queue_buffer_concurrent_witness:
  "polite sample_race (cq_init 2) \<and> map_res cq_out (fold_res cq_step sample_race (cq_init 2)) = Inr [''b'', ''a'']"
proof -
  note run = sample_race_def cq_init_def QueueBuffer_new_def setup_next_write_buffer_def Buffer_new_def Buffer_size_def cq_step_def
    push_step_def push_defs cq_goto_def pop_step_def QueueBuffer_try_pop_def get_next_read_buffer_def qb_deref_def
    Buffer_try_pop_def hasty_def
  have two: "replicate 2 x = [x, x]" for x :: "string pusher" by (simp add: numeral_2_eq_2)
  have p: "polite sample_race (cq_init 2)" by (simp add: run two Let_def)
  have "map_res (\<lambda>s. (cq_log s, length (cq_out s))) (fold_res cq_step sample_race (cq_init 2)) = Inr ([(1, ''b''), (0, ''a'')], 2)"
    by (simp add: run two Let_def)
  moreover obtain s where "fold_res cq_step sample_race (cq_init 2) = Inr s" "cq_out s = map snd (take (length (cq_out s)) (cq_log s))"
    using queue_buffer_concurrent [of 2 sample_race] p by (auto simp: Buffer_size_def)
  ultimately show ?thesis using p by simp
qed
text \<open>
  The exception is real. A thread stores the last line of a buffer; before it counts the line, the
  reader pops the whole buffer and frees it; the thread's \<open>fetch_add\<close> is then on freed memory. One
  pushing thread and the reader are enough.
\<close>

lemma first_buffer:
  assumes "cq_inv f w s" and "length (cq_log s) < Buffer_size"
  shows "w = 1" "unat (qb_write_index (cq_mem s)) = length (cq_log s)"
proof -
  have d: "length (cq_log s) = (w - 1) * Buffer_size + min (unat (qb_write_index (cq_mem s))) Buffer_size" "0 < w"
    using inv_parts(1,3) [OF assms(1)] by (simp_all add: data_inv_def shape_inv_def)
  show w: "w = 1"
  proof (rule ccontr)
    assume "w \<noteq> 1"
    then have "1 \<le> w - 1" using d(2) by simp
    then have "Buffer_size \<le> (w - 1) * Buffer_size" using mult_le_mono1 [of 1 "w - 1" Buffer_size] by simp
    then show False using d(1) assms(2) by linarith
  qed
  then show "unat (qb_write_index (cq_mem s)) = length (cq_log s)" using d(1) assms(2) by simp
qed

lemma store_one:
  assumes i: "cq_inv f w s" and T: "cq_threads s = [Idle]" and l: "length (cq_log s) < Buffer_size"
  shows "\<exists>s' a. fold_res cq_step [Call 0 l, Step 0, Step 0, Step 0] s = Inr s' \<and> cq_inv f w s' \<and> cq_threads s' = [Counting a]
    \<and> cq_out s' = cq_out s \<and> length (cq_log s') = Suc (length (cq_log s))"
proof -
  let ?s1 = "cq_goto 0 (Start l) (s\<lparr>cq_calls := cq_calls s @ [(0, l)]\<rparr>)"
  define k where "k = length (cq_log s)"
  have wi: "unat (qb_write_index (cq_mem s)) = k" "k < Buffer_size" using first_buffer(2) [OF i l] l by (simp_all add: k_def)
  have 1: "cq_step (Call 0 l) s = Inr ?s1" "cq_inv f w ?s1" using call_step_inv [OF i] T by (simp_all add: cq_step_def)
  define s2 where "s2 = push_claim 0 l ?s1"
  have "cq_inv f w s2" unfolding s2_def
    using claim_step_inv [OF 1(2), of 0 l] T by (simp add: cq_goto_def Buffer_size_def)
  moreover have s2: "cq_step (Step 0) ?s1 = Inr s2" "cq_threads s2 = [Claimed k l]" "cq_out s2 = cq_out s" "length (cq_log s2) = Suc k"
    using T wi by (simp_all add: s2_def cq_step_def push_step_def push_claim_def cq_goto_def Let_def k_def)
  ultimately obtain s3 where s3: "push_load 0 k l s2 = Inr s3" "cq_inv f w s3" using load_step_inv [of f w s2 0 k l] by auto
  then obtain a where a: "cq_threads s3 = [Loaded a k l]" "cq_out s3 = cq_out s" "length (cq_log s3) = Suc k"
    using s2 by (auto simp: push_load_def cq_goto_def split: option.splits)
  obtain s4 where s4: "push_store 0 a k l s3 = Inr s4" "cq_inv f w s4" using store_step_inv [of f w s3 0 a k l] s3(2) a by auto
  then have "cq_threads s4 = [Counting a]" "cq_out s4 = cq_out s" "length (cq_log s4) = Suc k"
    using a by (auto simp: push_store_def cq_goto_def Let_def split: option.splits if_splits)
  moreover have "cq_step (Step 0) s2 = Inr s3" "cq_step (Step 0) s3 = Inr s4"
    using s2(2) s3(1) a(1) s4(1) by (simp_all add: cq_step_def push_step_def)
  ultimately show ?thesis using 1(1) s2(1) s4(2) by (simp add: k_def)
qed

lemma count_one:
  assumes i: "cq_inv f w s" and T: "cq_threads s = [Counting a]" and l: "length (cq_log s) < Buffer_size"
  shows "\<exists>s'. cq_step (Step 0) s = Inr s' \<and> cq_inv f w s' \<and> cq_threads s' = [Idle] \<and> cq_out s' = cq_out s \<and> cq_log s' = cq_log s"
proof -
  obtain s' where s': "push_count 0 a s = Inr s'" "cq_inv f w s'" using count_step_inv [OF i, of 0 a] T by auto
  then have f: "cq_threads s' = [NewBuffer] \<or> cq_threads s' = [Idle]" "cq_out s' = cq_out s" "cq_log s' = cq_log s"
    using T by (auto simp: push_count_def cq_goto_def Let_def split: option.splits if_splits)
  have "cq_threads s' \<noteq> [NewBuffer]"
    using switching_facts(4) [OF s'(2), of 0] first_buffer(1) [OF i l] l f(3) by auto
  then show ?thesis using s' f T by (simp add: cq_step_def push_step_def)
qed

lemma fill_buffer:
  fixes l :: 'l
  shows "k < Buffer_size \<Longrightarrow> \<exists>evs (s :: 'l cqueue) f w. fold_res cq_step evs (cq_init 1) = Inr s \<and> cq_inv f w s \<and> cq_threads s = [Idle]
     \<and> cq_out s = [] \<and> length (cq_log s) = k"
proof (induction k)
  case 0
  show ?case using cq_inv_init [of 1] by (intro exI [of _ "[]"]) (auto simp: cq_init_def)
next
  case (Suc k)
  then obtain evs f w and s :: "'l cqueue" where s: "fold_res cq_step evs (cq_init 1) = Inr s" "cq_inv f w s" "cq_threads s = [Idle]"
     "cq_out s = []" "length (cq_log s) = k" by auto
  obtain s1 a where s1: "fold_res cq_step [Call 0 l, Step 0, Step 0, Step 0] s = Inr s1" "cq_inv f w s1"
    "cq_threads s1 = [Counting a]" "cq_out s1 = []" "length (cq_log s1) = Suc k"
    using store_one [OF s(2,3), of l] s(4,5) Suc.prems by (auto dest: Suc_lessD)
  obtain s2 where "cq_step (Step 0) s1 = Inr s2" "cq_inv f w s2" "cq_threads s2 = [Idle]" "cq_out s2 = []" "length (cq_log s2) = Suc k"
    using count_one [OF s1(2,3)] s1(4,5) Suc.prems by auto
  then show ?case using s(1) s1(1)
    by (intro exI [of _ "evs @ [Call 0 l, Step 0, Step 0, Step 0] @ [Step 0]"]) (auto simp: fold_res_append simp del: append_Cons)
qed

lemma reader_frees_counting_buffer:
  fixes l :: 'l
  shows "\<exists>evs. fold_res cq_step evs (cq_init 1 :: 'l cqueue) = Inl UseAfterFree"
proof -
  define n where "n = Buffer_size - 1"
  have n: "n < Buffer_size" "Suc n = Buffer_size" by (simp_all add: n_def Buffer_size_def)
  obtain evs f w and s :: "'l cqueue" where s: "fold_res cq_step evs (cq_init 1) = Inr s" "cq_inv f w s" "cq_threads s = [Idle]"
     "cq_out s = []" "length (cq_log s) = n" using fill_buffer [OF n(1)] by blast
  have w: "w = 1" using first_buffer(1) [OF s(2)] s(5) n(1) by simp
  obtain s1 a where s1: "fold_res cq_step [Call 0 l, Step 0, Step 0, Step 0] s = Inr s1" "cq_inv f w s1"
    "cq_threads s1 = [Counting a]" "cq_out s1 = []" "length (cq_log s1) = Buffer_size"
    using store_one [OF s(2,3), of l] s(4,5) n by (auto simp del: fold_res.simps)
  have a: "a = 0" using inv_parts(2) [OF s1(2)] s1(3) w by (simp add: phase_inv_def)
  have "unat (qb_read_index (cq_mem s1)) = 0" using inv_parts(4) [OF s1(2)] s1(4) by (auto simp: read_inv_def)
  then obtain m out f' where p: "fold_res cq_step (replicate n Pop) s1 = Inr (s1\<lparr>cq_mem := m, cq_out := out\<rparr>)"
    "cq_inv f' w (s1\<lparr>cq_mem := m, cq_out := out\<rparr>)" "length out = n"
    using pops_return [OF s1(2), of n] s1(3,4,5) n by auto
  let ?s = "s1\<lparr>cq_mem := m, cq_out := out\<rparr>"
  obtain r where r: "r < Buffer_size" "qb_read_index m = of_nat r" "n = f' * Buffer_size + r"
    using inv_parts(4) [OF p(2)] p(3) by (auto simp: read_inv_def)
  have "f' = 0" using r(3) n(1) by (cases f') auto
  then have "Suc (unat (qb_read_index m)) = Buffer_size" using r n(2) index_word [of r] by simp
  then obtain m' l' where "pop_step ?s = Inr (?s\<lparr>cq_mem := m', cq_out := out @ [l']\<rparr>)" "qb_heap m' 0 = None"
    using pop_next [OF p(2)] s1(3,5) p(3) n \<open>f' = 0\<close> by auto
  then have "fold_res cq_step [Pop, Step 0] ?s = Inl UseAfterFree"
    using s1(3) a by (simp add: cq_step_def push_step_def push_count_def)
  then have "fold_res cq_step (evs @ [Call 0 l, Step 0, Step 0, Step 0] @ replicate n Pop @ [Pop, Step 0]) (cq_init 1) = Inl UseAfterFree"
    using s(1) s1(1) p(1) by (simp add: fold_res_append bind_res_def del: append_Cons fold_res.simps(2))
  then show ?thesis by blast
qed

end
