(* ===== verification/Nano_Ring.thy ===== *)
theory Nano_Ring
  imports Nano_Buffers
begin

text \<open>
  \<open>SpinLock\<close> and \<open>RingBuffer\<close> under concurrency (\<open>util/nanolog.hpp\<close>): many threads push, one pops. The spin
  lock excludes; a push is therefore two steps, the \<open>fetch_add\<close> that reserves a slot and the locked
  section that fills it, and a pop is its locked section.
\<close>

section \<open>SpinLock\<close>

text \<open>The constructor spins on \<open>test_and_set\<close>, the destructor clears the flag.\<close>

datatype spinner = Outside | Trying | Holding

datatype spin_event = Enter nat | TestAndSet nat | Clear nat

definition SpinLock_test_and_set :: "bool \<Rightarrow> bool \<times> bool" where
  "SpinLock_test_and_set flag = (flag, True)"

definition spin_step :: "spin_event \<Rightarrow> bool \<times> spinner list \<Rightarrow> bool \<times> spinner list" where
  "spin_step e s =
     (let (flag, T) = s in
      case e of
        Enter t \<Rightarrow> if t < length T \<and> T ! t = Outside then (flag, T[t := Trying]) else s
      | TestAndSet t \<Rightarrow>
          if t < length T \<and> T ! t = Trying
          then (let (old, flag') = SpinLock_test_and_set flag in (flag', T[t := if old then Trying else Holding])) else s
      | Clear t \<Rightarrow> if t < length T \<and> T ! t = Holding then (False, T[t := Outside]) else s)"

lemma spin_lock_step_inv:
  assumes "threads_at (\<lambda>p. p = Holding) T = of_bool flag" and "spin_step e (flag, T) = (flag', T')"
  shows "threads_at (\<lambda>p. p = Holding) T' = of_bool flag' \<and> length T' = length T"
proof -
  have up: "threads_at (\<lambda>p. p = Holding) (T[t := p]) + of_bool (T ! t = Holding) = of_bool flag + of_bool (p = Holding)"
    if "t < length T" for t p using threads_at_update [OF that, of "\<lambda>p. p = Holding" p] assms(1) by simp
  show ?thesis
  proof (cases e)
    case (Enter t)
    then show ?thesis using assms up [of t Trying] by (auto simp: spin_step_def split: if_splits)
  next
    case (TestAndSet t)
    then show ?thesis using assms up [of t Trying] up [of t Holding]
      by (auto simp: spin_step_def SpinLock_test_and_set_def split: if_splits)
  next
    case (Clear t)
    then show ?thesis using assms up [of t Outside] by (cases flag) (auto simp: spin_step_def split: if_splits)
  qed
qed

lemma threads_at_two:
  assumes "t < length T" and "u < length T" and "t \<noteq> u" and "P (T ! t)" and "P (T ! u)"
  shows "2 \<le> threads_at P T"
proof -
  have "{t, u} \<subseteq> {i. i < length T \<and> P (T ! i)}" using assms by auto
  then have "card {t, u} \<le> card {i. i < length T \<and> P (T ! i)}" by (intro card_mono) auto
  then show ?thesis using assms(3) by (simp add: threads_at_def length_filter_conv_card)
qed

text \<open>At most one thread is in a locked section, and the lock is free when none is.\<close>

lemma spin_lock_exclusive:
  assumes "fold spin_step es (False, replicate n Outside) = (flag, T)"
  shows "t < n \<Longrightarrow> u < n \<Longrightarrow> T ! t = Holding \<Longrightarrow> T ! u = Holding \<Longrightarrow> t = u"
    "Holding \<notin> set T \<Longrightarrow> t < n \<Longrightarrow> T ! t = Trying \<Longrightarrow> spin_step (TestAndSet t) (flag, T) = (True, T[t := Holding])"
proof -
  have "threads_at (\<lambda>p. p = Holding) (snd s') = of_bool (fst s') \<and> length (snd s') = length (snd s)"
    if "fold spin_step es s = s'" "threads_at (\<lambda>p. p = Holding) (snd s) = of_bool (fst s)" for s s'
    using that
  proof (induction es arbitrary: s)
    case (Cons e es)
    obtain flag' T' where "spin_step e s = (flag', T')" by (metis surj_pair)
    then show ?case using Cons spin_lock_step_inv [of "snd s" "fst s" e flag' T'] by auto
  qed simp
  from this [OF assms] have i: "threads_at (\<lambda>p. p = Holding) T = of_bool flag" "length T = n"
    by (simp_all add: threads_at_def)
  show "t = u" if "t < n" "u < n" "T ! t = Holding" "T ! u = Holding"
    using threads_at_two [of t T u "\<lambda>p. p = Holding"] i that by (cases flag) auto
  show "spin_step (TestAndSet t) (flag, T) = (True, T[t := Holding])" if "Holding \<notin> set T" "t < n" "T ! t = Trying"
  proof -
    have "threads_at (\<lambda>p. p = Holding) T = 0" using that(1) by (auto simp: threads_at_0)
    then have "\<not> flag" using i(1) by simp
    then show ?thesis using that i(2) by (simp add: spin_step_def SpinLock_test_and_set_def)
  qed
qed

section \<open>The ring and its threads\<close>

datatype 'l ring_pusher = Resting | Entering 'l | Reserved nat 'l

text \<open>\<open>cr_calls\<close>, \<open>cr_log\<close> and \<open>cr_out\<close> are history: calls, reservations and popped lines, in their order.\<close>

record 'l cring =
  cr_ring :: "'l RingBuffer"
  cr_threads :: "'l ring_pusher list"
  cr_calls :: "(nat \<times> 'l) list"
  cr_log :: "(nat \<times> 'l) list"
  cr_out :: "'l list"

datatype 'l ring_event = Push nat 'l | Move nat | TryPop

definition ring_reserve :: "nat \<Rightarrow> 'l \<Rightarrow> 'l cring \<Rightarrow> 'l cring res" where
  "ring_reserve t l s =
     (let b = cr_ring s in
      map_res (\<lambda>i. s\<lparr>cr_ring := b\<lparr>rb_write_index := rb_write_index b + 1\<rparr>,
          cr_threads := (cr_threads s)[t := Reserved i l], cr_log := cr_log s @ [(t, l)]\<rparr>)
        (ring_slot (rb_write_index b) b))"

definition ring_store :: "nat \<Rightarrow> nat \<Rightarrow> 'l \<Rightarrow> 'l cring \<Rightarrow> 'l cring" where
  "ring_store t i l s =
     (let b = cr_ring s in
      s\<lparr>cr_ring := b\<lparr>rb_ring := (rb_ring b)[i := \<lparr>ri_written = True, ri_logline = l\<rparr>]\<rparr>,
        cr_threads := (cr_threads s)[t := Resting]\<rparr>)"

definition ring_pop :: "'l cring \<Rightarrow> 'l cring res" where
  "ring_pop s =
     map_res (\<lambda>(r, b). s\<lparr>cr_ring := b, cr_out := cr_out s @ (case r of None \<Rightarrow> [] | Some l \<Rightarrow> [l])\<rparr>)
       (RingBuffer_try_pop (cr_ring s))"

definition ring_step :: "'l ring_event \<Rightarrow> 'l cring \<Rightarrow> 'l cring res" where
  "ring_step e s =
     (case e of
        Push t l \<Rightarrow>
          Inr (if t < length (cr_threads s) \<and> cr_threads s ! t = Resting
               then s\<lparr>cr_threads := (cr_threads s)[t := Entering l], cr_calls := cr_calls s @ [(t, l)]\<rparr> else s)
      | Move t \<Rightarrow>
          if t < length (cr_threads s)
          then (case cr_threads s ! t of
                  Resting \<Rightarrow> Inr s
                | Entering l \<Rightarrow> ring_reserve t l s
                | Reserved i l \<Rightarrow> Inr (ring_store t i l s))
          else Inr s
      | TryPop \<Rightarrow> ring_pop s)"

definition ring_init :: "'l \<Rightarrow> size_t \<Rightarrow> nat \<Rightarrow> 'l cring" where
  "ring_init blank sz n =
     \<lparr>cr_ring = RingBuffer_new blank sz, cr_threads = replicate n Resting, cr_calls = [], cr_log = [], cr_out = []\<rparr>"

text \<open>The runs in which a slot is reserved only while fewer lines are outstanding than the ring has items.\<close>

definition overruns :: "'l ring_event \<Rightarrow> 'l cring \<Rightarrow> bool" where
  "overruns e s \<longleftrightarrow> unat (rb_size (cr_ring s)) \<le> length (cr_log s) - length (cr_out s)
     \<and> (case e of
          Move t \<Rightarrow> t < length (cr_threads s) \<and> (case cr_threads s ! t of Entering l \<Rightarrow> True | _ \<Rightarrow> False)
        | _ \<Rightarrow> False)"

fun roomy :: "'l ring_event list \<Rightarrow> 'l cring \<Rightarrow> bool" where
  "roomy [] s = True"
| "roomy (e # es) s = (\<not> overruns e s \<and> (case ring_step e s of Inl _ \<Rightarrow> True | Inr s' \<Rightarrow> roomy es s'))"
section \<open>The invariant\<close>

fun entering_line :: "'l ring_pusher \<Rightarrow> 'l list" where
  "entering_line (Entering l) = [l]"
| "entering_line _ = []"

text \<open>Reservation number \<open>k\<close> belongs to slot \<open>k mod n\<close>; some thread is about to fill the slot.\<close>

definition awaited :: "nat \<Rightarrow> 'l ring_pusher list \<Rightarrow> bool" where
  "awaited i T \<longleftrightarrow> (\<exists>t < length T. \<exists>l. T ! t = Reserved i l)"

definition slots_inv :: "nat \<Rightarrow> nat \<Rightarrow> 'l ring_item list \<Rightarrow> 'l ring_pusher list \<Rightarrow> (nat \<times> 'l) list \<Rightarrow> bool" where
  "slots_inv n r ring T log \<longleftrightarrow>
     (\<forall>k. r \<le> k \<and> k < length log \<longrightarrow> ri_written (ring ! (k mod n)) \<noteq> awaited (k mod n) T
        \<and> (ri_written (ring ! (k mod n)) \<longrightarrow> ri_logline (ring ! (k mod n)) = snd (log ! k)))
     \<and> (\<forall>k. length log \<le> k \<and> k < r + n \<longrightarrow> \<not> ri_written (ring ! (k mod n)))
     \<and> (\<forall>t < length T. \<forall>i l. T ! t = Reserved i l \<longrightarrow> (\<exists>k. r \<le> k \<and> k < length log \<and> i = k mod n \<and> log ! k = (t, l)))"

definition ring_inv :: "nat \<Rightarrow> 'l cring \<Rightarrow> bool" where
  "ring_inv n s \<longleftrightarrow> 0 < n \<and> n dvd 2 ^ 32 \<and> unat (rb_size (cr_ring s)) = n \<and> length (rb_ring (cr_ring s)) = n
     \<and> rb_write_index (cr_ring s) = of_nat (length (cr_log s)) \<and> rb_read_index (cr_ring s) = of_nat (length (cr_out s))
     \<and> length (cr_out s) \<le> length (cr_log s) \<and> length (cr_log s) \<le> length (cr_out s) + n
     \<and> slots_inv n (length (cr_out s)) (rb_ring (cr_ring s)) (cr_threads s) (cr_log s)
     \<and> cr_out s = map snd (take (length (cr_out s)) (cr_log s))
     \<and> (\<forall>t < length (cr_threads s). lines_of t (cr_calls s) = lines_of t (cr_log s) @ entering_line (cr_threads s ! t))"

lemma ring_inv_init:
  assumes "0 < sz" and "unat sz dvd 2 ^ 32"
  shows "ring_inv (unat sz) (ring_init blank sz m)"
  using assms by (auto simp: ring_inv_def ring_init_def RingBuffer_new_def slots_inv_def awaited_def lines_of_def word_less_nat_alt)

lemma slots_invI:
  assumes "\<And>k. r \<le> k \<Longrightarrow> k < length log \<Longrightarrow> ri_written (ring ! (k mod n)) \<noteq> awaited (k mod n) T"
    and "\<And>k. r \<le> k \<Longrightarrow> k < length log \<Longrightarrow> ri_written (ring ! (k mod n)) \<Longrightarrow> ri_logline (ring ! (k mod n)) = snd (log ! k)"
    and "\<And>k. length log \<le> k \<Longrightarrow> k < r + n \<Longrightarrow> \<not> ri_written (ring ! (k mod n))"
    and "\<And>t i l. t < length T \<Longrightarrow> T ! t = Reserved i l \<Longrightarrow> \<exists>k. r \<le> k \<and> k < length log \<and> i = k mod n \<and> log ! k = (t, l)"
  shows "slots_inv n r ring T log"
  unfolding slots_inv_def using assms by blast

lemma slots_invD:
  assumes "slots_inv n r ring T log"
  shows "\<And>k. r \<le> k \<Longrightarrow> k < length log \<Longrightarrow> ri_written (ring ! (k mod n)) \<noteq> awaited (k mod n) T"
    "\<And>k. r \<le> k \<Longrightarrow> k < length log \<Longrightarrow> ri_written (ring ! (k mod n)) \<Longrightarrow> ri_logline (ring ! (k mod n)) = snd (log ! k)"
    "\<And>k. length log \<le> k \<Longrightarrow> k < r + n \<Longrightarrow> \<not> ri_written (ring ! (k mod n))"
    "\<And>t i l. t < length T \<Longrightarrow> T ! t = Reserved i l \<Longrightarrow> \<exists>k. r \<le> k \<and> k < length log \<and> i = k mod n \<and> log ! k = (t, l)"
  using assms unfolding slots_inv_def by blast+

text \<open>Within a window as long as the ring, different numbers have different slots.\<close>

lemma window_inj:
  fixes n :: nat
  assumes "j mod n = k mod n" and "r \<le> j" and "j < r + n" and "r \<le> k" and "k < r + n"
  shows "j = k"
proof -
  have "j - r = k - r" using mod_shift_inj [of r "j - r" n "k - r"] assms by simp
  then show ?thesis using assms(2,4) by simp
qed

lemma unat_of_nat_mod: "n dvd 2 ^ 32 \<Longrightarrow> unat (of_nat k :: u32) mod n = k mod n"
  using unat_add_mod_dvd [of n 0 k] by simp

lemma awaited_update:
  assumes "t < length T"
  shows "awaited i (T[t := p]) \<longleftrightarrow> (\<exists>l. p = Reserved i l) \<or> (\<exists>u < length T. u \<noteq> t \<and> (\<exists>l. T ! u = Reserved i l))"
  using assms by (auto simp: awaited_def nth_list_update)

lemma slots_reserve:
  assumes i: "slots_inv n r ring T log" and t: "t < length T" and p: "T ! t = Entering l"
    and room: "r \<le> length log" "length log < r + n"
  shows "slots_inv n r ring (T[t := Reserved (length log mod n) l]) (log @ [(t, l)])"
proof -
  let ?L = "length log" and ?T = "T[t := Reserved (length log mod n) l]"
  have "awaited (k mod n) ?T = awaited (k mod n) T" if "r \<le> k" "k < ?L" for k
    using window_inj [of k n ?L r] that room t p by (auto simp: awaited_update) (auto simp: awaited_def)
  moreover have "awaited (?L mod n) ?T" using t by (simp add: awaited_update)
  moreover have "\<not> ri_written (ring ! (?L mod n))" using slots_invD(3) [OF i, of ?L] room by simp
  moreover have "\<exists>k. r \<le> k \<and> k < Suc ?L \<and> j = k mod n \<and> (log @ [(t, l)]) ! k = (u, m)"
    if u: "u < length T" "?T ! u = Reserved j m" for u j m
  proof (cases "u = t")
    case True
    then show ?thesis using u t room by (intro exI [of _ ?L]) simp
  next
    case False
    then obtain k where "r \<le> k" "k < ?L" "j = k mod n" "log ! k = (u, m)" using slots_invD(4) [OF i u(1)] u(2) by auto
    then show ?thesis by (intro exI [of _ k]) (simp add: nth_append)
  qed
  ultimately show ?thesis
    by (intro slots_invI) (use slots_invD(1-3) [OF i] in \<open>auto simp: less_Suc_eq nth_append\<close>)
qed

lemma slots_store:
  assumes i: "slots_inv n r ring T log" and t: "t < length T" and p: "T ! t = Reserved j l"
    and n: "0 < n" "length ring = n" "length log \<le> r + n"
  shows "slots_inv n r (ring[j := \<lparr>ri_written = True, ri_logline = l\<rparr>]) (T[t := Resting]) log"
proof -
  let ?x = "\<lparr>ri_written = True, ri_logline = l\<rparr>" and ?T = "T[t := Resting]"
  obtain k where k: "r \<le> k" "k < length log" "j = k mod n" "log ! k = (t, l)" using slots_invD(4) [OF i t p] by blast
  have at: "ring[k mod n := ?x] ! (m mod n) = (if m = k then ?x else ring ! (m mod n))" if "r \<le> m" "m < r + n" for m
    using window_inj [of m n k r] that k n by (auto simp: nth_list_update)
  have "awaited (m mod n) ?T = (m \<noteq> k \<and> awaited (m mod n) T)" if m: "r \<le> m" "m < length log" for m
  proof -
    have key: "u = t \<longleftrightarrow> m = k" if u: "u < length T" "T ! u = Reserved (m mod n) l'" for u l'
    proof -
      obtain k' where k': "r \<le> k'" "k' < length log" "m mod n = k' mod n" "log ! k' = (u, l')" using slots_invD(4) [OF i u] by blast
      then have "log ! m = (u, l')" using window_inj [of m n k' r] m n(3) by simp
      then have "m = k \<Longrightarrow> u = t" using k(4) by simp
      moreover have "u = t \<Longrightarrow> m mod n = k mod n" using u(2) p k(3) by simp
      ultimately show ?thesis using window_inj [of m n k r] k(1,2) m n(3) by linarith
    qed
    have "(\<exists>u < length T. u \<noteq> t \<and> (\<exists>l. T ! u = Reserved (m mod n) l)) \<longleftrightarrow> m \<noteq> k \<and> awaited (m mod n) T"
      unfolding awaited_def using key by blast
    then show ?thesis by (simp add: awaited_update [OF t])
  qed
  moreover have "?T ! u = Reserved i' l' \<Longrightarrow> u < length T \<Longrightarrow> T ! u = Reserved i' l'" for u i' l'
    using t by (cases "u = t") auto
  ultimately show ?thesis unfolding k(3)
    by (intro slots_invI) (use slots_invD [OF i] k(1,2,4) n(3) in \<open>auto simp: at split: if_splits\<close>)
qed

lemma slots_pop:
  assumes i: "slots_inv n r ring T log" and w: "ri_written (ring ! (r mod n))" and n: "0 < n" "length ring = n"
    and r: "r < length log" "length log \<le> r + n"
  shows "slots_inv n (Suc r) (ring[r mod n := (ring ! (r mod n))\<lparr>ri_written := False\<rparr>]) T log"
proof -
  let ?x = "(ring ! (r mod n))\<lparr>ri_written := False\<rparr>"
  have at: "ring[r mod n := ?x] ! (m mod n) = (if m = r + n then ?x else ring ! (m mod n))" if "Suc r \<le> m" "m < Suc (r + n)" for m
    using window_inj [of m n r r] that n by (cases "m = r + n") (auto simp: nth_list_update)
  have "\<not> awaited (r mod n) T" using slots_invD(1) [OF i, of r] w r(1) by simp
  then have "\<exists>k. Suc r \<le> k \<and> k < length log \<and> j = k mod n \<and> log ! k = (t, l)" if t: "t < length T" "T ! t = Reserved j l" for t j l
  proof -
    obtain k where k: "r \<le> k" "k < length log" "j = k mod n" "log ! k = (t, l)" using slots_invD(4) [OF i t] by blast
    moreover have "k \<noteq> r" using \<open>\<not> awaited (r mod n) T\<close> k t by (auto simp: awaited_def)
    ultimately show ?thesis by (intro exI [of _ k]) simp
  qed
  then show ?thesis
    by (intro slots_invI) (use slots_invD(1-3) [OF i] r in \<open>auto simp: at\<close>)
qed
lemma push_call_inv:
  assumes i: "ring_inv n s" and t: "t < length (cr_threads s)" and p: "cr_threads s ! t = Resting"
  shows "ring_inv n (s\<lparr>cr_threads := (cr_threads s)[t := Entering l], cr_calls := cr_calls s @ [(t, l)]\<rparr>)"
proof -
  let ?T = "(cr_threads s)[t := Entering l]"
  have "awaited j ?T = awaited j (cr_threads s)" for j
    using t p by (simp add: awaited_update) (auto simp: awaited_def)
  moreover have "?T ! u = Reserved j m \<Longrightarrow> u < length (cr_threads s) \<Longrightarrow> cr_threads s ! u = Reserved j m" for u j m
    using t by (cases "u = t") auto
  ultimately have "slots_inv n (length (cr_out s)) (rb_ring (cr_ring s)) ?T (cr_log s)"
    using i unfolding ring_inv_def slots_inv_def by simp
  then show ?thesis using i t p by (auto simp: ring_inv_def nth_list_update lines_of_def)
qed

lemma reserve_step_inv:
  assumes i: "ring_inv n s" and t: "t < length (cr_threads s)" and p: "cr_threads s ! t = Entering l"
    and room: "length (cr_log s) < length (cr_out s) + n"
  shows "\<exists>s'. ring_reserve t l s = Inr s' \<and> ring_inv n s'"
proof -
  let ?b = "cr_ring s" and ?L = "length (cr_log s)"
  have n: "0 < n" "n dvd 2 ^ 32" "unat (rb_size ?b) = n" "length (rb_ring ?b) = n" "rb_write_index ?b = of_nat ?L"
    "length (cr_out s) \<le> ?L" "cr_out s = map snd (take (length (cr_out s)) (cr_log s))"
    "slots_inv n (length (cr_out s)) (rb_ring ?b) (cr_threads s) (cr_log s)"
    using i by (simp_all add: ring_inv_def)
  have slot: "ring_slot (rb_write_index ?b) ?b = Inr (?L mod n)"
    using ring_slot_mod [OF n(1-4)] unat_of_nat_mod [OF n(2), of ?L] n(5) by simp
  have "slots_inv n (length (cr_out s)) (rb_ring ?b) ((cr_threads s)[t := Reserved (?L mod n) l]) (cr_log s @ [(t, l)])"
    by (rule slots_reserve [OF n(8) t p n(6) room])
  moreover have "cr_out s = map snd (take (length (cr_out s)) (cr_log s @ [(t, l)]))" using n(6,7) by simp
  moreover have "lines_of u (cr_calls s) = lines_of u (cr_log s @ [(t, l)]) @ entering_line ((cr_threads s)[t := Reserved (?L mod n) l] ! u)"
    if "u < length (cr_threads s)" for u
    using i t p that by (cases "u = t") (auto simp: ring_inv_def lines_of_def)
  moreover have "ring_reserve t l s = Inr (s\<lparr>cr_ring := ?b\<lparr>rb_write_index := rb_write_index ?b + 1\<rparr>,
      cr_threads := (cr_threads s)[t := Reserved (?L mod n) l], cr_log := cr_log s @ [(t, l)]\<rparr>)"
    by (simp add: ring_reserve_def slot Let_def)
  ultimately show ?thesis using i room n(5) by (simp add: ring_inv_def add.commute)
qed

lemma store_slot_inv:
  assumes i: "ring_inv n s" and t: "t < length (cr_threads s)" and p: "cr_threads s ! t = Reserved j l"
  shows "ring_inv n (ring_store t j l s)"
  using i slots_store [of n "length (cr_out s)" "rb_ring (cr_ring s)" "cr_threads s" "cr_log s" t j l] t p
  by (auto simp: ring_inv_def ring_store_def Let_def nth_list_update)

text \<open>What a pop does: the line at the read position, once it is written.\<close>

lemma ring_pop_inv:
  assumes i: "ring_inv n s"
  defines "w \<equiv> ri_written (rb_ring (cr_ring s) ! (length (cr_out s) mod n))"
  shows "\<exists>s'. ring_pop s = Inr s' \<and> ring_inv n s' \<and> cr_threads s' = cr_threads s \<and> cr_calls s' = cr_calls s \<and> cr_log s' = cr_log s
    \<and> length (cr_out s') = length (cr_out s) + of_bool w"
proof -
  let ?b = "cr_ring s" and ?R = "length (cr_out s)"
  have n: "0 < n" "n dvd 2 ^ 32" "unat (rb_size ?b) = n" "length (rb_ring ?b) = n" "rb_read_index ?b = of_nat ?R"
    "?R \<le> length (cr_log s)" "length (cr_log s) \<le> ?R + n" "cr_out s = map snd (take ?R (cr_log s))"
    "slots_inv n ?R (rb_ring ?b) (cr_threads s) (cr_log s)"
    using i by (simp_all add: ring_inv_def)
  have slot: "ring_slot (rb_read_index ?b) ?b = Inr (?R mod n)"
    using ring_slot_mod [OF n(1-4)] unat_of_nat_mod [OF n(2), of ?R] n(5) by simp
  show ?thesis
  proof (cases w)
    case True
    let ?x = "rb_ring ?b ! (?R mod n)"
    have R: "?R < length (cr_log s)"
    proof (rule ccontr)
      assume "\<not> ?R < length (cr_log s)"
      then show False using slots_invD(3) [OF n(9), of ?R] n(1,6) True by (simp add: w_def)
    qed
    have l: "ri_logline ?x = snd (cr_log s ! ?R)" using slots_invD(2) [OF n(9), of ?R] R True by (simp add: w_def)
    have "slots_inv n (Suc ?R) ((rb_ring ?b)[?R mod n := ?x\<lparr>ri_written := False\<rparr>]) (cr_threads s) (cr_log s)"
      using slots_pop [OF n(9) _ n(1,4) R n(7)] True by (simp add: w_def)
    moreover obtain out where out: "out = cr_out s @ [snd (cr_log s ! ?R)]" "length out = Suc ?R" by simp
    moreover have "out = map snd (take (Suc ?R) (cr_log s))"
      using R n(8) out(1) by (metis list.simps(8,9) map_append take_Suc_conv_app_nth)
    moreover have "ring_pop s = Inr (s\<lparr>cr_ring := ?b\<lparr>rb_ring := (rb_ring ?b)[?R mod n := ?x\<lparr>ri_written := False\<rparr>],
        rb_read_index := rb_read_index ?b + 1\<rparr>, cr_out := out\<rparr>)"
      using True l out(1) by (simp add: ring_pop_def RingBuffer_try_pop_def slot Let_def w_def)
    ultimately show ?thesis using i R True n(5,7) by (simp add: ring_inv_def add.commute)
  next
    case False
    then show ?thesis using i by (simp add: ring_pop_def RingBuffer_try_pop_def slot Let_def w_def)
  qed
qed

lemma ring_step_inv:
  assumes i: "ring_inv n s" and o: "\<not> overruns e s"
  shows "\<exists>s'. ring_step e s = Inr s' \<and> ring_inv n s' \<and> length (cr_threads s') = length (cr_threads s)"
proof (cases e)
  case (Push t l)
  then show ?thesis using i push_call_inv [OF i, of t l] by (auto simp: ring_step_def)
next
  case (Move t)
  show ?thesis
  proof (cases "t < length (cr_threads s)")
    case True
    show ?thesis
    proof (cases "cr_threads s ! t")
      case Resting
      then show ?thesis using i Move by (simp add: ring_step_def)
    next
      case (Entering l)
      have "length (cr_log s) < length (cr_out s) + n" using o Move True Entering i by (auto simp: overruns_def ring_inv_def)
      from reserve_step_inv [OF i True Entering this] show ?thesis
        using Move True Entering by (auto simp: ring_step_def ring_reserve_def map_res_def Let_def split: sum.splits)
    next
      case (Reserved j l)
      then show ?thesis using store_slot_inv [OF i True Reserved] Move True by (simp add: ring_step_def) (simp add: ring_store_def Let_def)
    qed
  next
    case False
    then show ?thesis using i Move by (simp add: ring_step_def)
  qed
next
  case TryPop
  then show ?thesis using ring_pop_inv [OF i] by (auto simp: ring_step_def)
qed

lemma roomy_run_inv:
  assumes "ring_inv n s" and "roomy es s"
  shows "\<exists>s'. fold_res ring_step es s = Inr s' \<and> ring_inv n s' \<and> length (cr_threads s') = length (cr_threads s)"
  using assms
proof (induction es arbitrary: s)
  case (Cons e es)
  obtain s1 where s1: "ring_step e s = Inr s1" "ring_inv n s1" "length (cr_threads s1) = length (cr_threads s)"
    using ring_step_inv [OF Cons.prems(1), of e] Cons.prems(2) by auto
  then show ?case using Cons.IH [OF s1(2)] Cons.prems(2) by simp
qed simp

text \<open>When no thread has a slot to fill, every reserved slot is written and the pops return them all.\<close>

lemma ring_drain:
  assumes "ring_inv n s" and "cr_threads s = replicate m Resting"
  shows "\<exists>s'. fold_res ring_step (replicate (length (cr_log s) - length (cr_out s)) TryPop) s = Inr s'
    \<and> cr_out s' = map snd (cr_log s)"
  using assms
proof (induction "length (cr_log s) - length (cr_out s)" arbitrary: s)
  case 0
  then have "length (cr_out s) = length (cr_log s)" "cr_out s = map snd (take (length (cr_out s)) (cr_log s))"
    by (simp_all add: ring_inv_def)
  then show ?case by simp
next
  case (Suc d)
  let ?R = "length (cr_out s)"
  have R: "?R < length (cr_log s)" using Suc.hyps(2) by simp
  have "slots_inv n ?R (rb_ring (cr_ring s)) (cr_threads s) (cr_log s)" using Suc.prems(1) by (simp add: ring_inv_def)
  moreover have "\<not> awaited j (cr_threads s)" for j using Suc.prems(2) by (simp add: awaited_def)
  ultimately have "ri_written (rb_ring (cr_ring s) ! (?R mod n))" using slots_invD(1) [of n ?R _ _ "cr_log s" ?R] R by blast
  then obtain s1 where s1: "ring_pop s = Inr s1" "ring_inv n s1" "cr_threads s1 = cr_threads s" "cr_log s1 = cr_log s"
    "length (cr_out s1) = Suc ?R" using ring_pop_inv [OF Suc.prems(1)] by auto
  have "d = length (cr_log s1) - length (cr_out s1)" using Suc.hyps(2) s1(4,5) by simp
  from Suc.hyps(1) [OF this s1(2)] have "\<exists>s'. fold_res ring_step (replicate d TryPop) s1 = Inr s' \<and> cr_out s' = map snd (cr_log s)"
    using Suc.prems(2) s1(3,4) \<open>d = _\<close> by simp
  moreover have "ring_step TryPop s = Inr s1" using s1(1) by (simp add: ring_step_def)
  ultimately show ?case using Suc.hyps(2) [symmetric] by simp
qed

section \<open>Properties\<close>

text \<open>
  C37: the ring buffer under concurrency. Any number of threads push while one thread pops, interleaved
  at the reservation of a slot and at the locked section that fills it; the ring's size divides
  \<open>2 ^ 32\<close>, and a slot is reserved only while fewer lines are outstanding than the ring has items. Then
  no access faults and the lines come out in the order their slots were reserved, each once, also if a
  later slot is filled first and also when the 32-bit indices have wrapped around; every thread's lines
  keep their order, and a line that is not reserved yet is the one its thread is about to reserve. When
  all pushes have returned, popping returns all remaining lines.
\<close>

theorem ring_buffer_concurrent:
  assumes "0 < sz" and "unat sz dvd 2 ^ 32" and "roomy evs (ring_init blank sz m)"
  shows "\<exists>s. fold_res ring_step evs (ring_init blank sz m) = Inr s
    \<and> cr_out s = map snd (take (length (cr_out s)) (cr_log s))
    \<and> (\<forall>t < m. lines_of t (cr_calls s) = lines_of t (cr_log s) @ entering_line (cr_threads s ! t))
    \<and> (cr_threads s = replicate m Resting \<longrightarrow>
        (\<exists>s'. fold_res ring_step (replicate (length (cr_log s) - length (cr_out s)) TryPop) s = Inr s'
          \<and> cr_out s' = map snd (cr_log s)))"
proof -
  obtain s where s: "fold_res ring_step evs (ring_init blank sz m) = Inr s" "ring_inv (unat sz) s"
    "length (cr_threads s) = length (cr_threads (ring_init blank sz m))"
    using roomy_run_inv [OF ring_inv_init [OF assms(1,2)] assms(3)] by blast
  have "length (cr_threads s) = m" using s(3) by (simp add: ring_init_def)
  moreover have "cr_out s = map snd (take (length (cr_out s)) (cr_log s))" using s(2) by (simp add: ring_inv_def)
  moreover have "\<forall>t < length (cr_threads s). lines_of t (cr_calls s) = lines_of t (cr_log s) @ entering_line (cr_threads s ! t)"
    using s(2) by (simp add: ring_inv_def)
  ultimately show ?thesis using s(1) ring_drain [OF s(2), of m] by blast
qed

text \<open>Two threads; the second reserves the first slot and fills it last, the ring of two wraps.\<close>

definition sample_ring :: "string ring_event list" where
  "sample_ring = [Push 0 ''a'', Push 1 ''b'', Move 1, Move 0, Move 0, TryPop, Move 1, TryPop, TryPop,
     Push 1 ''c'', Move 1, Move 1, TryPop]"

theorem ring_buffer_concurrent_witness:
  "roomy sample_ring (ring_init '''' 2 2)
   \<and> map_res cr_out (fold_res ring_step sample_ring (ring_init '''' 2 2)) = Inr [''b'', ''a'', ''c'']"
proof -
  have r: "roomy sample_ring (ring_init '''' 2 2)" by code_simp
  have "map_res (\<lambda>s. (cr_log s, length (cr_out s))) (fold_res ring_step sample_ring (ring_init '''' 2 2))
    = Inr ([(1, ''b''), (0, ''a''), (1, ''c'')], 3)" by code_simp
  moreover obtain s where "fold_res ring_step sample_ring (ring_init '''' 2 2) = Inr s"
      "cr_out s = map snd (take (length (cr_out s)) (cr_log s))"
    using ring_buffer_concurrent [OF _ _ r] by (auto simp: dvd_def)
  ultimately show ?thesis using r by simp
qed

end
