(* ===== verification/Queue_Wait.thy ===== *)
theory Queue_Wait
  imports Task_Queue
begin

text \<open>
  \<open>Queue<T>\<close> (\<open>util/queue.h\<close>) with its condition variables. \<open>Task_Queue\<close> takes a call that has to wait as
  one that has not completed; here the waiting is explicit. A thread tests its predicate under the
  mutex; it falls asleep on its condition variable in the same step, or does its work and notifies
  after it has released the mutex, with any steps of other threads in between. \<open>notify_one\<close> wakes one
  sleeping thread, whichever, or nobody when none sleeps; a woken thread has to get the mutex and test
  again, and others may come first; threads may also wake up spuriously.
\<close>

section \<open>The steps\<close>

text \<open>
  Where a thread is: in no call, in \<open>add\<close>, in \<open>dequeue\<close> (with the present content of its target), in
  \<open>stop\<close>. \<open>Asleep\<close> threads are in the wait set of the condition variable, \<open>Woken\<close> ones have left it.
\<close>

datatype 'a caller =
    Away
  | Adding 'a
  | is_AddAsleep: AddAsleep 'a
  | is_AddWoken: AddWoken 'a
  | is_AddNotify: AddNotify
  | Taking 'a
  | is_TakeAsleep: TakeAsleep 'a
  | is_TakeWoken: TakeWoken 'a
  | is_TakeNotify: TakeNotify
  | Stopping
  | is_StopNotify: StopNotify
  | is_StopNotifyFull: StopNotifyFull

type_synonym 'a waiting = "'a queue \<times> 'a caller list"

fun wake_taker :: "'a caller \<Rightarrow> 'a caller" where
  "wake_taker (TakeAsleep u) = TakeWoken u"
| "wake_taker p = p"

fun wake_adder :: "'a caller \<Rightarrow> 'a caller" where
  "wake_adder (AddAsleep v) = AddWoken v"
| "wake_adder p = p"

text \<open>The steps the threads take on their own.\<close>

inductive own_step :: "'a waiting \<Rightarrow> 'a waiting \<Rightarrow> bool" where
  add_work: "t < length T \<Longrightarrow> T ! t = Adding v \<or> T ! t = AddWoken v \<Longrightarrow> Queue_add v q = Some q'
    \<Longrightarrow> own_step (q, T) (q', T[t := if q_stop q then Away else AddNotify])"
| add_wait: "t < length T \<Longrightarrow> T ! t = Adding v \<or> T ! t = AddWoken v \<Longrightarrow> Queue_add v q = None
    \<Longrightarrow> own_step (q, T) (q, T[t := AddAsleep v])"
| add_notify: "t < length T \<Longrightarrow> T ! t = AddNotify \<Longrightarrow> s < length T \<Longrightarrow> T ! s = TakeAsleep u
    \<Longrightarrow> own_step (q, T) (q, T[t := Away, s := TakeWoken u])"
| add_notify_nobody: "t < length T \<Longrightarrow> T ! t = AddNotify \<Longrightarrow> \<forall>p \<in> set T. \<not> is_TakeAsleep p
    \<Longrightarrow> own_step (q, T) (q, T[t := Away])"
| take_work: "t < length T \<Longrightarrow> T ! t = Taking u \<or> T ! t = TakeWoken u \<Longrightarrow> Queue_dequeue u q = Some (v, q')
    \<Longrightarrow> own_step (q, T) (q', T[t := if q_stop q then Away else TakeNotify])"
| take_wait: "t < length T \<Longrightarrow> T ! t = Taking u \<or> T ! t = TakeWoken u \<Longrightarrow> Queue_dequeue u q = None
    \<Longrightarrow> own_step (q, T) (q, T[t := TakeAsleep u])"
| take_notify: "t < length T \<Longrightarrow> T ! t = TakeNotify \<Longrightarrow> s < length T \<Longrightarrow> T ! s = AddAsleep v
    \<Longrightarrow> own_step (q, T) (q, T[t := Away, s := AddWoken v])"
| take_notify_nobody: "t < length T \<Longrightarrow> T ! t = TakeNotify \<Longrightarrow> \<forall>p \<in> set T. \<not> is_AddAsleep p
    \<Longrightarrow> own_step (q, T) (q, T[t := Away])"
| stop_work: "t < length T \<Longrightarrow> T ! t = Stopping \<Longrightarrow> own_step (q, T) (Queue_stop q, T[t := StopNotify])"
| stop_notify: "t < length T \<Longrightarrow> T ! t = StopNotify
    \<Longrightarrow> own_step (q, T) (q, (map wake_taker T)[t := StopNotifyFull])"
| stop_notify_full: "t < length T \<Longrightarrow> T ! t = StopNotifyFull
    \<Longrightarrow> own_step (q, T) (q, (map wake_adder T)[t := Away])"

text \<open>What comes from outside: new calls and spurious wakeups.\<close>

inductive outer_step :: "'a waiting \<Rightarrow> 'a waiting \<Rightarrow> bool" where
  call: "t < length T \<Longrightarrow> T ! t = Away \<Longrightarrow> p = Adding v \<or> p = Taking v \<or> p = Stopping
    \<Longrightarrow> outer_step (q, T) (q, T[t := p])"
| spurious: "t < length T \<Longrightarrow> outer_step (q, T) (q, T[t := wake_taker (wake_adder (T ! t))])"

inductive wait_run :: "'a waiting \<Rightarrow> 'a waiting \<Rightarrow> bool" where
  start: "wait_run s s"
| own: "wait_run s s1 \<Longrightarrow> own_step s1 s2 \<Longrightarrow> wait_run s s2"
| outer: "wait_run s s1 \<Longrightarrow> outer_step s1 s2 \<Longrightarrow> wait_run s s2"

section \<open>The calls complete as in the coarser model\<close>

lemma own_step_refines:
  assumes "own_step (q, T) (q', T')"
  shows "q' = q \<or> (\<exists>c. queue_step q c q')"
  using assms
proof cases
  case (take_work t u v)
  then show ?thesis
    using step_take [of u q v q'] step_woken [of u q q'] by (cases "q_stop q") (auto simp: Queue_dequeue_def)
qed (auto intro: step_add step_stop)

lemma queue_run_snoc: "queue_run q cs q1 \<Longrightarrow> queue_step q1 c q2 \<Longrightarrow> queue_run q (cs @ [c]) q2"
  by (induction rule: queue_run.induct) (auto intro: queue_run.intros)

lemma wait_run_refines: "wait_run s s' \<Longrightarrow> \<exists>cs. queue_run (fst s) cs (fst s')"
proof (induction rule: wait_run.induct)
  case (start s)
  show ?case using run_nil by blast
next
  case (own s s1 s2)
  then obtain cs where cs: "queue_run (fst s) cs (fst s1)" by blast
  have "fst s2 = fst s1 \<or> (\<exists>c. queue_step (fst s1) c (fst s2))"
    using own_step_refines [of "fst s1" "snd s1" "fst s2" "snd s2"] own.hyps(2) by simp
  then show ?case using cs queue_run_snoc by metis
next
  case (outer s s1 s2)
  have "fst s2 = fst s1" using outer.hyps(2) by (cases rule: outer_step.cases) auto
  then show ?case using outer.IH by simp
qed

section \<open>No lost wakeup\<close>

text \<open>
  While threads sleep for values, there are no more values than threads that are on their way to them
  or will wake one of them; the same for places. After \<open>stop\<close>, whoever sleeps will be woken.
\<close>

definition covered :: "nat \<Rightarrow> nat \<Rightarrow> nat \<Rightarrow> nat \<Rightarrow> bool" where
  "covered asleep available woken notifying \<longleftrightarrow> (0 < asleep \<longrightarrow> available \<le> woken + notifying)"

definition wait_inv :: "'a queue \<Rightarrow> 'a caller list \<Rightarrow> bool" where
  "wait_inv q T \<longleftrightarrow> queue_inv q
     \<and> (\<not> q_stop q \<longrightarrow>
         covered (threads_at is_TakeAsleep T) (length (q_items q)) (threads_at is_TakeWoken T) (threads_at is_AddNotify T)
       \<and> covered (threads_at is_AddAsleep T) (q_maxsize q - length (q_items q)) (threads_at is_AddWoken T) (threads_at is_TakeNotify T))
     \<and> (q_stop q \<longrightarrow>
         covered (threads_at is_TakeAsleep T) 1 (threads_at is_StopNotify T) 0
       \<and> covered (threads_at is_AddAsleep T) 1 (threads_at is_StopNotify T) (threads_at is_StopNotifyFull T))"

lemmas caller_kinds = is_TakeAsleep_def is_TakeWoken_def is_TakeNotify_def is_AddAsleep_def is_AddWoken_def is_AddNotify_def
  is_StopNotify_def is_StopNotifyFull_def

lemma threads_at_map: "threads_at P (map f T) = threads_at (\<lambda>p. P (f p)) T"
  by (simp add: threads_at_def filter_map comp_def)

lemma threads_at_none [simp]: "threads_at (\<lambda>p. False) T = 0"
  by (simp add: threads_at_def)

text \<open>What one thread's move does to the numbers of threads of each kind.\<close>

lemma kinds_update:
  assumes "t < length T" and "T ! t = p"
  shows "threads_at is_TakeAsleep (T[t := p']) + of_bool (is_TakeAsleep p) = threads_at is_TakeAsleep T + of_bool (is_TakeAsleep p')"
    "threads_at is_TakeWoken (T[t := p']) + of_bool (is_TakeWoken p) = threads_at is_TakeWoken T + of_bool (is_TakeWoken p')"
    "threads_at is_TakeNotify (T[t := p']) + of_bool (is_TakeNotify p) = threads_at is_TakeNotify T + of_bool (is_TakeNotify p')"
    "threads_at is_AddAsleep (T[t := p']) + of_bool (is_AddAsleep p) = threads_at is_AddAsleep T + of_bool (is_AddAsleep p')"
    "threads_at is_AddWoken (T[t := p']) + of_bool (is_AddWoken p) = threads_at is_AddWoken T + of_bool (is_AddWoken p')"
    "threads_at is_AddNotify (T[t := p']) + of_bool (is_AddNotify p) = threads_at is_AddNotify T + of_bool (is_AddNotify p')"
    "threads_at is_StopNotify (T[t := p']) + of_bool (is_StopNotify p) = threads_at is_StopNotify T + of_bool (is_StopNotify p')"
    "threads_at is_StopNotifyFull (T[t := p']) + of_bool (is_StopNotifyFull p)
      = threads_at is_StopNotifyFull T + of_bool (is_StopNotifyFull p')"
  using threads_at_update [OF assms(1), of _ p'] assms(2) by blast+
lemmas wait_defs = wait_inv_def covered_def queue_inv_def queue_defs

lemma add_step_inv:
  assumes i: "wait_inv q T" and t: "t < length T" and p: "T ! t = Adding v \<or> T ! t = AddWoken v"
  shows "Queue_add v q = Some q' \<Longrightarrow> wait_inv q' (T[t := if q_stop q then Away else AddNotify])"
    "Queue_add v q = None \<Longrightarrow> wait_inv q (T[t := AddAsleep v])"
proof -
  show "wait_inv q' (T[t := if q_stop q then Away else AddNotify])" if a: "Queue_add v q = Some q'"
  proof (cases "q_stop q")
    case True
    then show ?thesis using i p a kinds_update [OF t, of _ Away] by (auto simp: wait_defs split: if_splits)
  next
    case False
    then have "q' = q\<lparr>q_items := q_items q @ [v]\<rparr>" "length (q_items q) < q_maxsize q"
      using a by (auto simp: queue_defs split: if_splits)
    then show ?thesis using i p False kinds_update [OF t, of _ AddNotify] by (auto simp: wait_defs)
  qed
  show "wait_inv q (T[t := AddAsleep v])" if a: "Queue_add v q = None"
  proof -
    have "\<not> q_stop q" "q_maxsize q \<le> length (q_items q)" using a by (auto simp: queue_defs split: if_splits)
    then show ?thesis using i p kinds_update [OF t, of _ "AddAsleep v"] by (auto simp: wait_defs)
  qed
qed

lemma take_step_inv:
  assumes i: "wait_inv q T" and t: "t < length T" and p: "T ! t = Taking u \<or> T ! t = TakeWoken u"
  shows "Queue_dequeue u q = Some (v, q') \<Longrightarrow> wait_inv q' (T[t := if q_stop q then Away else TakeNotify])"
    "Queue_dequeue u q = None \<Longrightarrow> wait_inv q (T[t := TakeAsleep u])"
proof -
  show "wait_inv q' (T[t := if q_stop q then Away else TakeNotify])" if a: "Queue_dequeue u q = Some (v, q')"
  proof (cases "q_stop q")
    case True
    then show ?thesis using i p a kinds_update [OF t, of _ Away] by (auto simp: wait_defs split: if_splits)
  next
    case False
    then have "q' = q\<lparr>q_items := tl (q_items q)\<rparr>" "0 < length (q_items q)"
      using a by (auto simp: queue_defs split: if_splits)
    then show ?thesis using i p False kinds_update [OF t, of _ TakeNotify] by (auto simp: wait_defs)
  qed
  show "wait_inv q (T[t := TakeAsleep u])" if a: "Queue_dequeue u q = None"
  proof -
    have "\<not> q_stop q" "q_items q = []" using a by (auto simp: queue_defs split: if_splits)
    then show ?thesis using i p kinds_update [OF t, of _ "TakeAsleep u"] by (auto simp: wait_defs)
  qed
qed

text \<open>\<open>notify_one\<close>: with a sleeping thread \<open>s\<close>, and with none.\<close>

lemma notify_step_inv:
  assumes i: "wait_inv q T" and t: "t < length T"
  shows "T ! t = AddNotify \<Longrightarrow> s < length T \<Longrightarrow> T ! s = TakeAsleep u \<Longrightarrow> wait_inv q (T[t := Away, s := TakeWoken u])"
    "T ! t = TakeNotify \<Longrightarrow> s < length T \<Longrightarrow> T ! s = AddAsleep v \<Longrightarrow> wait_inv q (T[t := Away, s := AddWoken v])"
    "T ! t = AddNotify \<Longrightarrow> threads_at is_TakeAsleep T = 0 \<Longrightarrow> wait_inv q (T[t := Away])"
    "T ! t = TakeNotify \<Longrightarrow> threads_at is_AddAsleep T = 0 \<Longrightarrow> wait_inv q (T[t := Away])"
proof -
  show "wait_inv q (T[t := Away, s := TakeWoken u])" if "T ! t = AddNotify" "s < length T" "T ! s = TakeAsleep u"
  proof -
    have "s < length (T[t := Away])" "T[t := Away] ! s = TakeAsleep u" using that t by (cases "s = t"; simp)+
    from kinds_update [OF this, of "TakeWoken u"] kinds_update [OF t that(1), of Away] show ?thesis
      using i by (auto simp: wait_defs)
  qed
  show "wait_inv q (T[t := Away, s := AddWoken v])" if "T ! t = TakeNotify" "s < length T" "T ! s = AddAsleep v"
  proof -
    have "s < length (T[t := Away])" "T[t := Away] ! s = AddAsleep v" using that t by (cases "s = t"; simp)+
    from kinds_update [OF this, of "AddWoken v"] kinds_update [OF t that(1), of Away] show ?thesis
      using i by (auto simp: wait_defs)
  qed
  show "T ! t = AddNotify \<Longrightarrow> threads_at is_TakeAsleep T = 0 \<Longrightarrow> wait_inv q (T[t := Away])"
    using i kinds_update [OF t, of AddNotify Away] by (auto simp: wait_defs)
  show "T ! t = TakeNotify \<Longrightarrow> threads_at is_AddAsleep T = 0 \<Longrightarrow> wait_inv q (T[t := Away])"
    using i kinds_update [OF t, of TakeNotify Away] by (auto simp: wait_defs)
qed

lemma wake_kinds:
  "is_TakeAsleep (wake_taker p) = False" "is_AddAsleep (wake_taker p) = is_AddAsleep p" "is_AddWoken (wake_taker p) = is_AddWoken p"
  "is_TakeNotify (wake_taker p) = is_TakeNotify p" "is_AddNotify (wake_taker p) = is_AddNotify p"
  "is_StopNotify (wake_taker p) = is_StopNotify p" "is_StopNotifyFull (wake_taker p) = is_StopNotifyFull p"
  "is_AddAsleep (wake_adder p) = False" "is_TakeAsleep (wake_adder p) = is_TakeAsleep p" "is_TakeWoken (wake_adder p) = is_TakeWoken p"
  "is_TakeNotify (wake_adder p) = is_TakeNotify p" "is_AddNotify (wake_adder p) = is_AddNotify p"
  "is_StopNotify (wake_adder p) = is_StopNotify p" "is_StopNotifyFull (wake_adder p) = is_StopNotifyFull p"
  by (cases p; simp)+

text \<open>Nobody notifies for \<open>stop\<close> before it was called.\<close>

definition told_to_stop :: "'a queue \<Rightarrow> 'a caller list \<Rightarrow> bool" where
  "told_to_stop q T \<longleftrightarrow> q_stop q \<or> threads_at is_StopNotify T + threads_at is_StopNotifyFull T = 0"

lemma stop_step_inv:
  assumes i: "wait_inv q T" "told_to_stop q T" and t: "t < length T"
  shows "T ! t = Stopping \<Longrightarrow> wait_inv (Queue_stop q) (T[t := StopNotify])"
    "T ! t = StopNotify \<Longrightarrow> wait_inv q ((map wake_taker T)[t := StopNotifyFull])"
    "T ! t = StopNotifyFull \<Longrightarrow> wait_inv q ((map wake_adder T)[t := Away])"
proof -
  show "T ! t = Stopping \<Longrightarrow> wait_inv (Queue_stop q) (T[t := StopNotify])"
    using i kinds_update [OF t, of Stopping StopNotify] by (auto simp: wait_defs)
  show "wait_inv q ((map wake_taker T)[t := StopNotifyFull])" if p: "T ! t = StopNotify"
  proof -
    have "q_stop q" using i(2) threads_at_pos [OF t, of is_StopNotify] p by (auto simp: told_to_stop_def)
    moreover have "map wake_taker T ! t = StopNotify" using t p by simp
    ultimately show ?thesis
      using i(1) kinds_update [of t "map wake_taker T" StopNotify StopNotifyFull] t
      by (auto simp: wait_defs wake_kinds threads_at_map)
  qed
  show "wait_inv q ((map wake_adder T)[t := Away])" if p: "T ! t = StopNotifyFull"
  proof -
    have "q_stop q" using i(2) threads_at_pos [OF t, of is_StopNotifyFull] p by (auto simp: told_to_stop_def)
    moreover have "map wake_adder T ! t = StopNotifyFull" using t p by simp
    ultimately show ?thesis
      using i(1) kinds_update [of t "map wake_adder T" StopNotifyFull Away] t
      by (auto simp: wait_defs wake_kinds threads_at_map)
  qed
qed
lemma own_step_inv:
  assumes "own_step (q, T) (q', T')" and i: "wait_inv q T" "told_to_stop q T"
  shows "wait_inv q' T'"
  using assms(1)
proof cases
  case (add_work t v)
  then show ?thesis using add_step_inv(1) [OF i(1)] by blast
next
  case (add_wait t v)
  then show ?thesis using add_step_inv(2) [OF i(1)] by blast
next
  case (take_work t u v)
  then show ?thesis using take_step_inv(1) [OF i(1)] by blast
next
  case (take_wait t u)
  then show ?thesis using take_step_inv(2) [OF i(1)] by blast
qed (use notify_step_inv [OF i(1)] stop_step_inv [OF i] in \<open>auto simp: threads_at_0\<close>)

lemma told_to_stop_move:
  "told_to_stop q T \<Longrightarrow> q_stop q' = q_stop q \<Longrightarrow> \<not> is_StopNotify p \<Longrightarrow> \<not> is_StopNotifyFull p \<Longrightarrow> told_to_stop q' (T[t := p])"
  using set_update_subset_insert [of T t p] by (fastforce simp: told_to_stop_def threads_at_0)

lemma own_step_told_to_stop:
  assumes "own_step (q, T) (q', T')" and i: "told_to_stop q T"
  shows "told_to_stop q' T'"
  using assms(1)
proof cases
  case (stop_notify t)
  then have "q_stop q" using i threads_at_pos [of t T is_StopNotify] by (auto simp: told_to_stop_def)
  then show ?thesis using stop_notify(1) by (simp add: told_to_stop_def)
next
  case (stop_notify_full t)
  then have "q_stop q" using i threads_at_pos [of t T is_StopNotifyFull] by (auto simp: told_to_stop_def)
  then show ?thesis using stop_notify_full(1) by (simp add: told_to_stop_def)
next
  case (stop_work t)
  then show ?thesis by (simp add: told_to_stop_def Queue_stop_def)
qed (use i in \<open>auto simp: queue_defs split: if_splits intro!: told_to_stop_move [OF told_to_stop_move] told_to_stop_move [OF i]\<close>)
lemma outer_step_inv:
  assumes "outer_step (q, T) (q', T')" and i: "wait_inv q T" "told_to_stop q T"
  shows "wait_inv q' T' \<and> told_to_stop q' T'"
  using assms(1)
proof cases
  case (call t p v)
  have "\<not> is_TakeAsleep p" "\<not> is_TakeWoken p" "\<not> is_TakeNotify p" "\<not> is_AddAsleep p" "\<not> is_AddWoken p" "\<not> is_AddNotify p"
    "\<not> is_StopNotify p" "\<not> is_StopNotifyFull p" using call(5) by auto
  then show ?thesis
    using i call(1,2) kinds_update [OF call(3,4), of p] told_to_stop_move [of q T q' p t] by (simp add: wait_inv_def)
next
  case (spurious t)
  show ?thesis
  proof (cases "T ! t")
    case (AddAsleep v)
    then show ?thesis
      using i spurious kinds_update [OF spurious(3) AddAsleep, of "AddWoken v"] told_to_stop_move [of q T q' "AddWoken v" t]
      by (auto simp: wait_defs)
  next
    case (TakeAsleep u)
    then show ?thesis
      using i spurious kinds_update [OF spurious(3) TakeAsleep, of "TakeWoken u"] told_to_stop_move [of q T q' "TakeWoken u" t]
      by (auto simp: wait_defs)
  qed (use i spurious list_update_id [of T t] in simp_all)
qed

lemma wait_run_inv: "wait_run s s' \<Longrightarrow> case_prod wait_inv s \<Longrightarrow> case_prod told_to_stop s \<Longrightarrow> case_prod wait_inv s' \<and> case_prod told_to_stop s'"
proof (induction rule: wait_run.induct)
  case (own s s1 s2)
  then show ?case using own_step_inv own_step_told_to_stop by (cases s1; cases s2) auto
next
  case (outer s s1 s2)
  then show ?case using outer_step_inv by (cases s1; cases s2) auto
qed simp

subsection \<open>The threads come to rest\<close>

text \<open>
  A thread does the work of its call once; between two such steps, every step uses up a test or a
  notification, and a notification pays for the tests it causes.
\<close>

fun before_work :: "'a caller \<Rightarrow> bool" where
  "before_work Away = False"
| "before_work AddNotify = False"
| "before_work TakeNotify = False"
| "before_work StopNotify = False"
| "before_work StopNotifyFull = False"
| "before_work p = True"

fun to_do :: "nat \<Rightarrow> 'a caller \<Rightarrow> nat" where
  "to_do n (Adding v) = 1"
| "to_do n (AddWoken v) = 1"
| "to_do n (Taking u) = 1"
| "to_do n (TakeWoken u) = 1"
| "to_do n AddNotify = 2"
| "to_do n TakeNotify = 2"
| "to_do n StopNotify = 2 * n + 2"
| "to_do n StopNotifyFull = n + 1"
| "to_do n _ = 0"

definition all_to_do :: "'a caller list \<Rightarrow> nat" where
  "all_to_do T = sum_list (map (to_do (length T)) T)"

lemma all_to_do_update:
  assumes "t < length T" and "T ! t = p"
  shows "all_to_do (T[t := p']) + to_do (length T) p = all_to_do T + to_do (length T) p'"
proof -
  have "sum_list (map f (T[t := p'])) + f p = sum_list (map f T) + f p'" for f :: "'a caller \<Rightarrow> nat"
    using assms
  proof (induction T arbitrary: t)
    case (Cons q T)
    then show ?case by (cases t) auto
  qed simp
  then show ?thesis by (simp add: all_to_do_def)
qed

lemma all_to_do_wake:
  assumes "\<And>p. to_do (length T) (f p) \<le> to_do (length T) p + 1"
  shows "all_to_do (map f T) \<le> all_to_do T + length T"
proof -
  have "sum_list (map (to_do n) (map f U)) \<le> sum_list (map (to_do n) U) + length U"
    if "\<And>p. to_do n (f p) \<le> to_do n p + 1" for n U
  proof (induction U)
    case (Cons p U)
    then show ?case using that [of p] by simp
  qed simp
  then show ?thesis using assms by (simp add: all_to_do_def)
qed

lemma before_work_wake: "before_work (wake_taker p) = before_work p" "before_work (wake_adder p) = before_work p"
  by (cases p; simp)+

lemma to_do_wake: "to_do n (wake_taker p) \<le> to_do n p + 1" "to_do n (wake_adder p) \<le> to_do n p + 1"
  by (cases p; simp)+

text \<open>A thread that does not do its work yet; a notification that wakes another thread; one that wakes them all.\<close>

definition decreases :: "'a caller list \<Rightarrow> 'a caller list \<Rightarrow> bool" where
  "decreases T' T \<longleftrightarrow> threads_at before_work T' < threads_at before_work T
    \<or> threads_at before_work T' = threads_at before_work T \<and> all_to_do T' < all_to_do T"

lemma work_decreases: "t < length T \<Longrightarrow> before_work (T ! t) \<Longrightarrow> \<not> before_work p \<Longrightarrow> decreases (T[t := p]) T"
  using threads_at_update [of t T before_work p] by (simp add: decreases_def)

lemma move_decreases:
  assumes "t < length T" and "before_work (T ! t) = before_work p" and "to_do (length T) p < to_do (length T) (T ! t)"
  shows "decreases (T[t := p]) T"
  using threads_at_same [OF assms(1,2)] all_to_do_update [OF assms(1) refl, of p] assms(3) by (simp add: decreases_def)

lemma notify_decreases:
  assumes t: "t < length T" "T ! t = p" "\<not> before_work p" "to_do (length T) p = 2"
    and s: "s < length T" "T ! s = r" "before_work r" "before_work r'" "to_do (length T) r' = to_do (length T) r + 1"
  shows "decreases (T[t := Away, s := r']) T"
proof -
  have s': "s < length (T[t := Away])" "T[t := Away] ! s = r" using t s by (cases "s = t"; auto)+
  show ?thesis
    using threads_at_same [OF t(1), of before_work Away] threads_at_same [OF s'(1), of before_work r'] t s s'
      all_to_do_update [OF t(1,2), of Away] all_to_do_update [OF s', of r'] by (simp add: decreases_def)
qed

lemma notify_all_decreases:
  assumes t: "t < length T" "wake (T ! t) = p" and p: "before_work p = before_work p'" "to_do (length T) p' + length T < to_do (length T) p"
    and wake: "\<And>r. before_work (wake r) = before_work r" "\<And>r. to_do (length T) (wake r) \<le> to_do (length T) r + 1"
  shows "decreases ((map wake T)[t := p']) T"
proof -
  have t': "t < length (map wake T)" "map wake T ! t = p" using t by simp_all
  show ?thesis
    using threads_at_same [OF t'(1), of before_work p'] t'(2) p all_to_do_update [OF t', of p'] all_to_do_wake [of T wake, OF wake(2)] wake(1)
    by (simp add: decreases_def threads_at_map)
qed

lemma own_step_decreases:
  assumes "own_step (q, T) (q', T')"
  shows "decreases T' T"
  using assms
proof cases
  case (add_work t v)
  then show ?thesis by (auto intro!: work_decreases)
next
  case (take_work t u v)
  then show ?thesis by (auto intro!: work_decreases)
next
  case (stop_work t)
  then show ?thesis by (auto intro!: work_decreases)
next
  case (stop_notify t)
  then show ?thesis using notify_all_decreases [of t T wake_taker, OF _ _ _ _ before_work_wake(1) to_do_wake(1)] by simp
next
  case (stop_notify_full t)
  then show ?thesis using notify_all_decreases [of t T wake_adder, OF _ _ _ _ before_work_wake(2) to_do_wake(2)] by simp
qed (auto intro!: move_decreases notify_decreases)

lemma own_step_wf: "wf {(s', s). own_step s s'}"
proof (rule wf_subset)
  show "wf (measures [\<lambda>s :: 'a waiting. threads_at before_work (snd s), \<lambda>s. all_to_do (snd s)])" by simp
  show "{(s', s). own_step s s'} \<subseteq> measures [\<lambda>s. threads_at before_work (snd s), \<lambda>s. all_to_do (snd s)]"
    using own_step_decreases by (fastforce simp: decreases_def)
qed
lemma awake_moves:
  assumes t: "t < length T" and p: "T ! t \<noteq> Away" "\<not> is_AddAsleep (T ! t)" "\<not> is_TakeAsleep (T ! t)"
  shows "\<exists>s'. own_step (q, T) s'"
proof -
  have adds: ?thesis if "T ! t = Adding v \<or> T ! t = AddWoken v" for v
    using add_work [OF t that] add_wait [OF t that] by (cases "Queue_add v q") blast+
  have takes: ?thesis if "T ! t = Taking u \<or> T ! t = TakeWoken u" for u
    using take_work [OF t that] take_wait [OF t that] by (cases "Queue_dequeue u q") (blast, metis prod.collapse)
  have notify_take: ?thesis if n: "T ! t = AddNotify"
  proof (cases "\<exists>p \<in> set T. is_TakeAsleep p")
    case True
    then obtain s u where "s < length T" "T ! s = TakeAsleep u" by (auto simp: in_set_conv_nth is_TakeAsleep_def)
    then show ?thesis using add_notify [OF t n] by blast
  next
    case False
    then show ?thesis using add_notify_nobody [OF t n] by blast
  qed
  have notify_add: ?thesis if n: "T ! t = TakeNotify"
  proof (cases "\<exists>p \<in> set T. is_AddAsleep p")
    case True
    then obtain s v where "s < length T" "T ! s = AddAsleep v" by (auto simp: in_set_conv_nth is_AddAsleep_def)
    then show ?thesis using take_notify [OF t n] by blast
  next
    case False
    then show ?thesis using take_notify_nobody [OF t n] by blast
  qed
  show ?thesis
    using adds takes notify_take notify_add stop_work [OF t] stop_notify [OF t] stop_notify_full [OF t] p
    by (cases "T ! t") (blast | simp)+
qed

section \<open>Properties\<close>

text \<open>
  C22: no lost wakeup. Let any number of threads call \<open>enqueue\<close>, \<open>dequeue\<close> and \<open>stop\<close> in any interleaving,
  where each notification comes after the mutex was released and wakes an arbitrary sleeper, and
  threads also wake up spuriously. Then (1) the queue goes through completed calls only, so the
  first-in first-out property carries over; (2) without new calls the threads come to rest: there is no
  infinite sequence of their own steps; (3) when they rest, every call has returned, but for a
  \<open>dequeue\<close> that waits on an empty queue and an \<open>add\<close> that waits on a full one, with \<open>stop\<close> not called:
  nobody sleeps although its condition holds, and after \<open>stop\<close> nobody sleeps at all.
\<close>

theorem queue_no_lost_wakeup:
  assumes "wait_run (Queue_new n, replicate k Away) (q, T)"
  shows "(\<exists>cs. queue_run (Queue_new n) cs q) \<and> wf {(s', s :: 'a waiting). own_step s s'}
    \<and> ((\<nexists>s'. own_step (q, T) s') \<longrightarrow> (\<forall>p \<in> set T. p = Away
         \<or> is_TakeAsleep p \<and> Queue_empty q \<and> \<not> q_stop q
         \<or> is_AddAsleep p \<and> Queue_full q \<and> \<not> q_stop q))"
proof (intro conjI impI ballI)
  show "\<exists>cs. queue_run (Queue_new n) cs q" using wait_run_refines [OF assms] by simp
  show "wf {(s', s :: 'a waiting). own_step s s'}" by (rule own_step_wf)
  have none: "threads_at P (replicate k Away) = 0" if "\<not> P Away" for P :: "'b caller \<Rightarrow> bool"
    using that by (simp add: threads_at_def)
  have i: "wait_inv q T"
    using wait_run_inv [OF assms] by (simp add: wait_defs told_to_stop_def Queue_new_def none)
  fix p assume rest: "\<nexists>s'. own_step (q, T) s'" and p: "p \<in> set T"
  have asleep: "r = Away \<or> is_AddAsleep r \<or> is_TakeAsleep r" if "r \<in> set T" for r
    using awake_moves [of _ T q] rest that by (auto simp: in_set_conv_nth)
  have none: "threads_at K T = 0" if "\<And>r. K r \<Longrightarrow> r \<noteq> Away \<and> \<not> is_AddAsleep r \<and> \<not> is_TakeAsleep r" for K
    using asleep that by (fastforce simp: threads_at_0)
  have quiet: "threads_at is_TakeWoken T = 0" "threads_at is_AddNotify T = 0" "threads_at is_AddWoken T = 0"
    "threads_at is_TakeNotify T = 0" "threads_at is_StopNotify T = 0" "threads_at is_StopNotifyFull T = 0"
    by (rule none, auto simp: caller_kinds)+
  have here: "0 < threads_at K T" if "K p" for K using p that threads_at_0 [of K T] by blast
  have "Queue_empty q \<and> \<not> q_stop q" if "is_TakeAsleep p"
    using i quiet here [of is_TakeAsleep, OF that] by (auto simp: wait_inv_def covered_def Queue_empty_def)
  moreover have "Queue_full q \<and> \<not> q_stop q" if "is_AddAsleep p"
    using i quiet here [of is_AddAsleep, OF that] by (auto simp: wait_inv_def covered_def Queue_full_def)
  ultimately show "p = Away \<or> is_TakeAsleep p \<and> Queue_empty q \<and> \<not> q_stop q \<or> is_AddAsleep p \<and> Queue_full q \<and> \<not> q_stop q"
    using asleep [OF p] by blast
qed
text \<open>One thread waits for a value, another adds one and wakes it; it takes the value and waits for the next.\<close>

lemma sample_waiting:
  "wait_run (Queue_new 1, replicate 2 Away) (Queue_new 1, [TakeAsleep (0 :: nat), Away])"
proof -
  let ?q = "Queue_new 1 :: nat queue" and ?f = "\<lparr>q_items = [7 :: nat], q_maxsize = 1, q_stop = False\<rparr>"
  have two: "replicate 2 Away = [Away, Away :: nat caller]" by (simp add: numeral_2_eq_2)
  note q = queue_defs Queue_new_def
  have "wait_run (?q, [Away, Away]) (?q, [Taking 0, Away])" 
    using outer [OF start call [of 0 "[Away, Away]" "Taking 0" 0 ?q]] by simp
  from own [OF this take_wait [of 0 _ 0]] have "wait_run (?q, [Away, Away]) (?q, [TakeAsleep 0, Away])" by (simp add: q)
  from outer [OF this call [of 1 _ "Adding 7" 7]] have "wait_run (?q, [Away, Away]) (?q, [TakeAsleep 0, Adding 7])" by simp
  from own [OF this add_work [of 1 _ 7 _ ?f]] have "wait_run (?q, [Away, Away]) (?f, [TakeAsleep 0, AddNotify])" by (simp add: q)
  from own [OF this add_notify [of 1 _ 0 0]] have "wait_run (?q, [Away, Away]) (?f, [TakeWoken 0, Away])" by simp
  from own [OF this take_work [of 0 _ 0 _ 7 ?q]] have "wait_run (?q, [Away, Away]) (?q, [TakeNotify, Away])" by (simp add: q)
  from own [OF this take_notify_nobody [of 0]] have "wait_run (?q, [Away, Away]) (?q, [Away, Away])" by simp
  from outer [OF this call [of 0 _ "Taking 0" 0]] have "wait_run (?q, [Away, Away]) (?q, [Taking 0, Away])" by simp
  from own [OF this take_wait [of 0 _ 0]] show ?thesis by (simp add: q two)
qed

theorem queue_no_lost_wakeup_witness:
  "wf {(s', s :: nat waiting). own_step s s'} \<and> Queue_empty (Queue_new 1 :: nat queue) \<and> \<not> q_stop (Queue_new 1 :: nat queue)"
proof -
  have "\<nexists>s'. own_step (Queue_new 1, [TakeAsleep (0 :: nat), Away]) s'"
  proof
    assume "\<exists>s'. own_step (Queue_new 1, [TakeAsleep (0 :: nat), Away]) s'"
    then obtain s' where "own_step (Queue_new 1, [TakeAsleep (0 :: nat), Away]) s'" by blast
    then show False by cases (auto simp: less_Suc_eq)
  qed
  then show ?thesis using queue_no_lost_wakeup [OF sample_waiting] by auto
qed

end
