(* ===== verification/Json_Lexer.thy ===== *)
theory Json_Lexer
  imports Sparrow_Prelude Complex_Main
begin

text \<open>
  The lexer of the JSON library that reads the configuration (\<open>json/nlohmann_json.hpp\<close>, class \<open>lexer\<close>).
  Characters are \<open>int_type\<close> values: 0 to 255, and \<open>-1\<close> at the end of the input. The input adapter is the
  list of bytes not read yet; \<open>unget\<close> puts the last one back. The program runs in the C locale, so the
  decimal point is a dot.
\<close>

section \<open>State\<close>

datatype token_type =
    uninitialized
  | literal_true
  | literal_false
  | literal_null
  | value_string
  | value_unsigned
  | value_integer
  | value_float
  | begin_array
  | begin_object
  | end_array
  | end_object
  | name_separator
  | value_separator
  | parse_error
  | end_of_input
  | literal_or_value

record lexer =
  lx_input :: bytes
  lx_current :: int
  lx_chars_read :: size_t
  lx_token_string :: bytes
  lx_token_buffer :: bytes
  lx_error_message :: string
  lx_value_integer :: "64 word"
  lx_value_unsigned :: u64
  lx_value_float :: rat

text \<open>
  The constructor of \<open>input_stream_adapter\<close> skips a byte order mark; it puts back what it read of an
  incomplete one.
\<close>

definition input_stream_adapter :: "bytes \<Rightarrow> bytes" where
  "input_stream_adapter i =
     (case i of
        [] \<Rightarrow> []
      | c # cs \<Rightarrow>
          if c = 0xEF then
            (case cs of
               [] \<Rightarrow> [0xEF]
             | d # ds \<Rightarrow>
                 if d = 0xBB then
                   (case ds of
                      [] \<Rightarrow> [0xEF, 0xBB]
                    | e # es \<Rightarrow> if e = 0xBF then es else 0xEF # 0xBB # e # es)
                 else 0xEF # d # ds)
          else c # cs)"

definition lexer_new :: "bytes \<Rightarrow> lexer" where
  "lexer_new adapter =
     \<lparr>lx_input = adapter, lx_current = -1, lx_chars_read = 0, lx_token_string = [], lx_token_buffer = [],
      lx_error_message = '''', lx_value_integer = 0, lx_value_unsigned = 0, lx_value_float = 0\<rparr>"

definition get_decimal_point :: int where
  "get_decimal_point = 0x2E"

section \<open>Input management\<close>

definition lex_get :: "lexer \<Rightarrow> lexer" where
  "lex_get s =
     (case lx_input s of
        [] \<Rightarrow> s\<lparr>lx_chars_read := lx_chars_read s + 1, lx_current := -1\<rparr>
      | b # bs \<Rightarrow> s\<lparr>lx_chars_read := lx_chars_read s + 1, lx_input := bs, lx_current := uint b,
                     lx_token_string := lx_token_string s @ [b]\<rparr>)"

definition lex_unget :: "lexer \<Rightarrow> lexer" where
  "lex_unget s =
     (let s = s\<lparr>lx_chars_read := lx_chars_read s - 1\<rparr> in
      if lx_current s \<noteq> -1
      then s\<lparr>lx_input := word_of_int (lx_current s) # lx_input s, lx_token_string := butlast (lx_token_string s)\<rparr>
      else s)"

definition lex_add :: "int \<Rightarrow> lexer \<Rightarrow> lexer" where
  "lex_add c s = s\<lparr>lx_token_buffer := lx_token_buffer s @ [word_of_int c]\<rparr>"

definition lex_reset :: "lexer \<Rightarrow> lexer" where
  "lex_reset s = s\<lparr>lx_token_buffer := [], lx_token_string := [word_of_int (lx_current s)]\<rparr>"

definition lex_fail :: "string \<Rightarrow> lexer \<Rightarrow> token_type \<times> lexer" where
  "lex_fail msg s = (parse_error, s\<lparr>lx_error_message := msg\<rparr>)"

section \<open>Strings\<close>

definition hex_digit :: "int \<Rightarrow> int option" where
  "hex_digit c =
     (if 0x30 \<le> c \<and> c \<le> 0x39 then Some (c - 0x30)
      else if 0x41 \<le> c \<and> c \<le> 0x46 then Some (c - 0x37)
      else if 0x61 \<le> c \<and> c \<le> 0x66 then Some (c - 0x57)
      else None)"

fun codepoint_loop :: "nat list \<Rightarrow> int \<Rightarrow> lexer \<Rightarrow> int \<times> lexer" where
  "codepoint_loop [] codepoint s = (codepoint, s)"
| "codepoint_loop (factor # factors) codepoint s =
     (let s = lex_get s in
      case hex_digit (lx_current s) of
        None \<Rightarrow> (-1, s)
      | Some d \<Rightarrow> codepoint_loop factors (codepoint + push_bit factor d) s)"

definition get_codepoint :: "lexer \<Rightarrow> int \<times> lexer" where
  "get_codepoint s = codepoint_loop [12, 8, 4, 0] 0 s"

fun range_loop :: "(int \<times> int) list \<Rightarrow> lexer \<Rightarrow> bool \<times> lexer" where
  "range_loop [] s = (True, s)"
| "range_loop ((lo, hi) # ranges) s =
     (let s = lex_get s in
      if lo \<le> lx_current s \<and> lx_current s \<le> hi then range_loop ranges (lex_add (lx_current s) s)
      else (False, s\<lparr>lx_error_message := ''invalid string: ill-formed UTF-8 byte''\<rparr>))"

definition next_byte_in_range :: "(int \<times> int) list \<Rightarrow> lexer \<Rightarrow> bool \<times> lexer" where
  "next_byte_in_range ranges s = range_loop ranges (lex_add (lx_current s) s)"

text \<open>Translates a codepoint into bytes.\<close>

definition add_codepoint :: "int \<Rightarrow> lexer \<Rightarrow> lexer" where
  "add_codepoint cp s =
     (if cp < 0x80 then lex_add cp s
      else if cp \<le> 0x7FF then lex_add (0x80 OR (cp AND 0x3F)) (lex_add (0xC0 OR drop_bit 6 cp) s)
      else if cp \<le> 0xFFFF then
        lex_add (0x80 OR (cp AND 0x3F)) (lex_add (0x80 OR (drop_bit 6 cp AND 0x3F)) (lex_add (0xE0 OR drop_bit 12 cp) s))
      else
        lex_add (0x80 OR (cp AND 0x3F)) (lex_add (0x80 OR (drop_bit 6 cp AND 0x3F))
          (lex_add (0x80 OR (drop_bit 12 cp AND 0x3F)) (lex_add (0xF0 OR drop_bit 18 cp) s))))"

definition msg_four_hex_digits :: string where
  "msg_four_hex_digits = ''invalid string: '' @ [CHR 0x27, CHR 0x5C, CHR 0x75, CHR 0x27] @ '' must be followed by 4 hex digits''"

text \<open>
  One turn of the loop of \<open>scan_string\<close>: \<open>None\<close> when the loop goes on. First the escape \<open>\u\<close>, whose
  surrogates come in pairs, then the other escapes, then the switch over the first byte.
\<close>

definition scan_unicode_escape :: "lexer \<Rightarrow> token_type option \<times> lexer" where
  "scan_unicode_escape s =
     (let (codepoint1, s) = get_codepoint s in
      if codepoint1 = -1 then
        map_prod Some id (lex_fail msg_four_hex_digits s)
      else if 0xD800 \<le> codepoint1 \<and> codepoint1 \<le> 0xDBFF then
        let s = lex_get s; s' = lex_get s in
        if lx_current s = 0x5C \<and> lx_current s' = 0x75 then
          let (codepoint2, s) = get_codepoint s' in
          if codepoint2 = -1 then
            map_prod Some id (lex_fail msg_four_hex_digits s)
          else if 0xDC00 \<le> codepoint2 \<and> codepoint2 \<le> 0xDFFF then
            (None, add_codepoint (push_bit 10 codepoint1 + codepoint2 - 0x35FDC00) s)
          else map_prod Some id (lex_fail ''invalid string: surrogate U+DC00..U+DFFF must be followed by U+DC00..U+DFFF'' s)
        else map_prod Some id (lex_fail ''invalid string: surrogate U+DC00..U+DFFF must be followed by U+DC00..U+DFFF''
          (if lx_current s = 0x5C then s' else s))
      else if 0xDC00 \<le> codepoint1 \<and> codepoint1 \<le> 0xDFFF then
        map_prod Some id (lex_fail ''invalid string: surrogate U+DC00..U+DFFF must follow U+D800..U+DBFF'' s)
      else (None, add_codepoint codepoint1 s))"

definition scan_escape :: "lexer \<Rightarrow> token_type option \<times> lexer" where
  "scan_escape s =
     (let s = lex_get s; c = lx_current s in
      if c = 0x22 \<or> c = 0x5C \<or> c = 0x2F then (None, lex_add c s)
      else if c = 0x62 then (None, lex_add 0x08 s)
      else if c = 0x66 then (None, lex_add 0x0C s)
      else if c = 0x6E then (None, lex_add 0x0A s)
      else if c = 0x72 then (None, lex_add 0x0D s)
      else if c = 0x74 then (None, lex_add 0x09 s)
      else if c = 0x75 then scan_unicode_escape s
      else map_prod Some id (lex_fail ''invalid string: forbidden character after backslash'' s))"

definition byte_ranges :: "int \<Rightarrow> (int \<times> int) list option" where
  "byte_ranges c =
     (if 0xC2 \<le> c \<and> c \<le> 0xDF then Some [(0x80, 0xBF)]
      else if c = 0xE0 then Some [(0xA0, 0xBF), (0x80, 0xBF)]
      else if 0xE1 \<le> c \<and> c \<le> 0xEC \<or> c = 0xEE \<or> c = 0xEF then Some [(0x80, 0xBF), (0x80, 0xBF)]
      else if c = 0xED then Some [(0x80, 0x9F), (0x80, 0xBF)]
      else if c = 0xF0 then Some [(0x90, 0xBF), (0x80, 0xBF), (0x80, 0xBF)]
      else if 0xF1 \<le> c \<and> c \<le> 0xF3 then Some [(0x80, 0xBF), (0x80, 0xBF), (0x80, 0xBF)]
      else if c = 0xF4 then Some [(0x80, 0x8F), (0x80, 0xBF), (0x80, 0xBF)]
      else None)"

definition scan_string_turn :: "lexer \<Rightarrow> token_type option \<times> lexer" where
  "scan_string_turn s =
     (let s = lex_get s; c = lx_current s in
      if c = -1 then map_prod Some id (lex_fail ''invalid string: missing closing quote'' s)
      else if c = 0x22 then (Some value_string, s)
      else if c = 0x5C then scan_escape s
      else if 0x00 \<le> c \<and> c \<le> 0x1F then
        map_prod Some id (lex_fail ''invalid string: control character must be escaped'' s)
      else if 0x20 \<le> c \<and> c \<le> 0x7F then (None, lex_add c s)
      else
        (case byte_ranges c of
           Some ranges \<Rightarrow> (let (ok, s) = next_byte_in_range ranges s in (if ok then None else Some parse_error, s))
         | None \<Rightarrow> map_prod Some id (lex_fail ''invalid string: ill-formed UTF-8 byte'' s)))"
text \<open>Every character that is read is gone from the input.\<close>

lemma lex_get_input: "lx_input (lex_get s) = tl (lx_input s)"
  by (simp add: lex_get_def split: list.split)

lemma lex_get_current: "lx_current (lex_get s) = (case lx_input s of [] \<Rightarrow> -1 | b # bs \<Rightarrow> uint b)"
  by (simp add: lex_get_def split: list.split)

lemma lex_get_eof: "lx_current (lex_get s) = -1 \<longleftrightarrow> lx_input s = []"
proof (cases "lx_input s")
  case (Cons b bs)
  moreover have "uint b \<noteq> -1" using uint_ge_0 [of b] by linarith
  ultimately show ?thesis by (simp add: lex_get_current)
qed (simp add: lex_get_current)

lemma lex_add_simps [simp]:
  "lx_input (lex_add c s) = lx_input s" "lx_current (lex_add c s) = lx_current s"
  "lx_token_buffer (lex_add c s) = lx_token_buffer s @ [word_of_int c]"
  by (simp_all add: lex_add_def)

lemma lex_get_buffer [simp]: "lx_token_buffer (lex_get s) = lx_token_buffer s"
  by (simp add: lex_get_def split: list.split)

lemma add_codepoint_input [simp]: "lx_input (add_codepoint cp s) = lx_input s"
  by (simp add: add_codepoint_def)

lemma codepoint_loop_shrinks: "codepoint_loop fs cp s = (r, s') \<Longrightarrow> length (lx_input s') \<le> length (lx_input s)"
  by (induction fs cp s rule: codepoint_loop.induct) (fastforce simp: Let_def lex_get_input split: option.splits)+

lemma get_codepoint_shrinks: "get_codepoint s = (r, s') \<Longrightarrow> length (lx_input s') \<le> length (lx_input s)"
  unfolding get_codepoint_def by (rule codepoint_loop_shrinks)

lemma range_loop_shrinks: "range_loop rs s = (r, s') \<Longrightarrow> length (lx_input s') \<le> length (lx_input s)"
  by (induction rs s rule: range_loop.induct) (fastforce simp: Let_def lex_get_input split: if_splits)+

lemma scan_unicode_escape_shrinks: "scan_unicode_escape s = (r, s') \<Longrightarrow> length (lx_input s') \<le> length (lx_input s)"
  unfolding scan_unicode_escape_def lex_fail_def Let_def
  by (auto simp: lex_get_input split: prod.splits if_splits dest!: get_codepoint_shrinks)

lemma scan_escape_shrinks: "scan_escape s = (r, s') \<Longrightarrow> length (lx_input s') \<le> length (lx_input s)"
  unfolding scan_escape_def lex_fail_def Let_def
  by (auto simp: lex_get_input split: if_splits dest!: scan_unicode_escape_shrinks)

lemma scan_string_turn_shrinks:
  "scan_string_turn s = (r, s') \<Longrightarrow> length (lx_input s') \<le> length (lx_input s) \<and> (r = None \<longrightarrow> length (lx_input s') < length (lx_input s))"
proof -
  assume t: "scan_string_turn s = (r, s')"
  show ?thesis
  proof (cases "lx_input s")
    case Nil
    then show ?thesis using t by (auto simp: scan_string_turn_def Let_def lex_get_current lex_fail_def lex_get_input)
  next
    case (Cons b bs)
    then have "length (lx_input (lex_get s)) < length (lx_input s)" by (simp add: lex_get_input)
    moreover have "length (lx_input s') \<le> length (lx_input (lex_get s))"
      using t unfolding scan_string_turn_def Let_def lex_fail_def next_byte_in_range_def
      by (auto split: if_splits option.splits prod.splits dest!: range_loop_shrinks scan_escape_shrinks)
    ultimately show ?thesis by simp
  qed
qed

function scan_string_loop :: "lexer \<Rightarrow> token_type \<times> lexer" where
  "scan_string_loop s =
     (case scan_string_turn s of
        (Some t, s') \<Rightarrow> (t, s')
      | (None, s') \<Rightarrow> scan_string_loop s')"
  by pat_completeness auto
termination
proof (relation "measure (\<lambda>s. length (lx_input s))")
  fix s r s'
  assume "(r, s') = scan_string_turn s" "r = None"
  then show "(s', s) \<in> measure (\<lambda>s. length (lx_input s))" using scan_string_turn_shrinks [of s r s'] by simp
qed simp

declare scan_string_loop.simps [simp del]

definition scan_string :: "lexer \<Rightarrow> token_type \<times> lexer" where
  "scan_string s = scan_string_loop (lex_reset s)"

section \<open>Numbers\<close>

text \<open>\<open>std::strtoull\<close> and \<open>std::strtoll\<close> on a scanned number, with whether they set \<open>errno\<close>.\<close>

definition c_strtoull :: "bytes \<Rightarrow> u64 \<times> bool" where
  "c_strtoull bs = (let v = int (digits_value bs) in if v < 2 ^ 64 then (word_of_int v, False) else (-1, True))"

definition c_strtoll :: "bytes \<Rightarrow> 64 word \<times> bool" where
  "c_strtoll bs =
     (let v = (if bs \<noteq> [] \<and> hd bs = 0x2D then - int (digits_value (tl bs)) else int (digits_value bs)) in
      if v < - (2 ^ 63) then (word_of_int (- (2 ^ 63)), True)
      else if v < 2 ^ 63 then (word_of_int v, False) else (word_of_int (2 ^ 63 - 1), True))"

text \<open>
  \<open>std::strtod\<close>: the value of the literal, rounded to the nearest \<open>double\<close>, ties to even. A result of \<open>2 ^ 1024\<close> or
  more stands for an infinity. The sign of a zero is not kept.
\<close>

definition decimal_value :: "bytes \<Rightarrow> rat" where
  "decimal_value bs =
     (let neg = (bs \<noteq> [] \<and> hd bs = 0x2D); bs1 = (if neg then tl bs else bs);
          ip = takeWhile is_digit bs1; r1 = dropWhile is_digit bs1;
          fp = (if r1 \<noteq> [] \<and> hd r1 = 0x2E then takeWhile is_digit (tl r1) else []);
          r2 = (if r1 \<noteq> [] \<and> hd r1 = 0x2E then dropWhile is_digit (tl r1) else r1);
          ep = tl r2;
          e = (if r2 = [] then 0
               else if ep \<noteq> [] \<and> hd ep = 0x2D then - int (digits_value (tl ep))
               else if ep \<noteq> [] \<and> hd ep = 0x2B then int (digits_value (tl ep))
               else int (digits_value ep));
          m = of_nat (digits_value (ip @ fp)) / 10 ^ length fp;
          v = (if 0 \<le> e then m * 10 ^ nat e else m / 10 ^ nat (- e)) in
      if neg then - v else v)"

definition pow2 :: "int \<Rightarrow> rat" where
  "pow2 k = (if 0 \<le> k then 2 ^ nat k else 1 / 2 ^ nat (- k))"

function bit_length :: "int \<Rightarrow> int" where
  "bit_length n = (if n \<le> 0 then 0 else 1 + bit_length (n div 2))"
  by pat_completeness auto
termination
  by (relation "measure nat") auto

declare bit_length.simps [simp del]

definition round_half_even :: "rat \<Rightarrow> int" where
  "round_half_even x =
     (let f = \<lfloor>x\<rfloor>; d = x - of_int f in
      if d < 1 / 2 then f else if 1 / 2 < d then f + 1 else if even f then f else f + 1)"

definition round_double :: "rat \<Rightarrow> rat" where
  "round_double x =
     (if x = 0 then 0
      else
        let a = \<bar>x\<bar>; (n, d) = quotient_of a; e = bit_length n - bit_length d; k = (if pow2 e \<le> a then e else e - 1);
            u = pow2 (max (k - 52) (- 1074)); v = of_int (round_half_even (a / u)) * u in
        if x < 0 then - v else v)"

definition c_strtod :: "bytes \<Rightarrow> rat" where
  "c_strtod bs = round_double (decimal_value bs)"

definition c_isfinite :: "rat \<Rightarrow> bool" where
  "c_isfinite x \<longleftrightarrow> \<bar>x\<bar> < 2 ^ 1024"

lemma round_double_examples:
  "round_double (1 / 10) = 3602879701896397 / 36028797018963968"
  "round_double (9007199254740993) = 9007199254740992"
  by code_simp+

definition scan_number_done :: "token_type \<Rightarrow> lexer \<Rightarrow> token_type \<times> lexer" where
  "scan_number_done number_type s =
     (let s = lex_unget s; tb = lx_token_buffer s;
          as_float = (value_float, s\<lparr>lx_value_float := c_strtod tb\<rparr>) in
      if number_type = value_unsigned then
        let (x, erange) = c_strtoull tb in
        if \<not> erange then (value_unsigned, s\<lparr>lx_value_unsigned := x\<rparr>) else as_float
      else if number_type = value_integer then
        let (x, erange) = c_strtoll tb in
        if \<not> erange then (value_integer, s\<lparr>lx_value_integer := x\<rparr>) else as_float
      else as_float)"

definition digit :: "int \<Rightarrow> bool" where
  "digit c \<longleftrightarrow> 0x30 \<le> c \<and> c \<le> 0x39"

text \<open>The states of the number automaton, one function for each label of the source, from the last to the first.\<close>

function scan_number_any2 :: "token_type \<Rightarrow> lexer \<Rightarrow> token_type \<times> lexer" where
  "scan_number_any2 nt s =
     (let s' = lex_get s; c = lx_current s' in
      if digit c then scan_number_any2 nt (lex_add c s') else scan_number_done nt s')"
  by pat_completeness auto
termination
  by (relation "measure (\<lambda>(nt, s). length (lx_input s))")
    (auto simp: lex_get_input lex_get_current digit_def split: list.splits)

declare scan_number_any2.simps [simp del]

definition scan_number_sign :: "token_type \<Rightarrow> lexer \<Rightarrow> token_type \<times> lexer" where
  "scan_number_sign nt s =
     (let s = lex_get s; c = lx_current s in
      if digit c then scan_number_any2 nt (lex_add c s)
      else lex_fail ''invalid number; expected digit after exponent sign'' s)"

definition scan_number_exponent :: "lexer \<Rightarrow> token_type \<times> lexer" where
  "scan_number_exponent s =
     (let nt = value_float; s = lex_get s; c = lx_current s in
      if c = 0x2B \<or> c = 0x2D then scan_number_sign nt (lex_add c s)
      else if digit c then scan_number_any2 nt (lex_add c s)
      else lex_fail ''invalid number; expected '+', '-', or digit after exponent'' s)"

function scan_number_decimal2 :: "token_type \<Rightarrow> lexer \<Rightarrow> token_type \<times> lexer" where
  "scan_number_decimal2 nt s =
     (let s' = lex_get s; c = lx_current s' in
      if digit c then scan_number_decimal2 nt (lex_add c s')
      else if c = 0x65 \<or> c = 0x45 then scan_number_exponent (lex_add c s')
      else scan_number_done nt s')"
  by pat_completeness auto
termination
  by (relation "measure (\<lambda>(nt, s). length (lx_input s))")
    (auto simp: lex_get_input lex_get_current digit_def split: list.splits)

declare scan_number_decimal2.simps [simp del]

definition scan_number_decimal1 :: "lexer \<Rightarrow> token_type \<times> lexer" where
  "scan_number_decimal1 s =
     (let nt = value_float; s = lex_get s; c = lx_current s in
      if digit c then scan_number_decimal2 nt (lex_add c s)
      else lex_fail (''invalid number; expected digit after '' @ [CHR 0x27, CHR 0x2E, CHR 0x27]) s)"

function scan_number_any1 :: "token_type \<Rightarrow> lexer \<Rightarrow> token_type \<times> lexer" where
  "scan_number_any1 nt s =
     (let s' = lex_get s; c = lx_current s' in
      if digit c then scan_number_any1 nt (lex_add c s')
      else if c = 0x2E then scan_number_decimal1 (lex_add get_decimal_point s')
      else if c = 0x65 \<or> c = 0x45 then scan_number_exponent (lex_add c s')
      else scan_number_done nt s')"
  by pat_completeness auto
termination
  by (relation "measure (\<lambda>(nt, s). length (lx_input s))")
    (auto simp: lex_get_input lex_get_current digit_def split: list.splits)

declare scan_number_any1.simps [simp del]

definition scan_number_zero :: "token_type \<Rightarrow> lexer \<Rightarrow> token_type \<times> lexer" where
  "scan_number_zero nt s =
     (let s = lex_get s; c = lx_current s in
      if c = 0x2E then scan_number_decimal1 (lex_add get_decimal_point s)
      else if c = 0x65 \<or> c = 0x45 then scan_number_exponent (lex_add c s)
      else scan_number_done nt s)"

definition scan_number_minus :: "lexer \<Rightarrow> token_type \<times> lexer" where
  "scan_number_minus s =
     (let nt = value_integer; s = lex_get s; c = lx_current s in
      if c = 0x30 then scan_number_zero nt (lex_add c s)
      else if digit c then scan_number_any1 nt (lex_add c s)
      else lex_fail (''invalid number; expected digit after '' @ [CHR 0x27, CHR 0x2D, CHR 0x27]) s)"

definition scan_number :: "lexer \<Rightarrow> token_type \<times> lexer" where
  "scan_number s =
     (let s = lex_reset s; c = lx_current s in
      if c = 0x2D then scan_number_minus (lex_add c s)
      else if c = 0x30 then scan_number_zero value_unsigned (lex_add c s)
      else scan_number_any1 value_unsigned (lex_add c s))"

section \<open>Literals and the scanner\<close>

fun literal_loop :: "int list \<Rightarrow> token_type \<Rightarrow> lexer \<Rightarrow> token_type \<times> lexer" where
  "literal_loop [] return_type s = (return_type, s)"
| "literal_loop (c # cs) return_type s =
     (let s = lex_get s in
      if lx_current s \<noteq> c then lex_fail ''invalid literal'' s else literal_loop cs return_type s)"

definition scan_literal :: "bytes \<Rightarrow> token_type \<Rightarrow> lexer \<Rightarrow> token_type \<times> lexer" where
  "scan_literal literal_text return_type s = literal_loop (map uint (tl literal_text)) return_type s"

definition is_ws :: "int \<Rightarrow> bool" where
  "is_ws c \<longleftrightarrow> c = 0x20 \<or> c = 0x09 \<or> c = 0x0A \<or> c = 0x0D"

function skip_whitespace :: "lexer \<Rightarrow> lexer" where
  "skip_whitespace s = (let s' = lex_get s in if is_ws (lx_current s') then skip_whitespace s' else s')"
  by pat_completeness auto
termination
  by (relation "measure (\<lambda>s. length (lx_input s))")
    (auto simp: lex_get_input lex_get_current is_ws_def split: list.splits)

declare skip_whitespace.simps [simp del]

definition lex_scan :: "lexer \<Rightarrow> token_type \<times> lexer" where
  "lex_scan s =
     (let s = skip_whitespace s; c = lx_current s in
      if c = 0x5B then (begin_array, s)
      else if c = 0x5D then (end_array, s)
      else if c = 0x7B then (begin_object, s)
      else if c = 0x7D then (end_object, s)
      else if c = 0x3A then (name_separator, s)
      else if c = 0x2C then (value_separator, s)
      else if c = 0x74 then scan_literal (str_bytes ''true'') literal_true s
      else if c = 0x66 then scan_literal (str_bytes ''false'') literal_false s
      else if c = 0x6E then scan_literal (str_bytes ''null'') literal_null s
      else if c = 0x22 then scan_string s
      else if c = 0x2D \<or> digit c then scan_number s
      else if c = 0 \<or> c = -1 then (end_of_input, s)
      else lex_fail ''invalid literal'' s)"

end
