(* ===== verification/Json_Strings.thy ===== *)
theory Json_Strings
  imports Json_Lexer
begin

text \<open>
  What \<open>scan_string\<close> accepts. The reference is RFC 3629: the UTF-8 encoding of a Unicode scalar value, by
  division and remainder.
\<close>

section \<open>UTF-8\<close>

definition scalar :: "nat \<Rightarrow> bool" where
  "scalar cp \<longleftrightarrow> cp < 0x110000 \<and> \<not> (0xD800 \<le> cp \<and> cp < 0xE000)"

definition utf8_nats :: "nat \<Rightarrow> nat list" where
  "utf8_nats cp =
     (if cp < 0x80 then [cp]
      else if cp < 0x800 then [0xC0 + cp div 0x40, 0x80 + cp mod 0x40]
      else if cp < 0x10000 then [0xE0 + cp div 0x1000, 0x80 + cp div 0x40 mod 0x40, 0x80 + cp mod 0x40]
      else [0xF0 + cp div 0x40000, 0x80 + cp div 0x1000 mod 0x40, 0x80 + cp div 0x40 mod 0x40, 0x80 + cp mod 0x40])"

definition utf8 :: "nat \<Rightarrow> bytes" where
  "utf8 cp = map of_nat (utf8_nats cp)"

definition utf8_text :: "nat list \<Rightarrow> bytes" where
  "utf8_text cps = concat (map utf8 cps)"

lemma utf8_text_simps [simp]: "utf8_text [] = []" "utf8_text (cp # cps) = utf8 cp @ utf8_text cps"
  by (simp_all add: utf8_text_def)

lemma uint_byte: "n < 256 \<Longrightarrow> uint (of_nat n :: u8) = int n"
  by (simp add: unsigned_of_nat take_bit_nat_eq_self)

lemma word_of_int_uint8 [simp]: "word_of_int (uint b) = (b :: u8)"
  by simp

lemma utf8_nats_bytes: "cp < 0x110000 \<Longrightarrow> \<forall>n \<in> set (utf8_nats cp). n < 256"
  by (auto simp: utf8_nats_def)

section \<open>One turn of the loop\<close>

text \<open>Reading a byte that is there.\<close>

lemma get_Cons:
  assumes "lx_input s = b # bs"
  shows "lx_input (lex_get s) = bs" "lx_current (lex_get s) = uint b"
  using assms by (simp_all add: lex_get_input lex_get_current)

fun in_ranges :: "(int \<times> int) list \<Rightarrow> bytes \<Rightarrow> bool" where
  "in_ranges [] bs = (bs = [])"
| "in_ranges ((lo, hi) # rs) bs = (case bs of [] \<Rightarrow> False | b # bs' \<Rightarrow> lo \<le> uint b \<and> uint b \<le> hi \<and> in_ranges rs bs')"

lemma range_loop_accepts:
  assumes "in_ranges rs bs" and "lx_input s = bs @ r"
  shows "\<exists>s'. range_loop rs s = (True, s') \<and> lx_input s' = r \<and> lx_token_buffer s' = lx_token_buffer s @ bs"
  using assms
proof (induction rs bs arbitrary: s rule: in_ranges.induct)
  case (2 lo hi rs bs)
  then obtain b bs' where b: "bs = b # bs'" "lo \<le> uint b" "uint b \<le> hi" "in_ranges rs bs'" by (auto split: list.splits)
  let ?s = "lex_add (lx_current (lex_get s)) (lex_get s)"
  have "lx_input s = b # (bs' @ r)" using 2(3) b by simp
  note g = get_Cons [OF this]
  from 2(1) [OF b(1,4), of ?s] obtain s' where "range_loop rs ?s = (True, s')" "lx_input s' = r"
    "lx_token_buffer s' = lx_token_buffer s @ b # bs'" using g by auto
  then show ?case using b g by (simp add: Let_def)
qed simp

lemma range_loop_inversion:
  assumes "range_loop rs s = (True, s')" and "\<forall>(lo, hi) \<in> set rs. 0 \<le> lo"
  shows "\<exists>bs. in_ranges rs bs \<and> lx_input s = bs @ lx_input s' \<and> lx_token_buffer s' = lx_token_buffer s @ bs"
  using assms
proof (induction rs arbitrary: s)
  case (Cons p rs)
  obtain lo hi where p: "p = (lo, hi)" by (cases p)
  let ?s = "lex_add (lx_current (lex_get s)) (lex_get s)"
  have r: "lo \<le> lx_current (lex_get s)" "lx_current (lex_get s) \<le> hi" "range_loop rs ?s = (True, s')"
    using Cons.prems(1) p by (auto simp: Let_def split: if_splits)
  have "lx_current (lex_get s) \<noteq> -1" using r(1) Cons.prems(2) p by auto
  then obtain b bs where b: "lx_input s = b # bs" by (auto simp: lex_get_eof neq_Nil_conv)
  obtain ds where "in_ranges rs ds" "lx_input ?s = ds @ lx_input s'" "lx_token_buffer s' = lx_token_buffer ?s @ ds"
    using Cons.IH [OF r(3)] Cons.prems(2) by auto
  then show ?case using get_Cons [OF b] b r p by (intro exI [of _ "b # ds"]) auto
qed (auto intro: exI [of _ "[]"])

text \<open>The byte ranges of the switch are the well-formed sequences.\<close>

lemma byte_ranges_two:
  assumes "2 \<le> a" and "a < 0x20" and "x < 0x40"
  shows "\<exists>rs. byte_ranges (uint (of_nat (0xC0 + a) :: u8)) = Some rs \<and> in_ranges rs [of_nat (0x80 + x)]"
  using assms by (simp add: uint_byte byte_ranges_def del: of_nat_add)

lemma byte_ranges_three:
  assumes "a < 0x10" and "b < 0x40" and "x < 0x40" and "a = 0 \<Longrightarrow> 0x20 \<le> b" and "a = 13 \<Longrightarrow> b < 0x20"
  shows "\<exists>rs. byte_ranges (uint (of_nat (0xE0 + a) :: u8)) = Some rs \<and> in_ranges rs [of_nat (0x80 + b), of_nat (0x80 + x)]"
proof -
  consider "a = 0" | "a = 13" | "a \<noteq> 0" "a \<noteq> 13" by blast
  then show ?thesis
  proof cases
    case 3
    then have "byte_ranges (int (0xE0 + a)) = Some [(0x80, 0xBF), (0x80, 0xBF)]" using assms(1) by (auto simp: byte_ranges_def)
    then show ?thesis using assms(1-3) by (simp add: uint_byte del: of_nat_add)
  qed (use assms in \<open>simp_all add: uint_byte byte_ranges_def del: of_nat_add\<close>)
qed

lemma byte_ranges_four:
  assumes "a \<le> 4" and "b < 0x40" and "x < 0x40" and "y < 0x40" and "a = 0 \<Longrightarrow> 0x10 \<le> b" and "a = 4 \<Longrightarrow> b < 0x10"
  shows "\<exists>rs. byte_ranges (uint (of_nat (0xF0 + a) :: u8)) = Some rs
    \<and> in_ranges rs [of_nat (0x80 + b), of_nat (0x80 + x), of_nat (0x80 + y)]"
proof -
  consider "a = 0" | "a = 4" | "a \<noteq> 0" "a \<noteq> 4" by blast
  then show ?thesis
  proof cases
    case 3
    then have "byte_ranges (int (0xF0 + a)) = Some [(0x80, 0xBF), (0x80, 0xBF), (0x80, 0xBF)]" using assms(1) by (auto simp: byte_ranges_def)
    then show ?thesis using assms(1-4) by (simp add: uint_byte del: of_nat_add)
  qed (use assms in \<open>simp_all add: uint_byte byte_ranges_def del: of_nat_add\<close>)
qed

text \<open>The parts of a codepoint, and the codepoint of given parts.\<close>

lemma three_parts:
  assumes "scalar cp" and "0x800 \<le> cp" and "cp < 0x10000"
  shows "cp div 0x1000 < 0x10" "cp div 0x1000 = 0 \<Longrightarrow> 0x20 \<le> cp div 0x40 mod 0x40" "cp div 0x1000 = 13 \<Longrightarrow> cp div 0x40 mod 0x40 < 0x20"
proof -
  let ?a = "cp div 0x1000" and ?b = "cp div 0x40 mod 0x40"
  have q: "cp div 0x40 = 0x40 * ?a + ?b" using div_mult2_eq [of cp "0x40" "0x40"] by simp
  show "?a < 0x10" using assms by simp
  show "?a = 0 \<Longrightarrow> 0x20 \<le> ?b" using q div_le_mono [OF assms(2), of "0x40"] by simp
  show "?b < 0x20" if "?a = 13"
  proof -
    have "cp < 0xE000" using that by auto
    then have "cp div 0x40 < 0x360" using assms(1) by (auto simp: scalar_def)
    then show ?thesis using q that by linarith
  qed
qed

lemma four_parts:
  assumes "scalar cp" and "0x10000 \<le> cp"
  shows "cp div 0x40000 \<le> 4" "cp div 0x40000 = 0 \<Longrightarrow> 0x10 \<le> cp div 0x1000 mod 0x40" "cp div 0x40000 = 4 \<Longrightarrow> cp div 0x1000 mod 0x40 < 0x10"
proof -
  let ?a = "cp div 0x40000" and ?b = "cp div 0x1000 mod 0x40"
  have c: "cp < 0x110000" using assms(1) by (simp add: scalar_def)
  have q: "cp div 0x1000 = 0x40 * ?a + ?b" using div_mult2_eq [of cp "0x1000" "0x40"] by simp
  show "?a \<le> 4" using c by simp
  show "?a = 0 \<Longrightarrow> 0x10 \<le> ?b" using q div_le_mono [OF assms(2), of "0x1000"] by simp
  have "cp div 0x1000 < 0x110" using c by simp
  then show "?a = 4 \<Longrightarrow> ?b < 0x10" using q by linarith
qed

lemma byte_ranges_utf8:
  assumes "scalar cp" and "0x80 \<le> cp"
  obtains b bs rs where "utf8 cp = b # bs" "byte_ranges (uint b) = Some rs" "in_ranges rs bs" "0x80 \<le> uint b"
proof -
  consider "cp < 0x800" | "0x800 \<le> cp" "cp < 0x10000" | "0x10000 \<le> cp" by linarith
  then show ?thesis
  proof cases
    case 1
    have a: "2 \<le> cp div 0x40" "cp div 0x40 < 0x20" using assms(2) 1 by auto
    obtain rs where rs: "byte_ranges (uint (of_nat (0xC0 + cp div 0x40) :: u8)) = Some rs" "in_ranges rs [of_nat (0x80 + cp mod 0x40)]"
      using byte_ranges_two [OF a, of "cp mod 0x40"] by auto
    have u: "utf8 cp = [of_nat (0xC0 + cp div 0x40), of_nat (0x80 + cp mod 0x40)]"
      using 1 assms(2) by (simp add: utf8_def utf8_nats_def)
    have "uint (of_nat (0xC0 + cp div 0x40) :: u8) = int (0xC0 + cp div 0x40)" by (rule uint_byte) (use a(2) in linarith)
    then show ?thesis by (intro that [OF u rs]) simp
  next
    case 2
    note p = three_parts [OF assms(1) 2]
    obtain rs where rs: "byte_ranges (uint (of_nat (0xE0 + cp div 0x1000) :: u8)) = Some rs"
      "in_ranges rs [of_nat (0x80 + cp div 0x40 mod 0x40), of_nat (0x80 + cp mod 0x40)]"
      using byte_ranges_three [OF p(1) _ _ p(2,3), of "cp mod 0x40"] by auto
    have u: "utf8 cp = [of_nat (0xE0 + cp div 0x1000), of_nat (0x80 + cp div 0x40 mod 0x40), of_nat (0x80 + cp mod 0x40)]"
      using 2 by (simp add: utf8_def utf8_nats_def)
    have "uint (of_nat (0xE0 + cp div 0x1000) :: u8) = int (0xE0 + cp div 0x1000)" by (rule uint_byte) (use p(1) in linarith)
    then show ?thesis by (intro that [OF u rs]) simp
  next
    case 3
    note p = four_parts [OF assms(1) 3]
    obtain rs where rs: "byte_ranges (uint (of_nat (0xF0 + cp div 0x40000) :: u8)) = Some rs"
      "in_ranges rs [of_nat (0x80 + cp div 0x1000 mod 0x40), of_nat (0x80 + cp div 0x40 mod 0x40), of_nat (0x80 + cp mod 0x40)]"
      using byte_ranges_four [OF p(1) _ _ _ p(2,3), of "cp div 0x40 mod 0x40" "cp mod 0x40"] by auto
    have u: "utf8 cp = [of_nat (0xF0 + cp div 0x40000), of_nat (0x80 + cp div 0x1000 mod 0x40),
        of_nat (0x80 + cp div 0x40 mod 0x40), of_nat (0x80 + cp mod 0x40)]" using 3 by (simp add: utf8_def utf8_nats_def)
    have "uint (of_nat (0xF0 + cp div 0x40000) :: u8) = int (0xF0 + cp div 0x40000)" by (rule uint_byte) (use p(1) in linarith)
    then show ?thesis by (intro that [OF u rs]) simp
  qed
qed
text \<open>A character that needs no escape is copied.\<close>

definition plain :: "nat \<Rightarrow> bool" where
  "plain cp \<longleftrightarrow> scalar cp \<and> 0x20 \<le> cp \<and> cp \<noteq> 0x22 \<and> cp \<noteq> 0x5C"

lemma turn_plain:
  assumes "plain cp" and "lx_input s = utf8 cp @ r"
  shows "\<exists>s'. scan_string_turn s = (None, s') \<and> lx_input s' = r \<and> lx_token_buffer s' = lx_token_buffer s @ utf8 cp"
proof (cases "cp < 0x80")
  case True
  then have "lx_input s = of_nat cp # r" using assms(2) by (simp add: utf8_def utf8_nats_def)
  then show ?thesis using get_Cons [of s "of_nat cp" r] assms(1) True
    by (auto simp: scan_string_turn_def Let_def plain_def uint_byte utf8_def utf8_nats_def)
next
  case False
  obtain b bs rs where u: "utf8 cp = b # bs" "byte_ranges (uint b) = Some rs" "in_ranges rs bs" "0x80 \<le> uint b"
    using byte_ranges_utf8 [of cp] assms(1) False by (auto simp: plain_def)
  have i: "lx_input s = b # (bs @ r)" using assms(2) u(1) by simp
  let ?s = "lex_add (lx_current (lex_get s)) (lex_get s)"
  obtain s' where "range_loop rs ?s = (True, s')" "lx_input s' = r" "lx_token_buffer s' = lx_token_buffer ?s @ bs"
    using range_loop_accepts [OF u(3), of ?s r] get_Cons [OF i] by auto
  then show ?thesis using get_Cons [OF i] u by (simp add: scan_string_turn_def Let_def next_byte_in_range_def)
qed

text \<open>The other way round: bytes that pass the ranges are the encoding of a scalar value.\<close>

lemma byte_parts:
  assumes "int lo \<le> uint (b :: u8)"
  obtains n where "b = of_nat (lo + n)" "uint b = int (lo + n)"
proof -
  have u: "uint b = int (unat b)" by simp
  have "lo \<le> unat b" using assms unfolding u by (simp only: of_nat_le_iff)
  then obtain n where n: "unat b = lo + n" by (auto simp: le_iff_add)
  have "b = of_nat (unat b)" by simp
  from this u have "b = of_nat (lo + n)" "uint b = int (lo + n)" unfolding n .
  then show ?thesis by (rule that)
qed

lemma horner_div_mod:
  assumes "x < (0x40 :: nat)"
  shows "(q * 0x40 + x) div 0x40 = q" "(q * 0x40 + x) mod 0x40 = x"
  using assms by simp_all

lemma parts_two:
  assumes "2 \<le> a" and "a < 0x20" and "x < 0x40"
  shows "plain (a * 0x40 + x)" "utf8 (a * 0x40 + x) = [of_nat (0xC0 + a), of_nat (0x80 + x)]"
proof -
  let ?cp = "a * 0x40 + x"
  have b: "0x80 \<le> ?cp" "?cp < 0x800" using assms by linarith+
  have d: "?cp div 0x40 = a" "?cp mod 0x40 = x" using assms by simp_all
  show "plain ?cp" using b by (simp add: plain_def scalar_def)
  show "utf8 ?cp = [of_nat (0xC0 + a), of_nat (0x80 + x)]" unfolding utf8_def utf8_nats_def d using b by simp
qed

lemma parts_three:
  assumes "a < 0x10" and "b < 0x40" and "x < 0x40" and "a = 0 \<Longrightarrow> 0x20 \<le> b" and "a = 13 \<Longrightarrow> b < 0x20"
  shows "plain (a * 0x1000 + b * 0x40 + x)" "utf8 (a * 0x1000 + b * 0x40 + x) = [of_nat (0xE0 + a), of_nat (0x80 + b), of_nat (0x80 + x)]"
proof -
  let ?cp = "a * 0x1000 + b * 0x40 + x"
  have r: "0x800 \<le> ?cp" "?cp < 0x10000" using assms(1-4) by (cases "a = 0"; simp)+
  have "a \<le> 12 \<or> a = 13 \<or> 14 \<le> a" by linarith
  then have s: "?cp < 0xD800 \<or> 0xE000 \<le> ?cp" using assms(2,3,5) by auto
  have e: "?cp = (a * 0x40 + b) * 0x40 + x" by simp
  have d: "?cp div 0x40 = a * 0x40 + b" "?cp mod 0x40 = x" unfolding e using assms(3) by (simp_all only: horner_div_mod)
  have d2: "?cp div 0x1000 = a" "?cp div 0x40 mod 0x40 = b"
    using div_mult2_eq [of ?cp "0x40" "0x40"] d(1) assms(2) by simp_all
  show "plain ?cp" using r s by (auto simp: plain_def scalar_def)
  show "utf8 ?cp = [of_nat (0xE0 + a), of_nat (0x80 + b), of_nat (0x80 + x)]"
    unfolding utf8_def utf8_nats_def d2 d(2) using r by simp
qed

lemma parts_four:
  assumes "a \<le> 4" and "b < 0x40" and "x < 0x40" and "y < 0x40" and "a = 0 \<Longrightarrow> 0x10 \<le> b" and "a = 4 \<Longrightarrow> b < 0x10"
  shows "plain (a * 0x40000 + b * 0x1000 + x * 0x40 + y)"
    "utf8 (a * 0x40000 + b * 0x1000 + x * 0x40 + y) = [of_nat (0xF0 + a), of_nat (0x80 + b), of_nat (0x80 + x), of_nat (0x80 + y)]"
proof -
  let ?cp = "a * 0x40000 + b * 0x1000 + x * 0x40 + y"
  have l: "0x10000 \<le> ?cp" using assms(5) by (cases "a = 0") simp_all
  have h: "?cp < 0x110000" using assms by (cases "a = 4") simp_all
  have e: "?cp = (a * 0x1000 + b * 0x40 + x) * 0x40 + y" by simp
  have d: "?cp div 0x40 = a * 0x1000 + b * 0x40 + x" "?cp mod 0x40 = y" unfolding e using assms(4) by (simp_all only: horner_div_mod)
  have e2: "a * 0x1000 + b * 0x40 + x = (a * 0x40 + b) * 0x40 + x" by simp
  have f: "?cp div 0x40 div 0x40 = a * 0x40 + b" "?cp div 0x40 mod 0x40 = x"
    unfolding d(1) e2 using assms(3) by (simp_all only: horner_div_mod)
  have d2: "?cp div 0x1000 = a * 0x40 + b" "?cp div 0x40 mod 0x40 = x"
    using div_mult2_eq [of ?cp "0x40" "0x40"] f by simp_all
  have d3: "?cp div 0x40000 = a" "?cp div 0x1000 mod 0x40 = b"
    using div_mult2_eq [of ?cp "0x1000" "0x40"] d2(1) assms(2) by simp_all
  show "plain ?cp" using l h by (simp add: plain_def scalar_def)
  show "utf8 ?cp = [of_nat (0xF0 + a), of_nat (0x80 + b), of_nat (0x80 + x), of_nat (0x80 + y)]"
    unfolding utf8_def utf8_nats_def d3 d2(2) d(2) using l by simp
qed

lemma byte_ranges_inversion:
  assumes "byte_ranges c = Some rs" and "in_ranges rs bs"
  obtains (two) x where "0xC2 \<le> c" "c \<le> 0xDF" "bs = [x]" "0x80 \<le> uint x" "uint x \<le> 0xBF"
  | (three) x y where "0xE0 \<le> c" "c \<le> 0xEF" "bs = [x, y]" "0x80 \<le> uint x" "uint x \<le> 0xBF" "0x80 \<le> uint y" "uint y \<le> 0xBF"
      "c = 0xE0 \<longrightarrow> 0xA0 \<le> uint x" "c = 0xED \<longrightarrow> uint x \<le> 0x9F"
  | (four) x y z where "0xF0 \<le> c" "c \<le> 0xF4" "bs = [x, y, z]" "0x80 \<le> uint x" "uint x \<le> 0xBF" "0x80 \<le> uint y"
      "uint y \<le> 0xBF" "0x80 \<le> uint z" "uint z \<le> 0xBF" "c = 0xF0 \<longrightarrow> 0x90 \<le> uint x" "c = 0xF4 \<longrightarrow> uint x \<le> 0x8F"
proof -
  have r: "0xC2 \<le> c \<and> c \<le> 0xDF \<and> rs = [(0x80, 0xBF)]
    \<or> 0xE0 \<le> c \<and> c \<le> 0xEF \<and> rs = [(if c = 0xE0 then 0xA0 else 0x80, if c = 0xED then 0x9F else 0xBF), (0x80, 0xBF)]
    \<or> 0xF0 \<le> c \<and> c \<le> 0xF4 \<and> rs = [(if c = 0xF0 then 0x90 else 0x80, if c = 0xF4 then 0x8F else 0xBF), (0x80, 0xBF), (0x80, 0xBF)]"
    using assms(1) by (auto simp: byte_ranges_def split: if_splits)
  then show ?thesis
  proof (elim disjE conjE)
    assume c: "0xC2 \<le> c" "c \<le> 0xDF" and "rs = [(0x80, 0xBF)]"
    then obtain x where "bs = [x]" "0x80 \<le> uint x" "uint x \<le> 0xBF" using assms(2) by (auto split: list.splits)
    with c show ?thesis by (rule two)
  next
    assume c: "0xE0 \<le> c" "c \<le> 0xEF" and rs: "rs = [(if c = 0xE0 then 0xA0 else 0x80, if c = 0xED then 0x9F else 0xBF), (0x80, 0xBF)]"
    then obtain x y where "bs = [x, y]" using assms(2) by (auto split: list.splits)
    then show ?thesis using assms(2) rs c by (intro three [of x y]) (auto split: if_splits)
  next
    assume c: "0xF0 \<le> c" "c \<le> 0xF4"
      and rs: "rs = [(if c = 0xF0 then 0x90 else 0x80, if c = 0xF4 then 0x8F else 0xBF), (0x80, 0xBF), (0x80, 0xBF)]"
    then obtain x y z where "bs = [x, y, z]" using assms(2) by (auto split: list.splits)
    then show ?thesis using assms(2) rs c by (intro four [of x y z]) (auto split: if_splits)
  qed
qed

lemma ranges_plain:
  assumes "byte_ranges (uint b) = Some rs" and "in_ranges rs bs"
  shows "\<exists>cp. plain cp \<and> b # bs = utf8 cp"
  using assms
proof (cases rule: byte_ranges_inversion)
  case (two x)
  obtain a where a: "b = of_nat (0xC0 + a)" "uint b = int (0xC0 + a)" using byte_parts [of "0xC0" b] two(1) by auto
  obtain n where n: "x = of_nat (0x80 + n)" "uint x = int (0x80 + n)" using byte_parts [of "0x80" x] two(4) by auto
  have "2 \<le> a" "a < 0x20" "n < 0x40" using two a(2) n(2) by linarith+
  from parts_two [OF this] show ?thesis using two(3) a(1) n(1) by metis
next
  case (three x y)
  obtain a where a: "b = of_nat (0xE0 + a)" "uint b = int (0xE0 + a)" using byte_parts [of "0xE0" b] three(1) by auto
  obtain n where n: "x = of_nat (0x80 + n)" "uint x = int (0x80 + n)" using byte_parts [of "0x80" x] three(4) by auto
  obtain m where m: "y = of_nat (0x80 + m)" "uint y = int (0x80 + m)" using byte_parts [of "0x80" y] three(6) by auto
  have "a < 0x10" "n < 0x40" "m < 0x40" "a = 0 \<Longrightarrow> 0x20 \<le> n" "a = 13 \<Longrightarrow> n < 0x20"
    using three a(2) n(2) m(2) by auto
  from parts_three [OF this] show ?thesis using three(3) a(1) n(1) m(1) by metis
next
  case (four x y z)
  obtain a where a: "b = of_nat (0xF0 + a)" "uint b = int (0xF0 + a)" using byte_parts [of "0xF0" b] four(1) by auto
  obtain n where n: "x = of_nat (0x80 + n)" "uint x = int (0x80 + n)" using byte_parts [of "0x80" x] four(4) by auto
  obtain m where m: "y = of_nat (0x80 + m)" "uint y = int (0x80 + m)" using byte_parts [of "0x80" y] four(6) by auto
  obtain k where k: "z = of_nat (0x80 + k)" "uint z = int (0x80 + k)" using byte_parts [of "0x80" z] four(8) by auto
  have "a \<le> 4" "n < 0x40" "m < 0x40" "k < 0x40" "a = 0 \<Longrightarrow> 0x10 \<le> n" "a = 4 \<Longrightarrow> n < 0x10"
    using four a(2) n(2) m(2) k(2) by auto
  from parts_four [OF this] show ?thesis using four(3) a(1) n(1) m(1) k(1) by metis
qed

lemma byte_ranges_nonneg: "byte_ranges c = Some rs \<Longrightarrow> \<forall>(lo, hi) \<in> set rs. 0 \<le> lo"
  by (auto simp: byte_ranges_def split: if_splits)

lemma turn_inversion:
  assumes "scan_string_turn s = (None, s')" and "lx_input s = [] \<or> hd (lx_input s) \<noteq> 0x5C"
  shows "\<exists>cp. plain cp \<and> lx_input s = utf8 cp @ lx_input s' \<and> lx_token_buffer s' = lx_token_buffer s @ utf8 cp"
proof -
  obtain b bs where b: "lx_input s = b # bs"
    using assms(1) by (cases "lx_input s") (auto simp: scan_string_turn_def Let_def lex_get_current lex_fail_def)
  note g = get_Cons [OF b]
  have n: "uint b \<noteq> 0x5C" using assms(2) b by (auto simp: word_uint_eq_iff)
  let ?s = "lex_add (lx_current (lex_get s)) (lex_get s)"
  show ?thesis
  proof (cases "uint b \<le> 0x7F")
    case True
    then have t: "0x20 \<le> uint b" "uint b \<noteq> 0x22" "s' = ?s"
      using assms(1) g n uint_ge_0 [of b] by (auto simp: scan_string_turn_def Let_def lex_fail_def split: if_splits)
    obtain m where m: "b = of_nat (0 + m)" "uint b = int (0 + m)" using byte_parts [of 0 b] by auto
    then have "plain m" "utf8 m = [b]" using t True n by (auto simp: plain_def scalar_def utf8_def utf8_nats_def)
    then show ?thesis using t(3) g b by (intro exI [of _ m]) auto
  next
    case False
    then obtain rs where r: "byte_ranges (uint b) = Some rs" "range_loop rs ?s = (True, s')"
      using assms(1) g n uint_ge_0 [of b]
      by (auto simp: scan_string_turn_def Let_def lex_fail_def next_byte_in_range_def split: if_splits option.splits prod.splits)
    obtain ds where "in_ranges rs ds" "lx_input ?s = ds @ lx_input s'" "lx_token_buffer s' = lx_token_buffer ?s @ ds"
      using range_loop_inversion [OF r(2) byte_ranges_nonneg [OF r(1)]] by auto
    then show ?thesis using ranges_plain [OF r(1)] g b by fastforce
  qed
qed

section \<open>Escapes\<close>

text \<open>A hexadecimal digit, and the number that four of them write.\<close>

definition hex_nibble :: "u8 \<Rightarrow> nat \<Rightarrow> bool" where
  "hex_nibble b n \<longleftrightarrow> n < 10 \<and> b = of_nat (0x30 + n) \<or> (\<exists>m < 6. n = 10 + m \<and> (b = of_nat (0x61 + m) \<or> b = of_nat (0x41 + m)))"

definition hex4 :: "bytes \<Rightarrow> nat \<Rightarrow> bool" where
  "hex4 hs v \<longleftrightarrow> (\<exists>a b c d m n k l. hs = [a, b, c, d] \<and> hex_nibble a m \<and> hex_nibble b n \<and> hex_nibble c k \<and> hex_nibble d l
     \<and> v = m * 0x1000 + n * 0x100 + k * 0x10 + l)"

lemma hex_digit_nibble: "hex_nibble b n \<Longrightarrow> hex_digit (uint b) = Some (int n)"
  by (auto simp: hex_nibble_def hex_digit_def uint_byte simp del: of_nat_add)

lemma nibble_hex_digit:
  assumes "hex_digit (uint b) = Some d"
  shows "\<exists>n. d = int n \<and> hex_nibble b n"
proof -
  consider "0x30 \<le> uint b" "uint b \<le> 0x39" "d = uint b - 0x30"
    | "0x41 \<le> uint b" "uint b \<le> 0x46" "d = uint b - 0x37" | "0x61 \<le> uint b" "uint b \<le> 0x66" "d = uint b - 0x57"
    using assms by (auto simp: hex_digit_def split: if_splits)
  then show ?thesis
  proof cases
    case 1
    obtain m where "b = of_nat (0x30 + m)" "uint b = int (0x30 + m)" using byte_parts [of "0x30" b] 1 by auto
    then show ?thesis using 1 by (intro exI [of _ m]) (simp add: hex_nibble_def)
  next
    case 2
    obtain m where "b = of_nat (0x41 + m)" "uint b = int (0x41 + m)" using byte_parts [of "0x41" b] 2 by auto
    then show ?thesis using 2 by (intro exI [of _ "10 + m"]) (simp add: hex_nibble_def)
  next
    case 3
    obtain m where "b = of_nat (0x61 + m)" "uint b = int (0x61 + m)" using byte_parts [of "0x61" b] 3 by auto
    then show ?thesis using 3 by (intro exI [of _ "10 + m"]) (simp add: hex_nibble_def)
  qed
qed

lemma hex_nibble_less: "hex_nibble b n \<Longrightarrow> n < 16"
  by (auto simp: hex_nibble_def)

lemma hex4_less: "hex4 hs v \<Longrightarrow> v < 0x10000"
  by (auto simp: hex4_def dest!: hex_nibble_less)

lemma get_codepoint_accepts:
  assumes "hex4 hs v" and "lx_input s = hs @ r"
  shows "\<exists>s'. get_codepoint s = (int v, s') \<and> lx_input s' = r \<and> lx_token_buffer s' = lx_token_buffer s"
proof -
  obtain a b c d m n k l where h: "hs = [a, b, c, d]" "hex_nibble a m" "hex_nibble b n" "hex_nibble c k" "hex_nibble d l"
    "v = m * 0x1000 + n * 0x100 + k * 0x10 + l" using assms(1) by (auto simp: hex4_def)
  have "lx_input s = a # b # c # d # r" using assms(2) h(1) by simp
  then show ?thesis unfolding get_codepoint_def using h(2-6)
    by (simp add: Let_def lex_get_input lex_get_current hex_digit_nibble push_bit_eq_mult)
qed

lemma codepoint_loop_Cons:
  assumes "codepoint_loop (f # fs) v s = (c, s')" and "c \<noteq> -1"
  obtains b bs n s1 where "lx_input s = b # bs" "hex_nibble b n" "codepoint_loop fs (v + int n * 2 ^ f) s1 = (c, s')"
    "lx_input s1 = bs" "lx_token_buffer s1 = lx_token_buffer s"
proof -
  have "lx_input s \<noteq> []" using assms by (auto simp: lex_get_current hex_digit_def Let_def)
  then obtain b bs where b: "lx_input s = b # bs" by (auto simp: neq_Nil_conv)
  then obtain d where d: "hex_digit (uint b) = Some d" "codepoint_loop fs (v + push_bit f d) (lex_get s) = (c, s')"
    using assms by (auto simp: get_Cons Let_def split: option.splits)
  then show ?thesis using nibble_hex_digit [OF d(1)] get_Cons [OF b] that [OF b _ _, of _ "lex_get s"]
    by (auto simp: push_bit_eq_mult)
qed

lemma get_codepoint_inversion:
  assumes "get_codepoint s = (c, s')" and "c \<noteq> -1"
  shows "\<exists>hs v. hex4 hs v \<and> c = int v \<and> lx_input s = hs @ lx_input s' \<and> lx_token_buffer s' = lx_token_buffer s"
  using assms(1) unfolding get_codepoint_def
  by (elim codepoint_loop_Cons [OF _ assms(2)]) (fastforce simp: hex4_def)

text \<open>The bitwise arithmetic of \<open>add_codepoint\<close> is the encoding.\<close>

lemma or_markers:
  "x < 0x40 \<Longrightarrow> (0x80 :: int) OR int x = int (0x80 + x)"
  "x < 0x20 \<Longrightarrow> (0xC0 :: int) OR int x = int (0xC0 + x)"
  "x < 0x10 \<Longrightarrow> (0xE0 :: int) OR int x = int (0xE0 + x)"
  "x < 0x08 \<Longrightarrow> (0xF0 :: int) OR int x = int (0xF0 + x)"
proof -
  have t: "list_all (\<lambda>x. (0x80 :: int) OR int x = int (0x80 + x)) [0..<0x40]"
    "list_all (\<lambda>x. (0xC0 :: int) OR int x = int (0xC0 + x)) [0..<0x20]"
    "list_all (\<lambda>x. (0xE0 :: int) OR int x = int (0xE0 + x)) [0..<0x10]"
    "list_all (\<lambda>x. (0xF0 :: int) OR int x = int (0xF0 + x)) [0..<0x08]"
    by code_simp+
  show "x < 0x40 \<Longrightarrow> (0x80 :: int) OR int x = int (0x80 + x)" using t(1) by (simp add: list_all_iff del: of_nat_add)
  show "x < 0x20 \<Longrightarrow> (0xC0 :: int) OR int x = int (0xC0 + x)" using t(2) by (simp add: list_all_iff del: of_nat_add)
  show "x < 0x10 \<Longrightarrow> (0xE0 :: int) OR int x = int (0xE0 + x)" using t(3) by (simp add: list_all_iff del: of_nat_add)
  show "x < 0x08 \<Longrightarrow> (0xF0 :: int) OR int x = int (0xF0 + x)" using t(4) by (simp add: list_all_iff del: of_nat_add)
qed

lemma low_six: "int n AND 0x3F = int (n mod 0x40)"
  using take_bit_eq_mask [of 6 "int n"] by (simp add: take_bit_eq_mod mask_eq_exp_minus_1 of_nat_mod)

lemma drop_bits:
  "drop_bit 6 (int n) = int (n div 0x40)" "drop_bit 12 (int n) = int (n div 0x1000)" "drop_bit 18 (int n) = int (n div 0x40000)"
  by (simp_all add: drop_bit_eq_div of_nat_div)

lemma add_codepoint_buffer:
  assumes "cp < 0x110000"
  shows "lx_token_buffer (add_codepoint (int cp) s) = lx_token_buffer s @ utf8 cp"
proof -
  consider "cp < 0x80" | "0x80 \<le> cp" "cp < 0x800" | "0x800 \<le> cp" "cp < 0x10000" | "0x10000 \<le> cp" by linarith
  then show ?thesis
  proof cases
    case 2
    then have "cp div 0x40 < 0x20" by auto
    then show ?thesis using 2 by (simp add: add_codepoint_def low_six drop_bits or_markers utf8_def utf8_nats_def)
  next
    case 3
    then have "cp div 0x1000 < 0x10" by auto
    then show ?thesis using 3 by (simp add: add_codepoint_def low_six drop_bits or_markers utf8_def utf8_nats_def)
  next
    case 4
    then have "cp div 0x40000 < 0x08" using assms by auto
    then show ?thesis using 4 by (simp add: add_codepoint_def low_six drop_bits or_markers utf8_def utf8_nats_def)
  qed (simp add: add_codepoint_def utf8_def utf8_nats_def)
qed

section \<open>The string grammar\<close>

text \<open>
  The characters between the quotes (RFC 8259, section 7): the bytes on the left write the codepoint on
  the right. A surrogate is written as one of a pair.
\<close>

definition short_escapes :: "(u8 \<times> nat) list" where
  "short_escapes = [(0x22, 0x22), (0x5C, 0x5C), (0x2F, 0x2F), (0x62, 0x08), (0x66, 0x0C), (0x6E, 0x0A), (0x72, 0x0D), (0x74, 0x09)]"

inductive string_item :: "bytes \<Rightarrow> nat \<Rightarrow> bool" where
  item_plain: "plain cp \<Longrightarrow> string_item (utf8 cp) cp"
| item_short: "(l, cp) \<in> set short_escapes \<Longrightarrow> string_item [0x5C, l] cp"
| item_unicode: "hex4 hs cp \<Longrightarrow> scalar cp \<Longrightarrow> string_item (0x5C # 0x75 # hs) cp"
| item_surrogates: "hex4 hs hi \<Longrightarrow> 0xD800 \<le> hi \<Longrightarrow> hi < 0xDC00 \<Longrightarrow> hex4 hs' lo \<Longrightarrow> 0xDC00 \<le> lo \<Longrightarrow> lo < 0xE000 \<Longrightarrow>
    string_item (0x5C # 0x75 # hs @ 0x5C # 0x75 # hs') (0x10000 + (hi - 0xD800) * 0x400 + (lo - 0xDC00))"

inductive string_body :: "bytes \<Rightarrow> nat list \<Rightarrow> bool" where
  body_Nil: "string_body [] []"
| body_Cons: "string_item bs cp \<Longrightarrow> string_body ds cps \<Longrightarrow> string_body (bs @ ds) (cp # cps)"

lemma surrogates_scalar:
  assumes "0xD800 \<le> hi" and "hi < 0xDC00" and "0xDC00 \<le> lo" and "lo < 0xE000"
  shows "scalar (0x10000 + (hi - 0xD800) * 0x400 + (lo - 0xDC00))"
  using assms by (simp add: scalar_def)

lemma string_item_scalar: "string_item bs cp \<Longrightarrow> scalar cp"
  by (induction rule: string_item.induct) (auto simp: plain_def short_escapes_def surrogates_scalar, auto simp: scalar_def)

lemma escape_unicode:
  assumes "lx_input s = 0x5C # 0x75 # r"
  shows "scan_string_turn s = scan_unicode_escape (lex_get (lex_get s))" "lx_input (lex_get (lex_get s)) = r"
  using assms by (simp_all add: scan_string_turn_def scan_escape_def Let_def lex_get_input lex_get_current)

lemma unicode_accepts:
  assumes "hex4 hs cp" and "scalar cp" and "lx_input s = hs @ r"
  shows "\<exists>s'. scan_unicode_escape s = (None, s') \<and> lx_input s' = r \<and> lx_token_buffer s' = lx_token_buffer s @ utf8 cp"
proof -
  obtain s' where s': "get_codepoint s = (int cp, s')" "lx_input s' = r" "lx_token_buffer s' = lx_token_buffer s"
    using get_codepoint_accepts [OF assms(1,3)] by auto
  have "\<not> (0xD800 \<le> cp \<and> cp < 0xE000)" "cp < 0x110000" using assms(2) by (simp_all add: scalar_def)
  then show ?thesis using s' by (auto simp: scan_unicode_escape_def Let_def add_codepoint_buffer)
qed

lemma surrogates_accept:
  assumes "hex4 hs hi" "0xD800 \<le> hi" "hi < 0xDC00" "hex4 hs' lo" "0xDC00 \<le> lo" "lo < 0xE000"
    and i: "lx_input s = hs @ 0x5C # 0x75 # hs' @ r"
  shows "\<exists>s'. scan_unicode_escape s = (None, s') \<and> lx_input s' = r
    \<and> lx_token_buffer s' = lx_token_buffer s @ utf8 (0x10000 + (hi - 0xD800) * 0x400 + (lo - 0xDC00))"
proof -
  let ?cp = "0x10000 + (hi - 0xD800) * 0x400 + (lo - 0xDC00)"
  obtain s1 where s1: "get_codepoint s = (int hi, s1)" "lx_input s1 = 0x5C # 0x75 # hs' @ r" "lx_token_buffer s1 = lx_token_buffer s"
    using get_codepoint_accepts [OF assms(1) i] by auto
  note g = get_Cons [OF s1(2)]
  note g2 = get_Cons [OF g(1)]
  obtain s2 where s2: "get_codepoint (lex_get (lex_get s1)) = (int lo, s2)" "lx_input s2 = r" "lx_token_buffer s2 = lx_token_buffer s"
    using get_codepoint_accepts [OF assms(4) g2(1)] s1(3) by auto
  have "push_bit 10 (int hi) + int lo - 0x35FDC00 = int ?cp" using assms(2,3,5) by (simp add: push_bit_eq_mult)
  moreover have "?cp < 0x110000" using assms(2,3,6) by simp
  ultimately show ?thesis using s1 s2 g g2 assms(2,3,5,6) add_codepoint_buffer [of ?cp s2]
    by (simp add: scan_unicode_escape_def Let_def)
qed

lemma escape_short:
  assumes "lx_input s = 0x5C # l # r" and "scan_escape (lex_get s) = (None, lex_add (int cp) (lex_get (lex_get s)))" and "cp < 0x80"
  shows "\<exists>s'. scan_string_turn s = (None, s') \<and> lx_input s' = r \<and> lx_token_buffer s' = lx_token_buffer s @ utf8 cp"
  using assms get_Cons [OF assms(1)] by (simp add: scan_string_turn_def Let_def lex_get_input utf8_def utf8_nats_def)

lemma short_accepts:
  assumes "(l, cp) \<in> set short_escapes" and "lx_input s = l # r"
  shows "scan_escape s = (None, lex_add (int cp) (lex_get s)) \<and> cp < 0x80"
proof -
  note g = get_Cons [OF assms(2)]
  show ?thesis using assms(1) unfolding short_escapes_def scan_escape_def Let_def g
    by (simp, elim disjE) simp_all
qed

lemma turn_item:
  assumes "string_item bs cp" and "lx_input s = bs @ r"
  shows "\<exists>s'. scan_string_turn s = (None, s') \<and> lx_input s' = r \<and> lx_token_buffer s' = lx_token_buffer s @ utf8 cp"
  using assms
proof (induction rule: string_item.induct)
  case (item_plain cp)
  then show ?case by (rule turn_plain)
next
  case (item_short l cp)
  then have i: "lx_input s = 0x5C # l # r" by simp
  show ?case using escape_short [OF i] short_accepts [OF item_short(1) get_Cons(1) [OF i]] by blast
next
  case (item_unicode hs cp)
  then show ?case using escape_unicode [of s "hs @ r"] unicode_accepts [of hs cp "lex_get (lex_get s)" r] by auto
next
  case (item_surrogates hs hi hs' lo)
  then have "lx_input s = 0x5C # 0x75 # (hs @ 0x5C # 0x75 # hs' @ r)" by simp
  from escape_unicode [OF this] show ?case
    using surrogates_accept [OF item_surrogates(1-6), of "lex_get (lex_get s)" r] by auto
qed

text \<open>Conversely, what a turn of the loop consumes without stopping is one item.\<close>

lemma get_read:
  assumes "lx_current (lex_get s) = uint (b :: u8)"
  shows "lx_input s = b # lx_input (lex_get s)"
proof (cases "lx_input s")
  case Nil
  then show ?thesis using assms uint_ge_0 [of b] by (simp add: lex_get_current)
next
  case (Cons c cs)
  then show ?thesis using assms get_Cons [OF Cons] by (simp add: word_uint_eq_iff)
qed

lemma unicode_inversion:
  assumes "scan_unicode_escape s = (None, s')"
  shows "\<exists>bs cp. string_item (0x5C # 0x75 # bs) cp \<and> lx_input s = bs @ lx_input s' \<and> lx_token_buffer s' = lx_token_buffer s @ utf8 cp"
proof -
  obtain c s1 where c: "get_codepoint s = (c, s1)" by fastforce
  have "c \<noteq> -1" using assms c by (auto simp: scan_unicode_escape_def lex_fail_def)
  then obtain hs v where h: "hex4 hs v" "c = int v" "lx_input s = hs @ lx_input s1" "lx_token_buffer s1 = lx_token_buffer s"
    using get_codepoint_inversion [OF c] by auto
  show ?thesis
  proof (cases "0xD800 \<le> v \<and> v < 0xE000")
    case False
    then have sc: "scalar v" "v < 0x110000" using hex4_less [OF h(1)] by (auto simp: scalar_def)
    have "s' = add_codepoint (int v) s1" using assms c h(2) False by (auto simp: scan_unicode_escape_def lex_fail_def split: if_splits)
    then show ?thesis using item_unicode [OF h(1) sc(1)] h(3,4) add_codepoint_buffer [OF sc(2)] by auto
  next
    case True
    let ?s2 = "lex_get (lex_get s1)"
    obtain d s3 where d: "get_codepoint ?s2 = (d, s3)" by fastforce
    have e: "v < 0xDC00" "lx_current (lex_get s1) = uint (0x5C :: u8)" "lx_current ?s2 = uint (0x75 :: u8)" "d \<noteq> -1"
        "0xDC00 \<le> d" "d \<le> 0xDFFF" "s' = add_codepoint (push_bit 10 (int v) + d - 0x35FDC00) s3"
      using assms c h(2) True d by (auto simp: scan_unicode_escape_def Let_def lex_fail_def split: if_splits)
    obtain hs' w where h': "hex4 hs' w" "d = int w" "lx_input ?s2 = hs' @ lx_input s3" "lx_token_buffer s3 = lx_token_buffer ?s2"
      using get_codepoint_inversion [OF d e(4)] by auto
    let ?cp = "0x10000 + (v - 0xD800) * 0x400 + (w - 0xDC00)"
    have v: "0xD800 \<le> v" and w: "0xDC00 \<le> w" "w < 0xE000" using True e(5,6) h'(2) by auto
    have "lx_input s = hs @ 0x5C # 0x75 # hs' @ lx_input s3" using h(3) h'(3) get_read [OF e(2)] get_read [OF e(3)] by simp
    moreover have q: "push_bit 10 (int v) + d - 0x35FDC00 = int ?cp" using v w h'(2) by (simp add: push_bit_eq_mult)
    have "?cp < 0x110000" using v w e(1) by simp
    from add_codepoint_buffer [OF this, of s3] have "lx_token_buffer s' = lx_token_buffer s @ utf8 ?cp"
      using h(4) h'(4) unfolding e(7) q by simp
    moreover have "lx_input s' = lx_input s3" using e(7) by simp
    ultimately show ?thesis using item_surrogates [OF h(1) v e(1) h'(1) w]
      by (intro exI [of _ "hs @ 0x5C # 0x75 # hs'"] exI [of _ ?cp]) simp
  qed
qed

lemma scan_escape_cases:
  assumes "scan_escape s = (None, s')"
  obtains (unicode) "lx_current (lex_get s) = uint (0x75 :: u8)" "scan_unicode_escape (lex_get s) = (None, s')"
  | (short) l cp where "lx_current (lex_get s) = uint (l :: u8)" "(l, cp) \<in> set short_escapes" "s' = lex_add (int cp) (lex_get s)"
proof (cases "lx_input s")
  case Nil
  then show ?thesis using assms by (simp add: scan_escape_def Let_def lex_get_current lex_fail_def)
next
  case (Cons b bs)
  note g = get_Cons [OF Cons]
  show ?thesis
  proof (cases "lx_current (lex_get s) = uint (0x75 :: u8)")
    case True
    then show ?thesis using assms unicode by (simp add: scan_escape_def Let_def)
  next
    case False
    then have "\<exists>p \<in> set short_escapes. uint b = uint (fst p) \<and> s' = lex_add (int (snd p)) (lex_get s)"
      using assms g by (simp add: scan_escape_def Let_def lex_fail_def short_escapes_def split: if_splits) (elim disjE; simp)
    then obtain l cp where "uint b = uint l" "(l, cp) \<in> set short_escapes" "s' = lex_add (int cp) (lex_get s)" by auto
    then show ?thesis using g(2) by (intro short) simp_all
  qed
qed

lemma turn_item_inversion:
  assumes "scan_string_turn s = (None, s')"
  shows "\<exists>bs cp. string_item bs cp \<and> lx_input s = bs @ lx_input s' \<and> lx_token_buffer s' = lx_token_buffer s @ utf8 cp"
proof (cases "lx_current (lex_get s) = uint (0x5C :: u8)")
  case False
  then have "lx_input s = [] \<or> hd (lx_input s) \<noteq> 0x5C" by (cases "lx_input s") (auto simp: lex_get_current)
  then show ?thesis using turn_inversion [OF assms] item_plain by blast
next
  case True
  note r = get_read [OF True]
  have "scan_escape (lex_get s) = (None, s')" using assms True by (simp add: scan_string_turn_def Let_def)
  then show ?thesis
  proof (cases rule: scan_escape_cases)
    case unicode
    then show ?thesis using unicode_inversion [OF unicode(2)] r get_read [OF unicode(1)] by fastforce
  next
    case (short l cp)
    have "cp < 0x80" using short(2) by (auto simp: short_escapes_def)
    then have "utf8 cp = [word_of_int (int cp)]" by (simp add: utf8_def utf8_nats_def)
    then show ?thesis using item_short [OF short(2)] short(3) r get_read [OF short(1)]
      by (intro exI [of _ "[0x5C, l]"] exI [of _ cp]) simp
  qed
qed

lemma unicode_stops: "scan_unicode_escape s = (Some t, s') \<Longrightarrow> t = parse_error"
  unfolding scan_unicode_escape_def lex_fail_def Let_def by (auto split: if_splits prod.splits)

lemma escape_stops: "scan_escape s = (Some t, s') \<Longrightarrow> t = parse_error"
  unfolding scan_escape_def lex_fail_def Let_def by (auto split: if_splits dest: unicode_stops)

lemma turn_stops: "scan_string_turn s = (Some t, s') \<Longrightarrow> t = parse_error \<or> t = value_string \<and> lx_current (lex_get s) = 0x22 \<and> s' = lex_get s"
  unfolding scan_string_turn_def lex_fail_def Let_def by (auto split: if_splits option.splits prod.splits dest: escape_stops)

lemma turn_done:
  assumes "lx_input s = 0x22 # r"
  shows "scan_string_turn s = (Some value_string, lex_get s)" "lx_input (lex_get s) = r"
  using get_Cons [OF assms] by (simp_all add: scan_string_turn_def Let_def)

section \<open>The string token\<close>

lemma loop_body:
  assumes "string_body bs cps" and "lx_input s = bs @ 0x22 # r"
  shows "\<exists>s'. scan_string_loop s = (value_string, s') \<and> lx_input s' = r \<and> lx_token_buffer s' = lx_token_buffer s @ utf8_text cps"
  using assms
proof (induction arbitrary: s rule: string_body.induct)
  case body_Nil
  then show ?case using turn_done [of s r] by (simp add: scan_string_loop.simps [of s])
next
  case (body_Cons bs cp ds cps)
  then obtain s1 where s1: "scan_string_turn s = (None, s1)" "lx_input s1 = ds @ 0x22 # r" "lx_token_buffer s1 = lx_token_buffer s @ utf8 cp"
    using turn_item [OF body_Cons(1), of s "ds @ 0x22 # r"] by auto
  then show ?case using body_Cons.IH [OF s1(2)] by (simp add: scan_string_loop.simps [of s])
qed

lemma loop_body_inversion:
  assumes "scan_string_loop s = (value_string, s')"
  shows "\<exists>bs cps. string_body bs cps \<and> lx_input s = bs @ 0x22 # lx_input s' \<and> lx_token_buffer s' = lx_token_buffer s @ utf8_text cps"
  using assms
proof (induction s rule: scan_string_loop.induct)
  case (1 s)
  obtain t s1 where t: "scan_string_turn s = (t, s1)" by fastforce
  show ?case
  proof (cases t)
    case (Some u)
    then have "u = value_string" "s1 = s'" using 1(2) t by (simp_all add: scan_string_loop.simps [of s])
    then have "lx_current (lex_get s) = uint (0x22 :: u8)" "s' = lex_get s" using turn_stops [of s u s1] t Some by auto
    then show ?thesis using get_read body_Nil by (intro exI [of _ "[]"]) auto
  next
    case None
    then have "scan_string_loop s1 = (value_string, s')" using 1(2) t by (simp add: scan_string_loop.simps [of s])
    then obtain ds cps where d: "string_body ds cps" "lx_input s1 = ds @ 0x22 # lx_input s'" "lx_token_buffer s' = lx_token_buffer s1 @ utf8_text cps"
      using 1(1) [OF t [symmetric] None] by auto
    obtain bs cp where "string_item bs cp" "lx_input s = bs @ lx_input s1" "lx_token_buffer s1 = lx_token_buffer s @ utf8 cp"
      using turn_item_inversion [of s s1] t None by auto
    then show ?thesis using body_Cons [OF _ d(1)] d(2,3) by (intro exI [of _ "bs @ ds"] exI [of _ "cp # cps"]) auto
  qed
qed

lemma scan_string_result: "scan_string s = (t, s') \<Longrightarrow> t = value_string \<or> t = parse_error"
proof -
  have "scan_string_loop s = (t, s') \<Longrightarrow> t = value_string \<or> t = parse_error" for s
  proof (induction s rule: scan_string_loop.induct)
    case (1 s)
    then show ?case by (cases "scan_string_turn s") (auto simp: scan_string_loop.simps [of s] split: option.splits dest: turn_stops)
  qed
  then show "scan_string s = (t, s') \<Longrightarrow> t = value_string \<or> t = parse_error" by (simp add: scan_string_def)
qed

lemma lex_reset_simps [simp]:
  "lx_input (lex_reset s) = lx_input s" "lx_current (lex_reset s) = lx_current s" "lx_token_buffer (lex_reset s) = []"
  by (simp_all add: lex_reset_def)

text \<open>
  C14: The scanner of strings accepts exactly the strings of the JSON grammar, escapes, surrogate pairs and
  all, and what it stores for one is the UTF-8 encoding of the codepoints it writes. It stops right behind
  the closing quote.
\<close>

theorem scan_string_grammar:
  "(\<exists>s'. scan_string s = (value_string, s') \<and> lx_input s' = r \<and> lx_token_buffer s' = v) \<longleftrightarrow>
   (\<exists>body cps. string_body body cps \<and> lx_input s = body @ 0x22 # r \<and> v = utf8_text cps)"
proof
  assume "\<exists>s'. scan_string s = (value_string, s') \<and> lx_input s' = r \<and> lx_token_buffer s' = v"
  then obtain s' where s': "scan_string_loop (lex_reset s) = (value_string, s')" "lx_input s' = r" "lx_token_buffer s' = v"
    by (auto simp: scan_string_def)
  show "\<exists>body cps. string_body body cps \<and> lx_input s = body @ 0x22 # r \<and> v = utf8_text cps"
    using loop_body_inversion [OF s'(1)] s'(2,3) by auto
next
  assume "\<exists>body cps. string_body body cps \<and> lx_input s = body @ 0x22 # r \<and> v = utf8_text cps"
  then show "\<exists>s'. scan_string s = (value_string, s') \<and> lx_input s' = r \<and> lx_token_buffer s' = v"
    using loop_body [of _ _ "lex_reset s" r] by (auto simp: scan_string_def)
qed

end
