(* ===== verification/Json_Numbers.thy ===== *)
theory Json_Numbers
  imports Json_Strings
begin

text \<open>
  What \<open>scan_number\<close> accepts and which value it stores. The reference is the number grammar of RFC 8259,
  section 6.
\<close>

section \<open>The number grammar\<close>

definition int_part :: "bytes \<Rightarrow> bool" where
  "int_part i \<longleftrightarrow> i = [0x30] \<or> i \<noteq> [] \<and> list_all is_digit i \<and> hd i \<noteq> 0x30"

definition digits1 :: "bytes \<Rightarrow> bool" where
  "digits1 ds \<longleftrightarrow> ds \<noteq> [] \<and> list_all is_digit ds"

definition frac_part :: "bytes \<Rightarrow> bool" where
  "frac_part f \<longleftrightarrow> f = [] \<or> hd f = 0x2E \<and> digits1 (tl f)"

definition exp_part :: "bytes \<Rightarrow> bool" where
  "exp_part e \<longleftrightarrow> e = [] \<or> (\<exists>m sg ds. e = m # sg @ ds \<and> (m = 0x65 \<or> m = 0x45) \<and> (sg = [] \<or> sg = [0x2B] \<or> sg = [0x2D]) \<and> digits1 ds)"

definition number_parts :: "bytes \<Rightarrow> bytes \<Rightarrow> bytes \<Rightarrow> bytes \<Rightarrow> bool" where
  "number_parts sg i f e \<longleftrightarrow> (sg = [] \<or> sg = [0x2D]) \<and> int_part i \<and> frac_part f \<and> exp_part e"

text \<open>Where the number ends: the next byte cannot go on with it.\<close>

definition starts :: "(u8 \<Rightarrow> bool) \<Rightarrow> bytes \<Rightarrow> bool" where
  "starts P r \<longleftrightarrow> r \<noteq> [] \<and> P (hd r)"

definition number_stop :: "bytes \<Rightarrow> bytes \<Rightarrow> bytes \<Rightarrow> bytes \<Rightarrow> bool" where
  "number_stop i f e r \<longleftrightarrow>
     \<not> (e = [] \<and> starts (\<lambda>c. c = 0x65 \<or> c = 0x45) r) \<and>
     \<not> (f = [] \<and> e = [] \<and> starts (\<lambda>c. c = 0x2E) r) \<and>
     \<not> (\<not> (i = [0x30] \<and> f = [] \<and> e = []) \<and> starts is_digit r)"

lemma starts_simps [simp]: "\<not> starts P []" "starts P (c # cs) = P c"
  by (simp_all add: starts_def)

section \<open>The states of the automaton\<close>

text \<open>Reading one character and keeping it.\<close>

definition lex_read :: "lexer \<Rightarrow> lexer" where
  "lex_read s = lex_add (lx_current (lex_get s)) (lex_get s)"

lemma lex_read_simps:
  assumes "lx_input s = c # cs"
  shows "lx_input (lex_read s) = cs" "lx_token_buffer (lex_read s) = lx_token_buffer s @ [c]"
  using get_Cons [OF assms] by (simp_all add: lex_read_def)

lemma digit_uint: "digit (uint c) \<longleftrightarrow> is_digit c"
  by (simp add: digit_def is_digit_def word_le_def)

text \<open>The tests on the current character, as tests on the input.\<close>

lemma current_digit: "digit (lx_current (lex_get s)) \<longleftrightarrow> starts is_digit (lx_input s)"
  by (cases "lx_input s") (simp_all add: lex_get_current digit_uint, simp add: digit_def)

lemma current_is:
  assumes "n = uint (b :: u8)"
  shows "lx_current (lex_get s) = n \<longleftrightarrow> starts (\<lambda>c. c = b) (lx_input s)"
proof -
  have "uint b \<noteq> -1" using uint_ge_0 [of b] by linarith
  then show ?thesis using assms by (cases "lx_input s") (auto simp: lex_get_current word_uint_eq_iff)
qed

lemma current_tests:
  "lx_current (lex_get s) = 0x2E \<longleftrightarrow> starts (\<lambda>c. c = 0x2E) (lx_input s)"
  "lx_current (lex_get s) = 0x30 \<longleftrightarrow> starts (\<lambda>c. c = 0x30) (lx_input s)"
  "lx_current (lex_get s) = 0x65 \<or> lx_current (lex_get s) = 0x45 \<longleftrightarrow> starts (\<lambda>c. c = 0x65 \<or> c = 0x45) (lx_input s)"
  "lx_current (lex_get s) = 0x2B \<or> lx_current (lex_get s) = 0x2D \<longleftrightarrow> starts (\<lambda>c. c = 0x2B \<or> c = 0x2D) (lx_input s)"
  by (auto simp: starts_def current_is [where b = "0x2E"] current_is [where b = "0x30"] current_is [where b = "0x65"]
    current_is [where b = "0x45"] current_is [where b = "0x2B"] current_is [where b = "0x2D"])

text \<open>\<open>reaches s n s1\<close>: between \<open>s\<close> and \<open>s1\<close> the bytes \<open>n\<close> are read and kept.\<close>

definition reaches :: "lexer \<Rightarrow> bytes \<Rightarrow> lexer \<Rightarrow> bool" where
  "reaches s n s1 \<longleftrightarrow> lx_input s = n @ lx_input s1 \<and> lx_token_buffer s1 = lx_token_buffer s @ n"

lemma reaches_refl: "reaches s [] s"
  by (simp add: reaches_def)

lemma reaches_trans: "reaches s m s1 \<Longrightarrow> reaches s1 n s2 \<Longrightarrow> reaches s (m @ n) s2"
  by (simp add: reaches_def)

lemma reaches_read: "starts P (lx_input s) \<Longrightarrow> \<exists>c. reaches s [c] (lex_read s) \<and> P c"
  by (cases "lx_input s") (auto simp: reaches_def lex_read_simps)

text \<open>The three loops over digits.\<close>

lemma digits_step:
  assumes "starts is_digit (lx_input s)" and "\<exists>ds s1. reaches (lex_read s) ds s1 \<and> list_all is_digit ds \<and> Q s1"
  shows "\<exists>ds s1. reaches s ds s1 \<and> list_all is_digit ds \<and> Q s1"
proof -
  obtain c where c: "reaches s [c] (lex_read s)" "is_digit c" using reaches_read [OF assms(1)] by auto
  obtain ds s1 where d: "reaches (lex_read s) ds s1" "list_all is_digit ds" "Q s1" using assms(2) by auto
  then show ?thesis using c reaches_trans [OF c(1) d(1)] by (intro exI [of _ "c # ds"]) auto
qed

lemma any2_run:
  "\<exists>ds s1. reaches s ds s1 \<and> list_all is_digit ds \<and> \<not> starts is_digit (lx_input s1) \<and> scan_number_any2 nt s = scan_number_done nt (lex_get s1)"
proof (induction nt s rule: scan_number_any2.induct)
  case (1 nt s)
  show ?case
  proof (cases "starts is_digit (lx_input s)")
    case True
    then have d: "digit (lx_current (lex_get s))" by (simp add: current_digit)
    then have "scan_number_any2 nt s = scan_number_any2 nt (lex_read s)"
      using scan_number_any2.simps [of nt s] by (simp add: Let_def lex_read_def)
    then show ?thesis using digits_step [OF True] 1 [OF refl refl d] by (simp flip: lex_read_def)
  next
    case False
    then show ?thesis using reaches_refl [of s] scan_number_any2.simps [of nt s] by (fastforce simp: Let_def current_digit)
  qed
qed

lemma decimal2_run:
  "\<exists>ds s1. reaches s ds s1 \<and> list_all is_digit ds \<and> \<not> starts is_digit (lx_input s1) \<and>
     scan_number_decimal2 nt s = (if starts (\<lambda>c. c = 0x65 \<or> c = 0x45) (lx_input s1) then scan_number_exponent (lex_read s1)
       else scan_number_done nt (lex_get s1))"
proof (induction nt s rule: scan_number_decimal2.induct)
  case (1 nt s)
  show ?case
  proof (cases "starts is_digit (lx_input s)")
    case True
    then have d: "digit (lx_current (lex_get s))" by (simp add: current_digit)
    then have "scan_number_decimal2 nt s = scan_number_decimal2 nt (lex_read s)"
      using scan_number_decimal2.simps [of nt s] by (simp add: Let_def lex_read_def)
    then show ?thesis using digits_step [OF True] 1 [OF refl refl d] by (simp flip: lex_read_def)
  next
    case False
    then show ?thesis using reaches_refl [of s] scan_number_decimal2.simps [of nt s]
      by (intro exI [of _ "[]"] exI [of _ s]) (simp add: Let_def current_digit current_tests flip: lex_read_def)
  qed
qed

lemma any1_run:
  "\<exists>ds s1. reaches s ds s1 \<and> list_all is_digit ds \<and> \<not> starts is_digit (lx_input s1) \<and>
     scan_number_any1 nt s = (if starts (\<lambda>c. c = 0x2E) (lx_input s1) then scan_number_decimal1 (lex_read s1)
       else if starts (\<lambda>c. c = 0x65 \<or> c = 0x45) (lx_input s1) then scan_number_exponent (lex_read s1)
       else scan_number_done nt (lex_get s1))"
proof (induction nt s rule: scan_number_any1.induct)
  case (1 nt s)
  show ?case
  proof (cases "starts is_digit (lx_input s)")
    case True
    then have d: "digit (lx_current (lex_get s))" by (simp add: current_digit)
    then have "scan_number_any1 nt s = scan_number_any1 nt (lex_read s)"
      using scan_number_any1.simps [of nt s] by (simp add: Let_def lex_read_def)
    then show ?thesis using digits_step [OF True] 1 [OF refl refl d] by (simp flip: lex_read_def)
  next
    case False
    have "lx_current (lex_get s) = 0x2E \<Longrightarrow> lex_add get_decimal_point (lex_get s) = lex_read s"
      by (simp add: lex_read_def get_decimal_point_def)
    then show ?thesis using False reaches_refl [of s] scan_number_any1.simps [of nt s]
      by (intro exI [of _ "[]"] exI [of _ s]) (auto simp: Let_def current_digit current_tests simp flip: lex_read_def)
  qed
qed

text \<open>A run over digits is the longest one.\<close>

lemma digits_split:
  assumes "list_all P a" and "list_all P b" and "\<not> starts P r" and "\<not> starts P t" and "a @ r = b @ t"
  shows "a = b \<and> r = t"
proof -
  have "takeWhile P (xs @ ys) = xs" if "list_all P xs" "\<not> starts P ys" for xs ys
    using that by (induction xs) (auto simp: starts_def takeWhile_eq_Nil_iff)
  then show ?thesis using assms by (metis same_append_eq)
qed

lemma run_accepts:
  assumes "\<exists>ds s1. reaches s ds s1 \<and> list_all is_digit ds \<and> \<not> starts is_digit (lx_input s1) \<and> Q s1"
    and "lx_input s = ds @ r" and "list_all is_digit ds" and "\<not> starts is_digit r"
  shows "\<exists>s1. reaches s ds s1 \<and> lx_input s1 = r \<and> Q s1"
proof -
  obtain es s1 where e: "reaches s es s1" "list_all is_digit es" "\<not> starts is_digit (lx_input s1)" "Q s1" using assms(1) by auto
  then have "es @ lx_input s1 = ds @ r" using assms(2) by (simp add: reaches_def)
  from digits_split [OF e(2) assms(3) e(3) assms(4) this] show ?thesis using e by auto
qed

section \<open>Exponent and fraction\<close>

definition exp_digits :: "bytes \<Rightarrow> bool" where
  "exp_digits e \<longleftrightarrow> (\<exists>sg ds. e = sg @ ds \<and> (sg = [] \<or> sg = [0x2B] \<or> sg = [0x2D]) \<and> digits1 ds)"

lemma exp_part_iff: "exp_part e \<longleftrightarrow> e = [] \<or> (\<exists>m d. e = m # d \<and> (m = 0x65 \<or> m = 0x45) \<and> exp_digits d)"
  unfolding exp_part_def exp_digits_def by blast

lemma exp_digits_plain: "digits1 ds \<Longrightarrow> exp_digits ds"
  unfolding exp_digits_def by (intro exI [of _ "[]"] exI [of _ ds]) auto

text \<open>
  \<open>accepts nt s n s1 R\<close>: the automaton, started in \<open>s\<close>, reads \<open>n\<close> and ends in the conversion of a number of
  type \<open>nt\<close>, the look-ahead not yet consumed.
\<close>

definition accepts :: "token_type \<Rightarrow> lexer \<Rightarrow> bytes \<Rightarrow> lexer \<Rightarrow> token_type \<times> lexer \<Rightarrow> bool" where
  "accepts nt s n s1 R \<longleftrightarrow> reaches s n s1 \<and> R = scan_number_done nt (lex_get s1)"

lemma accepts_trans: "reaches s m s1 \<Longrightarrow> accepts nt s1 n s2 R \<Longrightarrow> accepts nt s (m @ n) s2 R"
  unfolding accepts_def using reaches_trans by blast

lemma fail_error [simp]: "fst (lex_fail msg s) = parse_error"
  by (simp add: lex_fail_def)

lemma digit_then_any2:
  assumes "lx_input s = ds @ r" and "digits1 ds" and "\<not> starts is_digit r"
  shows "starts is_digit (lx_input s) \<and> (\<exists>s1. accepts nt s ds s1 (scan_number_any2 nt (lex_read s)) \<and> lx_input s1 = r)"
proof -
  obtain d ds' where d: "ds = d # ds'" "is_digit d" "list_all is_digit ds'" using assms(2) by (cases ds) (auto simp: digits1_def)
  then have i: "lx_input s = d # (ds' @ r)" using assms(1) by simp
  obtain s1 where s1: "reaches (lex_read s) ds' s1" "lx_input s1 = r" "scan_number_any2 nt (lex_read s) = scan_number_done nt (lex_get s1)"
    using run_accepts [OF any2_run [of "lex_read s" nt] _ d(3) assms(3)] lex_read_simps [OF i] by auto
  have "reaches s [d] (lex_read s)" using lex_read_simps [OF i] i by (simp add: reaches_def)
  from reaches_trans [OF this s1(1)] show ?thesis using s1 d i by (auto simp: accepts_def)
qed

lemma any2_inversion:
  assumes "starts is_digit (lx_input s)"
  shows "\<exists>ds s1. digits1 ds \<and> \<not> starts is_digit (lx_input s1) \<and> accepts nt s ds s1 (scan_number_any2 nt (lex_read s))"
proof -
  obtain c where c: "reaches s [c] (lex_read s)" "is_digit c" using reaches_read [OF assms] by auto
  obtain ds s1 where d: "reaches (lex_read s) ds s1" "list_all is_digit ds" "\<not> starts is_digit (lx_input s1)"
    "scan_number_any2 nt (lex_read s) = scan_number_done nt (lex_get s1)" using any2_run [of "lex_read s" nt] by auto
  then show ?thesis using c reaches_trans [OF c(1) d(1)]
    by (intro exI [of _ "c # ds"] exI [of _ s1]) (auto simp: digits1_def accepts_def)
qed

lemma exponent_eq:
  "scan_number_exponent s =
     (if starts (\<lambda>c. c = 0x2B \<or> c = 0x2D) (lx_input s) then scan_number_sign value_float (lex_read s)
      else if starts is_digit (lx_input s) then scan_number_any2 value_float (lex_read s)
      else lex_fail ''invalid number; expected '+', '-', or digit after exponent'' (lex_get s))"
  by (simp add: scan_number_exponent_def Let_def current_tests current_digit flip: lex_read_def)

lemma sign_eq:
  "scan_number_sign nt s =
     (if starts is_digit (lx_input s) then scan_number_any2 nt (lex_read s)
      else lex_fail ''invalid number; expected digit after exponent sign'' (lex_get s))"
  by (simp add: scan_number_sign_def Let_def current_digit flip: lex_read_def)

lemma exponent_accepts:
  assumes "lx_input s = e @ r" and "exp_digits e" and "\<not> starts is_digit r"
  shows "\<exists>s1. accepts value_float s e s1 (scan_number_exponent s) \<and> lx_input s1 = r"
proof -
  obtain sg ds where e: "e = sg @ ds" "sg = [] \<or> sg = [0x2B] \<or> sg = [0x2D]" "digits1 ds" using assms(2) by (auto simp: exp_digits_def)
  show ?thesis
  proof (cases "sg = []")
    case True
    then have "\<not> starts (\<lambda>c. c = 0x2B \<or> c = 0x2D) (lx_input s)" using e assms(1)
      by (cases ds) (auto simp: digits1_def is_digit_def)
    then show ?thesis using digit_then_any2 [of s ds r] e True assms(1,3) by (simp add: exponent_eq)
  next
    case False
    then obtain m where m: "sg = [m]" "m = 0x2B \<or> m = 0x2D" using e(2) by auto
    then have i: "lx_input s = m # (ds @ r)" using e(1) assms(1) by simp
    then have a: "reaches s [m] (lex_read s)" using lex_read_simps [OF i] by (simp add: reaches_def)
    obtain s1 where s1: "accepts value_float (lex_read s) ds s1 (scan_number_sign value_float (lex_read s))" "lx_input s1 = r"
      using digit_then_any2 [OF lex_read_simps(1) [OF i] e(3) assms(3)] by (auto simp: sign_eq)
    show ?thesis using accepts_trans [OF a s1(1)] s1(2) m i e(1) by (auto simp: exponent_eq)
  qed
qed

lemma exponent_inversion:
  assumes "fst (scan_number_exponent s) \<noteq> parse_error"
  shows "\<exists>e s1. exp_digits e \<and> \<not> starts is_digit (lx_input s1) \<and> accepts value_float s e s1 (scan_number_exponent s)"
proof (cases "starts (\<lambda>c. c = 0x2B \<or> c = 0x2D) (lx_input s)")
  case True
  obtain m where m: "reaches s [m] (lex_read s)" "m = 0x2B \<or> m = 0x2D" using reaches_read [OF True] by auto
  have "starts is_digit (lx_input (lex_read s))" using assms True by (auto simp: exponent_eq sign_eq split: if_splits)
  then obtain ds s1 where d: "digits1 ds" "\<not> starts is_digit (lx_input s1)"
      "accepts value_float (lex_read s) ds s1 (scan_number_exponent s)"
    using any2_inversion [of "lex_read s" value_float] True by (auto simp: exponent_eq sign_eq)
  then show ?thesis using accepts_trans [OF m(1) d(3)] m(2) unfolding exp_digits_def by blast
next
  case False
  then have "starts is_digit (lx_input s)" using assms by (auto simp: exponent_eq split: if_splits)
  then show ?thesis using any2_inversion [of s value_float] False exp_digits_plain by (auto simp: exponent_eq)
qed

text \<open>The exponent, if there is one, and the fraction.\<close>

definition exp_tail :: "token_type \<Rightarrow> lexer \<Rightarrow> token_type \<times> lexer" where
  "exp_tail nt s = (if starts (\<lambda>c. c = 0x65 \<or> c = 0x45) (lx_input s) then scan_number_exponent (lex_read s) else scan_number_done nt (lex_get s))"

definition frac_tail :: "token_type \<Rightarrow> lexer \<Rightarrow> token_type \<times> lexer" where
  "frac_tail nt s = (if starts (\<lambda>c. c = 0x2E) (lx_input s) then scan_number_decimal1 (lex_read s) else exp_tail nt s)"

lemma exp_tail_accepts:
  assumes "lx_input s = e @ r" and "exp_part e" and "e = [] \<Longrightarrow> \<not> starts (\<lambda>c. c = 0x65 \<or> c = 0x45) r" and "e \<noteq> [] \<Longrightarrow> \<not> starts is_digit r"
  shows "\<exists>s1. accepts (if e = [] then nt else value_float) s e s1 (exp_tail nt s) \<and> lx_input s1 = r"
proof (cases "e = []")
  case True
  then show ?thesis using assms(1,3) reaches_refl [of s] by (auto simp: exp_tail_def accepts_def)
next
  case False
  then obtain m d where e: "e = m # d" "m = 0x65 \<or> m = 0x45" "exp_digits d" using assms(2) by (auto simp: exp_part_iff)
  then have i: "lx_input s = m # (d @ r)" using assms(1) by simp
  then have a: "reaches s [m] (lex_read s)" using lex_read_simps [OF i] by (simp add: reaches_def)
  obtain s1 where s1: "accepts value_float (lex_read s) d s1 (scan_number_exponent (lex_read s))" "lx_input s1 = r"
    using exponent_accepts [OF lex_read_simps(1) [OF i] e(3) assms(4) [OF False]] by auto
  show ?thesis using accepts_trans [OF a s1(1)] s1(2) e i by (auto simp: exp_tail_def)
qed

lemma exp_tail_inversion:
  assumes "fst (exp_tail nt s) \<noteq> parse_error"
  shows "\<exists>e s1. exp_part e \<and> (e = [] \<longrightarrow> s1 = s \<and> \<not> starts (\<lambda>c. c = 0x65 \<or> c = 0x45) (lx_input s1)) \<and> (e \<noteq> [] \<longrightarrow> \<not> starts is_digit (lx_input s1))
    \<and> accepts (if e = [] then nt else value_float) s e s1 (exp_tail nt s)"
proof (cases "starts (\<lambda>c. c = 0x65 \<or> c = 0x45) (lx_input s)")
  case True
  obtain m where m: "reaches s [m] (lex_read s)" "m = 0x65 \<or> m = 0x45" using reaches_read [OF True] by auto
  obtain d s1 where d: "exp_digits d" "\<not> starts is_digit (lx_input s1)" "accepts value_float (lex_read s) d s1 (exp_tail nt s)"
    using exponent_inversion [of "lex_read s"] assms True by (auto simp: exp_tail_def)
  then show ?thesis using accepts_trans [OF m(1) d(3)] m(2)
    by (intro exI [of _ "m # d"] exI [of _ s1]) (auto simp: exp_part_iff)
next
  case False
  then show ?thesis using reaches_refl [of s] by (intro exI [of _ "[]"] exI [of _ s]) (auto simp: exp_tail_def exp_part_def accepts_def)
qed

lemma decimal1_eq:
  "scan_number_decimal1 s =
     (if starts is_digit (lx_input s) then scan_number_decimal2 value_float (lex_read s)
      else lex_fail (''invalid number; expected digit after '' @ [CHR 0x27, CHR 0x2E, CHR 0x27]) (lex_get s))"
  by (simp add: scan_number_decimal1_def Let_def current_digit flip: lex_read_def)

lemma decimal1_accepts:
  assumes "lx_input s = ds @ r" and "digits1 ds" and "\<not> starts is_digit r"
  shows "\<exists>s1. reaches s ds s1 \<and> lx_input s1 = r \<and> scan_number_decimal1 s = exp_tail value_float s1"
proof -
  obtain d ds' where d: "ds = d # ds'" "is_digit d" "list_all is_digit ds'" using assms(2) by (cases ds) (auto simp: digits1_def)
  then have i: "lx_input s = d # (ds' @ r)" using assms(1) by simp
  obtain s1 where s1: "reaches (lex_read s) ds' s1" "lx_input s1 = r" "scan_number_decimal2 value_float (lex_read s) = exp_tail value_float s1"
    using run_accepts [OF decimal2_run [of "lex_read s" value_float] _ d(3) assms(3)] lex_read_simps [OF i] by (auto simp: exp_tail_def)
  have "reaches s [d] (lex_read s)" using lex_read_simps [OF i] i by (simp add: reaches_def)
  from reaches_trans [OF this s1(1)] show ?thesis using s1 d i by (auto simp: decimal1_eq)
qed

lemma decimal1_inversion:
  assumes "fst (scan_number_decimal1 s) \<noteq> parse_error"
  shows "\<exists>ds s1. digits1 ds \<and> reaches s ds s1 \<and> \<not> starts is_digit (lx_input s1) \<and> scan_number_decimal1 s = exp_tail value_float s1"
proof -
  have t: "starts is_digit (lx_input s)" using assms by (auto simp: decimal1_eq split: if_splits)
  obtain c where c: "reaches s [c] (lex_read s)" "is_digit c" using reaches_read [OF t] by auto
  obtain ds s1 where d: "reaches (lex_read s) ds s1" "list_all is_digit ds" "\<not> starts is_digit (lx_input s1)"
    "scan_number_decimal1 s = exp_tail value_float s1" using decimal2_run [of "lex_read s" value_float] t by (auto simp: exp_tail_def decimal1_eq)
  then show ?thesis using c reaches_trans [OF c(1) d(1)] by (intro exI [of _ "c # ds"] exI [of _ s1]) (auto simp: digits1_def)
qed

definition number_type :: "token_type \<Rightarrow> bytes \<Rightarrow> bytes \<Rightarrow> token_type" where
  "number_type nt f e = (if f = [] \<and> e = [] then nt else value_float)"

definition tail_stop :: "bytes \<Rightarrow> bytes \<Rightarrow> bytes \<Rightarrow> bool" where
  "tail_stop f e r \<longleftrightarrow>
     (e = [] \<longrightarrow> \<not> starts (\<lambda>c. c = 0x65 \<or> c = 0x45) r) \<and> (f = [] \<longrightarrow> e = [] \<longrightarrow> \<not> starts (\<lambda>c. c = 0x2E) r) \<and>
     (f \<noteq> [] \<or> e \<noteq> [] \<longrightarrow> \<not> starts is_digit r)"

lemma exp_part_starts: "exp_part e \<Longrightarrow> e \<noteq> [] \<Longrightarrow> \<exists>m d. e = m # d \<and> m \<noteq> 0x2E \<and> \<not> is_digit m"
  by (auto simp: exp_part_def is_digit_def)

lemma frac_tail_accepts:
  assumes "lx_input s = f @ e @ r" and "frac_part f" and "exp_part e" and "tail_stop f e r"
  shows "\<exists>s1. accepts (number_type nt f e) s (f @ e) s1 (frac_tail nt s) \<and> lx_input s1 = r"
proof (cases "f = []")
  case True
  then have "\<not> starts (\<lambda>c. c = 0x2E) (lx_input s)"
    using assms exp_part_starts [OF assms(3)] by (cases "e = []") (auto simp: tail_stop_def)
  then show ?thesis using exp_tail_accepts [OF _ assms(3), of s r nt] assms(1,4) True
    by (auto simp: frac_tail_def number_type_def tail_stop_def)
next
  case False
  then obtain ds where f: "f = 0x2E # ds" "digits1 ds" using assms(2) by (cases f) (auto simp: frac_part_def)
  then have i: "lx_input s = 0x2E # (ds @ e @ r)" using assms(1) by simp
  have n: "\<not> starts is_digit (e @ r)" using assms(4) False exp_part_starts [OF assms(3)] by (cases "e = []") (auto simp: tail_stop_def)
  have a: "reaches s [0x2E] (lex_read s)" using lex_read_simps [OF i] i by (simp add: reaches_def)
  obtain s1 where s1: "reaches (lex_read s) ds s1" "lx_input s1 = e @ r" "scan_number_decimal1 (lex_read s) = exp_tail value_float s1"
    using decimal1_accepts [OF lex_read_simps(1) [OF i] f(2) n] by auto
  obtain s2 where s2: "accepts value_float s1 e s2 (exp_tail value_float s1)" "lx_input s2 = r"
    using exp_tail_accepts [OF s1(2) assms(3), of value_float] assms(4) False by (auto simp: tail_stop_def)
  show ?thesis using accepts_trans [OF reaches_trans [OF a s1(1)] s2(1)] s1(3) s2(2) f i False by (auto simp: frac_tail_def number_type_def)
qed

lemma frac_tail_inversion:
  assumes "fst (frac_tail nt s) \<noteq> parse_error"
  shows "\<exists>f e s1. frac_part f \<and> exp_part e \<and> tail_stop f e (lx_input s1) \<and> accepts (number_type nt f e) s (f @ e) s1 (frac_tail nt s)"
proof (cases "starts (\<lambda>c. c = 0x2E) (lx_input s)")
  case False
  then obtain e s1 where e: "exp_part e" "e = [] \<longrightarrow> s1 = s \<and> \<not> starts (\<lambda>c. c = 0x65 \<or> c = 0x45) (lx_input s1)"
      "e \<noteq> [] \<longrightarrow> \<not> starts is_digit (lx_input s1)" "accepts (if e = [] then nt else value_float) s e s1 (exp_tail nt s)"
    using exp_tail_inversion [of nt s] assms by (auto simp: frac_tail_def)
  then show ?thesis using False
    by (intro exI [of _ "[]"] exI [of _ e] exI [of _ s1]) (auto simp: frac_tail_def number_type_def tail_stop_def frac_part_def)
next
  case True
  then have a: "reaches s [0x2E] (lex_read s)" using reaches_read [OF True] by auto
  have "fst (scan_number_decimal1 (lex_read s)) \<noteq> parse_error" using assms True by (simp add: frac_tail_def)
  then obtain ds s1 where d: "digits1 ds" "reaches (lex_read s) ds s1" "\<not> starts is_digit (lx_input s1)"
      "scan_number_decimal1 (lex_read s) = exp_tail value_float s1" using decimal1_inversion by blast
  then have "fst (exp_tail value_float s1) \<noteq> parse_error" using assms True by (simp add: frac_tail_def)
  then obtain e s2 where e: "exp_part e" "e = [] \<longrightarrow> s2 = s1 \<and> \<not> starts (\<lambda>c. c = 0x65 \<or> c = 0x45) (lx_input s2)"
      "e \<noteq> [] \<longrightarrow> \<not> starts is_digit (lx_input s2)" "accepts (if e = [] then value_float else value_float) s1 e s2 (exp_tail value_float s1)"
    using exp_tail_inversion [of value_float s1] by blast
  have "accepts value_float s (([0x2E] @ ds) @ e) s2 (frac_tail nt s)"
    using accepts_trans [OF reaches_trans [OF a d(2)]] e(4) d(4) True by (simp add: frac_tail_def)
  then show ?thesis using d e
    by (intro exI [of _ "0x2E # ds"] exI [of _ e] exI [of _ s2]) (auto simp: number_type_def tail_stop_def frac_part_def)
qed

section \<open>The integer part and the sign\<close>

definition int_state :: "token_type \<Rightarrow> u8 \<Rightarrow> lexer \<Rightarrow> token_type \<times> lexer" where
  "int_state nt c s = (if c = 0x30 then scan_number_zero nt s else scan_number_any1 nt s)"

lemma zero_eq: "scan_number_zero nt s = frac_tail nt s"
proof -
  have "lx_current (lex_get s) = 0x2E \<Longrightarrow> lex_add get_decimal_point (lex_get s) = lex_read s"
    by (simp add: lex_read_def get_decimal_point_def)
  then show ?thesis
    by (auto simp: scan_number_zero_def frac_tail_def exp_tail_def Let_def current_tests simp flip: lex_read_def)
qed

lemma number_stop_tail: "number_stop i f e r \<longleftrightarrow> tail_stop f e r \<and> (i \<noteq> [0x30] \<longrightarrow> \<not> starts is_digit r)"
  unfolding number_stop_def tail_stop_def by blast

lemma frac_exp_starts: "frac_part f \<Longrightarrow> exp_part e \<Longrightarrow> \<not> starts is_digit r \<Longrightarrow> \<not> starts is_digit (f @ e @ r)"
  using exp_part_starts [of e] by (cases f; cases "e = []") (auto simp: frac_part_def is_digit_def)

lemma int_accepts:
  assumes "reaches s0 [c] s" and "int_part (c # ds)" and "lx_input s = ds @ f @ e @ r" and "frac_part f" and "exp_part e"
    and "number_stop (c # ds) f e r"
  shows "\<exists>s1. accepts (number_type nt f e) s0 (c # ds @ f @ e) s1 (int_state nt c s) \<and> lx_input s1 = r"
proof (cases "c = 0x30")
  case True
  then have "ds = []" using assms(2) by (simp add: int_part_def)
  then obtain s1 where "accepts (number_type nt f e) s (f @ e) s1 (frac_tail nt s)" "lx_input s1 = r"
    using frac_tail_accepts [of s f e r nt] assms(3-6) by (auto simp: number_stop_tail)
  then show ?thesis using accepts_trans [OF assms(1)] \<open>ds = []\<close> True by (fastforce simp: int_state_def zero_eq)
next
  case False
  then have d: "list_all is_digit ds" "\<not> starts is_digit r" "tail_stop f e r"
    using assms(2,6) by (auto simp: int_part_def number_stop_tail)
  obtain s1 where s1: "reaches s ds s1" "lx_input s1 = f @ e @ r" "scan_number_any1 nt s = frac_tail nt s1"
    using run_accepts [OF any1_run [of s nt] assms(3) d(1) frac_exp_starts [OF assms(4,5) d(2)]]
    by (auto simp: frac_tail_def exp_tail_def)
  obtain s2 where s2: "accepts (number_type nt f e) s1 (f @ e) s2 (frac_tail nt s1)" "lx_input s2 = r"
    using frac_tail_accepts [OF s1(2) assms(4,5) d(3)] by auto
  show ?thesis using accepts_trans [OF reaches_trans [OF assms(1) s1(1)] s2(1)] s2(2) s1(3) False by (auto simp: int_state_def)
qed

lemma int_inversion:
  assumes "reaches s0 [c] s" and "is_digit c" and "fst (int_state nt c s) \<noteq> parse_error"
  shows "\<exists>ds f e s1. int_part (c # ds) \<and> frac_part f \<and> exp_part e \<and> number_stop (c # ds) f e (lx_input s1)
    \<and> accepts (number_type nt f e) s0 (c # ds @ f @ e) s1 (int_state nt c s)"
proof (cases "c = 0x30")
  case True
  obtain f e s1 where f: "frac_part f" "exp_part e" "tail_stop f e (lx_input s1)"
      "accepts (number_type nt f e) s (f @ e) s1 (int_state nt c s)"
    using frac_tail_inversion [of nt s] assms(3) True by (auto simp: int_state_def zero_eq)
  then show ?thesis using accepts_trans [OF assms(1) f(4)] True
    by (intro exI [of _ "[]"] exI [of _ f] exI [of _ e] exI [of _ s1]) (auto simp: int_part_def number_stop_tail)
next
  case False
  obtain ds s1 where d: "reaches s ds s1" "list_all is_digit ds" "\<not> starts is_digit (lx_input s1)" "int_state nt c s = frac_tail nt s1"
    using any1_run [of s nt] False by (auto simp: frac_tail_def exp_tail_def int_state_def)
  obtain f e s2 where f: "frac_part f" "exp_part e" "tail_stop f e (lx_input s2)"
      "accepts (number_type nt f e) s1 (f @ e) s2 (int_state nt c s)"
    using frac_tail_inversion [of nt s1] assms(3) unfolding d(4) by blast
  have "f = [] \<Longrightarrow> e = [] \<Longrightarrow> lx_input s2 = lx_input s1" using f(4) by (simp add: accepts_def reaches_def)
  then have "number_stop (c # ds) f e (lx_input s2)" using f(3) d(3) False by (auto simp: number_stop_tail tail_stop_def)
  then show ?thesis using accepts_trans [OF reaches_trans [OF assms(1) d(1)] f(4)] d(2) assms(2) False f
    by (intro exI [of _ ds] exI [of _ f] exI [of _ e] exI [of _ s2]) (auto simp: int_part_def)
qed

section \<open>The number token\<close>

definition number_token :: "bytes \<Rightarrow> bytes \<Rightarrow> bytes \<Rightarrow> bytes \<Rightarrow> token_type" where
  "number_token sg i f e =
     (if f \<noteq> [] \<or> e \<noteq> [] then value_float
      else if sg = [] then if digits_value i < 2 ^ 64 then value_unsigned else value_float
      else if digits_value i \<le> 2 ^ 63 then value_integer else value_float)"

lemma unget_get: "lx_input (lex_unget (lex_get s)) = lx_input s" "lx_token_buffer (lex_unget (lex_get s)) = lx_token_buffer s"
proof -
  show "lx_input (lex_unget (lex_get s)) = lx_input s"
    using lex_get_eof [of s] by (cases "lx_input s") (auto simp: lex_unget_def Let_def lex_get_input lex_get_current)
  show "lx_token_buffer (lex_unget (lex_get s)) = lx_token_buffer s" by (simp add: lex_unget_def Let_def)
qed

lemma done_frame:
  assumes "scan_number_done nt (lex_get s) = (t, s')"
  shows "lx_input s' = lx_input s" "lx_token_buffer s' = lx_token_buffer s"
  using assms unget_get [of s] by (auto simp: scan_number_done_def Let_def split: if_splits prod.splits)

lemma done_token:
  assumes "lx_token_buffer s = sg @ i @ f @ e" and "number_parts sg i f e"
  shows "fst (scan_number_done (number_type (if sg = [] then value_unsigned else value_integer) f e) (lex_get s)) = number_token sg i f e"
  using assms unget_get(2) [of s]
  by (auto simp: scan_number_done_def number_type_def number_token_def number_parts_def c_strtoull_def c_strtoll_def Let_def)

lemma minus_eq:
  "scan_number_minus s =
     (case lx_input s of
        [] \<Rightarrow> lex_fail (''invalid number; expected digit after '' @ [CHR 0x27, CHR 0x2D, CHR 0x27]) (lex_get s)
      | c # cs \<Rightarrow> if is_digit c then int_state value_integer c (lex_read s)
                 else lex_fail (''invalid number; expected digit after '' @ [CHR 0x27, CHR 0x2D, CHR 0x27]) (lex_get s))"
  by (cases "lx_input s")
    (auto simp: scan_number_minus_def Let_def current_tests current_digit int_state_def is_digit_def simp flip: lex_read_def)

text \<open>
  The first character is already read when the number begins: \<open>first_unread\<close> is the state with it still in the
  input.
\<close>

definition first_unread :: "u8 \<Rightarrow> lexer \<Rightarrow> lexer" where
  "first_unread b s = (lex_reset s)\<lparr>lx_input := b # lx_input s\<rparr>"

lemma first_unread_simps [simp]: "lx_input (first_unread b s) = b # lx_input s" "lx_token_buffer (first_unread b s) = []"
  by (simp_all add: first_unread_def lex_reset_def)

lemma first_read: "reaches (first_unread b s) [b] (lex_add (uint b) (lex_reset s))"
  by (simp add: reaches_def)

lemma scan_number_eq:
  assumes "lx_current s = uint b" and "b = 0x2D \<or> is_digit b"
  shows "scan_number s = (if b = 0x2D then scan_number_minus (lex_add (uint b) (lex_reset s)) else int_state value_unsigned b (lex_add (uint b) (lex_reset s)))"
  using assms by (auto simp: scan_number_def Let_def int_state_def word_uint_eq_iff)

lemma number_accepts:
  assumes "lx_current s = uint b" and "number_parts sg i f e" and "number_stop i f e r" and "b # lx_input s = sg @ i @ f @ e @ r"
  shows "\<exists>s1. accepts (number_type (if sg = [] then value_unsigned else value_integer) f e) (first_unread b s) (sg @ i @ f @ e) s1 (scan_number s)
    \<and> lx_input s1 = r"
proof -
  let ?s = "lex_add (uint b) (lex_reset s)"
  obtain c ds where i: "i = c # ds" "is_digit c" using assms(2) by (cases i) (auto simp: number_parts_def int_part_def is_digit_def)
  have p: "int_part (c # ds)" "frac_part f" "exp_part e" "number_stop (c # ds) f e r" using assms(2,3) i by (simp_all add: number_parts_def)
  show ?thesis
  proof (cases "sg = []")
    case True
    then have b: "b = c" "lx_input ?s = ds @ f @ e @ r" using assms(4) i by simp_all
    have "b \<noteq> 0x2D" using i(2) b(1) by (auto simp: is_digit_def)
    then show ?thesis using int_accepts [OF first_read [of b s] _ b(2) p(2,3), of value_unsigned] p b(1) i True
        scan_number_eq [OF assms(1)] by auto
  next
    case False
    then have b: "sg = [0x2D]" "b = 0x2D" "lx_input ?s = c # (ds @ f @ e @ r)" using assms(2,4) i by (auto simp: number_parts_def)
    have "reaches ?s [c] (lex_read ?s)" using lex_read_simps [OF b(3)] b(3) by (simp add: reaches_def)
    from int_accepts [OF this p(1) lex_read_simps(1) [OF b(3)] p(2-4), of value_integer]
    obtain s1 where s1: "accepts (number_type value_integer f e) ?s (c # ds @ f @ e) s1 (scan_number s)" "lx_input s1 = r"
      using scan_number_eq [OF assms(1)] b i(2) by (auto simp: minus_eq)
    show ?thesis using accepts_trans [OF first_read s1(1)] s1(2) b i False by auto
  qed
qed

lemma number_inversion:
  assumes "lx_current s = uint b" and "b = 0x2D \<or> is_digit b" and "fst (scan_number s) \<noteq> parse_error"
  shows "\<exists>sg i f e s1. number_parts sg i f e \<and> number_stop i f e (lx_input s1)
    \<and> accepts (number_type (if sg = [] then value_unsigned else value_integer) f e) (first_unread b s) (sg @ i @ f @ e) s1 (scan_number s)"
proof (cases "b = 0x2D")
  case False
  then have e: "scan_number s = int_state value_unsigned b (lex_add (uint b) (lex_reset s))" "is_digit b"
    using scan_number_eq [OF assms(1,2)] assms(2) by auto
  then obtain ds f ex s1 where "int_part (b # ds)" "frac_part f" "exp_part ex" "number_stop (b # ds) f ex (lx_input s1)"
      "accepts (number_type value_unsigned f ex) (first_unread b s) (b # ds @ f @ ex) s1 (scan_number s)"
    using int_inversion [OF first_read e(2)] assms(3) by metis
  then show ?thesis by (intro exI [of _ "[]"] exI [of _ "b # ds"] exI [of _ f] exI [of _ ex] exI [of _ s1]) (auto simp: number_parts_def)
next
  case True
  let ?s = "lex_add (uint b) (lex_reset s)"
  have e: "scan_number s = scan_number_minus ?s" using scan_number_eq [OF assms(1,2)] True by simp
  then obtain c cs where c: "lx_input ?s = c # cs" "is_digit c" "scan_number s = int_state value_integer c (lex_read ?s)"
    using assms(3) by (auto simp: minus_eq split: list.splits if_splits)
  have a: "reaches ?s [c] (lex_read ?s)" using lex_read_simps [OF c(1)] c(1) by (simp add: reaches_def)
  obtain ds f ex s1 where d: "int_part (c # ds)" "frac_part f" "exp_part ex" "number_stop (c # ds) f ex (lx_input s1)"
      "accepts (number_type value_integer f ex) ?s (c # ds @ f @ ex) s1 (scan_number s)"
    using int_inversion [OF a c(2)] assms(3) c(3) by metis
  show ?thesis using accepts_trans [OF first_read d(5)] d(1-4) True
    by (intro exI [of _ "[0x2D]"] exI [of _ "c # ds"] exI [of _ f] exI [of _ ex] exI [of _ s1]) (auto simp: number_parts_def)
qed

lemma number_token_not_error: "number_token sg i f e \<noteq> parse_error"
  by (simp add: number_token_def)

lemma accepts_frame:
  assumes "accepts nt (first_unread b s) n s1 (t, s')"
  shows "b # lx_input s = n @ lx_input s'" "lx_token_buffer s' = n"
  using assms done_frame [of nt s1 t s'] by (auto simp: accepts_def reaches_def)

lemma accepts_token:
  assumes "accepts (number_type (if sg = [] then value_unsigned else value_integer) f e) (first_unread b s) (sg @ i @ f @ e) s1 R"
    and "number_parts sg i f e"
  shows "fst R = number_token sg i f e"
  using assms done_token [OF _ assms(2), of s1] by (simp add: accepts_def reaches_def)

text \<open>
  Started on a digit or a minus sign, the scanner of numbers accepts exactly the numbers of the JSON
  grammar, read as far as they go: it succeeds with the text \<open>n\<close> and the rest \<open>r\<close> precisely when \<open>n\<close> is a number whose
  parts the first byte of \<open>r\<close> cannot continue. A fraction, an exponent or a value that fits neither 64-bit
  type makes it a floating-point number; a plain integer is signed precisely when it has a minus sign.
\<close>

lemma scan_number_grammar:
  assumes "lx_current s = uint b" and "b = 0x2D \<or> is_digit b"
  shows "(\<exists>s'. scan_number s = (t, s') \<and> t \<noteq> parse_error \<and> lx_input s' = r \<and> lx_token_buffer s' = n) \<longleftrightarrow>
    (\<exists>sg i f e. number_parts sg i f e \<and> number_stop i f e r \<and> b # lx_input s = sg @ i @ f @ e @ r \<and> n = sg @ i @ f @ e \<and> t = number_token sg i f e)"
proof
  assume "\<exists>s'. scan_number s = (t, s') \<and> t \<noteq> parse_error \<and> lx_input s' = r \<and> lx_token_buffer s' = n"
  then obtain s' where s': "scan_number s = (t, s')" "t \<noteq> parse_error" "lx_input s' = r" "lx_token_buffer s' = n" by auto
  obtain sg i f e s1 where p: "number_parts sg i f e" "number_stop i f e (lx_input s1)"
      "accepts (number_type (if sg = [] then value_unsigned else value_integer) f e) (first_unread b s) (sg @ i @ f @ e) s1 (t, s')"
    using number_inversion [OF assms] s'(1,2) by auto
  have "lx_input s1 = r" using p(3) done_frame(1) s'(3) by (metis accepts_def)
  then show "\<exists>sg i f e. number_parts sg i f e \<and> number_stop i f e r \<and> b # lx_input s = sg @ i @ f @ e @ r \<and> n = sg @ i @ f @ e \<and> t = number_token sg i f e"
    using p(1,2) accepts_frame [OF p(3)] accepts_token [OF p(3,1)] s'(3,4) by auto
next
  assume "\<exists>sg i f e. number_parts sg i f e \<and> number_stop i f e r \<and> b # lx_input s = sg @ i @ f @ e @ r \<and> n = sg @ i @ f @ e \<and> t = number_token sg i f e"
  then obtain sg i f e where p: "number_parts sg i f e" "number_stop i f e r" "b # lx_input s = sg @ i @ f @ e @ r" "n = sg @ i @ f @ e"
    "t = number_token sg i f e" by auto
  obtain s1 where a: "accepts (number_type (if sg = [] then value_unsigned else value_integer) f e) (first_unread b s) (sg @ i @ f @ e) s1 (scan_number s)"
    using number_accepts [OF assms(1) p(1-3)] by auto
  obtain u s' where u: "scan_number s = (u, s')" by fastforce
  have "u = t" using accepts_token [OF a p(1)] p(5) u by simp
  then show "\<exists>s'. scan_number s = (t, s') \<and> t \<noteq> parse_error \<and> lx_input s' = r \<and> lx_token_buffer s' = n"
    using u accepts_frame [OF a [unfolded u]] p number_token_not_error by auto
qed

section \<open>The value of an integer token\<close>

lemma done_unsigned:
  "scan_number_done nt s = (value_unsigned, s') \<Longrightarrow> unat (lx_value_unsigned s') = digits_value (lx_token_buffer s')"
  by (auto simp: scan_number_done_def c_strtoull_def Let_def split: if_splits prod.splits)

lemma sint_neg_of_nat: "n \<le> 2 ^ 63 \<Longrightarrow> sint (- of_nat n :: 64 word) = - int n"
proof -
  assume n: "n \<le> 2 ^ 63"
  have "(- of_nat n :: 64 word) = word_of_int (- int n)" by simp
  then show ?thesis using n by (simp only: signed_of_int) (simp add: signed_take_bit_int_eq_self)
qed

lemma done_integer:
  assumes "scan_number_done nt s = (value_integer, s')" and "lx_token_buffer s' = 0x2D # ds"
  shows "sint (lx_value_integer s') = - int (digits_value ds)"
  using assms by (auto simp: scan_number_done_def c_strtoll_def Let_def sint_neg_of_nat split: if_splits prod.splits)

lemma dec_text_head: "0 < n \<Longrightarrow> hd (dec_text n) \<noteq> 0x30"
proof (induction n rule: dec_text.induct)
  case (1 n)
  show ?case
  proof (cases "n < 10")
    case True
    then have "(48 + of_nat n :: u8) \<noteq> 0x30" using digit_char [of n] 1(2) by (auto simp: word_unat_eq_iff)
    then show ?thesis using True by (subst dec_text.simps) simp
  next
    case False
    then show ?thesis using 1(1) dec_text_nonempty by (subst dec_text.simps) simp
  qed
qed

lemma dec_text_int_part: "int_part (dec_text n)"
proof (cases "n = 0")
  case True
  then show ?thesis by (simp add: int_part_def dec_text.simps [of 0])
next
  case False
  then show ?thesis using dec_text_head [of n] dec_text_digits [of n] dec_text_nonempty [of n] by (simp add: int_part_def list_all_iff)
qed

definition number_follow :: "bytes \<Rightarrow> bool" where
  "number_follow r \<longleftrightarrow> \<not> starts (\<lambda>c. is_digit c \<or> c = 0x2E \<or> c = 0x65 \<or> c = 0x45) r"

lemma number_follow_stop: "number_follow r \<Longrightarrow> number_stop i f e r"
  by (auto simp: number_follow_def number_stop_def starts_def)

lemma scan_dec:
  assumes "lx_current s = uint b" and "b # lx_input s = sg @ dec_text n @ r" and "sg = [] \<or> sg = [0x2D]" and "number_follow r"
  shows "\<exists>s1 s'. scan_number s = (number_token sg (dec_text n) [] [], s') \<and> lx_input s' = r \<and> lx_token_buffer s' = sg @ dec_text n
    \<and> scan_number s = scan_number_done (if sg = [] then value_unsigned else value_integer) s1"
proof -
  have p: "number_parts sg (dec_text n) [] []" using assms(3) dec_text_int_part by (simp add: number_parts_def frac_part_def exp_part_def)
  obtain s1 where a: "accepts (number_type (if sg = [] then value_unsigned else value_integer) [] []) (first_unread b s)
      (sg @ dec_text n @ [] @ []) s1 (scan_number s)"
    using number_accepts [OF assms(1) p number_follow_stop [OF assms(4)]] assms(2) by auto
  obtain u s' where u: "scan_number s = (u, s')" by fastforce
  have "u = number_token sg (dec_text n) [] []" using accepts_token [OF a p] u by simp
  then show ?thesis using u accepts_frame [OF a [unfolded u]] assms(2) a unfolding accepts_def number_type_def
    by (intro exI [of _ "lex_get s1"] exI [of _ s']) auto
qed

lemma scan_unsigned:
  assumes "lx_current s = uint b" and "b # lx_input s = dec_text n @ r" and "number_follow r" and "n < 2 ^ 64"
  shows "\<exists>s'. scan_number s = (value_unsigned, s') \<and> lx_input s' = r \<and> unat (lx_value_unsigned s') = n"
proof -
  obtain s1 s' where s: "scan_number s = (number_token [] (dec_text n) [] [], s')" "lx_input s' = r" "lx_token_buffer s' = dec_text n"
    "scan_number s = scan_number_done value_unsigned s1" using scan_dec [of s b "[]" n r] assms(1-3) by auto
  have t: "number_token [] (dec_text n) [] [] = value_unsigned" using assms(4) by (simp add: number_token_def dec_text_value)
  have "scan_number_done value_unsigned s1 = (value_unsigned, s')" using s(1) t unfolding s(4) by simp
  from done_unsigned [OF this] show ?thesis using s(1-3) t by (simp add: dec_text_value)
qed

lemma scan_negative:
  assumes "lx_current s = uint b" and "b # lx_input s = 0x2D # dec_text n @ r" and "number_follow r" and "n \<le> 2 ^ 63"
  shows "\<exists>s'. scan_number s = (value_integer, s') \<and> lx_input s' = r \<and> sint (lx_value_integer s') = - int n"
proof -
  obtain s1 s' where s: "scan_number s = (number_token [0x2D] (dec_text n) [] [], s')" "lx_input s' = r" "lx_token_buffer s' = 0x2D # dec_text n"
    "scan_number s = scan_number_done value_integer s1" using scan_dec [of s b "[0x2D]" n r] assms(1-3) by auto
  have t: "number_token [0x2D] (dec_text n) [] [] = value_integer" using assms(4) by (simp add: number_token_def dec_text_value)
  have "scan_number_done value_integer s1 = (value_integer, s')" using s(1) t unfolding s(4) by simp
  from done_integer [OF this s(3)] show ?thesis using s(1,2) t by (simp add: dec_text_value)
qed

end
