(* ===== verification/Json_Value.thy ===== *)
theory Json_Value
  imports Json_Numbers "HOL-Library.List_Lexorder"
begin

text \<open>
  The values of the JSON library and its exceptions (\<open>json/nlohmann_json.hpp\<close>). An object is a
  \<open>std::map\<close> from strings to values, kept as the list of its entries in the order of the keys, which is the
  lexicographic one on bytes.
\<close>

section \<open>Values\<close>

datatype value_t = null | object | array | string | boolean | number_integer | number_unsigned | number_float | discarded

datatype json =
    Null
  | Object "(bytes \<times> json) list"
  | Array "json list"
  | String bytes
  | Boolean bool
  | Number_integer "64 word"
  | Number_unsigned u64
  | Number_float rat
  | Discarded

fun m_type :: "json \<Rightarrow> value_t" where
  "m_type Null = null"
| "m_type (Object m) = object"
| "m_type (Array xs) = array"
| "m_type (String s) = string"
| "m_type (Boolean b) = boolean"
| "m_type (Number_integer i) = number_integer"
| "m_type (Number_unsigned u) = number_unsigned"
| "m_type (Number_float x) = number_float"
| "m_type Discarded = discarded"

definition type_name :: "json \<Rightarrow> string" where
  "type_name j =
     (case m_type j of
        null \<Rightarrow> ''null''
      | object \<Rightarrow> ''object''
      | array \<Rightarrow> ''array''
      | string \<Rightarrow> ''string''
      | boolean \<Rightarrow> ''boolean''
      | discarded \<Rightarrow> ''discarded''
      | _ \<Rightarrow> ''number'')"

text \<open>\<open>operator<\<close> on the types: null, boolean, number, object, array, string.\<close>

definition type_order :: "value_t \<Rightarrow> nat option" where
  "type_order t =
     (case t of
        null \<Rightarrow> Some 0 | object \<Rightarrow> Some 3 | array \<Rightarrow> Some 4 | string \<Rightarrow> Some 5
      | boolean \<Rightarrow> Some 1 | number_integer \<Rightarrow> Some 2 | number_unsigned \<Rightarrow> Some 2 | number_float \<Rightarrow> Some 2
      | discarded \<Rightarrow> None)"

definition value_t_less :: "value_t \<Rightarrow> value_t \<Rightarrow> bool" where
  "value_t_less lhs rhs = (case (type_order lhs, type_order rhs) of (Some l, Some r) \<Rightarrow> l < r | _ \<Rightarrow> False)"

section \<open>Objects\<close>

text \<open>\<open>std::map::emplace\<close>: an entry that is there stays.\<close>

fun map_emplace :: "bytes \<Rightarrow> 'a \<Rightarrow> (bytes \<times> 'a) list \<Rightarrow> (bytes \<times> 'a) list" where
  "map_emplace k v [] = [(k, v)]"
| "map_emplace k v ((k', v') # m) =
     (if k < k' then (k, v) # (k', v') # m
      else if k = k' then (k', v') # m
      else (k', v') # map_emplace k v m)"

definition map_ok :: "(bytes \<times> 'a) list \<Rightarrow> bool" where
  "map_ok m \<longleftrightarrow> sorted (map fst m) \<and> distinct (map fst m)"

lemma map_ok_Nil [simp]: "map_ok []"
  by (simp add: map_ok_def)

lemma map_emplace_set: "set (map_emplace k v m) \<subseteq> insert (k, v) (set m)"
  by (induction m rule: map_emplace.induct) auto

lemma map_emplace_keys: "set (map fst (map_emplace k v m)) = insert k (set (map fst m))"
  by (induction k v m rule: map_emplace.induct) auto

lemma map_emplace_ok: "map_ok m \<Longrightarrow> map_ok (map_emplace k v m)"
proof (induction k v m rule: map_emplace.induct)
  case (2 k v k' v' m)
  have "set (map fst (map_emplace k v m)) = insert k (set (map fst m))" by (rule map_emplace_keys)
  then show ?case using 2 by (auto simp: map_ok_def)
qed (simp add: map_ok_def)

lemma map_emplace_lookup:
  "map_ok m \<Longrightarrow> map_of (map_emplace k v m) = (map_of m)(k \<mapsto> (case map_of m k of None \<Rightarrow> v | Some w \<Rightarrow> w))"
proof (induction k v m rule: map_emplace.induct)
  case (2 k v k' v' m)
  have "k < k' \<Longrightarrow> map_of m k = None" using 2(2) by (fastforce simp: map_ok_def map_of_eq_None_iff)
  then show ?case using 2 by (auto simp: map_ok_def fun_eq_iff split: option.splits)
qed simp

text \<open>Entries that come in the order of their keys are appended.\<close>

lemma map_emplace_last: "map_ok (m @ [(k, v)]) \<Longrightarrow> map_emplace k v m = m @ [(k, v)]"
proof (induction k v m rule: map_emplace.induct)
  case (2 k v k' v' m)
  then have "k' \<le> k" "k' \<noteq> k" by (auto simp: map_ok_def sorted_append)
  then show ?case using 2 by (auto simp: map_ok_def)
qed simp

section \<open>Exceptions\<close>

datatype json_exception =
    Json_parse_error nat size_t bytes
  | Json_type_error nat bytes
  | Json_out_of_range nat bytes

definition exception_name :: "bytes \<Rightarrow> nat \<Rightarrow> bytes" where
  "exception_name ename i = str_bytes ''[json.exception.'' @ ename @ str_bytes ''.'' @ dec_text i @ str_bytes ''] ''"

definition parse_error_create :: "nat \<Rightarrow> size_t \<Rightarrow> bytes \<Rightarrow> json_exception" where
  "parse_error_create i byte what_arg =
     Json_parse_error i byte
       (exception_name (str_bytes ''parse_error'') i @ str_bytes ''parse error'' @
        (if byte \<noteq> 0 then str_bytes '' at '' @ dec_text (unat byte) else []) @ str_bytes '': '' @ what_arg)"

definition type_error_create :: "nat \<Rightarrow> bytes \<Rightarrow> json_exception" where
  "type_error_create i what_arg = Json_type_error i (exception_name (str_bytes ''type_error'') i @ what_arg)"

definition out_of_range_create :: "nat \<Rightarrow> bytes \<Rightarrow> json_exception" where
  "out_of_range_create i what_arg = Json_out_of_range i (exception_name (str_bytes ''out_of_range'') i @ what_arg)"

section \<open>The invariant of values\<close>

text \<open>
  What the parser promises of a value: the entries of every object are in the order of their keys and each
  key is there once, every string is UTF-8 text, floating-point numbers are finite, an integer without a
  sign is kept as unsigned, and nothing in it is discarded.
\<close>

definition text_ok :: "bytes \<Rightarrow> bool" where
  "text_ok s \<longleftrightarrow> (\<exists>cps. list_all scalar cps \<and> s = utf8_text cps)"

fun json_ok :: "json \<Rightarrow> bool" where
  "json_ok Null = True"
| "json_ok (Object m) = (map_ok m \<and> (\<forall>e \<in> set m. text_ok (fst e) \<and> json_ok (snd e)))"
| "json_ok (Array xs) = (\<forall>x \<in> set xs. json_ok x)"
| "json_ok (String s) = text_ok s"
| "json_ok (Boolean b) = True"
| "json_ok (Number_integer i) = (sint i \<le> 0)"
| "json_ok (Number_unsigned u) = True"
| "json_ok (Number_float x) = c_isfinite x"
| "json_ok Discarded = False"

end
