(* ===== verification/Json_Parser.thy ===== *)
theory Json_Parser
  imports Json_Value
begin

text \<open>
  The parser (\<open>json/nlohmann_json.hpp\<close>, class \<open>parser\<close>) the way \<open>operator>>\<close> runs it: without a callback, so that
  every value is kept, and with exceptions, which are values here. The recursion runs on fuel; \<open>None\<close> means that it
  ran out, and \<open>parser_parse\<close> gives it as much as the input can need.
\<close>

section \<open>State and diagnostics\<close>

record parser =
  last_token :: token_type
  m_lexer :: lexer

definition parser_new :: "bytes \<Rightarrow> parser" where
  "parser_new adapter = \<lparr>last_token = uninitialized, m_lexer = lexer_new adapter\<rparr>"

definition get_token :: "parser \<Rightarrow> parser" where
  "get_token p = (let (t, s) = lex_scan (m_lexer p) in p\<lparr>last_token := t, m_lexer := s\<rparr>)"

definition token_type_name :: "token_type \<Rightarrow> string" where
  "token_type_name t =
     (case t of
        uninitialized \<Rightarrow> ''<uninitialized>''
      | literal_true \<Rightarrow> ''true literal''
      | literal_false \<Rightarrow> ''false literal''
      | literal_null \<Rightarrow> ''null literal''
      | value_string \<Rightarrow> ''string literal''
      | value_unsigned \<Rightarrow> ''number literal''
      | value_integer \<Rightarrow> ''number literal''
      | value_float \<Rightarrow> ''number literal''
      | begin_array \<Rightarrow> [CHR 0x27] @ ''['' @ [CHR 0x27]
      | begin_object \<Rightarrow> [CHR 0x27] @ ''{'' @ [CHR 0x27]
      | end_array \<Rightarrow> [CHR 0x27] @ '']'' @ [CHR 0x27]
      | end_object \<Rightarrow> [CHR 0x27] @ ''}'' @ [CHR 0x27]
      | name_separator \<Rightarrow> [CHR 0x27] @ '':'' @ [CHR 0x27]
      | value_separator \<Rightarrow> [CHR 0x27] @ '','' @ [CHR 0x27]
      | parse_error \<Rightarrow> ''<parse error>''
      | end_of_input \<Rightarrow> ''end of input''
      | literal_or_value \<Rightarrow> [CHR 0x27] @ ''['' @ [CHR 0x27] @ '', '' @ [CHR 0x27] @ ''{'' @ [CHR 0x27] @ '', or a literal'')"

text \<open>The upper-case hexadecimal digits of a control character, in four places.\<close>

definition hex_upper :: "nat \<Rightarrow> u8" where
  "hex_upper n = (if n < 10 then of_nat (0x30 + n) else of_nat (0x37 + n))"

definition get_token_string :: "lexer \<Rightarrow> bytes" where
  "get_token_string s =
     concat (map (\<lambda>c. if c \<le> 0x1F
                      then str_bytes ''<U+'' @ [0x30, 0x30, hex_upper (unat c div 16), hex_upper (unat c mod 16)] @ str_bytes ''>''
                      else [c]) (lx_token_string s))"

definition throw_exception :: "token_type \<Rightarrow> parser \<Rightarrow> json_exception" where
  "throw_exception expected p =
     (let s = m_lexer p;
          error_msg = str_bytes ''syntax error - '' @
            (if last_token p = parse_error
             then str_bytes (lx_error_message s) @ str_bytes ''; last read: '' @ [0x27] @ get_token_string s @ [0x27]
             else str_bytes ''unexpected '' @ str_bytes (token_type_name (last_token p))) @
            (if expected \<noteq> uninitialized then str_bytes ''; expected '' @ str_bytes (token_type_name expected) else []) in
      parse_error_create 101 (lx_chars_read s) error_msg)"

section \<open>The parser\<close>

type_synonym 'a pres = "(json_exception + 'a) option"

definition bind_p :: "'a pres \<Rightarrow> ('a \<Rightarrow> 'b pres) \<Rightarrow> 'b pres" where
  "bind_p r f = (case r of None \<Rightarrow> None | Some (Inl e) \<Rightarrow> Some (Inl e) | Some (Inr x) \<Rightarrow> f x)"

definition expect :: "token_type \<Rightarrow> parser \<Rightarrow> unit pres" where
  "expect t p = (if t \<noteq> last_token p then Some (Inl (throw_exception t p)) else Some (Inr ()))"

text \<open>
  \<open>move_string\<close> leaves an unspecified string in the buffer, which the next string or number resets before it is
  read; here it stays.
\<close>

definition move_string :: "lexer \<Rightarrow> bytes" where
  "move_string s = lx_token_buffer s"

text \<open>
  \<open>parse_internal\<close> with the loops over the members of an object and the elements of an array.
\<close>

fun parse_internal :: "nat \<Rightarrow> parser \<Rightarrow> (json \<times> parser) pres"
and parse_members :: "nat \<Rightarrow> (bytes \<times> json) list \<Rightarrow> parser \<Rightarrow> (json \<times> parser) pres"
and parse_elements :: "nat \<Rightarrow> json list \<Rightarrow> parser \<Rightarrow> (json \<times> parser) pres"
where
  "parse_internal 0 p = None"
| "parse_internal (Suc n) p =
     (case last_token p of
        begin_object \<Rightarrow>
          (let p = get_token p in
           if last_token p = end_object then Some (Inr (Object [], p)) else parse_members n [] p)
      | begin_array \<Rightarrow>
          (let p = get_token p in
           if last_token p = end_array then Some (Inr (Array [], p)) else parse_elements n [] p)
      | literal_null \<Rightarrow> Some (Inr (Null, p))
      | value_string \<Rightarrow> Some (Inr (String (move_string (m_lexer p)), p))
      | literal_true \<Rightarrow> Some (Inr (Boolean True, p))
      | literal_false \<Rightarrow> Some (Inr (Boolean False, p))
      | value_unsigned \<Rightarrow> Some (Inr (Number_unsigned (lx_value_unsigned (m_lexer p)), p))
      | value_integer \<Rightarrow> Some (Inr (Number_integer (lx_value_integer (m_lexer p)), p))
      | value_float \<Rightarrow>
          (if c_isfinite (lx_value_float (m_lexer p)) then Some (Inr (Number_float (lx_value_float (m_lexer p)), p))
           else Some (Inl (out_of_range_create 406
             (str_bytes ''number overflow parsing '' @ [0x27] @ get_token_string (m_lexer p) @ [0x27]))))
      | parse_error \<Rightarrow> bind_p (expect uninitialized p) (\<lambda>_. Some (Inr (Discarded, p)))
      | _ \<Rightarrow> bind_p (expect literal_or_value p) (\<lambda>_. Some (Inr (Discarded, p))))"
| "parse_members 0 m p = None"
| "parse_members (Suc n) m p =
     bind_p (expect value_string p) (\<lambda>_.
       let key = move_string (m_lexer p); p = get_token p in
       bind_p (expect name_separator p) (\<lambda>_.
         bind_p (parse_internal n (get_token p)) (\<lambda>(v, p).
           let m = map_emplace key v m; p = get_token p in
           if last_token p = value_separator then parse_members n m (get_token p)
           else bind_p (expect end_object p) (\<lambda>_. Some (Inr (Object m, p))))))"
| "parse_elements 0 xs p = None"
| "parse_elements (Suc n) xs p =
     bind_p (parse_internal n p) (\<lambda>(v, p).
       let xs = xs @ [v]; p = get_token p in
       if last_token p = value_separator then parse_elements n xs (get_token p)
       else bind_p (expect end_array p) (\<lambda>_. Some (Inr (Array xs, p))))"

definition parse_fuel :: "bytes \<Rightarrow> nat" where
  "parse_fuel input = 2 * length input + 4"

definition parser_parse :: "bool \<Rightarrow> bytes \<Rightarrow> (json \<times> parser) pres" where
  "parser_parse strict input =
     bind_p (parse_internal (parse_fuel input) (get_token (parser_new input))) (\<lambda>(v, p).
       if strict then let p = get_token p in bind_p (expect end_of_input p) (\<lambda>_. Some (Inr (v, p)))
       else Some (Inr (v, p)))"

text \<open>\<open>operator>>\<close>: the value and what is left of the stream.\<close>

definition stream_in :: "bytes \<Rightarrow> (json \<times> bytes) pres" where
  "stream_in i =
     bind_p (parser_parse False (input_stream_adapter i)) (\<lambda>(v, p). Some (Inr (v, lx_input (m_lexer p))))"

section \<open>The acceptor\<close>

fun accept_internal :: "nat \<Rightarrow> parser \<Rightarrow> (bool \<times> parser) option"
and accept_members :: "nat \<Rightarrow> parser \<Rightarrow> (bool \<times> parser) option"
and accept_elements :: "nat \<Rightarrow> parser \<Rightarrow> (bool \<times> parser) option"
where
  "accept_internal 0 p = None"
| "accept_internal (Suc n) p =
     (case last_token p of
        begin_object \<Rightarrow>
          (let p = get_token p in if last_token p = end_object then Some (True, p) else accept_members n p)
      | begin_array \<Rightarrow>
          (let p = get_token p in if last_token p = end_array then Some (True, p) else accept_elements n p)
      | value_float \<Rightarrow> Some (c_isfinite (lx_value_float (m_lexer p)), p)
      | literal_false \<Rightarrow> Some (True, p)
      | literal_null \<Rightarrow> Some (True, p)
      | literal_true \<Rightarrow> Some (True, p)
      | value_integer \<Rightarrow> Some (True, p)
      | value_string \<Rightarrow> Some (True, p)
      | value_unsigned \<Rightarrow> Some (True, p)
      | _ \<Rightarrow> Some (False, p))"
| "accept_members 0 p = None"
| "accept_members (Suc n) p =
     (if last_token p \<noteq> value_string then Some (False, p)
      else let p = get_token p in
        if last_token p \<noteq> name_separator then Some (False, p)
        else
          (case accept_internal n (get_token p) of
             None \<Rightarrow> None
           | Some (ok, p) \<Rightarrow>
               if \<not> ok then Some (False, p)
               else let p = get_token p in
                 if last_token p = value_separator then accept_members n (get_token p)
                 else Some (last_token p = end_object, p)))"
| "accept_elements 0 p = None"
| "accept_elements (Suc n) p =
     (case accept_internal n p of
        None \<Rightarrow> None
      | Some (ok, p) \<Rightarrow>
          if \<not> ok then Some (False, p)
          else let p = get_token p in
            if last_token p = value_separator then accept_elements n (get_token p)
            else Some (last_token p = end_array, p))"

definition parser_accept :: "bool \<Rightarrow> bytes \<Rightarrow> bool option" where
  "parser_accept strict input =
     (case accept_internal (parse_fuel input) (get_token (parser_new input)) of
        None \<Rightarrow> None
      | Some (ok, p) \<Rightarrow>
          if \<not> ok then Some False
          else Some (\<not> strict \<or> last_token (get_token p) = end_of_input))"

section \<open>The parser reads the input to its end\<close>

lemma bind_p_simps [simp]:
  "bind_p None f = None" "bind_p (Some (Inl e)) f = Some (Inl e)" "bind_p (Some (Inr x)) f = f x"
  by (simp_all add: bind_p_def)

lemma bind_p_Inr: "bind_p r f = Some (Inr y) \<longleftrightarrow> (\<exists>x. r = Some (Inr x) \<and> f x = Some (Inr y))"
  by (auto simp: bind_p_def split: option.splits sum.splits)

lemma bind_p_None: "bind_p r f = None \<longleftrightarrow> r = None \<or> (\<exists>x. r = Some (Inr x) \<and> f x = None)"
  by (auto simp: bind_p_def split: option.splits sum.splits)

lemma expect_simps [simp]:
  "expect t p \<noteq> None" "expect t p = Some (Inr u) \<longleftrightarrow> last_token p = t"
  by (auto simp: expect_def)

lemma expect_ok: "last_token p = t \<Longrightarrow> expect t p = Some (Inr ())"
  by simp

lemma bind_expect [simp]: "\<exists>y. bind_p (expect t p) (\<lambda>_. Some x) = Some y"
  by (simp add: expect_def)

abbreviation left :: "parser \<Rightarrow> nat" where
  "left p \<equiv> length (lx_input (m_lexer p))"

lemma skip_whitespace_shrinks:
  "length (lx_input (skip_whitespace s)) \<le> length (lx_input s) \<and>
   (lx_current (skip_whitespace s) \<noteq> -1 \<longrightarrow> length (lx_input (skip_whitespace s)) < length (lx_input s) \<and> 0 \<le> lx_current (skip_whitespace s))"
proof (induction s rule: skip_whitespace.induct)
  case (1 s)
  show ?case
  proof (cases "lx_input s")
    case Nil
    then have "lx_current (lex_get s) = -1" "lx_input (lex_get s) = []" by (simp_all add: lex_get_current lex_get_input)
    then show ?thesis using Nil by (simp add: skip_whitespace.simps [of s] Let_def is_ws_def)
  next
    case (Cons b bs)
    then show ?thesis using 1 [OF refl] get_Cons [OF Cons] by (auto simp: skip_whitespace.simps [of s] Let_def)
  qed
qed

lemma literal_loop_shrinks: "literal_loop cs t s = (u, s') \<Longrightarrow> length (lx_input s') \<le> length (lx_input s)"
  by (induction cs t s rule: literal_loop.induct) (fastforce simp: Let_def lex_fail_def lex_get_input split: if_splits)+

lemma scan_number_shrinks:
  assumes "scan_number s = (t, s')" and "t \<noteq> parse_error" and "lx_current s = 0x2D \<or> digit (lx_current s)"
  shows "length (lx_input s') \<le> length (lx_input s)"
proof -
  let ?b = "word_of_int (lx_current s) :: u8"
  have r: "0 \<le> lx_current s" "lx_current s < 256" using assms(3) by (auto simp: digit_def)
  then have c: "lx_current s = uint ?b" by (simp add: uint_word_of_int_eq take_bit_int_eq_self)
  have b: "?b = 0x2D \<or> is_digit ?b" using assms(3) c digit_uint [of ?b] by auto
  obtain sg i f e s1 where n: "number_parts sg i f e" and a: "accepts (number_type (if sg = [] then value_unsigned else value_integer) f e)
      (first_unread ?b s) (sg @ i @ f @ e) s1 (t, s')"
    using number_inversion [OF c b] assms(1,2) by auto
  have "i \<noteq> []" using n by (auto simp: number_parts_def int_part_def)
  then show ?thesis using arg_cong [OF accepts_frame(1) [OF a], of length] by (cases i) auto
qed

lemma scan_number_result:
  assumes "scan_number s = (t, s')" and "lx_current s = 0x2D \<or> digit (lx_current s)"
  shows "t \<in> {parse_error, value_unsigned, value_integer, value_float}"
proof -
  let ?b = "word_of_int (lx_current s) :: u8"
  have r: "0 \<le> lx_current s" "lx_current s < 256" using assms(2) by (auto simp: digit_def)
  then have c: "lx_current s = uint ?b" by (simp add: uint_word_of_int_eq take_bit_int_eq_self)
  have b: "?b = 0x2D \<or> is_digit ?b" using assms(2) c digit_uint [of ?b] by auto
  show ?thesis
  proof (cases "t = parse_error")
    case False
    then obtain sg i f e s1 where n: "number_parts sg i f e" and a: "accepts (number_type (if sg = [] then value_unsigned else value_integer) f e)
      (first_unread ?b s) (sg @ i @ f @ e) s1 (t, s')"
      using number_inversion [OF c b] assms(1) by auto
    then have "t = number_token sg i f e" using accepts_token [OF a n] by simp
    then show ?thesis by (simp add: number_token_def)
  qed simp
qed

lemma scan_string_shrinks:
  assumes "scan_string s = (value_string, s')"
  shows "length (lx_input s') \<le> length (lx_input s)"
  using loop_body_inversion [of "lex_reset s" s'] assms by (auto simp: scan_string_def)

lemma lex_scan_shrinks:
  assumes "lex_scan s = (t, s')" and "t \<noteq> parse_error" and "t \<noteq> end_of_input"
  shows "length (lx_input s') < length (lx_input s)"
proof -
  let ?s = "skip_whitespace s"
  have "lx_current ?s \<noteq> -1" using assms by (auto simp: lex_scan_def Let_def digit_def)
  then have w: "length (lx_input ?s) < length (lx_input s)" using skip_whitespace_shrinks [of s] by simp
  have "length (lx_input s') \<le> length (lx_input ?s)"
    using assms literal_loop_shrinks scan_string_shrinks [of ?s s'] scan_string_result [of ?s t s'] scan_number_shrinks [of ?s t s']
    by (auto simp: lex_scan_def Let_def scan_literal_def lex_fail_def split: if_splits)
  then show ?thesis using w by simp
qed

lemma literal_loop_result: "literal_loop cs t s = (u, s') \<Longrightarrow> u = t \<or> u = parse_error"
  by (induction cs t s rule: literal_loop.induct) (auto simp: Let_def lex_fail_def split: if_splits)

lemma lex_scan_result: "lex_scan s = (t, s') \<Longrightarrow> t \<noteq> literal_or_value \<and> t \<noteq> uninitialized"
  using scan_number_result [of "skip_whitespace s" t s'] scan_string_result [of "skip_whitespace s" t s']
  by (auto simp: lex_scan_def Let_def scan_literal_def lex_fail_def split: if_splits dest: literal_loop_result)

lemma get_token_result [simp]: "last_token (get_token p) \<noteq> literal_or_value" "last_token (get_token p) \<noteq> uninitialized"
  using lex_scan_result [of "m_lexer p"] by (auto simp: get_token_def split: prod.splits)

lemma get_token_shrinks: "last_token (get_token p) \<noteq> parse_error \<Longrightarrow> last_token (get_token p) \<noteq> end_of_input \<Longrightarrow> left (get_token p) < left p"
  using lex_scan_shrinks [of "m_lexer p"] by (auto simp: get_token_def split: prod.splits)

section \<open>The grammar\<close>

text \<open>
  The tokens as the grammar sees them: a punctuation character, or a value that is a token of its own. The
  tokens of a state: what the lexer makes of the next stretch of the input.
\<close>

datatype token = Punct token_type | Scalar json

definition token_of :: "parser \<Rightarrow> token option" where
  "token_of p =
     (case last_token p of
        literal_null \<Rightarrow> Some (Scalar Null)
      | literal_true \<Rightarrow> Some (Scalar (Boolean True))
      | literal_false \<Rightarrow> Some (Scalar (Boolean False))
      | value_string \<Rightarrow> Some (Scalar (String (lx_token_buffer (m_lexer p))))
      | value_unsigned \<Rightarrow> Some (Scalar (Number_unsigned (lx_value_unsigned (m_lexer p))))
      | value_integer \<Rightarrow> Some (Scalar (Number_integer (lx_value_integer (m_lexer p))))
      | value_float \<Rightarrow> if c_isfinite (lx_value_float (m_lexer p)) then Some (Scalar (Number_float (lx_value_float (m_lexer p)))) else None
      | begin_array \<Rightarrow> Some (Punct begin_array)
      | begin_object \<Rightarrow> Some (Punct begin_object)
      | end_array \<Rightarrow> Some (Punct end_array)
      | end_object \<Rightarrow> Some (Punct end_object)
      | name_separator \<Rightarrow> Some (Punct name_separator)
      | value_separator \<Rightarrow> Some (Punct value_separator)
      | _ \<Rightarrow> None)"

fun scans :: "parser \<Rightarrow> token list \<Rightarrow> parser \<Rightarrow> bool" where
  "scans p [] p' = (p' = p)"
| "scans p (t # ts) p' = (token_of (get_token p) = Some t \<and> scans (get_token p) ts p')"

text \<open>The JSON grammar with the value of each phrase. Of two members with one key the first counts.\<close>

inductive value_tokens :: "token list \<Rightarrow> json \<Rightarrow> bool"
and member_tokens :: "token list \<Rightarrow> (bytes \<times> json) list \<Rightarrow> bool"
and element_tokens :: "token list \<Rightarrow> json list \<Rightarrow> bool"
where
  v_scalar: "value_tokens [Scalar v] v"
| v_object_empty: "value_tokens [Punct begin_object, Punct end_object] (Object [])"
| v_object: "member_tokens ts es \<Longrightarrow> value_tokens (Punct begin_object # ts @ [Punct end_object]) (Object (fold (\<lambda>(k, v). map_emplace k v) es []))"
| v_array_empty: "value_tokens [Punct begin_array, Punct end_array] (Array [])"
| v_array: "element_tokens ts xs \<Longrightarrow> value_tokens (Punct begin_array # ts @ [Punct end_array]) (Array xs)"
| m_one: "value_tokens ts v \<Longrightarrow> member_tokens (Scalar (String k) # Punct name_separator # ts) [(k, v)]"
| m_more: "value_tokens ts v \<Longrightarrow> member_tokens us es \<Longrightarrow>
    member_tokens (Scalar (String k) # Punct name_separator # ts @ Punct value_separator # us) ((k, v) # es)"
| e_one: "value_tokens ts v \<Longrightarrow> element_tokens ts [v]"
| e_more: "value_tokens ts v \<Longrightarrow> element_tokens us xs \<Longrightarrow> element_tokens (ts @ Punct value_separator # us) (v # xs)"

lemma scans_append: "scans p (ts @ us) p' \<longleftrightarrow> (\<exists>q. scans p ts q \<and> scans q us p')"
  by (induction ts arbitrary: p) auto

lemma token_of_punct [simp]:
  "token_of p = Some (Punct t) \<longleftrightarrow>
     last_token p = t \<and> t \<in> {begin_array, begin_object, end_array, end_object, name_separator, value_separator}"
  by (auto simp: token_of_def split: token_type.splits if_splits)

lemma token_of_string [simp]: "token_of p = Some (Scalar (String k)) \<longleftrightarrow> last_token p = value_string \<and> k = move_string (m_lexer p)"
  by (auto simp: token_of_def move_string_def split: token_type.splits if_splits)

lemma token_of_shrinks: "token_of (get_token p) = Some t \<Longrightarrow> left (get_token p) < left p"
  by (rule get_token_shrinks) (auto simp: token_of_def)

lemma scans_shrinks: "scans p ts p' \<Longrightarrow> left p' + length ts \<le> left p"
  by (induction p ts p' rule: scans.induct) (auto dest: token_of_shrinks)

lemma parse_internal_scalar: "token_of p = Some (Scalar v) \<Longrightarrow> parse_internal (Suc n) p = Some (Inr (v, p))"
  by (auto simp: token_of_def move_string_def split: token_type.splits if_splits)

lemma parse_internal_cases:
  assumes "parse_internal (Suc n) (get_token p) = Some (Inr (v, p'))"
  obtains (Scalar) "token_of (get_token p) = Some (Scalar v)" "p' = get_token p"
  | (Object_empty) "token_of (get_token p) = Some (Punct begin_object)" "token_of (get_token (get_token p)) = Some (Punct end_object)" "v = Object []" "p' = get_token (get_token p)"
  | (Object) "token_of (get_token p) = Some (Punct begin_object)" "parse_members n [] (get_token (get_token p)) = Some (Inr (v, p'))"
  | (Array_empty) "token_of (get_token p) = Some (Punct begin_array)" "token_of (get_token (get_token p)) = Some (Punct end_array)" "v = Array []" "p' = get_token (get_token p)"
  | (Array) "token_of (get_token p) = Some (Punct begin_array)" "parse_elements n [] (get_token (get_token p)) = Some (Inr (v, p'))"
proof -
  consider "last_token (get_token p) = begin_object" | "last_token (get_token p) = begin_array" | "last_token (get_token p) \<noteq> begin_object" "last_token (get_token p) \<noteq> begin_array" by blast
  then show ?thesis
  proof cases
    case 1
    show ?thesis
    proof (cases "last_token (get_token (get_token p)) = end_object")
      case True
      then have "v = Object [] \<and> p' = get_token (get_token p)" using assms \<open>last_token (get_token p) = begin_object\<close> by (simp add: Let_def)
      then show ?thesis using True \<open>last_token (get_token p) = begin_object\<close> by (intro Object_empty) simp_all
    next
      case False
      then show ?thesis using assms \<open>last_token (get_token p) = begin_object\<close> by (intro Object) (simp_all add: Let_def)
    qed
  next
    case 2
    show ?thesis
    proof (cases "last_token (get_token (get_token p)) = end_array")
      case True
      then have "v = Array [] \<and> p' = get_token (get_token p)" using assms \<open>last_token (get_token p) = begin_array\<close> by (simp add: Let_def)
      then show ?thesis using True \<open>last_token (get_token p) = begin_array\<close> by (intro Array_empty) simp_all
    next
      case False
      then show ?thesis using assms \<open>last_token (get_token p) = begin_array\<close> by (intro Array) (simp_all add: Let_def)
    qed
  next
    case 3
    have "token_of (get_token p) = Some (Scalar v) \<and> p' = get_token p" using assms 3
      by (cases "last_token (get_token p)") (auto simp: token_of_def move_string_def bind_p_Inr split: if_splits)
    then show ?thesis using Scalar by simp
  qed
qed

lemma parse_members_cases:
  assumes "parse_members (Suc n) m p = Some (Inr (j, p'))"
  obtains k v q where "token_of p = Some (Scalar (String k))" "token_of (get_token p) = Some (Punct name_separator)"
    "parse_internal n (get_token (get_token p)) = Some (Inr (v, q))"
    "token_of (get_token q) = Some (Punct value_separator) \<and> parse_members n (map_emplace k v m) (get_token (get_token q)) = Some (Inr (j, p'))
     \<or> token_of (get_token q) = Some (Punct end_object) \<and> j = Object (map_emplace k v m) \<and> p' = get_token q"
  using assms by (auto simp: Let_def bind_p_Inr split: if_splits)

lemma parse_elements_cases:
  assumes "parse_elements (Suc n) xs p = Some (Inr (j, p'))"
  obtains v q where "parse_internal n p = Some (Inr (v, q))"
    "token_of (get_token q) = Some (Punct value_separator) \<and> parse_elements n (xs @ [v]) (get_token (get_token q)) = Some (Inr (j, p'))
     \<or> token_of (get_token q) = Some (Punct end_array) \<and> j = Array (xs @ [v]) \<and> p' = get_token q"
  using assms by (auto simp: Let_def bind_p_Inr split: if_splits)

section \<open>The parser accepts the grammar\<close>

lemma parse_sound:
  "(\<forall>p v p'. parse_internal n (get_token p) = Some (Inr (v, p')) \<longrightarrow> (\<exists>ts. value_tokens ts v \<and> scans p ts p')) \<and>
   (\<forall>p m j p'. parse_members n m (get_token p) = Some (Inr (j, p')) \<longrightarrow>
      (\<exists>ts es. member_tokens ts es \<and> j = Object (fold (\<lambda>(k, v). map_emplace k v) es m) \<and> scans p (ts @ [Punct end_object]) p')) \<and>
   (\<forall>p xs j p'. parse_elements n xs (get_token p) = Some (Inr (j, p')) \<longrightarrow>
      (\<exists>ts ys. element_tokens ts ys \<and> j = Array (xs @ ys) \<and> scans p (ts @ [Punct end_array]) p'))"
  (is "?V n \<and> ?M n \<and> ?E n")
proof (induction n)
  case (Suc n)
  have "?V (Suc n)"
  proof (intro allI impI)
    fix p v p'
    assume "parse_internal (Suc n) (get_token p) = Some (Inr (v, p'))"
    then show "\<exists>ts. value_tokens ts v \<and> scans p ts p'"
    proof (cases rule: parse_internal_cases)
      case Scalar
      then show ?thesis using v_scalar by (intro exI [of _ "[Scalar v]"]) simp
    next
      case Object_empty
      then show ?thesis using v_object_empty by (intro exI [of _ "[Punct begin_object, Punct end_object]"]) simp
    next
      case Object
      then obtain ts es where "member_tokens ts es" "v = Object (fold (\<lambda>(k, v). map_emplace k v) es [])"
        "scans (get_token p) (ts @ [Punct end_object]) p'" using Suc by blast
      then show ?thesis using v_object Object(1) by (intro exI [of _ "Punct begin_object # ts @ [Punct end_object]"]) simp
    next
      case Array_empty
      then show ?thesis using v_array_empty by (intro exI [of _ "[Punct begin_array, Punct end_array]"]) simp
    next
      case Array
      then obtain ts ys where "element_tokens ts ys" "v = Array ([] @ ys)" "scans (get_token p) (ts @ [Punct end_array]) p'" using Suc by blast
      then show ?thesis using v_array Array(1) by (intro exI [of _ "Punct begin_array # ts @ [Punct end_array]"]) simp
    qed
  qed
  moreover have "?M (Suc n)"
  proof (intro allI impI)
    fix p m j p'
    assume "parse_members (Suc n) m (get_token p) = Some (Inr (j, p'))"
    then obtain k v q where k: "token_of (get_token p) = Some (Scalar (String k))" "token_of (get_token (get_token p)) = Some (Punct name_separator)"
      "parse_internal n (get_token (get_token (get_token p))) = Some (Inr (v, q))"
      "token_of (get_token q) = Some (Punct value_separator) \<and> parse_members n (map_emplace k v m) (get_token (get_token q)) = Some (Inr (j, p'))
       \<or> token_of (get_token q) = Some (Punct end_object) \<and> j = Object (map_emplace k v m) \<and> p' = get_token q"
      by (rule parse_members_cases)
    obtain ts where ts: "value_tokens ts v" "scans (get_token (get_token p)) ts q" using Suc k(3) by blast
    from k(4) show "\<exists>ts es. member_tokens ts es \<and> j = Object (fold (\<lambda>(k, v). map_emplace k v) es m) \<and> scans p (ts @ [Punct end_object]) p'"
    proof
      assume a: "token_of (get_token q) = Some (Punct value_separator) \<and> parse_members n (map_emplace k v m) (get_token (get_token q)) = Some (Inr (j, p'))"
      then obtain us es where "member_tokens us es" "j = Object (fold (\<lambda>(k, v). map_emplace k v) es (map_emplace k v m))"
        "scans (get_token q) (us @ [Punct end_object]) p'" using Suc by blast
      then show ?thesis using m_more [OF ts(1)] ts(2) a k(1,2)
        by (intro exI [of _ "Scalar (String k) # Punct name_separator # ts @ Punct value_separator # us"] exI [of _ "(k, v) # es"])
          (auto simp: scans_append)
    next
      assume "token_of (get_token q) = Some (Punct end_object) \<and> j = Object (map_emplace k v m) \<and> p' = get_token q"
      then show ?thesis using m_one [OF ts(1)] ts(2) k(1,2)
        by (intro exI [of _ "Scalar (String k) # Punct name_separator # ts"] exI [of _ "[(k, v)]"]) (auto simp: scans_append)
    qed
  qed
  moreover have "?E (Suc n)"
  proof (intro allI impI)
    fix p xs j p'
    assume "parse_elements (Suc n) xs (get_token p) = Some (Inr (j, p'))"
    then obtain v q where k: "parse_internal n (get_token p) = Some (Inr (v, q))"
      "token_of (get_token q) = Some (Punct value_separator) \<and> parse_elements n (xs @ [v]) (get_token (get_token q)) = Some (Inr (j, p'))
       \<or> token_of (get_token q) = Some (Punct end_array) \<and> j = Array (xs @ [v]) \<and> p' = get_token q"
      by (rule parse_elements_cases)
    obtain ts where ts: "value_tokens ts v" "scans p ts q" using Suc k(1) by blast
    from k(2) show "\<exists>ts ys. element_tokens ts ys \<and> j = Array (xs @ ys) \<and> scans p (ts @ [Punct end_array]) p'"
    proof
      assume a: "token_of (get_token q) = Some (Punct value_separator) \<and> parse_elements n (xs @ [v]) (get_token (get_token q)) = Some (Inr (j, p'))"
      then obtain us ys where "element_tokens us ys" "j = Array ((xs @ [v]) @ ys)" "scans (get_token q) (us @ [Punct end_array]) p'"
        using Suc by blast
      then show ?thesis using e_more [OF ts(1)] ts(2) a
        by (intro exI [of _ "ts @ Punct value_separator # us"] exI [of _ "v # ys"]) (auto simp: scans_append)
    next
      assume "token_of (get_token q) = Some (Punct end_array) \<and> j = Array (xs @ [v]) \<and> p' = get_token q"
      then show ?thesis using e_one [OF ts(1)] ts(2) by (intro exI [of _ ts] exI [of _ "[v]"]) (auto simp: scans_append)
    qed
  qed
  ultimately show ?case by blast
qed simp

lemma parse_shrinks: "parse_internal n (get_token p) = Some (Inr (v, p')) \<Longrightarrow> left p' < left p"
proof -
  assume "parse_internal n (get_token p) = Some (Inr (v, p'))"
  then obtain ts where ts: "value_tokens ts v" "scans p ts p'" using parse_sound [of n] by blast
  have "ts \<noteq> []" using ts(1) by (auto elim: value_tokens.cases)
  then show "left p' < left p" using scans_shrinks [OF ts(2)] by (cases ts) auto
qed

text \<open>Enough fuel: two calls for every byte that is left, and two for the last token.\<close>

lemma parse_total:
  "(\<forall>p. 2 * left p + 1 < n \<longrightarrow> parse_internal n (get_token p) \<noteq> None) \<and>
   (\<forall>p m. 2 * left p + 2 < n \<longrightarrow> parse_members n m (get_token p) \<noteq> None) \<and>
   (\<forall>p xs. 2 * left p + 2 < n \<longrightarrow> parse_elements n xs (get_token p) \<noteq> None)"
  (is "?V n \<and> ?M n \<and> ?E n")
proof (induction n)
  case (Suc n)
  have "?V (Suc n)"
  proof (intro allI impI)
    fix p assume l: "2 * left p + 1 < Suc n"
    let ?q = "get_token p"
    have "token_of ?q \<noteq> None \<Longrightarrow> 2 * left ?q + 2 < n" using token_of_shrinks [of p] l by fastforce
    then show "parse_internal (Suc n) ?q \<noteq> None"
      using Suc l by (cases "last_token ?q") (auto simp: Let_def bind_p_None token_of_def)
  qed
  moreover have "?M (Suc n)"
  proof (intro allI impI)
    fix p m assume l: "2 * left p + 2 < Suc n"
    let ?q = "get_token p"
    have s: "last_token ?q = value_string \<Longrightarrow> left ?q < left p" using get_token_shrinks [of p] by simp
    have t: "last_token (get_token ?q) = name_separator \<Longrightarrow> left (get_token ?q) < left ?q" using get_token_shrinks [of ?q] by simp
    have r: "left (get_token r) < left (get_token ?q)"
      if "parse_internal n (get_token (get_token ?q)) = Some (Inr (v, r))" "last_token (get_token r) = value_separator" for v r
      using parse_shrinks [OF that(1)] get_token_shrinks [of r] that(2) by simp
    show "parse_members (Suc n) m ?q \<noteq> None"
      using Suc l s t by (auto simp: Let_def bind_p_None split: if_splits dest!: r)
  qed
  moreover have "?E (Suc n)"
  proof (intro allI impI)
    fix p xs assume l: "2 * left p + 2 < Suc n"
    have r: "left (get_token r) < left p"
      if "parse_internal n (get_token p) = Some (Inr (v, r))" "last_token (get_token r) = value_separator" for v r
      using parse_shrinks [OF that(1)] get_token_shrinks [of r] that(2) by simp
    show "parse_elements (Suc n) xs (get_token p) \<noteq> None"
      using Suc l by (auto simp: Let_def bind_p_None split: if_splits dest!: r)
  qed
  ultimately show ?case by blast
qed simp

text \<open>More fuel does not change a result.\<close>

lemma bind_p_mono:
  assumes "bind_p r f = Some x" and "\<And>y. r = Some y \<Longrightarrow> r' = Some y" and "\<And>a y. f a = Some y \<Longrightarrow> g a = Some y"
  shows "bind_p r' g = Some x"
  using assms by (auto simp: bind_p_def split: option.splits sum.splits)

lemma parse_mono_Suc:
  "(\<forall>p r. parse_internal n p = Some r \<longrightarrow> parse_internal (Suc n) p = Some r) \<and>
   (\<forall>m p r. parse_members n m p = Some r \<longrightarrow> parse_members (Suc n) m p = Some r) \<and>
   (\<forall>xs p r. parse_elements n xs p = Some r \<longrightarrow> parse_elements (Suc n) xs p = Some r)"
  (is "?V n \<and> ?M n \<and> ?E n")
proof (induction n)
  case (Suc n)
  then have v: "\<And>p r. parse_internal n p = Some r \<Longrightarrow> parse_internal (Suc n) p = Some r"
    and m: "\<And>m p r. parse_members n m p = Some r \<Longrightarrow> parse_members (Suc n) m p = Some r"
    and e: "\<And>xs p r. parse_elements n xs p = Some r \<Longrightarrow> parse_elements (Suc n) xs p = Some r" by blast+
  have "?V (Suc n)"
  proof (intro allI impI)
    fix p r assume "parse_internal (Suc n) p = Some r"
    then show "parse_internal (Suc (Suc n)) p = Some r"
      unfolding parse_internal.simps(2) [of n p] parse_internal.simps(2) [of "Suc n" p] Let_def using m e by (simp del: parse_internal.simps parse_members.simps parse_elements.simps split: token_type.splits if_splits)
  qed
  moreover have "?M (Suc n)"
  proof (intro allI impI)
    fix ms p r assume "parse_members (Suc n) ms p = Some r"
    then show "parse_members (Suc (Suc n)) ms p = Some r" unfolding parse_members.simps(2) [of n ms p] parse_members.simps(2) [of "Suc n" ms p] Let_def
      by (elim bind_p_mono) (auto simp del: parse_internal.simps parse_members.simps parse_elements.simps elim!: bind_p_mono intro: v m split: if_splits)
  qed
  moreover have "?E (Suc n)"
  proof (intro allI impI)
    fix xs p r assume "parse_elements (Suc n) xs p = Some r"
    then show "parse_elements (Suc (Suc n)) xs p = Some r" unfolding parse_elements.simps(2) [of n xs p] parse_elements.simps(2) [of "Suc n" xs p] Let_def
      by (elim bind_p_mono) (auto simp del: parse_internal.simps parse_members.simps parse_elements.simps intro: v e split: if_splits)
  qed
  ultimately show ?case by blast
qed simp

lemma parse_mono:
  assumes "n \<le> k"
  shows "parse_internal n p = Some r \<Longrightarrow> parse_internal k p = Some r"
    and "parse_members n m p = Some r \<Longrightarrow> parse_members k m p = Some r"
    and "parse_elements n xs p = Some r \<Longrightarrow> parse_elements k xs p = Some r"
  using assms parse_mono_Suc by (induction rule: dec_induct) blast+

lemma not_end:
  "value_tokens ts v \<Longrightarrow> scans p ts p' \<Longrightarrow> token_of (get_token p) \<noteq> Some (Punct end_array) \<and> token_of (get_token p) \<noteq> Some (Punct end_object)"
  "member_tokens us es \<Longrightarrow> scans p (us @ ws) p' \<Longrightarrow> last_token (get_token p) = value_string"
  "element_tokens us xs \<Longrightarrow> scans p (us @ ws) p' \<Longrightarrow> token_of (get_token p) \<noteq> Some (Punct end_array)"
proof -
  show v: "token_of (get_token p) \<noteq> Some (Punct end_array) \<and> token_of (get_token p) \<noteq> Some (Punct end_object)"
    if "value_tokens ts v" "scans p ts p'" for p ts v p' using that by (auto elim!: value_tokens.cases simp: scans_append simp del: token_of_punct)
  show "last_token (get_token p) = value_string" if "member_tokens us es" "scans p (us @ ws) p'"
    using that(1) by (cases rule: member_tokens.cases) (use that(2) in auto)
  show "token_of (get_token p) \<noteq> Some (Punct end_array)" if "element_tokens us xs" "scans p (us @ ws) p'"
    using that(1)
  proof (cases rule: element_tokens.cases)
    case (e_one v)
    then show ?thesis using v that(2) by (auto simp: scans_append simp del: token_of_punct)
  next
    case (e_more ts v us' xs')
    then show ?thesis using v that(2) by (auto simp: scans_append simp del: token_of_punct)
  qed
qed

lemma parse_complete:
  "value_tokens ts v \<Longrightarrow> scans p ts p' \<Longrightarrow> \<exists>n. parse_internal n (get_token p) = Some (Inr (v, p'))"
  "member_tokens us es \<Longrightarrow> scans p (us @ [Punct end_object]) p' \<Longrightarrow>
     \<exists>n. parse_members n m (get_token p) = Some (Inr (Object (fold (\<lambda>(k, v). map_emplace k v) es m), p'))"
  "element_tokens ws xs \<Longrightarrow> scans p (ws @ [Punct end_array]) p' \<Longrightarrow>
     \<exists>n. parse_elements n ys (get_token p) = Some (Inr (Array (ys @ xs), p'))"
proof (induction arbitrary: p p' and p p' m and p p' ys rule: value_tokens_member_tokens_element_tokens.inducts)
  case (v_scalar v)
  then have "token_of (get_token p) = Some (Scalar v)" "p' = get_token p" by simp_all
  from parse_internal_scalar [OF this(1)] this(2) show ?case by blast
next
  case v_object_empty
  then show ?case by (intro exI [of _ "Suc 0"]) (simp add: Let_def)
next
  case (v_object ts es)
  then have s: "last_token (get_token p) = begin_object" "scans (get_token p) (ts @ [Punct end_object]) p'" by simp_all
  then obtain n where "parse_members n [] (get_token (get_token p)) = Some (Inr (Object (fold (\<lambda>(k, v). map_emplace k v) es []), p'))"
    using v_object.IH by blast
  then show ?case using s(1) not_end(2) [OF v_object(1) s(2)] by (intro exI [of _ "Suc n"]) (simp add: Let_def)
next
  case v_array_empty
  then show ?case by (intro exI [of _ "Suc 0"]) (simp add: Let_def)
next
  case (v_array ts xs)
  then have s: "last_token (get_token p) = begin_array" "scans (get_token p) (ts @ [Punct end_array]) p'" by simp_all
  then obtain n where "parse_elements n [] (get_token (get_token p)) = Some (Inr (Array ([] @ xs), p'))" using v_array.IH by blast
  then show ?case using s(1) not_end(3) [OF v_array(1) s(2)] by (intro exI [of _ "Suc n"]) (simp add: Let_def)
next
  case (m_one ts v k)
  then obtain q where q: "last_token (get_token p) = value_string" "k = move_string (m_lexer (get_token p))"
    "last_token (get_token (get_token p)) = name_separator" "scans (get_token (get_token p)) ts q" "last_token (get_token q) = end_object"
    "p' = get_token q" by (auto simp: scans_append)
  then obtain n where "parse_internal n (get_token (get_token (get_token p))) = Some (Inr (v, q))" using m_one.IH by blast
  then show ?case using q by (intro exI [of _ "Suc n"]) (simp add: Let_def expect_ok)
next
  case (m_more ts v us es k)
  then obtain q where q: "last_token (get_token p) = value_string" "k = move_string (m_lexer (get_token p))"
    "last_token (get_token (get_token p)) = name_separator" "scans (get_token (get_token p)) ts q" "last_token (get_token q) = value_separator"
    "scans (get_token q) (us @ [Punct end_object]) p'" by (auto simp: scans_append)
  obtain n where "parse_internal n (get_token (get_token (get_token p))) = Some (Inr (v, q))" using m_more.IH(1) q(4) by blast
  moreover obtain l where "parse_members l (map_emplace k v m) (get_token (get_token q)) =
      Some (Inr (Object (fold (\<lambda>(k, v). map_emplace k v) es (map_emplace k v m)), p'))" using m_more.IH(2) q(6) by blast
  ultimately have "parse_internal (max n l) (get_token (get_token (get_token p))) = Some (Inr (v, q))"
    "parse_members (max n l) (map_emplace k v m) (get_token (get_token q)) =
      Some (Inr (Object (fold (\<lambda>(k, v). map_emplace k v) es (map_emplace k v m)), p'))"
    using parse_mono [of n "max n l"] parse_mono [of l "max n l"] by simp_all
  then show ?case using q by (intro exI [of _ "Suc (max n l)"]) (simp add: Let_def expect_ok)
next
  case (e_one ts v)
  then obtain q where q: "scans p ts q" "last_token (get_token q) = end_array" "p' = get_token q" by (auto simp: scans_append)
  then obtain n where "parse_internal n (get_token p) = Some (Inr (v, q))" using e_one.IH by blast
  then show ?case using q by (intro exI [of _ "Suc n"]) (simp add: Let_def expect_ok)
next
  case (e_more ts v us xs)
  then obtain q where q: "scans p ts q" "last_token (get_token q) = value_separator" "scans (get_token q) (us @ [Punct end_array]) p'"
    by (auto simp: scans_append)
  obtain n where "parse_internal n (get_token p) = Some (Inr (v, q))" using e_more.IH(1) q(1) by blast
  moreover obtain l where "parse_elements l (ys @ [v]) (get_token (get_token q)) = Some (Inr (Array ((ys @ [v]) @ xs), p'))"
    using e_more.IH(2) q(3) by blast
  ultimately have "parse_internal (max n l) (get_token p) = Some (Inr (v, q))"
    "parse_elements (max n l) (ys @ [v]) (get_token (get_token q)) = Some (Inr (Array ((ys @ [v]) @ xs), p'))"
    using parse_mono [of n "max n l"] parse_mono [of l "max n l"] by simp_all
  then show ?case using q by (intro exI [of _ "Suc (max n l)"]) (simp add: Let_def)
qed

lemma parse_fuel_enough: "left (parser_new input) = length input" "parse_internal (parse_fuel input) (get_token (parser_new input)) \<noteq> None"
proof -
  show l: "left (parser_new input) = length input" by (simp add: parser_new_def lexer_new_def)
  show "parse_internal (parse_fuel input) (get_token (parser_new input)) \<noteq> None"
    using parse_total [of "parse_fuel input"] l by (simp add: parse_fuel_def)
qed

lemma parse_any_fuel:
  "parse_internal (parse_fuel input) (get_token (parser_new input)) = Some r \<longleftrightarrow> (\<exists>n. parse_internal n (get_token (parser_new input)) = Some r)"
proof
  assume "\<exists>n. parse_internal n (get_token (parser_new input)) = Some r"
  then obtain n where n: "parse_internal n (get_token (parser_new input)) = Some r" by blast
  obtain r' where r': "parse_internal (parse_fuel input) (get_token (parser_new input)) = Some r'" using parse_fuel_enough(2) by blast
  have "Some r' = Some r"
    using parse_mono(1) [of n "max n (parse_fuel input)", OF _ n] parse_mono(1) [of "parse_fuel input" "max n (parse_fuel input)", OF _ r'] by simp
  then show "parse_internal (parse_fuel input) (get_token (parser_new input)) = Some r" using r' by simp
qed blast

text \<open>
  C13: The parser accepts exactly the JSON grammar. It returns a value and stops in a state precisely when
  the tokens the lexer finds up to that state derive the value: members of an object separated by commas, each a string,
  a colon and a value, elements of an array, scalars. Of members with equal keys the first stays.
\<close>

theorem parse_grammar:
  "parser_parse False input = Some (Inr (v, p)) \<longleftrightarrow> (\<exists>ts. value_tokens ts v \<and> scans (parser_new input) ts p)"
proof
  assume "parser_parse False input = Some (Inr (v, p))"
  then have "parse_internal (parse_fuel input) (get_token (parser_new input)) = Some (Inr (v, p))"
    by (auto simp: parser_parse_def bind_p_Inr)
  then show "\<exists>ts. value_tokens ts v \<and> scans (parser_new input) ts p" using parse_sound by blast
next
  assume "\<exists>ts. value_tokens ts v \<and> scans (parser_new input) ts p"
  then show "parser_parse False input = Some (Inr (v, p))" using parse_complete(1) by (fastforce simp: parser_parse_def parse_any_fuel bind_p_Inr)
qed

lemma stream_in_total: "\<exists>r. stream_in i = Some r"
proof -
  obtain r where "parse_internal (parse_fuel (input_stream_adapter i)) (get_token (parser_new (input_stream_adapter i))) = Some r"
    using parse_fuel_enough(2) by blast
  then show ?thesis by (cases r) (auto simp: stream_in_def parser_parse_def)
qed

section \<open>The values the parser makes\<close>

lemma string_body_scalars: "string_body bs cps \<Longrightarrow> list_all scalar cps"
  by (induction rule: string_body.induct) (auto dest: string_item_scalar)

lemma scan_string_text: "scan_string s = (value_string, s') \<Longrightarrow> text_ok (lx_token_buffer s')"
  using loop_body_inversion [of "lex_reset s" s'] string_body_scalars by (fastforce simp: scan_string_def text_ok_def)

lemma scan_number_integer:
  assumes "scan_number s = (value_integer, s')" and "lx_current s = 0x2D \<or> digit (lx_current s)"
  shows "sint (lx_value_integer s') \<le> 0"
proof -
  let ?b = "word_of_int (lx_current s) :: u8"
  have r: "0 \<le> lx_current s" "lx_current s < 256" using assms(2) by (auto simp: digit_def)
  then have c: "lx_current s = uint ?b" by (simp add: uint_word_of_int_eq take_bit_int_eq_self)
  have b: "?b = 0x2D \<or> is_digit ?b" using assms(2) c digit_uint [of ?b] by auto
  obtain sg i f e s1 where n: "number_parts sg i f e" and a: "accepts (number_type (if sg = [] then value_unsigned else value_integer) f e)
      (first_unread ?b s) (sg @ i @ f @ e) s1 (value_integer, s')"
    using number_inversion [OF c b] assms(1) by auto
  have "value_integer = number_token sg i f e" using accepts_token [OF a n] by simp
  then have "sg = [0x2D]" "f = []" "e = []" using n by (auto simp: number_token_def number_parts_def split: if_splits)
  moreover have "scan_number_done (number_type (if sg = [] then value_unsigned else value_integer) f e) (lex_get s1) = (value_integer, s')"
    using a by (simp add: accepts_def)
  ultimately show ?thesis using done_integer [of _ "lex_get s1" s' i] accepts_frame(2) [OF a] by simp
qed

definition token_ok :: "token \<Rightarrow> bool" where
  "token_ok t = (case t of Punct _ \<Rightarrow> True | Scalar v \<Rightarrow> json_ok v)"

lemma lex_scan_cases:
  assumes "lex_scan s = (t, s')"
  shows "t = value_string \<Longrightarrow> \<exists>s0. scan_string s0 = (value_string, s')"
    and "t = value_integer \<Longrightarrow> \<exists>s0. scan_number s0 = (value_integer, s') \<and> (lx_current s0 = 0x2D \<or> digit (lx_current s0))"
  using assms scan_string_result [of "skip_whitespace s"] scan_number_result [of "skip_whitespace s"]
  by (auto simp: lex_scan_def Let_def scan_literal_def lex_fail_def split: if_splits dest: literal_loop_result)

lemma token_of_ok: "token_of (get_token p) = Some t \<Longrightarrow> token_ok t"
  using lex_scan_cases [of "m_lexer p"] scan_string_text scan_number_integer
  by (fastforce simp: token_of_def token_ok_def get_token_def split: token_type.splits prod.splits if_splits)

lemma scans_ok: "scans p ts p' \<Longrightarrow> list_all token_ok ts"
  by (induction p ts p' rule: scans.induct) (auto dest: token_of_ok)

lemma fold_emplace_ok:
  assumes "map_ok m" and "\<forall>e \<in> set es \<union> set m. P e"
  shows "map_ok (fold (\<lambda>(k, v). map_emplace k v) es m) \<and> (\<forall>e \<in> set (fold (\<lambda>(k, v). map_emplace k v) es m). P e)"
  using assms
proof (induction es arbitrary: m)
  case (Cons e es)
  obtain k v where e: "e = (k, v)" by fastforce
  have "map_ok (map_emplace k v m)" using Cons.prems(1) by (rule map_emplace_ok)
  moreover have "\<forall>e \<in> set es \<union> set (map_emplace k v m). P e" using Cons.prems(2) map_emplace_set [of k v m] e by auto
  ultimately show ?case using Cons.IH e by simp
qed simp

lemma value_tokens_ok:
  "value_tokens ts v \<Longrightarrow> list_all token_ok ts \<Longrightarrow> json_ok v"
  "member_tokens us es \<Longrightarrow> list_all token_ok us \<Longrightarrow> \<forall>e \<in> set es. text_ok (fst e) \<and> json_ok (snd e)"
  "element_tokens ws xs \<Longrightarrow> list_all token_ok ws \<Longrightarrow> \<forall>x \<in> set xs. json_ok x"
proof (induction rule: value_tokens_member_tokens_element_tokens.inducts)
  case (v_object ts es)
  then have "\<forall>e \<in> set es \<union> set []. text_ok (fst e) \<and> json_ok (snd e)" by (simp add: token_ok_def)
  from fold_emplace_ok [OF map_ok_Nil this] show ?case by simp
qed (simp_all add: token_ok_def)

text \<open>
  The text of a token by RFC 8259: the characters that may write it, with the value they denote. An
  integer without a sign is unsigned, one with a minus sign signed; a number with a fraction or an
  exponent, or one too large for its 64-bit type, is a floating-point number.
\<close>

definition ws_text :: "bytes \<Rightarrow> bool" where
  "ws_text w \<longleftrightarrow> set w \<subseteq> {0x20, 0x09, 0x0A, 0x0D}"

definition number_lexeme :: "bytes \<Rightarrow> json \<Rightarrow> bool" where
  "number_lexeme n v =
     (case v of
        Number_unsigned u \<Rightarrow> int_part n \<and> unat u = digits_value n
      | Number_integer i \<Rightarrow> (\<exists>ds. n = 0x2D # ds \<and> int_part ds \<and> sint i = - int (digits_value ds))
      | Number_float x \<Rightarrow> (\<exists>sg i f e. number_parts sg i f e \<and> n = sg @ i @ f @ e \<and> x = c_strtod n \<and> c_isfinite x
           \<and> (f \<noteq> [] \<or> e \<noteq> [] \<or> 2 ^ 63 + (if sg = [] then 2 ^ 63 else 1) \<le> digits_value i))
      | _ \<Rightarrow> False)"

definition lexeme :: "bytes \<Rightarrow> token \<Rightarrow> bool" where
  "lexeme n t =
     (case t of
        Punct k \<Rightarrow> (k, n) \<in> {(begin_array, str_bytes ''[''), (end_array, str_bytes '']''), (begin_object, str_bytes ''{''),
           (end_object, str_bytes ''}''), (name_separator, str_bytes '':''), (value_separator, str_bytes '','')}
      | Scalar Null \<Rightarrow> n = str_bytes ''null''
      | Scalar (Boolean b) \<Rightarrow> n = str_bytes (if b then ''true'' else ''false'')
      | Scalar (String s) \<Rightarrow> (\<exists>body cps. string_body body cps \<and> n = 0x22 # body @ [0x22] \<and> s = utf8_text cps)
      | Scalar v \<Rightarrow> number_lexeme n v)"

lemma skip_whitespace_text:
  "lx_current (skip_whitespace s) \<noteq> -1 \<Longrightarrow>
   \<exists>w b. lx_input s = w @ b # lx_input (skip_whitespace s) \<and> ws_text w \<and> lx_current (skip_whitespace s) = uint b"
proof (induction s rule: skip_whitespace.induct)
  case (1 s)
  show ?case
  proof (cases "lx_input s")
    case Nil
    then have "lx_current (lex_get s) = -1" by (simp add: lex_get_current)
    then show ?thesis using 1(2) by (simp add: skip_whitespace.simps [of s] Let_def is_ws_def)
  next
    case (Cons b bs)
    show ?thesis
    proof (cases "is_ws (uint b)")
      case True
      then have e: "skip_whitespace s = skip_whitespace (lex_get s)" "lx_input (lex_get s) = bs"
        using Cons get_Cons [OF Cons] by (simp_all add: skip_whitespace.simps [of s] Let_def)
      then obtain w c where w: "bs = w @ c # lx_input (skip_whitespace s)" "ws_text w" "lx_current (skip_whitespace s) = uint c"
        using 1 True get_Cons [OF Cons] by auto
      have "b \<in> {0x20, 0x09, 0x0A, 0x0D}" using True by (auto simp: is_ws_def word_uint_eq_iff)
      then have "ws_text (b # w)" using w(2) by (simp add: ws_text_def)
      then show ?thesis using Cons w by (metis append_Cons)
    next
      case False
      then have "skip_whitespace s = lex_get s" using get_Cons [OF Cons] by (simp add: skip_whitespace.simps [of s] Let_def)
      then show ?thesis using Cons get_Cons [OF Cons] by (intro exI [of _ "[]"]) (auto simp: ws_text_def)
    qed
  qed
qed

lemma literal_loop_text:
  assumes "literal_loop (map uint bs) t s = (u, s')" and "u \<noteq> parse_error"
  shows "lx_input s = bs @ lx_input s'"
  using assms
proof (induction bs arbitrary: s)
  case (Cons b bs)
  have c: "lx_current (lex_get s) = uint b" "literal_loop (map uint bs) t (lex_get s) = (u, s')"
    using Cons.prems by (auto simp: Let_def lex_fail_def split: if_splits)
  have "lx_input s = b # lx_input (lex_get s)"
    using c(1) uint_ge_0 [of b] by (cases "lx_input s") (auto simp: lex_get_current lex_get_input word_uint_eq_iff)
  then show ?case using Cons.IH [OF c(2) Cons.prems(2)] by simp
qed simp

lemma done_float:
  "scan_number_done nt s = (value_float, s') \<Longrightarrow> lx_value_float s' = c_strtod (lx_token_buffer s')"
  by (auto simp: scan_number_done_def Let_def split: if_splits prod.splits)

text \<open>The value a number token carries.\<close>

definition number_of :: "token_type \<Rightarrow> lexer \<Rightarrow> json" where
  "number_of t s =
     (if t = value_unsigned then Number_unsigned (lx_value_unsigned s)
      else if t = value_integer then Number_integer (lx_value_integer s) else Number_float (lx_value_float s))"

lemma scan_number_lexeme:
  assumes "scan_number s = (t, s')" and "t \<noteq> parse_error" and "lx_current s = uint b" and "b = 0x2D \<or> is_digit b"
    and "t = value_float \<Longrightarrow> c_isfinite (lx_value_float s')"
  shows "\<exists>n. b # lx_input s = n @ lx_input s' \<and> number_lexeme n (number_of t s')"
proof -
  obtain sg i f e s1 where n: "number_parts sg i f e" and a: "accepts (number_type (if sg = [] then value_unsigned else value_integer) f e)
      (first_unread b s) (sg @ i @ f @ e) s1 (t, s')"
    using number_inversion [OF assms(3,4)] assms(1,2) by auto
  have t: "t = number_token sg i f e" using accepts_token [OF a n] by simp
  have d: "scan_number_done (number_type (if sg = [] then value_unsigned else value_integer) f e) (lex_get s1) = (t, s')"
    using a by (simp add: accepts_def)
  note buf = accepts_frame [OF a]
  have sg: "sg = [] \<or> sg = [0x2D]" "int_part i" using n by (auto simp: number_parts_def)
  consider "t = value_unsigned" | "t = value_integer" | "t = value_float"
    using t by (auto simp: number_token_def split: if_splits)
  then have "number_lexeme (sg @ i @ f @ e) (number_of t s')"
  proof cases
    case 1
    then have "sg = []" "f = []" "e = []" using t by (auto simp: number_token_def split: if_splits)
    then show ?thesis using 1 sg done_unsigned [of _ "lex_get s1" s'] d buf(2) by (simp add: number_lexeme_def number_of_def)
  next
    case 2
    then have e: "sg = [0x2D]" "f = []" "e = []" using t sg(1) by (auto simp: number_token_def split: if_splits)
    then show ?thesis using 2 sg done_integer [of _ "lex_get s1" s' i] d buf(2) by (simp add: number_lexeme_def number_of_def)
  next
    case 3
    then have "f \<noteq> [] \<or> e \<noteq> [] \<or> 2 ^ 63 + (if sg = [] then 2 ^ 63 else 1) \<le> digits_value i"
      using t by (auto simp: number_token_def split: if_splits)
    moreover have "lx_value_float s' = c_strtod (sg @ i @ f @ e)" using done_float [OF d [unfolded 3]] buf(2) by simp
    moreover have "c_isfinite (lx_value_float s')" using assms(5) 3 by blast
    moreover have "number_of t s' = Number_float (lx_value_float s')" using 3 by (simp add: number_of_def)
    ultimately show ?thesis using n unfolding number_lexeme_def by (simp only: json.case) metis
  qed
  then show ?thesis using buf(1) by auto
qed

lemma lex_scan_cases_text:
  assumes "lex_scan s = (t, s')" and "t \<noteq> parse_error" and "t \<noteq> end_of_input"
  obtains (num) "lx_current (skip_whitespace s) = 0x2D \<or> digit (lx_current (skip_whitespace s))" "scan_number (skip_whitespace s) = (t, s')"
    | (str) "lx_current (skip_whitespace s) = 0x22" "scan_string (skip_whitespace s) = (t, s')"
    | (lit) l u where "lx_current (skip_whitespace s) = uint (hd l)" "scan_literal l u (skip_whitespace s) = (t, s')"
        "(u, l) \<in> {(literal_true, str_bytes ''true''), (literal_false, str_bytes ''false''), (literal_null, str_bytes ''null'')}"
    | (punct) "s' = skip_whitespace s"
        "(t, [word_of_int (lx_current (skip_whitespace s))]) \<in> {(begin_array, str_bytes ''[''), (end_array, str_bytes '']''),
           (begin_object, str_bytes ''{''), (end_object, str_bytes ''}''), (name_separator, str_bytes '':''), (value_separator, str_bytes '','')}"
proof -
  have hds: "uint (hd (str_bytes ''true'')) = 0x74" "uint (hd (str_bytes ''false'')) = 0x66" "uint (hd (str_bytes ''null'')) = 0x6E"
    by (simp_all add: str_bytes_def)
  let ?c = "lx_current (skip_whitespace s)"
  consider "?c \<in> {0x5B, 0x5D, 0x7B, 0x7D, 0x3A, 0x2C}" | "?c = 0x74" | "?c = 0x66" | "?c = 0x6E" | "?c = 0x22"
    | "?c = 0x2D \<or> digit ?c" | "?c \<notin> {0x5B, 0x5D, 0x7B, 0x7D, 0x3A, 0x2C, 0x74, 0x66, 0x6E, 0x22, 0x2D}" "\<not> digit ?c"
    by blast
  then show thesis
  proof cases
    case 1
    then show thesis using assms(1) by (intro punct) (auto simp: lex_scan_def Let_def str_bytes_def)
  next
    case 2
    then show thesis using assms(1) hds by (intro lit [of "str_bytes ''true''" literal_true]) (simp_all add: lex_scan_def Let_def)
  next
    case 3
    then show thesis using assms(1) hds by (intro lit [of "str_bytes ''false''" literal_false]) (simp_all add: lex_scan_def Let_def)
  next
    case 4
    then show thesis using assms(1) hds by (intro lit [of "str_bytes ''null''" literal_null]) (simp_all add: lex_scan_def Let_def)
  next
    case 5
    then show thesis using assms(1) by (intro str) (simp_all add: lex_scan_def Let_def)
  next
    case 6
    then show thesis using assms(1) by (intro num) (auto simp: lex_scan_def Let_def digit_def)
  next
    case 7
    then show thesis using assms by (auto simp: lex_scan_def Let_def lex_fail_def split: if_splits)
  qed
qed

lemma lex_scan_lexeme:
  assumes "lex_scan s = (t, s')" and "token_of (p\<lparr>last_token := t, m_lexer := s'\<rparr>) = Some k"
  shows "\<exists>w n. lx_input s = w @ n @ lx_input s' \<and> ws_text w \<and> lexeme n k"
proof -
  let ?s = "skip_whitespace s" and ?c = "lx_current (skip_whitespace s)"
  have t: "t \<noteq> parse_error" "t \<noteq> end_of_input" using assms(2) by (auto simp: token_of_def)
  have "?c \<noteq> -1" using assms(1) t by (auto simp: lex_scan_def Let_def digit_def)
  then obtain w b where w: "lx_input s = w @ b # lx_input ?s" "ws_text w" "?c = uint b"
    using skip_whitespace_text by blast
  have "\<exists>n. b # lx_input ?s = n @ lx_input s' \<and> lexeme n k"
  proof -
    have eq: "b = word_of_int ?c" using w(3) by simp
    consider (num) "?c = 0x2D \<or> digit ?c" "scan_number ?s = (t, s')"
      | (str) "?c = 0x22" "scan_string ?s = (t, s')"
      | (lit) l u where "?c = uint (hd l)" "scan_literal l u ?s = (t, s')"
          "(u, l) \<in> {(literal_true, str_bytes ''true''), (literal_false, str_bytes ''false''), (literal_null, str_bytes ''null'')}"
      | (punct) "s' = ?s" "(t, [word_of_int ?c]) \<in> {(begin_array, str_bytes ''[''), (end_array, str_bytes '']''), (begin_object, str_bytes ''{''),
           (end_object, str_bytes ''}''), (name_separator, str_bytes '':''), (value_separator, str_bytes '','')}"
      by (rule lex_scan_cases_text [OF assms(1) t])
    then show ?thesis
    proof cases
      case num
      have f: "t = value_float \<Longrightarrow> c_isfinite (lx_value_float s')" using assms(2) by (auto simp: token_of_def split: if_splits)
      have b: "b = 0x2D \<or> is_digit b" using num(1) digit_uint [of b] unfolding w(3) by (auto simp: word_uint_eq_iff)
      have "t \<in> {value_unsigned, value_integer, value_float}" using scan_number_result [OF num(2,1)] t(1) by auto
      then have "k = Scalar (number_of t s')" "k \<noteq> Scalar Null"
        using assms(2) by (auto simp: token_of_def number_of_def split: if_splits)
      moreover obtain n where "b # lx_input ?s = n @ lx_input s'" "number_lexeme n (number_of t s')"
        using scan_number_lexeme [OF num(2) t(1) w(3) b f] by blast
      ultimately show ?thesis by (intro exI [of _ n]) (auto simp: lexeme_def number_of_def)
    next
      case str
      have b: "b = 0x22" using eq str(1) by simp
      have "t = value_string" using scan_string_result [OF str(2)] t(1) by blast
      then have k: "k = Scalar (String (lx_token_buffer s'))" "scan_string_loop (lex_reset ?s) = (value_string, s')"
        using assms(2) str(2) by (auto simp: token_of_def scan_string_def)
      obtain body cps where "string_body body cps" "lx_input ?s = body @ 0x22 # lx_input s'" "lx_token_buffer s' = utf8_text cps"
        using loop_body_inversion [OF k(2)] by auto
      then show ?thesis using b k(1) by (intro exI [of _ "0x22 # body @ [0x22]"]) (auto simp: lexeme_def)
    next
      case lit
      have "t = u" using literal_loop_result [OF lit(2) [unfolded scan_literal_def]] t(1) by blast
      then have "lexeme l k" using assms(2) lit(3) by (auto simp: token_of_def lexeme_def)
      moreover have "b = hd l" using w(3) lit(1) by (simp add: word_uint_eq_iff)
      moreover have "l \<noteq> []" using lit(3) by (auto simp: str_bytes_def)
      moreover have "lx_input ?s = tl l @ lx_input s'"
        using literal_loop_text [OF lit(2) [unfolded scan_literal_def] t(1)] .
      ultimately show ?thesis by (intro exI [of _ l]) (cases l; simp)
    next
      case punct
      then have "k = Punct t" using assms(2) by (auto simp: token_of_def)
      moreover have "[word_of_int ?c] = [b]" using eq by simp
      ultimately show ?thesis using punct by (intro exI [of _ "[b]"]) (simp add: lexeme_def)
    qed
  qed
  then show ?thesis using w(1,2) by auto
qed

lemma scans_lexemes:
  "scans p ts p' \<Longrightarrow> \<exists>ls. lx_input (m_lexer p) = concat (map (\<lambda>(w, n, t). w @ n) ls) @ lx_input (m_lexer p')
     \<and> map (\<lambda>(w, n, t). t) ls = ts \<and> (\<forall>(w, n, t) \<in> set ls. ws_text w \<and> lexeme n t)"
proof (induction p ts p' rule: scans.induct)
  case (2 p t ts p')
  obtain k s' where l: "lex_scan (m_lexer p) = (k, s')" by force
  then have g: "get_token p = p\<lparr>last_token := k, m_lexer := s'\<rparr>" by (simp add: get_token_def)
  then obtain w n where w: "lx_input (m_lexer p) = w @ n @ lx_input s'" "ws_text w" "lexeme n t"
    using lex_scan_lexeme [OF l, of p t] 2(2) by auto
  obtain ls where "lx_input s' = concat (map (\<lambda>(w, n, t). w @ n) ls) @ lx_input (m_lexer p')"
      "map (\<lambda>(w, n, t). t) ls = ts" "\<forall>(w, n, t) \<in> set ls. ws_text w \<and> lexeme n t"
    using 2 g by auto
  then show ?case using w by (intro exI [of _ "(w, n, t) # ls"]) auto
qed auto

text \<open>
  C16: Every value read from a stream is well formed, and each of its parts is what the text says. The
  entries of each object are in the order of their keys and no key is there twice, strings and keys are
  valid UTF-8, floating-point numbers are finite, and no discarded value is left in it. The bytes read
  (behind a byte order mark) are exactly a sequence of tokens with white space before them, which derive
  the value by the grammar, and each token has its RFC 8259 text: an unsigned number is a digit
  sequence of that value, a signed one a minus sign and the digits of its magnitude, a floating-point
  one has a fraction or an exponent or exceeds the 64-bit type; a string is the text between its quotes.
\<close>

theorem parsed_value_type:
  assumes "stream_in i = Some (Inr (v, r))"
  shows "json_ok v \<and>
    (\<exists>ls. input_stream_adapter i = concat (map (\<lambda>(w, n, t). w @ n) ls) @ r
        \<and> (\<forall>(w, n, t) \<in> set ls. ws_text w \<and> lexeme n t) \<and> value_tokens (map (\<lambda>(w, n, t). t) ls) v)"
proof -
  obtain p where "parse_internal (parse_fuel (input_stream_adapter i)) (get_token (parser_new (input_stream_adapter i))) = Some (Inr (v, p))"
      and r: "r = lx_input (m_lexer p)"
    using assms by (auto simp: stream_in_def parser_parse_def bind_p_Inr)
  then obtain ts where ts: "value_tokens ts v" "scans (parser_new (input_stream_adapter i)) ts p"
    using parse_sound [of "parse_fuel (input_stream_adapter i)"] by blast
  moreover have "lx_input (m_lexer (parser_new (input_stream_adapter i))) = input_stream_adapter i"
    by (simp add: parser_new_def lexer_new_def)
  ultimately show ?thesis using scans_ok value_tokens_ok(1) scans_lexemes [OF ts(2)] r by auto
qed

theorem parsed_value_type_witness:
  "json_ok (Object [(str_bytes ''a'', Null), (str_bytes ''b'', Array [Number_integer (- 1)])]) \<and>
   (\<exists>ls. str_bytes ''{\"b\":[-1],\"a\":null,\"b\":0}'' = concat (map (\<lambda>(w, n, t). w @ n) ls)
        \<and> (\<forall>(w, n, t) \<in> set ls. ws_text w \<and> lexeme n t)
        \<and> value_tokens (map (\<lambda>(w, n, t). t) ls)
            (Object [(str_bytes ''a'', Null), (str_bytes ''b'', Array [Number_integer (- 1)])]))"
proof -
  have "stream_in (str_bytes ''{\"b\":[-1],\"a\":null,\"b\":0} '') =
     Some (Inr (Object [(str_bytes ''a'', Null), (str_bytes ''b'', Array [Number_integer (- 1)])], str_bytes '' ''))" by code_simp
  from parsed_value_type [OF this] show ?thesis by (auto simp: input_stream_adapter_def str_bytes_def)
qed

section \<open>The acceptor agrees\<close>

definition agrees :: "(json \<times> parser) pres \<Rightarrow> (bool \<times> parser) option \<Rightarrow> bool" where
  "agrees r a =
     (case r of
        None \<Rightarrow> a = None
      | Some (Inr (v, p)) \<Rightarrow> a = Some (True, p)
      | Some (Inl e) \<Rightarrow> (\<exists>q. a = Some (False, q)))"

lemma agrees_simps [simp]:
  "agrees None a \<longleftrightarrow> a = None" "agrees (Some (Inr (v, p))) a \<longleftrightarrow> a = Some (True, p)" "agrees (Some (Inl e)) a \<longleftrightarrow> (\<exists>q. a = Some (False, q))"
  by (simp_all add: agrees_def)

lemma agrees_cases:
  assumes "agrees r a"
  obtains "r = None" "a = None" | v p where "r = Some (Inr (v, p))" "a = Some (True, p)" | e q where "r = Some (Inl e)" "a = Some (False, q)"
  using assms by (auto simp: agrees_def split: option.splits sum.splits)

lemma accept_agrees:
  "(\<forall>p. agrees (parse_internal n (get_token p)) (accept_internal n (get_token p))) \<and>
   (\<forall>m p. agrees (parse_members n m (get_token p)) (accept_members n (get_token p))) \<and>
   (\<forall>xs p. agrees (parse_elements n xs (get_token p)) (accept_elements n (get_token p)))"
  (is "?V n \<and> ?M n \<and> ?E n")
proof (induction n)
  case (Suc n)
  have "?V (Suc n)"
  proof
    fix p
    show "agrees (parse_internal (Suc n) (get_token p)) (accept_internal (Suc n) (get_token p))"
      using Suc by (cases "last_token (get_token p)") (auto simp: Let_def expect_def)
  qed
  moreover have "?M (Suc n)"
  proof (intro allI)
    fix m p
    have "agrees (parse_internal n (get_token (get_token (get_token p)))) (accept_internal n (get_token (get_token (get_token p))))"
      using Suc by blast
    then show "agrees (parse_members (Suc n) m (get_token p)) (accept_members (Suc n) (get_token p))"
      by (cases rule: agrees_cases) (use Suc in \<open>auto simp: Let_def expect_def\<close>)
  qed
  moreover have "?E (Suc n)"
  proof (intro allI)
    fix xs p
    have "agrees (parse_internal n (get_token p)) (accept_internal n (get_token p))" using Suc by blast
    then show "agrees (parse_elements (Suc n) xs (get_token p)) (accept_elements (Suc n) (get_token p))"
      by (cases rule: agrees_cases) (use Suc in \<open>auto simp: Let_def expect_def\<close>)
  qed
  ultimately show ?case by blast
qed simp

text \<open>The acceptor says yes precisely to what the parser parses, strict or not.\<close>

lemma accept_iff_parse: "parser_accept strict input = Some True \<longleftrightarrow> (\<exists>v p. parser_parse strict input = Some (Inr (v, p)))"
proof -
  have "agrees (parse_internal (parse_fuel input) (get_token (parser_new input))) (accept_internal (parse_fuel input) (get_token (parser_new input)))"
    using accept_agrees by blast
  then show ?thesis by (cases rule: agrees_cases) (auto simp: parser_accept_def parser_parse_def Let_def expect_def)
qed

text \<open>
  C17: Reading a configuration always ends: on every input the parser returns a value or throws; the
  recursion is never deeper than the fuel, which grows with the input.
\<close>

theorem parser_terminates:
  "\<exists>r. stream_in i = Some r \<and> parser_parse strict input \<noteq> None \<and> parser_accept strict input \<noteq> None"
proof -
  have "agrees (parse_internal (parse_fuel input) (get_token (parser_new input))) (accept_internal (parse_fuel input) (get_token (parser_new input)))"
    using accept_agrees by blast
  then have "parser_parse strict input \<noteq> None \<and> parser_accept strict input \<noteq> None" using parse_fuel_enough(2) [of input]
    by (cases rule: agrees_cases) (auto simp: parser_parse_def parser_accept_def Let_def expect_def)
  then show ?thesis using stream_in_total by blast
qed

end
