(* ===== verification/Json_Dump.thy ===== *)
theory Json_Dump
  imports Json_Parser
begin

text \<open>
  The serializer (\<open>json/nlohmann_json.hpp\<close>, class \<open>serializer\<close>): the text of a value, compact or indented. The
  buffers of the class have their sizes, and a write or a read outside one is a fault. The conversion of
  floating-point numbers (\<open>dump_float\<close>) is an argument.
\<close>

section \<open>UTF-8 decoding\<close>

definition utf8d :: "nat list" where
  "utf8d =
     [0, 0, 0, 0, 0, 0, 0, 0, 0, 0, 0, 0, 0, 0, 0, 0, 0, 0, 0, 0, 0, 0, 0, 0, 0, 0, 0, 0, 0, 0, 0, 0,
      0, 0, 0, 0, 0, 0, 0, 0, 0, 0, 0, 0, 0, 0, 0, 0, 0, 0, 0, 0, 0, 0, 0, 0, 0, 0, 0, 0, 0, 0, 0, 0,
      0, 0, 0, 0, 0, 0, 0, 0, 0, 0, 0, 0, 0, 0, 0, 0, 0, 0, 0, 0, 0, 0, 0, 0, 0, 0, 0, 0, 0, 0, 0, 0,
      0, 0, 0, 0, 0, 0, 0, 0, 0, 0, 0, 0, 0, 0, 0, 0, 0, 0, 0, 0, 0, 0, 0, 0, 0, 0, 0, 0, 0, 0, 0, 0,
      1, 1, 1, 1, 1, 1, 1, 1, 1, 1, 1, 1, 1, 1, 1, 1, 9, 9, 9, 9, 9, 9, 9, 9, 9, 9, 9, 9, 9, 9, 9, 9,
      7, 7, 7, 7, 7, 7, 7, 7, 7, 7, 7, 7, 7, 7, 7, 7, 7, 7, 7, 7, 7, 7, 7, 7, 7, 7, 7, 7, 7, 7, 7, 7,
      8, 8, 2, 2, 2, 2, 2, 2, 2, 2, 2, 2, 2, 2, 2, 2, 2, 2, 2, 2, 2, 2, 2, 2, 2, 2, 2, 2, 2, 2, 2, 2,
      10, 3, 3, 3, 3, 3, 3, 3, 3, 3, 3, 3, 3, 4, 3, 3,
      11, 6, 6, 6, 5, 8, 8, 8, 8, 8, 8, 8, 8, 8, 8, 8,
      0, 1, 2, 3, 5, 8, 7, 1, 1, 1, 4, 6, 1, 1, 1, 1,
      1, 1, 1, 1, 1, 1, 1, 1, 1, 1, 1, 1, 1, 1, 1, 1, 1, 0, 1, 1, 1, 1, 1, 0, 1, 0, 1, 1, 1, 1, 1, 1,
      1, 2, 1, 1, 1, 1, 1, 2, 1, 2, 1, 1, 1, 1, 1, 1, 1, 1, 1, 1, 1, 1, 1, 2, 1, 1, 1, 1, 1, 1, 1, 1,
      1, 2, 1, 1, 1, 1, 1, 1, 1, 2, 1, 1, 1, 1, 1, 1, 1, 1, 1, 1, 1, 1, 1, 3, 1, 3, 1, 1, 1, 1, 1, 1,
      1, 3, 1, 1, 1, 1, 1, 3, 1, 3, 1, 1, 1, 1, 1, 1, 1, 3, 1, 1, 1, 1, 1, 1, 1, 1, 1, 1, 1, 1, 1, 1]"

text \<open>\<open>decode\<close>: the new state and codepoint. State 0 accepts, state 1 rejects.\<close>

definition decode :: "nat \<Rightarrow> u32 \<Rightarrow> u8 \<Rightarrow> nat \<times> u32" where
  "decode state codep byte =
     (let type = utf8d ! unat byte;
          codep = (if state \<noteq> 0 then (ucast byte AND 0x3F) OR push_bit 6 codep else drop_bit type 0xFF AND ucast byte);
          state = utf8d ! (256 + state * 16 + type) in
      (state, codep))"

section \<open>Output\<close>

datatype dump_fault = Thrown json_exception | Undefined fault

type_synonym 'a dres = "dump_fault + 'a"

definition bind_d :: "'a dres \<Rightarrow> ('a \<Rightarrow> 'b dres) \<Rightarrow> 'b dres" where
  "bind_d r f = (case r of Inl e \<Rightarrow> Inl e | Inr x \<Rightarrow> f x)"

record serializer =
  ser_o :: bytes
  ser_indent_string :: bytes

definition serializer_new :: "u8 \<Rightarrow> serializer" where
  "serializer_new ichar = \<lparr>ser_o = [], ser_indent_string = replicate 512 ichar\<rparr>"

definition write_characters :: "bytes \<Rightarrow> serializer \<Rightarrow> serializer" where
  "write_characters bs s = s\<lparr>ser_o := ser_o s @ bs\<rparr>"

text \<open>The first bytes of the indentation string. The byte behind its end is the terminator.\<close>

definition write_indent :: "u32 \<Rightarrow> serializer \<Rightarrow> serializer dres" where
  "write_indent n s =
     (if unat n \<le> length (ser_indent_string s) + 1
      then Inr (write_characters (take (unat n) (ser_indent_string s @ [0])) s)
      else Inl (Undefined OutOfRange))"

definition grow_indent :: "u32 \<Rightarrow> serializer \<Rightarrow> serializer" where
  "grow_indent new_indent s =
     (if length (ser_indent_string s) < unat new_indent
      then s\<lparr>ser_indent_string := ser_indent_string s @ replicate (length (ser_indent_string s)) 0x20\<rparr>
      else s)"

section \<open>Strings\<close>

definition hex_lower :: "nat \<Rightarrow> u8" where
  "hex_lower n = (if n < 10 then of_nat (0x30 + n) else of_nat (0x57 + n))"

text \<open>\<open>%04x\<close> of a 16-bit number, after a backslash and a \<open>u\<close>.\<close>

definition unicode_text :: "u16 \<Rightarrow> bytes" where
  "unicode_text w =
     (let n = unat w in
      [0x5C, 0x75, hex_lower (n div 0x1000), hex_lower (n div 0x100 mod 0x10), hex_lower (n div 0x10 mod 0x10), hex_lower (n mod 0x10)])"

text \<open>Writing into the string buffer of 512 bytes; \<open>snprintf\<close> writes a terminator too.\<close>

definition buffer_put :: "bytes \<Rightarrow> nat \<Rightarrow> bytes \<Rightarrow> bytes dres" where
  "buffer_put bs extra buf = (if length buf + length bs + extra \<le> 512 then Inr (buf @ bs) else Inl (Undefined OutOfRange))"

definition put_codepoint :: "bool \<Rightarrow> u32 \<Rightarrow> u8 \<Rightarrow> bytes \<Rightarrow> bytes dres" where
  "put_codepoint ensure_ascii codepoint c buf =
     (if codepoint = 0x08 then buffer_put [0x5C, 0x62] 0 buf
      else if codepoint = 0x09 then buffer_put [0x5C, 0x74] 0 buf
      else if codepoint = 0x0A then buffer_put [0x5C, 0x6E] 0 buf
      else if codepoint = 0x0C then buffer_put [0x5C, 0x66] 0 buf
      else if codepoint = 0x0D then buffer_put [0x5C, 0x72] 0 buf
      else if codepoint = 0x22 then buffer_put [0x5C, 0x22] 0 buf
      else if codepoint = 0x5C then buffer_put [0x5C, 0x5C] 0 buf
      else if codepoint \<le> 0x1F \<or> ensure_ascii \<and> 0x7F \<le> codepoint then
        if codepoint \<le> 0xFFFF then buffer_put (unicode_text (ucast codepoint)) 1 buf
        else buffer_put (unicode_text (ucast (0xD7C0 + drop_bit 10 codepoint)) @ unicode_text (ucast (0xDC00 + (codepoint AND 0x3FF)))) 1 buf
      else buffer_put [c] 0 buf)"

text \<open>The two upper-case hexadecimal digits of a byte in the messages.\<close>

definition hex_byte :: "u8 \<Rightarrow> bytes" where
  "hex_byte b = [hex_upper (unat b div 16), hex_upper (unat b mod 16)]"

fun escape_loop :: "bool \<Rightarrow> nat \<Rightarrow> bytes \<Rightarrow> nat \<Rightarrow> u32 \<Rightarrow> bytes \<Rightarrow> serializer \<Rightarrow> (nat \<times> bytes \<times> serializer) dres" where
  "escape_loop ensure_ascii i [] state codepoint buf s = Inr (state, buf, s)"
| "escape_loop ensure_ascii i (byte # bytes) state codepoint buf s =
     (let (state, codepoint) = decode state codepoint byte in
      if state = 0 then
        bind_d (put_codepoint ensure_ascii codepoint byte buf) (\<lambda>buf.
          if 512 - length buf < 13
          then escape_loop ensure_ascii (Suc i) bytes state codepoint [] (write_characters buf s)
          else escape_loop ensure_ascii (Suc i) bytes state codepoint buf s)
      else if state = 1 then
        Inl (Thrown (type_error_create 316
          (str_bytes ''invalid UTF-8 byte at index '' @ dec_text i @ str_bytes '': 0x'' @ hex_byte byte)))
      else if \<not> ensure_ascii then
        bind_d (buffer_put [byte] 0 buf) (\<lambda>buf. escape_loop ensure_ascii (Suc i) bytes state codepoint buf s)
      else escape_loop ensure_ascii (Suc i) bytes state codepoint buf s)"

definition dump_escaped :: "bool \<Rightarrow> bytes \<Rightarrow> serializer \<Rightarrow> serializer dres" where
  "dump_escaped ensure_ascii str s =
     bind_d (escape_loop ensure_ascii 0 str 0 0 [] s) (\<lambda>(state, buf, s).
       if state = 0 then Inr (if 0 < length buf then write_characters buf s else s)
       else Inl (Thrown (type_error_create 316 (str_bytes ''incomplete UTF-8 string; last byte: 0x'' @ hex_byte (last str)))))"

section \<open>Integers\<close>

text \<open>
  The digits of an integer, the lowest first, into the number buffer of 64 bytes, of which the assertions keep
  one for the terminator and one for the sign; remainder and quotient round towards zero, so the digit is the remainder of the absolute value.
\<close>

function integer_digits :: "int \<Rightarrow> bytes \<Rightarrow> bytes dres" where
  "integer_digits x buf =
     (if x = 0 then Inr buf
      else if length buf < 63 then
        integer_digits (sgn x * (\<bar>x\<bar> div 10)) (buf @ [of_nat (0x30 + nat (\<bar>x\<bar> mod 10))])
      else Inl (Undefined OutOfRange))"
  by pat_completeness auto
termination
  by (relation "measure (\<lambda>(x, buf). nat \<bar>x\<bar>)") (auto simp: abs_mult sgn_if)

declare integer_digits.simps [simp del]

definition dump_integer :: "int \<Rightarrow> serializer \<Rightarrow> serializer dres" where
  "dump_integer x s =
     (if x = 0 then Inr (write_characters [0x30] s)
      else
        bind_d (integer_digits x []) (\<lambda>buf.
          bind_d (if x < 0 then if length buf < 62 then Inr (buf @ [0x2D]) else Inl (Undefined OutOfRange) else Inr buf) (\<lambda>buf.
            Inr (write_characters (rev buf) s))))"

section \<open>Values\<close>

fun dump :: "(rat \<Rightarrow> bytes) \<Rightarrow> bool \<Rightarrow> bool \<Rightarrow> u32 \<Rightarrow> u32 \<Rightarrow> json \<Rightarrow> serializer \<Rightarrow> serializer dres"
and dump_members :: "(rat \<Rightarrow> bytes) \<Rightarrow> bool \<Rightarrow> bool \<Rightarrow> u32 \<Rightarrow> u32 \<Rightarrow> (bytes \<times> json) list \<Rightarrow> serializer \<Rightarrow> serializer dres"
and dump_elements :: "(rat \<Rightarrow> bytes) \<Rightarrow> bool \<Rightarrow> bool \<Rightarrow> u32 \<Rightarrow> u32 \<Rightarrow> json list \<Rightarrow> serializer \<Rightarrow> serializer dres"
where
  "dump fl pretty ascii step cur (Object m) s =
     (if m = [] then Inr (write_characters [0x7B, 0x7D] s)
      else if pretty then
        let s = write_characters [0x7B, 0x0A] s; new_indent = cur + step; s = grow_indent new_indent s in
        bind_d (dump_members fl pretty ascii step new_indent m s) (\<lambda>s.
          bind_d (write_indent cur (write_characters [0x0A] s)) (\<lambda>s. Inr (write_characters [0x7D] s)))
      else
        bind_d (dump_members fl pretty ascii step cur m (write_characters [0x7B] s)) (\<lambda>s. Inr (write_characters [0x7D] s)))"
| "dump fl pretty ascii step cur (Array xs) s =
     (if xs = [] then Inr (write_characters [0x5B, 0x5D] s)
      else if pretty then
        let s = write_characters [0x5B, 0x0A] s; new_indent = cur + step; s = grow_indent new_indent s in
        bind_d (dump_elements fl pretty ascii step new_indent xs s) (\<lambda>s.
          bind_d (write_indent cur (write_characters [0x0A] s)) (\<lambda>s. Inr (write_characters [0x5D] s)))
      else
        bind_d (dump_elements fl pretty ascii step cur xs (write_characters [0x5B] s)) (\<lambda>s. Inr (write_characters [0x5D] s)))"
| "dump fl pretty ascii step cur (String t) s =
     bind_d (dump_escaped ascii t (write_characters [0x22] s)) (\<lambda>s. Inr (write_characters [0x22] s))"
| "dump fl pretty ascii step cur (Boolean b) s = Inr (write_characters (if b then str_bytes ''true'' else str_bytes ''false'') s)"
| "dump fl pretty ascii step cur (Number_integer i) s = dump_integer (sint i) s"
| "dump fl pretty ascii step cur (Number_unsigned u) s = dump_integer (uint u) s"
| "dump fl pretty ascii step cur (Number_float x) s = Inr (write_characters (fl x) s)"
| "dump fl pretty ascii step cur Discarded s = Inr (write_characters (str_bytes ''<discarded>'') s)"
| "dump fl pretty ascii step cur Null s = Inr (write_characters (str_bytes ''null'') s)"
| "dump_members fl pretty ascii step ind [] s = Inr s"
| "dump_members fl pretty ascii step ind ((k, v) # m) s =
     bind_d (if pretty then write_indent ind s else Inr s) (\<lambda>s.
       bind_d (dump_escaped ascii k (write_characters [0x22] s)) (\<lambda>s.
         bind_d (dump fl pretty ascii step ind v (write_characters (if pretty then [0x22, 0x3A, 0x20] else [0x22, 0x3A]) s)) (\<lambda>s.
           if m = [] then Inr s
           else dump_members fl pretty ascii step ind m (write_characters (if pretty then [0x2C, 0x0A] else [0x2C]) s))))"
| "dump_elements fl pretty ascii step ind [] s = Inr s"
| "dump_elements fl pretty ascii step ind (x # xs) s =
     bind_d (if pretty then write_indent ind s else Inr s) (\<lambda>s.
       bind_d (dump fl pretty ascii step ind x s) (\<lambda>s.
         if xs = [] then Inr s
         else dump_elements fl pretty ascii step ind xs (write_characters (if pretty then [0x2C, 0x0A] else [0x2C]) s)))"

text \<open>The public \<open>dump\<close>: indented when \<open>indent\<close> is not negative.\<close>

definition json_dump :: "(rat \<Rightarrow> bytes) \<Rightarrow> int \<Rightarrow> u8 \<Rightarrow> bool \<Rightarrow> json \<Rightarrow> bytes dres" where
  "json_dump fl indent indent_char ensure_ascii v =
     bind_d (if 0 \<le> indent then dump fl True ensure_ascii (word_of_int indent) 0 v (serializer_new indent_char)
             else dump fl False ensure_ascii 0 0 v (serializer_new indent_char)) (\<lambda>s. Inr (ser_o s))"

end
