(* ===== verification/Json_Decode.thy ===== *)
theory Json_Decode
  imports Json_Dump
begin

text \<open>
  The decoder of the serializer, a table-driven automaton, against the encoding by division and
  remainder: the bytes of a Unicode scalar value lead it back to its start with the value decoded.
\<close>

section \<open>The decoder\<close>

definition decode_state :: "nat \<Rightarrow> nat \<Rightarrow> nat" where
  "decode_state state n = utf8d ! (256 + state * 16 + utf8d ! n)"

lemma decode_lead_table:
  "list_all (\<lambda>a. decode_state 0 a = 0 \<and> drop_bit (utf8d ! a) (0xFF :: u32) AND of_nat a = of_nat a) [0..<0x80]"
  "list_all (\<lambda>a. decode_state 0 (0xC0 + a) = 2 \<and> drop_bit (utf8d ! (0xC0 + a)) (0xFF :: u32) AND of_nat (0xC0 + a) = of_nat a) [2..<0x20]"
  "list_all (\<lambda>a. decode_state 0 (0xE0 + a) = (if a = 0 then 4 else if a = 13 then 5 else 3) \<and>
     drop_bit (utf8d ! (0xE0 + a)) (0xFF :: u32) AND of_nat (0xE0 + a) = of_nat a) [0..<0x10]"
  "list_all (\<lambda>a. decode_state 0 (0xF0 + a) = (if a = 0 then 6 else if a = 4 then 8 else 7) \<and>
     drop_bit (utf8d ! (0xF0 + a)) (0xFF :: u32) AND of_nat (0xF0 + a) = of_nat a) [0..<5]"
  by code_simp+

lemma decode_tail_table:
  "list_all (\<lambda>x. decode_state 2 (0x80 + x) = 0 \<and> decode_state 3 (0x80 + x) = 2 \<and> decode_state 7 (0x80 + x) = 3 \<and>
     (0x20 \<le> x \<longrightarrow> decode_state 4 (0x80 + x) = 2) \<and> (x < 0x20 \<longrightarrow> decode_state 5 (0x80 + x) = 2) \<and>
     (0x10 \<le> x \<longrightarrow> decode_state 6 (0x80 + x) = 3) \<and> (x < 0x10 \<longrightarrow> decode_state 8 (0x80 + x) = 3) \<and>
     of_nat (0x80 + x) AND (0x3F :: u32) = of_nat x) [0..<0x40]"
  by code_simp


lemma table_entry: "list_all P [m..<n] \<Longrightarrow> m \<le> a \<Longrightarrow> a < n \<Longrightarrow> P a"
  by (simp add: list_all_iff)

lemmas lead_entries = decode_lead_table [THEN table_entry]
lemmas tail_entry = decode_tail_table [THEN table_entry, OF le0]

lemma ucast_byte: "n < 256 \<Longrightarrow> ucast (of_nat n :: u8) = (of_nat n :: u32)"
  by (simp add: unsigned_of_nat take_bit_nat_eq_self)

lemma decode_lead:
  assumes "n < 256" and "drop_bit (utf8d ! n) (0xFF :: u32) AND of_nat n = of_nat a"
  shows "decode 0 c (of_nat n) = (decode_state 0 n, of_nat a)"
  using assms by (simp add: decode_def decode_state_def ucast_byte Let_def)

lemma or_push: "x < 0x40 \<Longrightarrow> (of_nat x :: u32) OR push_bit 6 c = 0x40 * c + of_nat x"
proof -
  assume x: "x < 0x40"
  have t: "(of_nat x :: u32) = take_bit 6 (of_nat x)"
    using x by (simp add: take_bit_of_nat take_bit_nat_eq_self)
  have "take_bit 6 (of_nat x :: u32) AND push_bit 6 c = 0" by (rule bit_eqI) (auto simp: bit_simps)
  then have "(of_nat x :: u32) AND push_bit 6 c = 0" using t by simp
  from disjunctive_add_eq_or [OF this, symmetric] show ?thesis by (simp only:) (simp add: push_bit_eq_mult)
qed

lemma decode_tail:
  assumes "x < 0x40" and "st \<noteq> 0"
  shows "decode st c (of_nat (0x80 + x)) = (decode_state st (0x80 + x), 0x40 * c + of_nat x)"
proof -
  have "(of_nat (0x80 + x) AND (0x3F :: u32)) = of_nat x" using tail_entry [OF assms(1)] by blast
  moreover have "unat (of_nat (0x80 + x) :: u8) = 0x80 + x" using assms(1) by (simp add: unat_of_nat_lt del: of_nat_add)
  moreover have "ucast (of_nat (0x80 + x) :: u8) = (of_nat (0x80 + x) :: u32)" using assms(1) by (intro ucast_byte) simp
  ultimately show ?thesis using assms or_push [OF assms(1), of c] unfolding decode_def decode_state_def Let_def by simp
qed

text \<open>The bytes of one codepoint: the states in between neither accept nor reject.\<close>

fun decode_path :: "nat \<Rightarrow> u32 \<Rightarrow> bytes \<Rightarrow> u32 option" where
  "decode_path st c [] = None"
| "decode_path st c (b # bs) =
     (let (st', c') = decode st c b in
      if bs = [] then if st' = 0 then Some c' else None
      else if st' = 0 \<or> st' = 1 then None else decode_path st' c' bs)"

lemma decode_path_tails:
  assumes "x < 0x40"
  shows "decode_path 2 c [of_nat (0x80 + x)] = Some (0x40 * c + of_nat x)"
    "decode_path 3 c (of_nat (0x80 + x) # b # bs) = decode_path 2 (0x40 * c + of_nat x) (b # bs)"
    "decode_path 7 c (of_nat (0x80 + x) # b # bs) = decode_path 3 (0x40 * c + of_nat x) (b # bs)"
    "0x20 \<le> x \<Longrightarrow> decode_path 4 c (of_nat (0x80 + x) # b # bs) = decode_path 2 (0x40 * c + of_nat x) (b # bs)"
    "x < 0x20 \<Longrightarrow> decode_path 5 c (of_nat (0x80 + x) # b # bs) = decode_path 2 (0x40 * c + of_nat x) (b # bs)"
    "0x10 \<le> x \<Longrightarrow> decode_path 6 c (of_nat (0x80 + x) # b # bs) = decode_path 3 (0x40 * c + of_nat x) (b # bs)"
    "x < 0x10 \<Longrightarrow> decode_path 8 c (of_nat (0x80 + x) # b # bs) = decode_path 3 (0x40 * c + of_nat x) (b # bs)"
  using tail_entry [OF assms] by (simp_all add: decode_tail [OF assms] del: of_nat_add)

lemma decode_path_lead:
  "2 \<le> a \<Longrightarrow> a < 0x20 \<Longrightarrow> decode_path 0 c (of_nat (0xC0 + a) # b # bs) = decode_path 2 (of_nat a) (b # bs)"
  "a < 0x10 \<Longrightarrow> decode_path 0 c (of_nat (0xE0 + a) # b # bs) = decode_path (if a = 0 then 4 else if a = 13 then 5 else 3) (of_nat a) (b # bs)"
  "a \<le> 4 \<Longrightarrow> decode_path 0 c (of_nat (0xF0 + a) # b # bs) = decode_path (if a = 0 then 6 else if a = 4 then 8 else 7) (of_nat a) (b # bs)"
  using lead_entries(2-4) [of a] decode_lead [of "0xC0 + a" a c] decode_lead [of "0xE0 + a" a c] decode_lead [of "0xF0 + a" a c]
  by (simp_all del: of_nat_add)

lemma decode_path_three:
  assumes "a < 0x10" and "b < 0x40" and "x < 0x40" and "a = 0 \<Longrightarrow> 0x20 \<le> b" and "a = 13 \<Longrightarrow> b < 0x20"
  shows "decode_path 0 c [of_nat (0xE0 + a), of_nat (0x80 + b), of_nat (0x80 + x)] = Some (of_nat (0x40 * (0x40 * a + b) + x))"
  using assms(4,5) unfolding decode_path_lead(2) [OF assms(1)]
  by (cases "a = 0"; cases "a = 13") (simp_all add: decode_path_tails [OF assms(2)] decode_path_tails [OF assms(3)] del: of_nat_add decode_path.simps, simp_all)

lemma decode_path_four:
  assumes "a \<le> 4" and "b < 0x40" and "x < 0x40" and "y < 0x40" and "a = 0 \<Longrightarrow> 0x10 \<le> b" and "a = 4 \<Longrightarrow> b < 0x10"
  shows "decode_path 0 c [of_nat (0xF0 + a), of_nat (0x80 + b), of_nat (0x80 + x), of_nat (0x80 + y)] =
    Some (of_nat (0x40 * (0x40 * (0x40 * a + b) + x) + y))"
  using assms(5,6) unfolding decode_path_lead(3) [OF assms(1)]
  by (cases "a = 0"; cases "a = 4") (simp_all add: decode_path_tails [OF assms(2)] decode_path_tails [OF assms(3)] decode_path_tails [OF assms(4)]
    del: of_nat_add decode_path.simps, simp_all)

lemma decode_path_utf8:
  assumes "scalar cp"
  shows "decode_path 0 c (utf8 cp) = Some (of_nat cp)"
proof -
  have q: "0x40 * (cp div 0x1000) + cp div 0x40 mod 0x40 = cp div 0x40" using div_mult2_eq [of cp "0x40" "0x40"] by simp
  have q3: "0x40 * (cp div 0x40000) + cp div 0x1000 mod 0x40 = cp div 0x1000" using div_mult2_eq [of cp "0x1000" "0x40"] by simp
  have q1: "0x40 * (cp div 0x40) + cp mod 0x40 = cp" by simp
  consider "cp < 0x80" | "0x80 \<le> cp" "cp < 0x800" | "0x800 \<le> cp" "cp < 0x10000" | "0x10000 \<le> cp" by linarith
  then show ?thesis
  proof cases
    case 1
    then have "decode 0 c (of_nat cp) = (0, of_nat cp)"
      using decode_lead [of cp cp c] lead_entries(1) [of cp] by simp
    then show ?thesis using 1 by (simp add: utf8_def utf8_nats_def)
  next
    case 2
    have a: "2 \<le> cp div 0x40" "cp div 0x40 < 0x20" using 2 by auto
    have "decode_path 0 c [of_nat (0xC0 + cp div 0x40), of_nat (0x80 + cp mod 0x40)] = Some (0x40 * of_nat (cp div 0x40) + of_nat (cp mod 0x40))"
      unfolding decode_path_lead(1) [OF a] by (rule decode_path_tails) simp
    also have "0x40 * of_nat (cp div 0x40) + of_nat (cp mod 0x40) = (of_nat (0x40 * (cp div 0x40) + cp mod 0x40) :: u32)"
      by (simp only: of_nat_add of_nat_mult of_nat_numeral)
    finally show ?thesis using 2 unfolding q1 by (simp add: utf8_def utf8_nats_def del: of_nat_add decode_path.simps)
  next
    case 3
    note p = three_parts [OF assms 3]
    show ?thesis using 3 decode_path_three [OF p(1) _ _ p(2,3), of "cp mod 0x40" c] unfolding q q1
      by (simp add: utf8_def utf8_nats_def del: of_nat_add decode_path.simps)
  next
    case 4
    note p = four_parts [OF assms 4]
    show ?thesis using 4 decode_path_four [OF p(1) _ _ _ p(2,3), of "cp div 0x40 mod 0x40" "cp mod 0x40" c] unfolding q3 q q1
      by (simp add: utf8_def utf8_nats_def del: of_nat_add decode_path.simps)
  qed
qed

end
