(* ===== verification/Json_Text.thy ===== *)
theory Json_Text
  imports Json_Decode
begin

text \<open>
  What the serializer writes is what the lexer and the parser read: the escaped text of a string, the
  digits of an integer, the layout of arrays and objects.
\<close>

section \<open>Escaped strings\<close>

lemma bind_d_simps [simp]: "bind_d (Inl e) f = Inl e" "bind_d (Inr x) f = f x"
  by (simp_all add: bind_d_def)

lemma bind_d_Inr: "bind_d r f = Inr y \<longleftrightarrow> (\<exists>x. r = Inr x \<and> f x = Inr y)"
  by (cases r) auto

lemma write_characters_simps [simp]:
  "ser_o (write_characters bs s) = ser_o s @ bs" "ser_indent_string (write_characters bs s) = ser_indent_string s"
  by (simp_all add: write_characters_def)

text \<open>The text that stands for a codepoint.\<close>

definition letter_escapes :: "(nat \<times> u8) list" where
  "letter_escapes = [(0x08, 0x62), (0x09, 0x74), (0x0A, 0x6E), (0x0C, 0x66), (0x0D, 0x72), (0x22, 0x22), (0x5C, 0x5C)]"

definition escape_text :: "bool \<Rightarrow> nat \<Rightarrow> bytes" where
  "escape_text ensure_ascii cp =
     (case map_of letter_escapes cp of
        Some l \<Rightarrow> [0x5C, l]
      | None \<Rightarrow>
          if cp \<le> 0x1F \<or> ensure_ascii \<and> 0x7F \<le> cp then
            if cp \<le> 0xFFFF then unicode_text (of_nat cp)
            else unicode_text (of_nat (0xD7C0 + cp div 0x400)) @ unicode_text (of_nat (0xDC00 + cp mod 0x400))
          else utf8 cp)"

lemma length_unicode_text [simp]: "length (unicode_text w) = 6"
  by (simp add: unicode_text_def Let_def)

lemma length_utf8: "length (utf8 cp) \<le> 4"
  by (simp add: utf8_def utf8_nats_def)

lemma utf8_nonempty [simp]: "utf8 cp \<noteq> []"
  by (simp add: utf8_def utf8_nats_def)

lemma codepoint_test:
  assumes "cp < 0x110000" and "n < 0x110000"
  shows "(of_nat cp :: u32) = of_nat n \<longleftrightarrow> cp = n" "(of_nat cp :: u32) \<le> of_nat n \<longleftrightarrow> cp \<le> n"
  using assms by (simp_all add: word_unat_eq_iff word_le_nat_alt)

lemma codepoint_parts:
  assumes "cp < 0x110000"
  shows "ucast (0xD7C0 + drop_bit 10 (of_nat cp :: u32)) = (of_nat (0xD7C0 + cp div 0x400) :: u16)"
    "ucast (0xDC00 + (of_nat cp AND 0x3FF :: u32)) = (of_nat (0xDC00 + cp mod 0x400) :: u16)"
    "ucast (of_nat cp :: u32) = (of_nat cp :: u16)"
proof -
  have u: "ucast (of_nat k :: u32) = (of_nat k :: u16)" if "k < 2 ^ 32" for k
    using that by (simp add: unsigned_of_nat take_bit_nat_eq_self)
  have "unat (drop_bit 10 (of_nat cp :: u32)) = drop_bit 10 (unat (of_nat cp :: u32))" by (rule unat_drop_bit_eq)
  also have "unat (of_nat cp :: u32) = cp" using assms by simp
  finally have "unat (drop_bit 10 (of_nat cp :: u32)) = cp div 0x400" by (simp add: drop_bit_eq_div)
  moreover have "unat (of_nat (cp div 0x400) :: u32) = cp div 0x400" using assms by simp
  ultimately have "drop_bit 10 (of_nat cp :: u32) = of_nat (cp div 0x400)" by (simp only: word_unat_eq_iff)
  then have "0xD7C0 + drop_bit 10 (of_nat cp :: u32) = of_nat (0xD7C0 + cp div 0x400)" by simp
  moreover have "0xD7C0 + cp div 0x400 < 2 ^ 32" using assms by simp
  ultimately show "ucast (0xD7C0 + drop_bit 10 (of_nat cp :: u32)) = (of_nat (0xD7C0 + cp div 0x400) :: u16)" by (simp only: u)
  have "(0x3FF :: u32) = mask 10" by (simp add: mask_eq_exp_minus_1)
  then have "(of_nat cp AND 0x3FF :: u32) = take_bit 10 (of_nat cp)" by (simp only: take_bit_eq_mask)
  also have "\<dots> = of_nat (take_bit 10 cp)" by (simp only: take_bit_of_nat)
  also have "take_bit 10 cp = cp mod 0x400" by (simp add: take_bit_eq_mod)
  finally have "(of_nat cp AND 0x3FF :: u32) = of_nat (cp mod 0x400)" .
  then have "0xDC00 + (of_nat cp AND 0x3FF :: u32) = of_nat (0xDC00 + cp mod 0x400)" by simp
  moreover have "cp mod 0x400 < 0x400" by simp
  then have "0xDC00 + cp mod 0x400 < 0xE000" by linarith
  then have "0xDC00 + cp mod 0x400 < 2 ^ 32" by simp
  ultimately show "ucast (0xDC00 + (of_nat cp AND 0x3FF :: u32)) = (of_nat (0xDC00 + cp mod 0x400) :: u16)" by (simp only: u)
  show "ucast (of_nat cp :: u32) = (of_nat cp :: u16)" using assms by (intro u) simp
qed

lemma put_codepoint_escape:
  assumes "scalar cp" and "length buf \<le> 499"
  shows "put_codepoint a (of_nat cp) (last (utf8 cp)) (if a then buf else buf @ butlast (utf8 cp)) = Inr (buf @ escape_text a cp)"
proof -
  have c: "cp < 0x110000" using assms(1) by (simp add: scalar_def)
  have eq: "(of_nat cp :: u32) = 0x08 \<longleftrightarrow> cp = 0x08" "(of_nat cp :: u32) = 0x09 \<longleftrightarrow> cp = 0x09"
    "(of_nat cp :: u32) = 0x0A \<longleftrightarrow> cp = 0x0A" "(of_nat cp :: u32) = 0x0C \<longleftrightarrow> cp = 0x0C" "(of_nat cp :: u32) = 0x0D \<longleftrightarrow> cp = 0x0D"
    "(of_nat cp :: u32) = 0x22 \<longleftrightarrow> cp = 0x22" "(of_nat cp :: u32) = 0x5C \<longleftrightarrow> cp = 0x5C"
    using codepoint_test(1) [OF c, of "0x08"] codepoint_test(1) [OF c, of "0x09"] codepoint_test(1) [OF c, of "0x0A"]
      codepoint_test(1) [OF c, of "0x0C"] codepoint_test(1) [OF c, of "0x0D"] codepoint_test(1) [OF c, of "0x22"] codepoint_test(1) [OF c, of "0x5C"]
    by simp_all
  have le: "(of_nat cp :: u32) \<le> 0x1F \<longleftrightarrow> cp \<le> 0x1F" "(0x7F :: u32) \<le> of_nat cp \<longleftrightarrow> 0x7F \<le> cp" "(of_nat cp :: u32) \<le> 0xFFFF \<longleftrightarrow> cp \<le> 0xFFFF"
    using codepoint_test(2) [OF c, of "0x1F"] codepoint_test(2) [OF c, of "0xFFFF"] codepoint_test(2) [of "0x7F" cp] c by simp_all
  have small: "cp \<le> 0x7F \<Longrightarrow> utf8 cp = [of_nat cp]" by (simp add: utf8_def utf8_nats_def)
  show ?thesis
  proof (cases "map_of letter_escapes cp")
    case (Some l)
    then have "(cp, l) \<in> set letter_escapes" by (rule map_of_SomeD)
    then show ?thesis using Some assms(2) small unfolding letter_escapes_def
      by (simp, elim disjE) (simp_all add: put_codepoint_def escape_text_def letter_escapes_def buffer_put_def)
  next
    case None
    then have n: "cp \<notin> {0x08, 0x09, 0x0A, 0x0C, 0x0D, 0x22, 0x5C}" by (simp add: letter_escapes_def split: if_splits)
    have l: "length (buf @ butlast (utf8 cp)) + 1 \<le> 512" using assms(2) length_utf8 [of cp] by simp
    show ?thesis
    proof (cases "cp \<le> 0x1F \<or> a \<and> 0x7F \<le> cp")
      case True
      then show ?thesis using None n small assms(2)
        by (auto simp: put_codepoint_def escape_text_def eq le codepoint_parts [OF c] buffer_put_def)
    next
      case False
      moreover have "a \<Longrightarrow> utf8 cp = [of_nat cp]" using False small by auto
      ultimately show ?thesis using None n l assms(2) append_butlast_last_id [OF utf8_nonempty, of cp]
        by (auto simp: put_codepoint_def escape_text_def eq le buffer_put_def)
    qed
  qed
qed

text \<open>The loop over the bytes of one codepoint, and over a text.\<close>

lemma escape_loop_path:
  assumes "decode_path st c bs = Some cp" and "length buf + length bs \<le> 503"
  shows "escape_loop a i (bs @ r) st c buf s =
    bind_d (put_codepoint a cp (last bs) (if a then buf else buf @ butlast bs)) (\<lambda>buf.
      if 512 - length buf < 13 then escape_loop a (i + length bs) r 0 cp [] (write_characters buf s)
      else escape_loop a (i + length bs) r 0 cp buf s)"
  using assms
proof (induction bs arbitrary: st c i buf)
  case (Cons b bs)
  obtain st' c' where d: "decode st c b = (st', c')" by fastforce
  show ?case
  proof (cases "bs = []")
    case True
    then have "st' = 0" "c' = cp" using Cons.prems(1) d by (auto split: if_splits)
    then show ?thesis using d unfolding True by (simp cong: if_cong)
  next
    case False
    then have n: "st' \<noteq> 0" "st' \<noteq> 1" "decode_path st' c' bs = Some cp" using Cons.prems(1) d by (auto split: if_splits)
    have "buffer_put [b] 0 buf = Inr (buf @ [b])" using Cons.prems(2) by (simp add: buffer_put_def)
    then show ?thesis using Cons.IH [OF n(3), of "if a then buf else buf @ [b]" "Suc i"] Cons.prems(2) n(1,2) d False by (auto cong: if_cong)
  qed
qed simp

lemma escape_loop_text:
  assumes "list_all scalar cps" and "length buf \<le> 499"
  shows "\<exists>c' buf' s'. escape_loop a i (utf8_text cps) 0 c buf s = Inr (0, buf', s') \<and>
    ser_o s' @ buf' = ser_o s @ buf @ concat (map (escape_text a) cps) \<and> ser_indent_string s' = ser_indent_string s"
  using assms
proof (induction cps arbitrary: i c buf s)
  case (Cons cp cps)
  have sc: "scalar cp" using Cons.prems(1) by simp
  let ?buf = "buf @ escape_text a cp"
  have "length buf + length (utf8 cp) \<le> 503" using Cons.prems(2) length_utf8 [of cp] by simp
  from escape_loop_path [OF decode_path_utf8 [OF sc] this]
  have e: "escape_loop a i (utf8_text (cp # cps)) 0 c buf s =
      (if 512 - length ?buf < 13 then escape_loop a (i + length (utf8 cp)) (utf8_text cps) 0 (of_nat cp) [] (write_characters ?buf s)
       else escape_loop a (i + length (utf8 cp)) (utf8_text cps) 0 (of_nat cp) ?buf s)"
    using put_codepoint_escape [OF sc Cons.prems(2)] by simp
  show ?case
  proof (cases "512 - length ?buf < 13")
    case True
    then show ?thesis using Cons.IH [of "[]" "i + length (utf8 cp)" "of_nat cp" "write_characters ?buf s"] Cons.prems(1) e by simp
  next
    case False
    then have "length ?buf \<le> 499" by simp
    then show ?thesis using Cons.IH [of ?buf "i + length (utf8 cp)" "of_nat cp" s] Cons.prems(1) e False by simp
  qed
qed simp

lemma dump_escaped_text:
  assumes "list_all scalar cps"
  shows "\<exists>s'. dump_escaped a (utf8_text cps) s = Inr s' \<and> ser_o s' = ser_o s @ concat (map (escape_text a) cps) \<and>
    ser_indent_string s' = ser_indent_string s"
  using escape_loop_text [OF assms, of "[]" a 0 0 s] by (auto simp: dump_escaped_def)

text \<open>The lexer reads an escaped codepoint back.\<close>

lemma hex_nibble_lower: "n < 16 \<Longrightarrow> hex_nibble (hex_lower n) n"
proof (cases "n < 10")
  case True
  then show "n < 16 \<Longrightarrow> ?thesis" by (simp add: hex_nibble_def hex_lower_def)
next
  case False
  then obtain m where m: "n = 10 + m" by (auto simp: not_less le_iff_add)
  then show "n < 16 \<Longrightarrow> ?thesis" by (simp add: hex_nibble_def hex_lower_def)
qed

lemma unicode_text_hex4:
  assumes "n < 0x10000"
  shows "\<exists>hs. unicode_text (of_nat n) = 0x5C # 0x75 # hs \<and> hex4 hs n"
proof -
  let ?a = "n div 0x1000" and ?b = "n div 0x100 mod 0x10" and ?c = "n div 0x10 mod 0x10" and ?d = "n mod 0x10"
  have "n div 0x100 = 0x10 * ?a + ?b" using div_mult2_eq [of n "0x100" "0x10"] by simp
  moreover have "n div 0x10 = 0x10 * (n div 0x100) + ?c" using div_mult2_eq [of n "0x10" "0x10"] by simp
  moreover have "n = 0x10 * (n div 0x10) + ?d" by simp
  ultimately have e: "n = ?a * 0x1000 + ?b * 0x100 + ?c * 0x10 + ?d" by linarith
  have "?a < 16" using assms by simp
  then have "hex_nibble (hex_lower ?a) ?a" "hex_nibble (hex_lower ?b) ?b" "hex_nibble (hex_lower ?c) ?c" "hex_nibble (hex_lower ?d) ?d"
    by (simp_all add: hex_nibble_lower)
  then have "hex4 [hex_lower ?a, hex_lower ?b, hex_lower ?c, hex_lower ?d] n" unfolding hex4_def using e by blast
  moreover have "unat (of_nat n :: u16) = n" using assms by simp
  ultimately show ?thesis by (simp add: unicode_text_def Let_def)
qed

lemma escape_text_item:
  assumes "scalar cp"
  shows "string_item (escape_text a cp) cp"
proof (cases "map_of letter_escapes cp")
  case (Some l)
  then have "(l, cp) \<in> set short_escapes" using map_of_SomeD [OF Some] by (auto simp: letter_escapes_def short_escapes_def)
  then show ?thesis using Some item_short by (simp add: escape_text_def)
next
  case None
  then have n: "cp \<noteq> 0x22" "cp \<noteq> 0x5C" by (auto simp: letter_escapes_def split: if_splits)
  consider "\<not> (cp \<le> 0x1F \<or> a \<and> 0x7F \<le> cp)" | "cp \<le> 0x1F \<or> a \<and> 0x7F \<le> cp" "cp \<le> 0xFFFF" | "a" "0xFFFF < cp" by linarith
  then show ?thesis
  proof cases
    case 1
    then have "plain cp" using assms n by (simp add: plain_def)
    then show ?thesis using item_plain [of cp] None 1 by (auto simp: escape_text_def)
  next
    case 2
    then obtain hs where "unicode_text (of_nat cp) = 0x5C # 0x75 # hs" "hex4 hs cp" using unicode_text_hex4 [of cp] by auto
    then show ?thesis using item_unicode assms None 2 by (simp add: escape_text_def)
  next
    case 3
    let ?hi = "0xD7C0 + cp div 0x400" and ?lo = "0xDC00 + cp mod 0x400"
    have c: "cp < 0x110000" using assms by (simp add: scalar_def)
    have d: "0x40 \<le> cp div 0x400" "cp div 0x400 < 0x440" using 3(2) c by simp_all
    have m: "cp mod 0x400 < 0x400" by simp
    have hi: "0xD800 \<le> ?hi" "?hi < 0xDC00" and lo: "0xDC00 \<le> ?lo" "?lo < 0xE000" using d m by linarith+
    obtain hs where hs: "unicode_text (of_nat ?hi) = 0x5C # 0x75 # hs" "hex4 hs ?hi" using unicode_text_hex4 [of ?hi] hi(2) by auto
    obtain ls where ls: "unicode_text (of_nat ?lo) = 0x5C # 0x75 # ls" "hex4 ls ?lo" using unicode_text_hex4 [of ?lo] lo(2) by auto
    have "cp = 0x400 * (cp div 0x400) + cp mod 0x400" by simp
    then have e: "0x10000 + (?hi - 0xD800) * 0x400 + (?lo - 0xDC00) = cp" using d(1) by linarith
    have "escape_text a cp = 0x5C # 0x75 # hs @ 0x5C # 0x75 # ls"
      using None 3 unfolding escape_text_def hs(1) ls(1) by simp
    then show ?thesis using item_surrogates [OF hs(2) hi ls(2) lo] unfolding e by simp
  qed
qed

lemma escape_text_body: "list_all scalar cps \<Longrightarrow> string_body (concat (map (escape_text a) cps)) cps"
  by (induction cps) (auto intro: body_Nil body_Cons escape_text_item)

section \<open>Integers\<close>

lemma integer_digits_text:
  assumes "x \<noteq> 0" and "nat \<bar>x\<bar> < 10 ^ k" and "length buf + k \<le> 63"
  shows "\<exists>ds. integer_digits x buf = Inr (buf @ ds) \<and> rev ds = dec_text (nat \<bar>x\<bar>) \<and> length ds \<le> k"
  using assms
proof (induction k arbitrary: x buf)
  case (Suc k)
  let ?n = "nat \<bar>x\<bar>" and ?y = "sgn x * (\<bar>x\<bar> div 10)" and ?d = "of_nat (0x30 + nat (\<bar>x\<bar> mod 10)) :: u8"
  have y: "nat \<bar>?y\<bar> = ?n div 10" using Suc.prems(1) by (simp add: abs_mult nat_div_distrib sgn_if)
  have d: "nat (\<bar>x\<bar> mod 10) = ?n mod 10" by (simp add: nat_mod_distrib)
  have s: "integer_digits x buf = integer_digits ?y (buf @ [?d])" using Suc.prems(1,3) integer_digits.simps [of x buf] by simp
  show ?case
  proof (cases "?n < 10")
    case True
    then have "?y = 0" using y by auto
    then have "integer_digits x buf = Inr (buf @ [?d])" unfolding s by (simp only:) (simp add: integer_digits.simps [of 0])
    moreover have "dec_text ?n = [?d]" using True d by (subst dec_text.simps) simp
    ultimately show ?thesis by (intro exI [of _ "[?d]"]) simp
  next
    case False
    moreover have "?n div 10 < 10 ^ k" using Suc.prems(2) by (intro div_less_iff_less_mult [THEN iffD2]) (simp_all add: mult.commute)
    ultimately have "?y \<noteq> 0" "nat \<bar>?y\<bar> < 10 ^ k" using y by auto
    then obtain ds where ds: "integer_digits ?y (buf @ [?d]) = Inr ((buf @ [?d]) @ ds)" "rev ds = dec_text (nat \<bar>?y\<bar>)" "length ds \<le> k"
      using Suc.IH [of ?y "buf @ [?d]"] Suc.prems(3) by auto
    have "dec_text ?n = dec_text (?n div 10) @ [?d]" using False d dec_text.simps [of ?n] by simp
    then show ?thesis using ds s y by (intro exI [of _ "?d # ds"]) simp
  qed
qed simp

lemma dump_integer_text:
  assumes "\<bar>x\<bar> < 10 ^ 61"
  shows "dump_integer x s = Inr (write_characters (int_text x) s)"
proof (cases "x = 0")
  case True
  then show ?thesis by (simp add: dump_integer_def int_text_def dec_text.simps [of 0])
next
  case False
  have "nat \<bar>x\<bar> < 10 ^ 61" using assms by (simp add: nat_less_iff)
  then obtain ds where "integer_digits x [] = Inr ds" "rev ds = dec_text (nat \<bar>x\<bar>)" "length ds \<le> 61"
    using integer_digits_text [OF False, of 61 "[]"] by auto
  then show ?thesis using False by (simp add: dump_integer_def int_text_def)
qed

end
