(* ===== verification/Json_Roundtrip.thy ===== *)
theory Json_Roundtrip
  imports Json_Text
begin

text \<open>
  From text to value and back: how bytes spell tokens, that the parser reads spelled tokens, and that the
  serializer spells the tokens of the value it is given.
\<close>

section \<open>Spelled tokens\<close>

definition ws_byte :: "u8 \<Rightarrow> bool" where
  "ws_byte b \<longleftrightarrow> b = 0x20 \<or> b = 0x09 \<or> b = 0x0A \<or> b = 0x0D"

definition punctuation :: "(u8 \<times> token_type) list" where
  "punctuation = [(0x5B, begin_array), (0x5D, end_array), (0x7B, begin_object), (0x7D, end_object), (0x3A, name_separator), (0x2C, value_separator)]"

inductive spells :: "bytes \<Rightarrow> token \<Rightarrow> bool" where
  sp_punct: "(b, t) \<in> set punctuation \<Longrightarrow> spells [b] (Punct t)"
| sp_null: "spells (str_bytes ''null'') (Scalar Null)"
| sp_true: "spells (str_bytes ''true'') (Scalar (Boolean True))"
| sp_false: "spells (str_bytes ''false'') (Scalar (Boolean False))"
| sp_string: "string_body body cps \<Longrightarrow> spells (0x22 # body @ [0x22]) (Scalar (String (utf8_text cps)))"
| sp_unsigned: "spells (dec_text (unat u)) (Scalar (Number_unsigned u))"
| sp_integer: "sint i \<le> 0 \<Longrightarrow> spells (0x2D # dec_text (nat (- sint i))) (Scalar (Number_integer i))"

fun is_number :: "token \<Rightarrow> bool" where
  "is_number (Scalar (Number_unsigned u)) = True"
| "is_number (Scalar (Number_integer i)) = True"
| "is_number t = False"

inductive spelled :: "bytes \<Rightarrow> token list \<Rightarrow> bytes \<Rightarrow> bool" where
  spelled_Nil: "spelled r [] r"
| spelled_Cons: "list_all ws_byte w \<Longrightarrow> spells b t \<Longrightarrow> (is_number t \<longrightarrow> number_follow i) \<Longrightarrow> spelled i ts r \<Longrightarrow> spelled (w @ b @ i) (t # ts) r"

lemma is_ws_uint: "is_ws (uint b) \<longleftrightarrow> ws_byte b"
  by (simp add: is_ws_def ws_byte_def word_uint_eq_iff)

lemma skip_ws:
  assumes "list_all ws_byte w" and "\<not> ws_byte b" and "lx_input s = w @ b # r"
  shows "lx_current (skip_whitespace s) = uint b \<and> lx_input (skip_whitespace s) = r"
  using assms
proof (induction w arbitrary: s)
  case Nil
  then have i: "lx_input s = b # r" by simp
  show ?case using get_Cons [OF i] Nil.prems(2) by (simp add: skip_whitespace.simps [of s] Let_def is_ws_uint)
next
  case (Cons c w)
  then have i: "lx_input s = c # (w @ b # r)" by simp
  show ?case using get_Cons [OF i] Cons by (simp add: skip_whitespace.simps [of s] Let_def is_ws_uint)
qed

lemma literal_accepts:
  assumes "lx_input s = bs @ r"
  shows "\<exists>s'. literal_loop (map uint bs) t s = (t, s') \<and> lx_input s' = r"
  using assms
proof (induction bs arbitrary: s)
  case (Cons b bs)
  then have i: "lx_input s = b # (bs @ r)" by simp
  show ?case using Cons.IH [OF get_Cons(1) [OF i]] get_Cons [OF i] by (simp add: Let_def)
qed simp

text \<open>The scanner on the first byte of each kind of token.\<close>

lemma scan_dispatch:
  assumes "lx_current (skip_whitespace s) = uint b"
  shows "(b, t) \<in> set punctuation \<Longrightarrow> lex_scan s = (t, skip_whitespace s)"
    and "b = 0x6E \<Longrightarrow> lex_scan s = scan_literal (str_bytes ''null'') literal_null (skip_whitespace s)"
    and "b = 0x74 \<Longrightarrow> lex_scan s = scan_literal (str_bytes ''true'') literal_true (skip_whitespace s)"
    and "b = 0x66 \<Longrightarrow> lex_scan s = scan_literal (str_bytes ''false'') literal_false (skip_whitespace s)"
    and "b = 0x22 \<Longrightarrow> lex_scan s = scan_string (skip_whitespace s)"
    and "b = 0x2D \<Longrightarrow> lex_scan s = scan_number (skip_whitespace s)"
  using assms by (auto simp: lex_scan_def Let_def punctuation_def)

lemma scan_dispatch_digit:
  assumes "lx_current (skip_whitespace s) = uint b" and "is_digit b"
  shows "lex_scan s = scan_number (skip_whitespace s)"
proof -
  have "digit (lx_current (skip_whitespace s))" using assms by (simp add: digit_uint)
  then show ?thesis by (auto simp: lex_scan_def Let_def digit_def)
qed

lemma get_token_scan: "lex_scan (m_lexer p) = (t, s) \<Longrightarrow> last_token (get_token p) = t \<and> m_lexer (get_token p) = s"
  by (simp add: get_token_def)

lemma scan_literal_accepts:
  assumes "lex_scan s = scan_literal bs t (skip_whitespace s)" and "lx_input (skip_whitespace s) = tl bs @ r"
  shows "\<exists>s'. lex_scan s = (t, s') \<and> lx_input s' = r"
  using literal_accepts [OF assms(2), of t] assms(1) by (simp add: scan_literal_def)

lemma spells_first: "spells bs t \<Longrightarrow> \<exists>b ds. bs = b # ds \<and> \<not> ws_byte b \<and> b \<noteq> 0xEF"
proof (induction rule: spells.induct)
  case (sp_unsigned u)
  obtain b ds where b: "dec_text (unat u) = b # ds" using dec_text_nonempty by (cases "dec_text (unat u)") auto
  then have "is_digit b" using dec_text_digits [of "unat u"] by simp
  then show ?case using b by (auto simp: ws_byte_def is_digit_def)
qed (auto simp: punctuation_def ws_byte_def str_bytes_def)

lemma scan_spells:
  assumes "spells bs t" and "list_all ws_byte w" and "is_number t \<longrightarrow> number_follow r" and "lx_input (m_lexer p) = w @ bs @ r"
  shows "token_of (get_token p) = Some t \<and> lx_input (m_lexer (get_token p)) = r"
proof -
  let ?s = "m_lexer p" and ?k = "skip_whitespace (m_lexer p)"
  obtain b ds where b: "bs = b # ds" "\<not> ws_byte b" using spells_first [OF assms(1)] by auto
  then have "lx_input ?s = w @ b # (ds @ r)" using assms(4) by simp
  from skip_ws [OF assms(2) b(2) this] have k: "lx_current ?k = uint b" "lx_input ?k = ds @ r" by simp_all
  note d = scan_dispatch [OF k(1)]
  from assms(1) show ?thesis
  proof (cases rule: spells.cases)
    case (sp_punct c u)
    then have "(b, u) \<in> set punctuation" "ds = []" using b(1) by simp_all
    then show ?thesis using get_token_scan [OF d(1)] k(2) sp_punct by (auto simp: punctuation_def)
  next
    case sp_null
    then show ?thesis using scan_literal_accepts [OF d(2), of r] k(2) b(1) get_token_scan [of p] by (auto simp: str_bytes_def token_of_def)
  next
    case sp_true
    then show ?thesis using scan_literal_accepts [OF d(3), of r] k(2) b(1) get_token_scan [of p] by (auto simp: str_bytes_def token_of_def)
  next
    case sp_false
    then show ?thesis using scan_literal_accepts [OF d(4), of r] k(2) b(1) get_token_scan [of p] by (auto simp: str_bytes_def token_of_def)
  next
    case (sp_string body cps)
    then have "b = 0x22" "lx_input (lex_reset ?k) = body @ 0x22 # r" using b(1) k(2) by simp_all
    then show ?thesis using loop_body [OF sp_string(3), of "lex_reset ?k" r] d(5) get_token_scan [of p] sp_string(2)
      by (auto simp: scan_string_def token_of_def)
  next
    case (sp_unsigned u)
    have "is_digit b" using dec_text_digits [of "unat u"] sp_unsigned(1) b(1) by (metis list.set_intros(1))
    then have e: "lex_scan ?s = scan_number ?k" using scan_dispatch_digit [OF k(1)] by simp
    obtain s' where "scan_number ?k = (value_unsigned, s')" "lx_input s' = r" "unat (lx_value_unsigned s') = unat u"
      using scan_unsigned [OF k(1), of "unat u" r] sp_unsigned assms(3) b(1) k(2) unsigned_less [of u] by auto
    then show ?thesis using e get_token_scan [of p] sp_unsigned(2) by (auto simp: token_of_def word_unat_eq_iff)
  next
    case (sp_integer i)
    have "- (2 ^ 63) \<le> sint i" using sint_greater_eq [of i] by simp
    then have n: "nat (- sint i) \<le> 2 ^ 63" by simp
    have i: "b # lx_input ?k = 0x2D # dec_text (nat (- sint i)) @ r" "b = 0x2D" using sp_integer(1) b(1) k(2) by auto
    obtain s' where "scan_number ?k = (value_integer, s')" "lx_input s' = r" "sint (lx_value_integer s') = - int (nat (- sint i))"
      using scan_negative [OF k(1) i(1) _ n] sp_integer(2) assms(3) by auto
    then show ?thesis using d(6) [OF i(2)] get_token_scan [of p] sp_integer(2,3) by (auto simp: token_of_def intro: signed_word_eqI)
  qed
qed

lemma spelled_scans:
  assumes "spelled i ts r" and "lx_input (m_lexer p) = i"
  shows "\<exists>p'. scans p ts p' \<and> lx_input (m_lexer p') = r"
  using assms
proof (induction arbitrary: p rule: spelled.induct)
  case (spelled_Cons w b t i ts r)
  then have "token_of (get_token p) = Some t" "lx_input (m_lexer (get_token p)) = i" using scan_spells by blast+
  then show ?case using spelled_Cons.IH by fastforce
qed simp

lemma spelled_adapter: "spelled i ts r \<Longrightarrow> ts \<noteq> [] \<Longrightarrow> input_stream_adapter i = i"
proof (induction rule: spelled.induct)
  case (spelled_Cons w b t i ts r)
  obtain c ds where "b = c # ds" "c \<noteq> 0xEF" using spells_first [OF spelled_Cons(2)] by auto
  then show ?case using spelled_Cons(1) by (cases w) (auto simp: input_stream_adapter_def ws_byte_def)
qed simp

text \<open>The reader on a text: its tokens are spelled, one after the other, and they derive a value.\<close>

lemma stream_in_spelled:
  assumes "spelled i ts r" and "value_tokens ts v"
  shows "stream_in i = Some (Inr (v, r))"
proof -
  have "ts \<noteq> []" using assms(2) by (auto elim: value_tokens.cases)
  then have a: "input_stream_adapter i = i" using spelled_adapter [OF assms(1)] by simp
  obtain p where p: "scans (parser_new i) ts p" "lx_input (m_lexer p) = r"
    using spelled_scans [OF assms(1), of "parser_new i"] by (auto simp: parser_new_def lexer_new_def)
  then have "parse_internal (parse_fuel i) (get_token (parser_new i)) = Some (Inr (v, p))"
    using parse_complete(1) [OF assms(2) p(1)] parse_any_fuel by blast
  then show ?thesis using a p(2) by (simp add: stream_in_def parser_parse_def)
qed

section \<open>What the serializer writes\<close>

text \<open>
  Values that come back as they were: well formed, without floating-point numbers, whose text is not
  modelled, and without a signed zero, which comes back unsigned.
\<close>

fun dumpable :: "json \<Rightarrow> bool" where
  "dumpable Null = True"
| "dumpable (Object m) = (map_ok m \<and> (\<forall>e \<in> set m. text_ok (fst e) \<and> dumpable (snd e)))"
| "dumpable (Array xs) = (\<forall>x \<in> set xs. dumpable x)"
| "dumpable (String s) = text_ok s"
| "dumpable (Boolean b) = True"
| "dumpable (Number_integer i) = (sint i < 0)"
| "dumpable (Number_unsigned u) = True"
| "dumpable (Number_float x) = False"
| "dumpable Discarded = False"

text \<open>The bytes \<open>bs\<close> spell the tokens \<open>ts\<close> wherever a number may end.\<close>

definition spells_all :: "bytes \<Rightarrow> token list \<Rightarrow> bool" where
  "spells_all bs ts \<longleftrightarrow> (\<forall>r. number_follow r \<longrightarrow> spelled (bs @ r) ts r)"

lemma spelled_append: "spelled i ts j \<Longrightarrow> spelled j us r \<Longrightarrow> spelled i (ts @ us) r"
  by (induction rule: spelled.induct) (auto intro: spelled_Cons)

lemma spelled_ws: "spelled i ts r \<Longrightarrow> list_all ws_byte w \<Longrightarrow> ts \<noteq> [] \<Longrightarrow> spelled (w @ i) ts r"
proof (induction rule: spelled.induct)
  case (spelled_Cons v b t i ts r)
  then have "spelled ((w @ v) @ b @ i) (t # ts) r" by (intro spelled.spelled_Cons) auto
  then show ?case by simp
qed simp

lemma spells_all_token: "spells b t \<Longrightarrow> spells_all b [t]"
  using spelled_Cons [of "[]" b t _ "[]"] spelled_Nil by (auto simp: spells_all_def)

lemma spells_all_append:
  assumes "spells_all a ts" and "spells_all b us" and "us \<noteq> []" and "\<And>r. number_follow (b @ r)"
  shows "spells_all (a @ b) (ts @ us)"
  using assms spelled_append unfolding spells_all_def by fastforce

lemma spells_all_ws: "spells_all b ts \<Longrightarrow> list_all ws_byte w \<Longrightarrow> ts \<noteq> [] \<Longrightarrow> spells_all (w @ b) ts"
  using spelled_ws unfolding spells_all_def by fastforce

lemma spells_all_punct:
  assumes "spells_all b ts" and "(c, t) \<in> set punctuation"
  shows "spells_all (c # b) (Punct t # ts)"
proof -
  have "spelled ([] @ [c] @ i) (Punct t # us) r" if "spelled i us r" for i us r
    using assms(2) that by (intro spelled_Cons sp_punct) simp_all
  then show ?thesis using assms(1) by (auto simp: spells_all_def)
qed

lemma follow_Cons: "number_follow (c # cs) \<longleftrightarrow> \<not> (is_digit c \<or> c = 0x2E \<or> c = 0x65 \<or> c = 0x45)"
  by (simp add: number_follow_def)

lemma follow_ws: "ws_byte c \<Longrightarrow> number_follow (c # cs)"
  by (auto simp: follow_Cons ws_byte_def is_digit_def)

lemma follow_punct: "(c, t) \<in> set punctuation \<Longrightarrow> number_follow (c # cs)"
  by (auto simp: follow_Cons punctuation_def is_digit_def)

text \<open>The pieces of the output.\<close>

lemma fold_emplace: "map_ok (n @ m) \<Longrightarrow> fold (\<lambda>(k, v). map_emplace k v) m n = n @ m"
proof (induction m arbitrary: n)
  case (Cons e m)
  obtain k v where e: "e = (k, v)" by fastforce
  have "map_ok ((n @ [(k, v)]) @ m)" using Cons.prems e by simp
  moreover have "map_ok (n @ [(k, v)])" using Cons.prems e by (auto simp: map_ok_def sorted_append)
  ultimately show ?case using Cons.IH [of "n @ [(k, v)]"] e map_emplace_last [of n k v] by simp
qed simp

definition indents :: "serializer \<Rightarrow> bool" where
  "indents s \<longleftrightarrow> list_all ws_byte (ser_indent_string s) \<and> 512 \<le> length (ser_indent_string s)"

lemma grow_indent_ok:
  assumes "indents s" and "unat cur \<le> length (ser_indent_string s)" and "unat step \<le> 512"
  shows "indents (grow_indent (cur + step) s)" "unat (cur + step) \<le> length (ser_indent_string (grow_indent (cur + step) s))"
    "length (ser_indent_string s) \<le> length (ser_indent_string (grow_indent (cur + step) s))" "ser_o (grow_indent n s) = ser_o s"
proof -
  have "unat (cur + step) \<le> unat cur + unat step" by (simp add: unat_word_ariths)
  then show "unat (cur + step) \<le> length (ser_indent_string (grow_indent (cur + step) s))"
    using assms by (auto simp: grow_indent_def indents_def)
qed (use assms in \<open>auto simp: grow_indent_def indents_def list_all_iff ws_byte_def\<close>)

lemma write_indent_ok:
  assumes "indents s" and "unat n \<le> length (ser_indent_string s)"
  shows "\<exists>w. list_all ws_byte w \<and> write_indent n s = Inr (write_characters w s)"
  using assms by (auto simp: write_indent_def indents_def list_all_iff dest: in_set_takeD)

text \<open>Text that spells its tokens whatever follows.\<close>

definition spells_any :: "bytes \<Rightarrow> token list \<Rightarrow> bool" where
  "spells_any bs ts \<longleftrightarrow> (\<forall>r. spelled (bs @ r) ts r)"

lemma any_token: "spells b t \<Longrightarrow> \<not> is_number t \<Longrightarrow> spells_any b [t]"
  using spelled_Cons [of "[]" b t _ "[]"] spelled_Nil by (auto simp: spells_any_def)

lemma any_append: "spells_any a ts \<Longrightarrow> spells_any b us \<Longrightarrow> spells_any (a @ b) (ts @ us)"
  using spelled_append unfolding spells_any_def by fastforce

lemma any_ws: "spells_any b ts \<Longrightarrow> list_all ws_byte w \<Longrightarrow> ts \<noteq> [] \<Longrightarrow> spells_any (w @ b) ts"
  using spelled_ws unfolding spells_any_def by fastforce

lemma any_then_all: "spells_any a ts \<Longrightarrow> spells_all b us \<Longrightarrow> spells_all (a @ b) (ts @ us)"
  using spelled_append unfolding spells_any_def spells_all_def by fastforce

lemma all_then_any: "spells_all a ts \<Longrightarrow> spells_any b us \<Longrightarrow> (\<And>r. number_follow (b @ r)) \<Longrightarrow> spells_any (a @ b) (ts @ us)"
  using spelled_append unfolding spells_any_def spells_all_def by fastforce

lemma any_all: "spells_any a ts \<Longrightarrow> spells_all a ts"
  by (simp add: spells_any_def spells_all_def)

lemma any_punct: "(c, t) \<in> set punctuation \<Longrightarrow> list_all ws_byte w \<Longrightarrow> spells_any (w @ [c]) [Punct t]"
  by (intro any_ws any_token sp_punct) auto

lemma follow_ws_punct: "(c, t) \<in> set punctuation \<Longrightarrow> list_all ws_byte w \<Longrightarrow> number_follow ((w @ [c]) @ r)"
  by (cases w) (auto intro: follow_ws follow_punct)

lemma all_ws: "list_all ws_byte w \<Longrightarrow> number_follow r \<Longrightarrow> w = [] \<or> number_follow (w @ r)"
  by (cases w) (auto intro: follow_ws)

text \<open>A step of the serializer: what it appends and that the indentation string stays good.\<close>

definition wrote :: "serializer \<Rightarrow> bytes \<Rightarrow> serializer \<Rightarrow> bool" where
  "wrote s bs s' \<longleftrightarrow> ser_o s' = ser_o s @ bs \<and> (indents s \<longrightarrow> indents s') \<and> length (ser_indent_string s) \<le> length (ser_indent_string s')"

lemma wrote_characters: "wrote s bs (write_characters bs s)"
  by (simp add: wrote_def indents_def)

lemma wrote_trans: "wrote s a s1 \<Longrightarrow> wrote s1 b s2 \<Longrightarrow> wrote s (a @ b) s2"
  by (simp add: wrote_def)

lemma wrote_indents: "wrote s bs s' \<Longrightarrow> indents s \<Longrightarrow> unat n \<le> length (ser_indent_string s) \<Longrightarrow> indents s' \<and> unat n \<le> length (ser_indent_string s')"
  by (simp add: wrote_def)

lemma wrote_grow: "indents s \<Longrightarrow> unat cur \<le> length (ser_indent_string s) \<Longrightarrow> unat step \<le> 512 \<Longrightarrow> wrote s [] (grow_indent (cur + step) s)"
  using grow_indent_ok [of s cur step] by (simp add: wrote_def)

lemma escaped_spells:
  assumes "text_ok k"
  shows "\<exists>bs s'. dump_escaped a k s = Inr s' \<and> wrote s bs s' \<and> spells (0x22 # bs @ [0x22]) (Scalar (String k))"
proof -
  obtain cps where c: "list_all scalar cps" "k = utf8_text cps" using assms by (auto simp: text_ok_def)
  obtain s' where "dump_escaped a k s = Inr s'" "ser_o s' = ser_o s @ concat (map (escape_text a) cps)" "ser_indent_string s' = ser_indent_string s"
    using dump_escaped_text [OF c(1), of a s] c(2) by auto
  then show ?thesis using sp_string [OF escape_text_body [OF c(1), of a]] c(2) by (auto simp: wrote_def indents_def)
qed

definition dumps :: "(rat \<Rightarrow> bytes) \<Rightarrow> bool \<Rightarrow> bool \<Rightarrow> u32 \<Rightarrow> json \<Rightarrow> bool" where
  "dumps fl pretty ascii step v \<longleftrightarrow>
     (\<forall>cur s. indents s \<longrightarrow> unat cur \<le> length (ser_indent_string s) \<longrightarrow>
       (\<exists>s' bs ts. dump fl pretty ascii step cur v s = Inr s' \<and> wrote s bs s' \<and> value_tokens ts v \<and> spells_all bs ts))"

lemma dumpsD:
  assumes "dumps fl pretty ascii step v" and "indents s" and "unat cur \<le> length (ser_indent_string s)"
  obtains s' bs ts where "dump fl pretty ascii step cur v s = Inr s'" "wrote s bs s'" "value_tokens ts v" "spells_all bs ts"
  using assms unfolding dumps_def by blast

lemma maybe_indent:
  assumes "indents s" and "unat n \<le> length (ser_indent_string s)"
  shows "\<exists>w s'. list_all ws_byte w \<and> (if pretty then write_indent n s else Inr s) = Inr s' \<and> wrote s w s'"
proof (cases pretty)
  case True
  then show ?thesis using write_indent_ok [OF assms] wrote_characters by auto
next
  case False
  then show ?thesis by (intro exI [of _ "[]"] exI [of _ s]) (simp add: wrote_def)
qed

lemma elements_dump:
  assumes "xs \<noteq> []" and "\<forall>x \<in> set xs. dumps fl pretty ascii step x" and "indents s" and "unat ind \<le> length (ser_indent_string s)"
  shows "\<exists>s' bs ts. dump_elements fl pretty ascii step ind xs s = Inr s' \<and> wrote s bs s' \<and> element_tokens ts xs \<and> spells_all bs ts"
  using assms
proof (induction xs arbitrary: s)
  case (Cons x xs)
  obtain w s1 where w: "list_all ws_byte w" "(if pretty then write_indent ind s else Inr s) = Inr s1" "wrote s w s1"
    using maybe_indent [OF Cons.prems(3,4)] by blast
  note i1 = wrote_indents [OF w(3) Cons.prems(3,4)]
  obtain s2 bs ts where d: "dump fl pretty ascii step ind x s1 = Inr s2" "wrote s1 bs s2" "value_tokens ts x" "spells_all bs ts"
    using dumpsD [of fl pretty ascii step x s1 ind] Cons.prems(2) i1 by auto
  have ne: "ts \<noteq> []" using d(3) by (auto elim: value_tokens.cases)
  have w2: "wrote s (w @ bs) s2" "spells_all (w @ bs) ts" using wrote_trans [OF w(3) d(2)] spells_all_ws [OF d(4) w(1) ne] by simp_all
  show ?case
  proof (cases "xs = []")
    case True
    then show ?thesis using w(2) d(1) w2 e_one [OF d(3)] by (auto simp del: append_assoc)
  next
    case False
    let ?c = "if pretty then [0x2C, 0x0A] else [0x2C]" and ?n = "if pretty then [0x0A] else []"
    let ?s3 = "write_characters ?c s2"
    have w3: "wrote s ((w @ bs) @ ?c) ?s3" using wrote_trans [OF w2(1) wrote_characters] by simp
    note i3 = wrote_indents [OF w3 Cons.prems(3,4)]
    obtain s4 cs us where e: "dump_elements fl pretty ascii step ind xs ?s3 = Inr s4" "wrote ?s3 cs s4" "element_tokens us xs" "spells_all cs us"
      using Cons.IH [OF False _ i3 [THEN conjunct1] i3 [THEN conjunct2]] Cons.prems(2) by auto
    have ne2: "us \<noteq> []" using e(3) by (auto elim!: element_tokens.cases value_tokens.cases)
    have "spells_any ((w @ bs) @ [0x2C]) (ts @ [Punct value_separator])"
      using w2(2) any_punct [of "0x2C" value_separator "[]"] by (intro all_then_any) (simp_all add: punctuation_def follow_Cons is_digit_def)
    moreover have "spells_all (?n @ cs) us" using e(4) ne2 by (intro spells_all_ws) (simp_all add: ws_byte_def)
    ultimately have "spells_all (((w @ bs) @ [0x2C]) @ ?n @ cs) ((ts @ [Punct value_separator]) @ us)" by (rule any_then_all)
    then have "spells_all (((w @ bs) @ ?c) @ cs) (ts @ Punct value_separator # us)" by (simp split: if_splits)
    then show ?thesis using w(2) d(1) e(1) False wrote_trans [OF w3 e(2)] e_more [OF d(3) e(3)] by (auto simp del: append_assoc)
  qed
qed simp

lemma members_dump:
  assumes "m \<noteq> []" and "\<forall>e \<in> set m. text_ok (fst e) \<and> dumps fl pretty ascii step (snd e)" and "indents s"
    and "unat ind \<le> length (ser_indent_string s)"
  shows "\<exists>s' bs ts. dump_members fl pretty ascii step ind m s = Inr s' \<and> wrote s bs s' \<and> member_tokens ts m \<and> spells_all bs ts"
  using assms
proof (induction m arbitrary: s)
  case (Cons e m)
  obtain k v where kv: "e = (k, v)" by fastforce
  obtain w s1 where w: "list_all ws_byte w" "(if pretty then write_indent ind s else Inr s) = Inr s1" "wrote s w s1"
    using maybe_indent [OF Cons.prems(3,4)] by blast
  obtain q s2 where q: "dump_escaped ascii k (write_characters [0x22] s1) = Inr s2" "wrote (write_characters [0x22] s1) q s2"
      "spells (0x22 # q @ [0x22]) (Scalar (String k))"
    using escaped_spells [of k ascii "write_characters [0x22] s1"] Cons.prems(2) kv by auto
  let ?p = "if pretty then [0x20] else []" and ?t = "if pretty then [0x22, 0x3A, 0x20] else [0x22, 0x3A]"
  let ?s3 = "write_characters ?t s2"
  have w3: "wrote s (((w @ [0x22]) @ q) @ ?t) ?s3"
    using wrote_trans [OF wrote_trans [OF wrote_trans [OF w(3) wrote_characters] q(2)] wrote_characters] by simp
  note i3 = wrote_indents [OF w3 Cons.prems(3,4)]
  obtain s4 bs ts where d: "dump fl pretty ascii step ind v ?s3 = Inr s4" "wrote ?s3 bs s4" "value_tokens ts v" "spells_all bs ts"
    using dumpsD [of fl pretty ascii step v ?s3 ind] Cons.prems(2) i3 kv by auto
  let ?h = "[Scalar (String k), Punct name_separator]" and ?hb = "w @ (0x22 # q @ [0x22]) @ [0x3A]"
  have ne: "ts \<noteq> []" using d(3) by (auto elim: value_tokens.cases)
  have "spells_any ((0x22 # q @ [0x22]) @ [0x3A]) ([Scalar (String k)] @ [Punct name_separator])"
    using any_token [OF q(3)] any_punct [of "0x3A" name_separator "[]"] by (intro any_append) (simp_all add: punctuation_def)
  then have "spells_any ?hb ?h" using any_ws [OF _ w(1)] by simp
  moreover have "spells_all (?p @ bs) ts" using d(4) ne by (intro spells_all_ws) (simp_all add: ws_byte_def)
  ultimately have "spells_all (?hb @ ?p @ bs) (?h @ ts)" by (rule any_then_all)
  then have a: "spells_all ((((w @ [0x22]) @ q) @ ?t) @ bs) (?h @ ts)" by (simp split: if_splits)
  have w4: "wrote s ((((w @ [0x22]) @ q) @ ?t) @ bs) s4" using wrote_trans [OF w3 d(2)] .
  show ?case
  proof (cases "m = []")
    case True
    then show ?thesis using w(2) q(1) d(1) w4 a m_one [OF d(3), of k] kv by (auto simp del: append_assoc)
  next
    case False
    let ?b = "(((w @ [0x22]) @ q) @ ?t) @ bs" and ?c = "if pretty then [0x2C, 0x0A] else [0x2C]" and ?n = "if pretty then [0x0A] else []"
    let ?s5 = "write_characters ?c s4"
    have w5: "wrote s (?b @ ?c) ?s5" using wrote_trans [OF w4 wrote_characters] by simp
    note i5 = wrote_indents [OF w5 Cons.prems(3,4)]
    obtain s6 cs us where e: "dump_members fl pretty ascii step ind m ?s5 = Inr s6" "wrote ?s5 cs s6" "member_tokens us m" "spells_all cs us"
      using Cons.IH [OF False _ i5 [THEN conjunct1] i5 [THEN conjunct2]] Cons.prems(2) by auto
    have ne2: "us \<noteq> []" using e(3) by (auto elim!: member_tokens.cases)
    have "spells_any (?b @ [0x2C]) ((?h @ ts) @ [Punct value_separator])"
      using a any_punct [of "0x2C" value_separator "[]"] by (intro all_then_any) (simp_all add: punctuation_def follow_Cons is_digit_def)
    moreover have "spells_all (?n @ cs) us" using e(4) ne2 by (intro spells_all_ws) (simp_all add: ws_byte_def)
    ultimately have "spells_all ((?b @ [0x2C]) @ ?n @ cs) (((?h @ ts) @ [Punct value_separator]) @ us)" by (rule any_then_all)
    then have "spells_all ((?b @ ?c) @ cs) (Scalar (String k) # Punct name_separator # ts @ Punct value_separator # us)" by (simp split: if_splits)
    then show ?thesis using w(2) q(1) d(1) e(1) False kv wrote_trans [OF w5 e(2)] m_more [OF d(3) e(3), of k] by (auto simp del: append_assoc)
  qed
qed simp

text \<open>The brackets around the members or the elements, compact or on lines of their own.\<close>

lemma bracketed:
  assumes "(b, t) \<in> set punctuation" and "(c, u) \<in> set punctuation" and "spells_all bs us" and "us \<noteq> []" and "list_all ws_byte w" and "list_all ws_byte z"
  shows "spells_all (([b] @ w) @ bs @ z @ [c]) (Punct t # us @ [Punct u])"
proof -
  have "spells_any ([] @ [b]) [Punct t]" using assms(1) by (intro any_punct) simp_all
  moreover have "spells_any ((w @ bs) @ z @ [c]) (us @ [Punct u])"
    using spells_all_ws [OF assms(3,5,4)] any_punct [OF assms(2,6)] follow_ws_punct [OF assms(2,6)] by (rule all_then_any)
  ultimately have "spells_any (([] @ [b]) @ (w @ bs) @ z @ [c]) ([Punct t] @ us @ [Punct u])" by (rule any_append)
  then show ?thesis using any_all by simp
qed

lemma empty_brackets:
  assumes "(b, t) \<in> set punctuation" and "(c, u) \<in> set punctuation"
  shows "spells_all [b, c] [Punct t, Punct u]"
  using any_append [OF any_punct [OF assms(1), of "[]"] any_punct [OF assms(2), of "[]"]] any_all by simp

lemma container_dump:
  assumes p: "(b, t) \<in> set punctuation" "(c, u) \<in> set punctuation"
    and inner: "\<And>ind s. indents s \<Longrightarrow> unat ind \<le> length (ser_indent_string s) \<Longrightarrow>
      \<exists>s' bs ts. f ind s = Inr s' \<and> wrote s bs s' \<and> Q ts \<and> spells_all bs ts"
    and ne: "\<And>ts. Q ts \<Longrightarrow> ts \<noteq> []" and step: "unat step \<le> 512" and s: "indents s" "unat cur \<le> length (ser_indent_string s)"
    and pretty: "D = (if pretty then
        bind_d (f (cur + step) (grow_indent (cur + step) (write_characters [b, 0x0A] s)))
          (\<lambda>s. bind_d (write_indent cur (write_characters [0x0A] s)) (\<lambda>s. Inr (write_characters [c] s)))
      else bind_d (f cur (write_characters [b] s)) (\<lambda>s. Inr (write_characters [c] s)))"
  shows "\<exists>s' bs ts. D = Inr s' \<and> wrote s bs s' \<and> Q ts \<and> spells_all bs (Punct t # ts @ [Punct u])"
proof (cases pretty)
  case False
  have w1: "wrote s [b] (write_characters [b] s)" by (rule wrote_characters)
  note i = wrote_indents [OF w1 s]
  obtain s2 bs ts where d: "f cur (write_characters [b] s) = Inr s2" "wrote (write_characters [b] s) bs s2" "Q ts" "spells_all bs ts"
    using inner i by blast
  have "wrote s (([b] @ bs) @ [c]) (write_characters [c] s2)" using wrote_trans [OF wrote_trans [OF w1 d(2)] wrote_characters] .
  then show ?thesis using bracketed [OF p d(4) ne [OF d(3)], of "[]" "[]"] d(1,3) pretty False by (intro exI [of _ "write_characters [c] s2"] exI) auto
next
  case True
  let ?s1 = "write_characters [b, 0x0A] s"
  have w1: "wrote s [b, 0x0A] ?s1" by (rule wrote_characters)
  note i1 = wrote_indents [OF w1 s]
  let ?s2 = "grow_indent (cur + step) ?s1"
  have w2: "wrote s ([b, 0x0A] @ []) ?s2" using wrote_trans [OF w1 wrote_grow [OF i1 [THEN conjunct1] i1 [THEN conjunct2] step]] .
  have i2: "indents ?s2" "unat (cur + step) \<le> length (ser_indent_string ?s2)"
    using grow_indent_ok [OF i1 [THEN conjunct1] i1 [THEN conjunct2] step] by simp_all
  obtain s3 bs ts where d: "f (cur + step) ?s2 = Inr s3" "wrote ?s2 bs s3" "Q ts" "spells_all bs ts" using inner [OF i2] by blast
  have w4: "wrote s ((([b, 0x0A] @ []) @ bs) @ [0x0A]) (write_characters [0x0A] s3)" using wrote_trans [OF wrote_trans [OF w2 d(2)] wrote_characters] .
  note i4 = wrote_indents [OF w4 s]
  obtain w where w: "list_all ws_byte w" "write_indent cur (write_characters [0x0A] s3) = Inr (write_characters w (write_characters [0x0A] s3))"
    using write_indent_ok [OF i4 [THEN conjunct1] i4 [THEN conjunct2]] by blast
  let ?s' = "write_characters [c] (write_characters w (write_characters [0x0A] s3))"
  have "wrote s ((((([b, 0x0A] @ []) @ bs) @ [0x0A]) @ w) @ [c]) ?s'"
    using wrote_trans [OF wrote_trans [OF w4 wrote_characters] wrote_characters] .
  then have "wrote s (([b] @ [0x0A]) @ bs @ (0x0A # w) @ [c]) ?s'" by simp
  moreover have "spells_all (([b] @ [0x0A]) @ bs @ (0x0A # w) @ [c]) (Punct t # ts @ [Punct u])"
    using w(1) by (intro bracketed [OF p d(4) ne [OF d(3)]]) (simp_all add: ws_byte_def)
  ultimately show ?thesis using d(1,3) w(2) pretty True by (intro exI [of _ ?s'] exI) auto
qed

lemma int_text_spells:
  "spells (int_text (uint (u :: u64))) (Scalar (Number_unsigned u))"
  "sint (i :: 64 word) < 0 \<Longrightarrow> spells (int_text (sint i)) (Scalar (Number_integer i))"
proof -
  have "int_text (uint u) = dec_text (unat u)" by (simp add: int_text_def)
  then show "spells (int_text (uint u)) (Scalar (Number_unsigned u))" using sp_unsigned by simp
  show "sint i < 0 \<Longrightarrow> spells (int_text (sint i)) (Scalar (Number_integer i))" using sp_integer [of i] by (simp add: int_text_def)
qed

lemma word_decimal_bounds: "\<bar>uint (u :: u64)\<bar> < 10 ^ 61" "\<bar>sint (i :: 64 word)\<bar> < 10 ^ 61"
proof -
  show "\<bar>uint u\<bar> < 10 ^ 61" using uint_lt2p [of u] uint_ge_0 [of u] by simp
  show "\<bar>sint i\<bar> < 10 ^ 61" using sint_greater_eq [of i] sint_less [of i] by simp
qed

lemma members_nonempty: "member_tokens ts m \<Longrightarrow> ts \<noteq> []"
  by (cases rule: member_tokens.cases) auto

lemma elements_nonempty:
  assumes "element_tokens us xs"
  shows "us \<noteq> []"
  using assms
proof (cases rule: element_tokens.cases)
  case (e_one v)
  then show ?thesis by (auto elim: value_tokens.cases)
next
  case (e_more ts v us' xs')
  then show ?thesis by simp
qed

lemma value_dumps:
  assumes "unat step \<le> 512"
  shows "dumpable v \<Longrightarrow> dumps fl pretty ascii step v"
proof (induction v)
  case Null
  show ?case unfolding dumps_def using wrote_characters v_scalar spells_all_token [OF sp_null] by fastforce
next
  case (Object m)
  show ?case unfolding dumps_def
  proof (intro allI impI)
    fix cur :: u32 and s assume s: "indents s" "unat cur \<le> length (ser_indent_string s)"
    show "\<exists>s' bs ts. dump fl pretty ascii step cur (Object m) s = Inr s' \<and> wrote s bs s' \<and> value_tokens ts (Object m) \<and> spells_all bs ts"
    proof (cases "m = []")
      case True
      then show ?thesis using wrote_characters v_object_empty empty_brackets [of "0x7B" begin_object "0x7D" end_object]
        by (fastforce simp: punctuation_def)
    next
      case False
      have "dumps fl pretty ascii step (snd e)" if "e \<in> set m" for e using Object.IH [OF that snds.intros] Object.prems that by simp
      then have m: "\<forall>e \<in> set m. text_ok (fst e) \<and> dumps fl pretty ascii step (snd e)" "map_ok m" using Object.prems by auto
      have "\<exists>s' bs ts. dump fl pretty ascii step cur (Object m) s = Inr s' \<and> wrote s bs s' \<and> member_tokens ts m \<and>
          spells_all bs (Punct begin_object # ts @ [Punct end_object])"
        by (rule container_dump [where b = "0x7B" and t = begin_object and c = "0x7D" and u = end_object and pretty = pretty
            and f = "\<lambda>ind. dump_members fl pretty ascii step ind m", OF _ _ members_dump [OF False m(1)]
              members_nonempty assms s]) (use False in \<open>simp_all add: punctuation_def Let_def\<close>)
      then show ?thesis using v_object [of _ m] fold_emplace [of "[]" m] m(2) by fastforce
    qed
  qed
next
  case (Array xs)
  show ?case unfolding dumps_def
  proof (intro allI impI)
    fix cur :: u32 and s assume s: "indents s" "unat cur \<le> length (ser_indent_string s)"
    show "\<exists>s' bs ts. dump fl pretty ascii step cur (Array xs) s = Inr s' \<and> wrote s bs s' \<and> value_tokens ts (Array xs) \<and> spells_all bs ts"
    proof (cases "xs = []")
      case True
      then show ?thesis using wrote_characters v_array_empty empty_brackets [of "0x5B" begin_array "0x5D" end_array]
        by (fastforce simp: punctuation_def)
    next
      case False
      have m: "\<forall>x \<in> set xs. dumps fl pretty ascii step x" using Array by auto
      have "\<exists>s' bs ts. dump fl pretty ascii step cur (Array xs) s = Inr s' \<and> wrote s bs s' \<and> element_tokens ts xs \<and>
          spells_all bs (Punct begin_array # ts @ [Punct end_array])"
        by (rule container_dump [where b = "0x5B" and t = begin_array and c = "0x5D" and u = end_array and pretty = pretty
            and f = "\<lambda>ind. dump_elements fl pretty ascii step ind xs", OF _ _ elements_dump [OF False m]
              elements_nonempty assms s]) (use False in \<open>simp_all add: punctuation_def Let_def\<close>)
      then show ?thesis using v_array [of _ xs] by fastforce
    qed
  qed
next
  case (String t)
  show ?case unfolding dumps_def
  proof (intro allI impI)
    fix cur :: u32 and s assume s: "indents s" "unat cur \<le> length (ser_indent_string s)"
    obtain bs s' where e: "dump_escaped ascii t (write_characters [0x22] s) = Inr s'" "wrote (write_characters [0x22] s) bs s'"
      "spells (0x22 # bs @ [0x22]) (Scalar (String t))" using escaped_spells [of t ascii "write_characters [0x22] s"] String by auto
    have "wrote s (([0x22] @ bs) @ [0x22]) (write_characters [0x22] s')"
      using wrote_trans [OF wrote_trans [OF wrote_characters e(2)] wrote_characters] .
    then show "\<exists>s' bs ts. dump fl pretty ascii step cur (String t) s = Inr s' \<and> wrote s bs s' \<and> value_tokens ts (String t) \<and> spells_all bs ts"
      using e(1) v_scalar spells_all_token [OF e(3)] by fastforce
  qed
next
  case (Boolean b)
  show ?case unfolding dumps_def using wrote_characters v_scalar spells_all_token [OF sp_true] spells_all_token [OF sp_false]
    by (cases b) fastforce+
next
  case (Number_integer i)
  then have "sint i < 0" by simp
  from spells_all_token [OF int_text_spells(2) [OF this]] show ?case unfolding dumps_def
    using wrote_characters v_scalar dump_integer_text [OF word_decimal_bounds(2)] by fastforce
next
  case (Number_unsigned u)
  show ?case unfolding dumps_def
    using wrote_characters v_scalar spells_all_token [OF int_text_spells(1)] dump_integer_text [OF word_decimal_bounds(1)] by fastforce
qed simp_all

section \<open>The round trip\<close>

lemma serializer_new_indents: "ws_byte c \<Longrightarrow> indents (serializer_new c)"
  by (simp add: indents_def serializer_new_def list_all_iff)

lemma json_dump_spells:
  assumes "dumpable v" and "indent \<le> 512" and "ws_byte c"
  shows "\<exists>bs ts. json_dump fl indent c ascii v = Inr bs \<and> value_tokens ts v \<and> spells_all bs ts"
proof -
  let ?s = "serializer_new c"
  have i: "indents ?s" "unat (0 :: u32) \<le> length (ser_indent_string ?s)" using serializer_new_indents [OF assms(3)] by simp_all
  show ?thesis
  proof (cases "0 \<le> indent")
    case True
    then obtain n where "indent = int n" by (rule nonneg_int_cases)
    then have "unat (word_of_int indent :: u32) \<le> 512" using assms(2) by simp
    from dumpsD [OF value_dumps [OF this assms(1)] i, of fl True ascii] obtain s' bs ts where
      "dump fl True ascii (word_of_int indent) 0 v ?s = Inr s'" "wrote ?s bs s'" "value_tokens ts v" "spells_all bs ts" .
    then show ?thesis using True by (auto simp: json_dump_def wrote_def serializer_new_def)
  next
    case False
    from dumpsD [OF value_dumps [of 0, OF _ assms(1)] i, of fl False ascii] obtain s' bs ts where
      "dump fl False ascii 0 0 v ?s = Inr s'" "wrote ?s bs s'" "value_tokens ts v" "spells_all bs ts" by auto
    then show ?thesis using False by (auto simp: json_dump_def wrote_def serializer_new_def)
  qed
qed

text \<open>
  C15: Writing a value and reading it back gives the value, compact or indented by up to 512 whitespace
  characters, with non-ASCII characters escaped or not: the serializer neither throws nor leaves one of its buffers, and
  the reader returns the same value and stops right behind it. The value may be any well-formed one
  without floating-point numbers and without a signed zero.
\<close>

theorem dump_parse_roundtrip:
  assumes "dumpable v" and "indent \<le> 512" and "ws_byte c" and "number_follow r"
  shows "\<exists>bs. json_dump fl indent c ensure_ascii v = Inr bs \<and> stream_in (bs @ r) = Some (Inr (v, r))"
  using json_dump_spells [OF assms(1-3), of fl ensure_ascii] assms(4) stream_in_spelled unfolding spells_all_def by blast

theorem dump_parse_roundtrip_witness:
  "\<exists>bs. json_dump (\<lambda>x. []) 4 0x20 True (Object [(str_bytes ''k'', Array [Number_integer (- 5), String [0xC3, 0xA9]])]) = Inr bs \<and>
     stream_in (bs @ [0x0A]) = Some (Inr (Object [(str_bytes ''k'', Array [Number_integer (- 5), String [0xC3, 0xA9]])], [0x0A]))"
proof (rule dump_parse_roundtrip)
  have "text_ok (str_bytes ''k'')" unfolding text_ok_def
    by (intro exI [of _ "[0x6B]"]) (simp add: scalar_def utf8_def utf8_nats_def str_bytes_def)
  moreover have "text_ok [0xC3, 0xA9]" unfolding text_ok_def
    by (intro exI [of _ "[0xE9]"]) (simp add: scalar_def utf8_def utf8_nats_def)
  ultimately show "dumpable (Object [(str_bytes ''k'', Array [Number_integer (- 5), String [0xC3, 0xA9]])])" by (simp add: map_ok_def)
qed (simp_all add: ws_byte_def number_follow_def is_digit_def)

text \<open>
  Beyond that the indentation string is too short: it is doubled once, so an indentation of more than 1025
  reads behind it.
\<close>

lemma dump_wide_indent_overread:
  assumes "1025 < indent" and "indent < 2 ^ 31"
  shows "json_dump fl indent c ascii (Array (v # xs)) = Inl (Undefined OutOfRange)"
proof -
  have "0 \<le> indent" using assms(1) by simp
  then obtain n where n: "indent = int n" by (rule nonneg_int_cases)
  then have "unat (word_of_int indent :: u32) = n" using assms(2) by simp
  then have "write_indent (word_of_int indent) (grow_indent (word_of_int indent) (write_characters [0x5B, 0x0A] (serializer_new c))) = Inl (Undefined OutOfRange)"
    using assms(1) n by (simp add: write_indent_def grow_indent_def serializer_new_def write_characters_def)
  then show ?thesis using \<open>0 \<le> indent\<close> by (simp add: json_dump_def Let_def)
qed

end
