(* ===== verification/Json_Config.thy ===== *)
theory Json_Config
  imports Json_Roundtrip Application Nano_Logger
begin

text \<open>
  The configuration file: how \<open>main\<close> reads it (\<open>main.cpp\<close>), how \<open>at\<close> and the conversions of the JSON library
  (\<open>json/nlohmann_json.hpp\<close>) take the settings out of it, and the start of the program with the settings of
  the file. Arguments are evaluated from left to right, one of the orders the language allows; it matters only for
  which of two exceptions is thrown.
\<close>

section \<open>Access and conversion\<close>

definition json_at :: "bytes \<Rightarrow> json \<Rightarrow> json_exception + json" where
  "json_at key j =
     (case j of
        Object m \<Rightarrow>
          (case map_of m key of
             Some v \<Rightarrow> Inr v
           | None \<Rightarrow> Inl (out_of_range_create 403 (str_bytes ''key '' @ [0x27] @ key @ [0x27] @ str_bytes '' not found'')))
      | _ \<Rightarrow> Inl (type_error_create 304 (str_bytes ''cannot use at() with '' @ str_bytes (type_name j))))"

text \<open>A conversion throws, or converts a floating-point number that the target type cannot hold.\<close>

datatype conv_fault = Throws json_exception | Bad_conversion

type_synonym 'a conv = "conv_fault + 'a"

definition bind_c :: "'a conv \<Rightarrow> ('a \<Rightarrow> 'b conv) \<Rightarrow> 'b conv" where
  "bind_c r f = (case r of Inl e \<Rightarrow> Inl e | Inr x \<Rightarrow> f x)"

definition conv_at :: "bytes \<Rightarrow> json \<Rightarrow> json conv" where
  "conv_at key j = (case json_at key j of Inl e \<Rightarrow> Inl (Throws e) | Inr v \<Rightarrow> Inr v)"

definition type_must_be :: "string \<Rightarrow> json \<Rightarrow> 'a conv" where
  "type_must_be what j = Inl (Throws (type_error_create 302 (str_bytes ''type must be '' @ str_bytes what @ str_bytes '', but is '' @ str_bytes (type_name j))))"

text \<open>\<open>static_cast\<close> of a floating-point number to an integer type with the range from \<open>lo\<close> to \<open>hi\<close>: rounded towards zero.\<close>

definition cast_float :: "int \<Rightarrow> int \<Rightarrow> rat \<Rightarrow> int conv" where
  "cast_float lo hi x =
     (let t = (if 0 \<le> x then \<lfloor>x\<rfloor> else - \<lfloor>- x\<rfloor>) in if lo \<le> t \<and> t \<le> hi then Inr t else Inl Bad_conversion)"

definition get_arithmetic_value :: "json \<Rightarrow> u64 conv" where
  "get_arithmetic_value j =
     (case j of
        Number_unsigned u \<Rightarrow> Inr u
      | Number_integer i \<Rightarrow> Inr i
      | Number_float x \<Rightarrow> bind_c (cast_float 0 (2 ^ 64 - 1) x) (\<lambda>t. Inr (word_of_int t))
      | _ \<Rightarrow> type_must_be ''number'' j)"

definition from_json_string :: "json \<Rightarrow> bytes conv" where
  "from_json_string j = (case j of String s \<Rightarrow> Inr s | _ \<Rightarrow> type_must_be ''string'' j)"

text \<open>The overload for the other arithmetic types, which takes booleans too, at \<open>int\<close> and at \<open>uint32_t\<close>.\<close>

definition from_json_arithmetic :: "int \<Rightarrow> int \<Rightarrow> json \<Rightarrow> u32 conv" where
  "from_json_arithmetic lo hi j =
     (case j of
        Number_unsigned u \<Rightarrow> Inr (ucast u)
      | Number_integer i \<Rightarrow> Inr (ucast i)
      | Number_float x \<Rightarrow> bind_c (cast_float lo hi x) (\<lambda>t. Inr (word_of_int t))
      | Boolean b \<Rightarrow> Inr (if b then 1 else 0)
      | _ \<Rightarrow> type_must_be ''number'' j)"

definition from_json_int :: "json \<Rightarrow> int conv" where
  "from_json_int j = bind_c (from_json_arithmetic (- (2 ^ 31)) (2 ^ 31 - 1) j) (\<lambda>w. Inr (sint w))"

definition from_json_uint32 :: "json \<Rightarrow> u32 conv" where
  "from_json_uint32 j = from_json_arithmetic 0 (2 ^ 32 - 1) j"

fun from_json_array_impl :: "(json \<Rightarrow> 'a conv) \<Rightarrow> json list \<Rightarrow> 'a list conv" where
  "from_json_array_impl get [] = Inr []"
| "from_json_array_impl get (j # js) = bind_c (get j) (\<lambda>x. bind_c (from_json_array_impl get js) (\<lambda>xs. Inr (x # xs)))"

definition from_json_vector :: "(json \<Rightarrow> 'a conv) \<Rightarrow> json \<Rightarrow> 'a list conv" where
  "from_json_vector get j = (case j of Array xs \<Rightarrow> from_json_array_impl get xs | _ \<Rightarrow> type_must_be ''array'' j)"

section \<open>The program's settings\<close>

definition config_of_json :: "json \<Rightarrow> conv_fault config" where
  "config_of_json cfg =
     \<lparr>cfg_ports = bind_c (conv_at (str_bytes ''ports'') cfg) (from_json_vector from_json_int),
      cfg_worker_num = bind_c (conv_at (str_bytes ''worker_num'') cfg) get_arithmetic_value,
      cfg_server_conn_worker_num = bind_c (conv_at (str_bytes ''server_conn_worker_num'') cfg) get_arithmetic_value,
      cfg_client_conn_worker_num = bind_c (conv_at (str_bytes ''client_conn_worker_num'') cfg) get_arithmetic_value,
      cfg_per_conn_num = bind_c (conv_at (str_bytes ''per_conn_num'') cfg) get_arithmetic_value\<rparr>"

text \<open>
  \<open>from_file\<close>: the bytes of the file; a file that does not open has none. The model of \<open>main\<close> gives the statement in
  which it ended and its result: the file is read, the logger set up, the application set up, and only then
  the ports are opened (\<open>os\<close>) by its \<open>start\<close>. Exceptions are not caught.
\<close>

datatype main_fault = Uncaught json_exception | Conversion | Faulted fault

datatype main_stage = In_from_file | In_initialize | In_set_context | In_start

definition from_file :: "bytes \<Rightarrow> (json_exception + json) option" where
  "from_file file = map_option (map_sum id fst) (stream_in file)"

definition main_conv :: "'a conv \<Rightarrow> main_fault + 'a" where
  "main_conv r = (case r of Inl (Throws e) \<Rightarrow> Inl (Uncaught e) | Inl Bad_conversion \<Rightarrow> Inl Conversion | Inr x \<Rightarrow> Inr x)"

definition main_logger :: "log_world \<Rightarrow> json \<Rightarrow> log_system \<Rightarrow> log_system conv" where
  "main_logger w cfg s =
     bind_c (bind_c (conv_at (str_bytes ''log_path'') cfg) from_json_string) (\<lambda>path.
       bind_c (bind_c (conv_at (str_bytes ''log_name'') cfg) from_json_string) (\<lambda>name.
         bind_c (bind_c (conv_at (str_bytes ''log_roll_size'') cfg) from_json_uint32) (\<lambda>mb.
           Inr (Logger_initialize (NanoLogger_guaranteed w path name mb) s))))"

definition main_run :: "bytes \<Rightarrow> log_world \<Rightarrow> (nat \<Rightarrow> nat) \<Rightarrow> garbage \<Rightarrow> (u16 \<Rightarrow> port_outcome) \<Rightarrow> log_system \<Rightarrow>
    (main_stage \<times> (main_fault + log_system \<times> application)) option" where
  "main_run file w random g os s =
     map_option (\<lambda>r.
       case r of
         Inl e \<Rightarrow> (In_from_file, Inl (Uncaught e))
       | Inr cfg \<Rightarrow>
           (case main_conv (main_logger w cfg s) of
              Inl e \<Rightarrow> (In_initialize, Inl e)
            | Inr s \<Rightarrow>
                (case main_conv (Application_set_context (config_of_json cfg) (main_deliver_proc random) Application_new) of
                   Inl e \<Rightarrow> (In_set_context, Inl e)
                 | Inr a \<Rightarrow> (In_start, case Application_start g os a of Inl e \<Rightarrow> Inl (Faulted e) | Inr a \<Rightarrow> Inr (s, a)))))
       (from_file file)"

definition main_from_file :: "bytes \<Rightarrow> log_world \<Rightarrow> (nat \<Rightarrow> nat) \<Rightarrow> garbage \<Rightarrow> (u16 \<Rightarrow> port_outcome) \<Rightarrow> log_system \<Rightarrow>
    (main_fault + log_system \<times> application) option" where
  "main_from_file file w random g os s = map_option snd (main_run file w random g os s)"

section \<open>Texts with a layout of their own\<close>

text \<open>
  The tokens of a value whose objects list their members in the order of the file, and the value the
  parser makes of them.
\<close>

fun tokens_of :: "json \<Rightarrow> token list"
and member_tokens_of :: "(bytes \<times> json) list \<Rightarrow> token list"
and element_tokens_of :: "json list \<Rightarrow> token list"
where
  "tokens_of (Object m) = Punct begin_object # member_tokens_of m @ [Punct end_object]"
| "tokens_of (Array xs) = Punct begin_array # element_tokens_of xs @ [Punct end_array]"
| "tokens_of Null = [Scalar Null]"
| "tokens_of (String s) = [Scalar (String s)]"
| "tokens_of (Boolean b) = [Scalar (Boolean b)]"
| "tokens_of (Number_integer i) = [Scalar (Number_integer i)]"
| "tokens_of (Number_unsigned u) = [Scalar (Number_unsigned u)]"
| "tokens_of (Number_float x) = [Scalar (Number_float x)]"
| "tokens_of Discarded = [Scalar Discarded]"
| "member_tokens_of [] = []"
| "member_tokens_of ((k, v) # m) =
     Scalar (String k) # Punct name_separator # tokens_of v @ (if m = [] then [] else Punct value_separator # member_tokens_of m)"
| "element_tokens_of [] = []"
| "element_tokens_of (x # xs) = tokens_of x @ (if xs = [] then [] else Punct value_separator # element_tokens_of xs)"

fun sort_members :: "json \<Rightarrow> json" where
  "sort_members (Object m) = Object (fold (\<lambda>(k, v). map_emplace k v) (map (\<lambda>(k, v). (k, sort_members v)) m) [])"
| "sort_members (Array xs) = Array (map sort_members xs)"
| "sort_members v = v"

lemma member_tokens_of_value:
  "m \<noteq> [] \<Longrightarrow> (\<And>k v. (k, v) \<in> set m \<Longrightarrow> value_tokens (tokens_of v) (sort_members v)) \<Longrightarrow>
   member_tokens (member_tokens_of m) (map (\<lambda>(k, v). (k, sort_members v)) m)"
proof (induction m)
  case (Cons e m)
  obtain k v where e: "e = (k, v)" by fastforce
  have v: "value_tokens (tokens_of v) (sort_members v)" using Cons.prems(2) e by auto
  show ?case
  proof (cases "m = []")
    case True
    then show ?thesis using m_one [OF v, of k] e by simp
  next
    case False
    then have "member_tokens (member_tokens_of m) (map (\<lambda>(k, v). (k, sort_members v)) m)" using Cons.IH Cons.prems(2) by auto
    then show ?thesis using m_more [OF v, of _ _ k] e False by simp
  qed
qed simp

lemma element_tokens_of_value:
  "xs \<noteq> [] \<Longrightarrow> (\<And>x. x \<in> set xs \<Longrightarrow> value_tokens (tokens_of x) (sort_members x)) \<Longrightarrow>
   element_tokens (element_tokens_of xs) (map sort_members xs)"
proof (induction xs)
  case (Cons x xs)
  have v: "value_tokens (tokens_of x) (sort_members x)" using Cons.prems(2) by auto
  show ?case
  proof (cases "xs = []")
    case True
    then show ?thesis using e_one [OF v] by simp
  next
    case False
    then have "element_tokens (element_tokens_of xs) (map sort_members xs)" using Cons.IH Cons.prems(2) by auto
    then show ?thesis using e_more [OF v] False by simp
  qed
qed simp

lemma tokens_of_value: "value_tokens (tokens_of v) (sort_members v)"
proof (induction v)
  case (Object m)
  then have "value_tokens (tokens_of v) (sort_members v)" if "(k, v) \<in> set m" for k v using that by (metis snds.intros snd_conv)
  then show ?case using v_object_empty v_object [OF member_tokens_of_value [of m]] by (cases "m = []") auto
next
  case (Array xs)
  then show ?case using v_array_empty v_array [OF element_tokens_of_value [of xs]] by (cases "xs = []") auto
qed (auto intro: v_scalar)

text \<open>A text given as its pieces: whitespace and a token, whose strings need no escape.\<close>

fun spell :: "token \<Rightarrow> bytes" where
  "spell (Punct t) = (case find (\<lambda>p. snd p = t) punctuation of Some p \<Rightarrow> [fst p] | None \<Rightarrow> [])"
| "spell (Scalar Null) = str_bytes ''null''"
| "spell (Scalar (Boolean b)) = (if b then str_bytes ''true'' else str_bytes ''false'')"
| "spell (Scalar (String s)) = 0x22 # s @ [0x22]"
| "spell (Scalar (Number_unsigned u)) = dec_text (unat u)"
| "spell t = []"

fun plain_token :: "token \<Rightarrow> bool" where
  "plain_token (Punct t) = (t \<in> set (map snd punctuation))"
| "plain_token (Scalar Null) = True"
| "plain_token (Scalar (Boolean b)) = True"
| "plain_token (Scalar (String s)) = list_all (\<lambda>c. 0x20 \<le> c \<and> c \<le> 0x7E \<and> c \<noteq> 0x22 \<and> c \<noteq> 0x5C) s"
| "plain_token (Scalar (Number_unsigned u)) = True"
| "plain_token t = False"

definition pieces_text :: "(bytes \<times> token) list \<Rightarrow> bytes" where
  "pieces_text ps = concat (map (\<lambda>(w, t). w @ spell t) ps)"

fun pieces_ok :: "(bytes \<times> token) list \<Rightarrow> bool" where
  "pieces_ok [] = True"
| "pieces_ok ((w, t) # ps) =
     (list_all ws_byte w \<and> plain_token t \<and> (is_number t \<longrightarrow> number_follow (pieces_text ps)) \<and> pieces_ok ps)"

lemma ascii_body:
  "list_all (\<lambda>c. 0x20 \<le> c \<and> c \<le> 0x7E \<and> c \<noteq> 0x22 \<and> c \<noteq> 0x5C) s \<Longrightarrow> string_body s (map unat s) \<and> utf8_text (map unat s) = s"
proof (induction s)
  case (Cons c s)
  then have c: "0x20 \<le> c" "c \<le> 0x7E" "c \<noteq> 0x22" "c \<noteq> 0x5C" by simp_all
  have u: "0x20 \<le> unat c" "unat c \<le> 0x7E" using c(1,2) by (simp_all add: word_le_nat_alt)
  have "unat c \<noteq> 0x22" "unat c \<noteq> 0x5C" using c(3,4) by (auto simp: word_unat_eq_iff)
  then have "plain (unat c)" using u by (simp add: plain_def scalar_def)
  moreover have "utf8 (unat c) = [c]" using u by (simp add: utf8_def utf8_nats_def)
  ultimately have "string_item [c] (unat c)" using item_plain by metis
  then show ?case using body_Cons [of "[c]"] Cons \<open>utf8 (unat c) = [c]\<close> by simp
qed (simp add: body_Nil)

lemma plain_token_spells: "plain_token t \<Longrightarrow> spells (spell t) t"
proof (induction t rule: plain_token.induct)
  case (1 t)
  then show ?case by (auto simp: punctuation_def intro!: sp_punct)
next
  case (4 s)
  then show ?case using ascii_body [of s] sp_string [of s "map unat s"] by simp
qed (auto intro: spells.intros)

lemma pieces_spelled: "pieces_ok ps \<Longrightarrow> spelled (pieces_text ps) (map snd ps) []"
proof (induction ps rule: pieces_ok.induct)
  case (2 w t ps)
  then show ?case using spelled_Cons [of w "spell t" t "pieces_text ps"] plain_token_spells by (simp add: pieces_text_def)
qed (simp add: pieces_text_def spelled_Nil)

lemma read_pieces: "pieces_ok ps \<Longrightarrow> map snd ps = tokens_of v \<Longrightarrow> stream_in (pieces_text ps) = Some (Inr (sort_members v, []))"
  using stream_in_spelled [OF pieces_spelled] tokens_of_value by metis

section \<open>Starting with the settings of a file\<close>

lemma bind_c_simps [simp]: "bind_c (Inl e) f = Inl e" "bind_c (Inr x) f = f x"
  by (simp_all add: bind_c_def)

lemma conv_at_found: "map_of m key = Some v \<Longrightarrow> conv_at key (Object m) = Inr v"
  by (simp add: conv_at_def json_at_def)

lemma from_json_int_port: "p < 2 ^ 31 \<Longrightarrow> from_json_int (Number_unsigned (of_nat p)) = Inr (int p)"
proof -
  assume p: "p < 2 ^ 31"
  have "ucast (of_nat p :: u64) = (of_nat p :: u32)" using p by (simp add: unsigned_of_nat take_bit_nat_eq_self)
  moreover have "sint (of_nat p :: u32) = int p" using p by (simp add: signed_of_nat signed_take_bit_int_eq_self)
  ultimately show ?thesis by (simp add: from_json_int_def from_json_arithmetic_def)
qed

lemma from_json_ports:
  "\<forall>p \<in> set ports. p < 2 ^ 31 \<Longrightarrow> from_json_vector from_json_int (Array (map (\<lambda>p. Number_unsigned (of_nat p)) ports)) = Inr (map int ports)"
proof -
  have "\<forall>p \<in> set ports. p < 2 ^ 31 \<Longrightarrow> from_json_array_impl from_json_int (map (\<lambda>p. Number_unsigned (of_nat p)) ports) = Inr (map int ports)"
    by (induction ports) (simp_all add: from_json_int_port del: of_nat_numeral)
  then show "\<forall>p \<in> set ports. p < 2 ^ 31 \<Longrightarrow> ?thesis" by (simp add: from_json_vector_def)
qed

text \<open>
  C11: A configuration file that gives every setting starts the program with exactly these settings:
  the logger with the path, the name and the roll size of the file, the server on its ports with its numbers of
  workers, the client with its numbers. Whatever else the file says is ignored.
\<close>

theorem config_file_starts:
  assumes "stream_in file = Some (Inr (Object m, r))"
    and "map_of m (str_bytes ''ports'') = Some (Array (map (\<lambda>p. Number_unsigned (of_nat p)) ports))" and "\<forall>p \<in> set ports. p < 2 ^ 31"
    and "map_of m (str_bytes ''worker_num'') = Some (Number_unsigned worker_num)"
    and "map_of m (str_bytes ''server_conn_worker_num'') = Some (Number_unsigned server_conn)"
    and "map_of m (str_bytes ''client_conn_worker_num'') = Some (Number_unsigned client_conn)"
    and "map_of m (str_bytes ''per_conn_num'') = Some (Number_unsigned per_conn)"
    and "map_of m (str_bytes ''log_path'') = Some (String path)" and "map_of m (str_bytes ''log_name'') = Some (String name)"
    and "map_of m (str_bytes ''log_roll_size'') = Some (Number_unsigned mb)"
  shows "main_from_file file w random g os s = Some
    (case Application_start g os (Application_set_logic_proc_app (main_deliver_proc random)
        (Server_new (map int ports) worker_num server_conn) (Client_new audit_peers client_conn per_conn True) Application_new) of
       Inl e \<Rightarrow> Inl (Faulted e)
     | Inr a \<Rightarrow> Inr (Logger_initialize (NanoLogger_guaranteed w path name (ucast mb)) s, a))"
proof -
  have c: "config_of_json (Object m) = \<lparr>cfg_ports = Inr (map int ports), cfg_worker_num = Inr worker_num,
      cfg_server_conn_worker_num = Inr server_conn, cfg_client_conn_worker_num = Inr client_conn, cfg_per_conn_num = Inr per_conn\<rparr>"
    using conv_at_found [OF assms(2)] conv_at_found [OF assms(4)] conv_at_found [OF assms(5)] conv_at_found [OF assms(6)]
      conv_at_found [OF assms(7)] from_json_ports [OF assms(3)] by (simp add: config_of_json_def get_arithmetic_value_def)
  have "main_logger w (Object m) s = Inr (Logger_initialize (NanoLogger_guaranteed w path name (ucast mb)) s)"
    using conv_at_found [OF assms(8)] conv_at_found [OF assms(9)] conv_at_found [OF assms(10)]
    by (simp add: main_logger_def from_json_string_def from_json_uint32_def from_json_arithmetic_def)
  moreover have "from_file file = Some (Inr (Object m))" using assms(1) by (simp add: from_file_def)
  ultimately show ?thesis using c by (simp add: main_from_file_def main_run_def main_conv_def Application_set_context_def split: sum.splits)
qed

lemma bind_c_Inr: "bind_c r f = Inr y \<longleftrightarrow> (\<exists>x. r = Inr x \<and> f x = Inr y)"
  by (cases r) auto

text \<open>
  What the program needs of its file: the settings by name with the kind of value. Numbers are written
  without fraction and exponent here; a floating-point number is cast, which is undefined when it is out of
  range.
\<close>

datatype setting_kind = TextSetting | NumberSetting | CountSetting | PortsSetting

definition settings :: "(string \<times> setting_kind) list" where
  "settings =
     [(''log_path'', TextSetting), (''log_name'', TextSetting), (''log_roll_size'', NumberSetting), (''ports'', PortsSetting),
      (''worker_num'', CountSetting), (''server_conn_worker_num'', CountSetting), (''client_conn_worker_num'', CountSetting),
      (''per_conn_num'', CountSetting)]"

definition is_integer :: "json \<Rightarrow> bool" where
  "is_integer v = (case v of Number_unsigned _ \<Rightarrow> True | Number_integer _ \<Rightarrow> True | _ \<Rightarrow> False)"

definition is_float :: "json \<Rightarrow> bool" where
  "is_float v = (case v of Number_float _ \<Rightarrow> True | _ \<Rightarrow> False)"

definition is_bool :: "json \<Rightarrow> bool" where
  "is_bool v = (case v of Boolean _ \<Rightarrow> True | _ \<Rightarrow> False)"

definition no_float :: "json \<Rightarrow> bool" where
  "no_float v = (case v of Array xs \<Rightarrow> \<forall>x \<in> set xs. \<not> is_float x | _ \<Rightarrow> \<not> is_float v)"

definition setting_ok :: "setting_kind \<Rightarrow> json \<Rightarrow> bool" where
  "setting_ok k v =
     (case k of
        TextSetting \<Rightarrow> (\<exists>s. v = String s)
      | NumberSetting \<Rightarrow> is_integer v \<or> is_bool v
      | CountSetting \<Rightarrow> is_integer v
      | PortsSetting \<Rightarrow> (\<exists>xs. v = Array xs \<and> (\<forall>x \<in> set xs. is_integer x \<or> is_bool x)))"

text \<open>A conversion of a value without floating-point numbers succeeds or throws.\<close>

definition throws_unless :: "bool \<Rightarrow> 'a conv \<Rightarrow> bool" where
  "throws_unless ok r = (case r of Inl (Throws e) \<Rightarrow> \<not> ok | Inl Bad_conversion \<Rightarrow> False | Inr x \<Rightarrow> ok)"

lemma throws_unless_simps [simp]:
  "throws_unless ok (Inl (Throws e)) = (\<not> ok)" "throws_unless ok (Inr x) = ok"
  "throws_unless ok (type_must_be what j) = (\<not> ok)"
  by (simp_all add: throws_unless_def type_must_be_def)

lemma throws_unless_bind:
  "throws_unless a r \<Longrightarrow> (\<And>x. r = Inr x \<Longrightarrow> throws_unless b (f x)) \<Longrightarrow> throws_unless (a \<and> b) (bind_c r f)"
  by (cases r) (auto simp: throws_unless_def split: conv_fault.splits sum.splits)

lemma convert_text: "throws_unless (setting_ok TextSetting v) (from_json_string v)"
  by (cases v) (simp_all add: from_json_string_def setting_ok_def)

lemma convert_count: "\<not> is_float v \<Longrightarrow> throws_unless (setting_ok CountSetting v) (get_arithmetic_value v)"
  by (cases v) (simp_all add: get_arithmetic_value_def setting_ok_def is_integer_def is_float_def)

lemma convert_arithmetic: "\<not> is_float v \<Longrightarrow> throws_unless (is_integer v \<or> is_bool v) (from_json_arithmetic lo hi v)"
  by (cases v) (simp_all add: from_json_arithmetic_def is_integer_def is_bool_def is_float_def)

lemma convert_int: "\<not> is_float v \<Longrightarrow> throws_unless (is_integer v \<or> is_bool v) (from_json_int v)"
proof -
  assume "\<not> is_float v"
  then have "throws_unless ((is_integer v \<or> is_bool v) \<and> True) (from_json_int v)"
    unfolding from_json_int_def by (intro throws_unless_bind convert_arithmetic) simp_all
  then show ?thesis by simp
qed

lemma convert_ints:
  "\<forall>x \<in> set xs. \<not> is_float x \<Longrightarrow> throws_unless (\<forall>x \<in> set xs. is_integer x \<or> is_bool x) (from_json_array_impl from_json_int xs)"
proof (induction xs)
  case (Cons x xs)
  have b: "throws_unless ((\<forall>x \<in> set xs. is_integer x \<or> is_bool x) \<and> True) (bind_c (from_json_array_impl from_json_int xs) (\<lambda>xs. Inr (y # xs)))" for y
    using Cons by (intro throws_unless_bind) simp_all
  have "throws_unless ((is_integer x \<or> is_bool x) \<and> (\<forall>x \<in> set xs. is_integer x \<or> is_bool x)) (from_json_array_impl from_json_int (x # xs))"
    unfolding from_json_array_impl.simps using Cons.prems b by (intro throws_unless_bind convert_int) simp_all
  then show ?case by simp
qed simp

lemma convert_ports: "no_float v \<Longrightarrow> throws_unless (setting_ok PortsSetting v) (from_json_vector from_json_int v)"
  using convert_ints by (cases v) (auto simp: from_json_vector_def setting_ok_def no_float_def is_float_def)

lemma at_non_object: "\<nexists>m. v = Object m \<Longrightarrow> \<exists>e. conv_at key v = Inl (Throws e)"
  by (cases v) (simp_all add: conv_at_def json_at_def)

text \<open>A setting of an object: present and of its kind, or an exception.\<close>

definition has_setting :: "(bytes \<times> json) list \<Rightarrow> string \<times> setting_kind \<Rightarrow> bool" where
  "has_setting m = (\<lambda>(key, kind). \<exists>v. map_of m (str_bytes key) = Some v \<and> setting_ok kind v)"

lemma at_setting:
  assumes "\<And>v. map_of m (str_bytes key) = Some v \<Longrightarrow> throws_unless (setting_ok kind v) (f v)"
  shows "throws_unless (has_setting m (key, kind)) (bind_c (conv_at (str_bytes key) (Object m)) f)"
  using assms by (cases "map_of m (str_bytes key)") (simp_all add: conv_at_def json_at_def has_setting_def)

lemma logger_throws:
  assumes "\<And>key v. key \<in> fst ` set settings \<Longrightarrow> map_of m (str_bytes key) = Some v \<Longrightarrow> no_float v"
  shows "throws_unless (has_setting m (''log_path'', TextSetting) \<and> has_setting m (''log_name'', TextSetting)
      \<and> has_setting m (''log_roll_size'', NumberSetting)) (main_logger w (Object m) s)"
proof -
  have roll: "throws_unless (has_setting m (''log_roll_size'', NumberSetting))
      (bind_c (conv_at (str_bytes ''log_roll_size'') (Object m)) from_json_uint32)"
  proof (rule at_setting)
    fix v
    assume "map_of m (str_bytes ''log_roll_size'') = Some v"
    then have "no_float v" using assms by (force simp: settings_def)
    then have "\<not> is_float v" by (auto simp: no_float_def is_float_def split: json.splits)
    then show "throws_unless (setting_ok NumberSetting v) (from_json_uint32 v)"
      using convert_arithmetic by (simp add: from_json_uint32_def setting_ok_def)
  qed
  note path = at_setting [OF convert_text, of m "''log_path''"]
  note name = at_setting [OF convert_text, of m "''log_name''"]
  have "throws_unless (has_setting m (''log_name'', TextSetting) \<and> has_setting m (''log_roll_size'', NumberSetting) \<and> True)
     (bind_c (bind_c (conv_at (str_bytes ''log_name'') (Object m)) from_json_string) (\<lambda>name.
         bind_c (bind_c (conv_at (str_bytes ''log_roll_size'') (Object m)) from_json_uint32) (\<lambda>mb.
           Inr (Logger_initialize (NanoLogger_guaranteed w path name mb) s))))" for path
    by (intro throws_unless_bind name roll) simp
  note rest = this
  have "throws_unless (has_setting m (''log_path'', TextSetting) \<and> has_setting m (''log_name'', TextSetting)
      \<and> has_setting m (''log_roll_size'', NumberSetting) \<and> True) (main_logger w (Object m) s)"
    unfolding main_logger_def by (rule throws_unless_bind [OF path rest])
  then show ?thesis by simp
qed

lemma context_throws:
  assumes "\<And>key v. key \<in> fst ` set settings \<Longrightarrow> map_of m (str_bytes key) = Some v \<Longrightarrow> no_float v"
  shows "throws_unless (has_setting m (''ports'', PortsSetting)
      \<and> (\<forall>key \<in> {''worker_num'', ''server_conn_worker_num'', ''client_conn_worker_num'', ''per_conn_num''}. has_setting m (key, CountSetting)))
      (Application_set_context (config_of_json (Object m)) proc a)"
proof -
  have count: "throws_unless (has_setting m (key, CountSetting)) (bind_c (conv_at (str_bytes key) (Object m)) get_arithmetic_value)"
    if "key \<in> fst ` set settings" for key
  proof (rule at_setting)
    fix v
    assume "map_of m (str_bytes key) = Some v"
    then have "no_float v" using assms that by blast
    then have "\<not> is_float v" by (auto simp: no_float_def is_float_def split: json.splits)
    then show "throws_unless (setting_ok CountSetting v) (get_arithmetic_value v)" by (rule convert_count)
  qed
  have ports: "throws_unless (has_setting m (''ports'', PortsSetting)) (bind_c (conv_at (str_bytes ''ports'') (Object m)) (from_json_vector from_json_int))"
    using assms by (intro at_setting convert_ports) (force simp: settings_def)
  have counts: "throws_unless (has_setting m (''worker_num'', CountSetting)) (cfg_worker_num (config_of_json (Object m)))"
      "throws_unless (has_setting m (''server_conn_worker_num'', CountSetting)) (cfg_server_conn_worker_num (config_of_json (Object m)))"
      "throws_unless (has_setting m (''client_conn_worker_num'', CountSetting)) (cfg_client_conn_worker_num (config_of_json (Object m)))"
      "throws_unless (has_setting m (''per_conn_num'', CountSetting)) (cfg_per_conn_num (config_of_json (Object m)))"
      "throws_unless (has_setting m (''ports'', PortsSetting)) (cfg_ports (config_of_json (Object m)))"
    using ports by (simp_all add: config_of_json_def count settings_def)
  then show ?thesis
    by (auto simp: Application_set_context_def throws_unless_def split: sum.splits conv_fault.splits)
qed

lemma set_context_fault:
  "Application_set_context c proc a = Inl e \<Longrightarrow> Application_set_context c proc' a' = Inl e"
  by (auto simp: Application_set_context_def split: sum.splits)

lemma main_run_stops:
  assumes "throws_unless ok1 (main_logger w v s)" and "throws_unless ok2 (Application_set_context (config_of_json v) (main_deliver_proc id) Application_new)"
    and "\<not> (ok1 \<and> ok2)" and "from_file file = Some (Inr v)"
  shows "\<exists>st e. st \<in> {In_from_file, In_initialize, In_set_context} \<and> (\<forall>random g os. main_run file w random g os s = Some (st, Inl (Uncaught e)))"
proof (cases ok1)
  case False
  then obtain e where "main_logger w v s = Inl (Throws e)"
    using assms(1) by (auto simp: throws_unless_def split: sum.splits conv_fault.splits)
  then show ?thesis using assms(4) by (intro exI [of _ In_initialize] exI [of _ e]) (simp add: main_run_def main_conv_def)
next
  case True
  then obtain s' where l: "main_logger w v s = Inr s'"
    using assms(1) by (auto simp: throws_unless_def split: sum.splits conv_fault.splits)
  obtain e where "Application_set_context (config_of_json v) (main_deliver_proc id) Application_new = Inl (Throws e)"
    using True assms(2,3) by (auto simp: throws_unless_def split: sum.splits conv_fault.splits)
  then have "Application_set_context (config_of_json v) (main_deliver_proc random) Application_new = Inl (Throws e)" for random
    by (rule set_context_fault)
  then show ?thesis using assms(4) l by (intro exI [of _ In_set_context] exI [of _ e]) (simp add: main_run_def main_conv_def)
qed

text \<open>
  C12: Without a usable configuration nothing starts. Let the file be missing, empty or not JSON, or not an object,
  or an object in which one of the eight settings is missing or has a value of the wrong type, its numbers being
  written without fraction and exponent. Then \<open>main\<close> ends with an uncaught exception of the JSON library,
  before \<open>Application::start\<close>, which opens the ports: the exception is the same whatever the
  operating system would answer.
\<close>

theorem config_error_stops:
  assumes "\<And>m r. stream_in file = Some (Inr (Object m, r)) \<Longrightarrow> \<exists>x \<in> set settings. \<not> has_setting m x"
    and "\<And>m r key v. stream_in file = Some (Inr (Object m, r)) \<Longrightarrow> key \<in> fst ` set settings \<Longrightarrow>
      map_of m (str_bytes key) = Some v \<Longrightarrow> no_float v"
  shows "\<exists>st e. st \<in> {In_from_file, In_initialize, In_set_context} \<and>
    (\<forall>random g os. main_run file w random g os s = Some (st, Inl (Uncaught e)) \<and> main_from_file file w random g os s = Some (Inl (Uncaught e)))"
proof -
  have "\<exists>st e. st \<in> {In_from_file, In_initialize, In_set_context} \<and> (\<forall>random g os. main_run file w random g os s = Some (st, Inl (Uncaught e)))"
  proof -
    obtain r where r: "stream_in file = Some r" using stream_in_total by blast
    consider (err) e where "r = Inl e" | (obj) m rest where "r = Inr (Object m, rest)"
      | (other) v rest where "r = Inr (v, rest)" "\<nexists>m. v = Object m"
      by (cases r) (force, metis prod.exhaust)
    then show ?thesis
    proof cases
      case err
      then show ?thesis using r by (intro exI [of _ In_from_file] exI [of _ e]) (simp add: main_run_def from_file_def)
    next
      case obj
      then have f: "from_file file = Some (Inr (Object m))" using r by (simp add: from_file_def)
      have nf: "no_float v" if "key \<in> fst ` set settings" "map_of m (str_bytes key) = Some v" for key v
        using assms(2) [OF r [unfolded obj] that] .
      have "\<not> (\<forall>x \<in> set settings. has_setting m x)" using assms(1) [OF r [unfolded obj]] by blast
      then have "\<not> ((has_setting m (''log_path'', TextSetting) \<and> has_setting m (''log_name'', TextSetting)
          \<and> has_setting m (''log_roll_size'', NumberSetting)) \<and> has_setting m (''ports'', PortsSetting)
          \<and> (\<forall>key \<in> {''worker_num'', ''server_conn_worker_num'', ''client_conn_worker_num'', ''per_conn_num''}. has_setting m (key, CountSetting)))"
        unfolding settings_def by simp
      moreover note main_run_stops [OF logger_throws [of m w s] context_throws [of m "main_deliver_proc id" Application_new] _ f]
      ultimately show ?thesis using nf by blast
    next
      case other
      then have f: "from_file file = Some (Inr v)" using r by (simp add: from_file_def)
      obtain e where "conv_at (str_bytes ''log_path'') v = Inl (Throws e)" using at_non_object [OF other(2)] by blast
      then show ?thesis using f by (intro exI [of _ In_initialize] exI [of _ e]) (simp add: main_run_def main_logger_def main_conv_def)
    qed
  qed
  then show ?thesis by (auto simp: main_from_file_def)
qed

theorem config_error_stops_witness:
  "\<forall>w s. \<exists>st e. st \<in> {In_from_file, In_initialize, In_set_context} \<and>
    (\<forall>random g os. main_run (str_bytes ''{\"ports\":[]}'') w random g os s = Some (st, Inl (Uncaught e))
       \<and> main_from_file (str_bytes ''{\"ports\":[]}'') w random g os s = Some (Inl (Uncaught e)))"
proof (intro allI config_error_stops)
  have f: "stream_in (str_bytes ''{\"ports\":[]}'') = Some (Inr (Object [(str_bytes ''ports'', Array [])], []))"
    by code_simp
  fix m r
  assume m: "stream_in (str_bytes ''{\"ports\":[]}'') = Some (Inr (Object m, r))"
  then have "map_of m (str_bytes ''worker_num'') = None" using f by (auto simp: str_bytes_def)
  then show "\<exists>x \<in> set settings. \<not> has_setting m x"
    by (intro bexI [of _ "(''worker_num'', CountSetting)"]) (simp_all add: has_setting_def settings_def)
  show "no_float v" if "map_of m (str_bytes key) = Some v" for key v
    using m f that by (auto simp: no_float_def is_float_def split: if_splits)
qed

section \<open>The file of the repository\<close>

definition chameleon_lines :: "string list" where
  "chameleon_lines =
     [''{'',
      ''    \"ports\": [8080,8081,8082,8083],'',
      ''    \"db_ip\": \"172.21.22.239\",'',
      ''    \"user_name\": \"chameleon\",'',
      ''    \"pwd\": \"123456\",'',
      ''    \"db_name\": \"chameleon\",'',
      ''    \"timeout\": 2,'',
      ''    \"db_conn_num\": 4,'',
      ''    \"log_path\": \"./log/\",'',
      ''    \"log_name\": \"chameleon.log\",'',
      ''    \"log_roll_size\": 100,'',
      ''    \"worker_num\": 3,'',
      ''    \"server_conn_worker_num\": 2,'',
      ''    \"client_conn_worker_num\": 2,'',
      ''    \"upstream_servers\" :[],'',
      ''    \"per_conn_num\": 2'',
      ''}'']"

definition chameleon_cfg :: bytes where
  "chameleon_cfg = tl (concat (map (\<lambda>l. 0x0A # str_bytes l) chameleon_lines))"

definition chameleon_pieces :: "(bytes \<times> token) list" where
  "chameleon_pieces =
     (let nl = [0x0A, 0x20, 0x20, 0x20, 0x20] in
     [([], Punct begin_object),
      (nl, Scalar (String (str_bytes ''ports''))),
      ([], Punct name_separator),
      ([0x20], Punct begin_array),
      ([], Scalar (Number_unsigned 8080)),
      ([], Punct value_separator),
      ([], Scalar (Number_unsigned 8081)),
      ([], Punct value_separator),
      ([], Scalar (Number_unsigned 8082)),
      ([], Punct value_separator),
      ([], Scalar (Number_unsigned 8083)),
      ([], Punct end_array),
      ([], Punct value_separator),
      (nl, Scalar (String (str_bytes ''db_ip''))),
      ([], Punct name_separator),
      ([0x20], Scalar (String (str_bytes ''172.21.22.239''))),
      ([], Punct value_separator),
      (nl, Scalar (String (str_bytes ''user_name''))),
      ([], Punct name_separator),
      ([0x20], Scalar (String (str_bytes ''chameleon''))),
      ([], Punct value_separator),
      (nl, Scalar (String (str_bytes ''pwd''))),
      ([], Punct name_separator),
      ([0x20], Scalar (String (str_bytes ''123456''))),
      ([], Punct value_separator),
      (nl, Scalar (String (str_bytes ''db_name''))),
      ([], Punct name_separator),
      ([0x20], Scalar (String (str_bytes ''chameleon''))),
      ([], Punct value_separator),
      (nl, Scalar (String (str_bytes ''timeout''))),
      ([], Punct name_separator),
      ([0x20], Scalar (Number_unsigned 2)),
      ([], Punct value_separator),
      (nl, Scalar (String (str_bytes ''db_conn_num''))),
      ([], Punct name_separator),
      ([0x20], Scalar (Number_unsigned 4)),
      ([], Punct value_separator),
      (nl, Scalar (String (str_bytes ''log_path''))),
      ([], Punct name_separator),
      ([0x20], Scalar (String (str_bytes ''./log/''))),
      ([], Punct value_separator),
      (nl, Scalar (String (str_bytes ''log_name''))),
      ([], Punct name_separator),
      ([0x20], Scalar (String (str_bytes ''chameleon.log''))),
      ([], Punct value_separator),
      (nl, Scalar (String (str_bytes ''log_roll_size''))),
      ([], Punct name_separator),
      ([0x20], Scalar (Number_unsigned 100)),
      ([], Punct value_separator),
      (nl, Scalar (String (str_bytes ''worker_num''))),
      ([], Punct name_separator),
      ([0x20], Scalar (Number_unsigned 3)),
      ([], Punct value_separator),
      (nl, Scalar (String (str_bytes ''server_conn_worker_num''))),
      ([], Punct name_separator),
      ([0x20], Scalar (Number_unsigned 2)),
      ([], Punct value_separator),
      (nl, Scalar (String (str_bytes ''client_conn_worker_num''))),
      ([], Punct name_separator),
      ([0x20], Scalar (Number_unsigned 2)),
      ([], Punct value_separator),
      (nl, Scalar (String (str_bytes ''upstream_servers''))),
      ([0x20], Punct name_separator),
      ([], Punct begin_array),
      ([], Punct end_array),
      ([], Punct value_separator),
      (nl, Scalar (String (str_bytes ''per_conn_num''))),
      ([], Punct name_separator),
      ([0x20], Scalar (Number_unsigned 2)),
      ([0x0A], Punct end_object)])"

definition chameleon_json :: json where
  "chameleon_json =
     Object
      [(str_bytes ''ports'', Array [Number_unsigned 8080, Number_unsigned 8081, Number_unsigned 8082, Number_unsigned 8083]),
       (str_bytes ''db_ip'', String (str_bytes ''172.21.22.239'')),
       (str_bytes ''user_name'', String (str_bytes ''chameleon'')),
       (str_bytes ''pwd'', String (str_bytes ''123456'')),
       (str_bytes ''db_name'', String (str_bytes ''chameleon'')),
       (str_bytes ''timeout'', Number_unsigned 2),
       (str_bytes ''db_conn_num'', Number_unsigned 4),
       (str_bytes ''log_path'', String (str_bytes ''./log/'')),
       (str_bytes ''log_name'', String (str_bytes ''chameleon.log'')),
       (str_bytes ''log_roll_size'', Number_unsigned 100),
       (str_bytes ''worker_num'', Number_unsigned 3),
       (str_bytes ''server_conn_worker_num'', Number_unsigned 2),
       (str_bytes ''client_conn_worker_num'', Number_unsigned 2),
       (str_bytes ''upstream_servers'', Array []),
       (str_bytes ''per_conn_num'', Number_unsigned 2)]"

lemma chameleon_text: "pieces_text chameleon_pieces = chameleon_cfg"
  by (simp add: pieces_text_def chameleon_pieces_def chameleon_cfg_def chameleon_lines_def str_bytes_def punctuation_def dec_text.simps Let_def)

lemma chameleon_tokens: "map snd chameleon_pieces = tokens_of chameleon_json"
  by code_simp

lemma chameleon_ok: "pieces_ok chameleon_pieces"
  by (simp add: chameleon_pieces_def pieces_text_def str_bytes_def punctuation_def number_follow_def is_digit_def ws_byte_def Let_def)

lemma chameleon_read: "stream_in chameleon_cfg = Some (Inr (sort_members chameleon_json, []))"
  using read_pieces [OF chameleon_ok chameleon_tokens] by (simp only: chameleon_text)

lemma fold_emplace_lookup:
  "map_ok n \<Longrightarrow> map_of (fold (\<lambda>(k, v). map_emplace k v) es n) k = (case map_of n k of Some w \<Rightarrow> Some w | None \<Rightarrow> map_of es k)"
proof (induction es arbitrary: n)
  case (Cons e es)
  obtain l v where e: "e = (l, v)" by fastforce
  show ?case using Cons.IH [OF map_emplace_ok [OF Cons.prems], of l v] map_emplace_lookup [OF Cons.prems, of l v] e
    by (auto split: option.splits)
qed (simp split: option.splits)

lemma sorted_lookup: "sort_members (Object raw) = Object m \<Longrightarrow> map_of m k = map_option sort_members (map_of raw k)"
  using fold_emplace_lookup [OF map_ok_Nil, of "map (\<lambda>(k, v). (k, sort_members v)) raw" k] by (auto simp: map_of_map)

theorem config_file_starts_witness:
  "\<forall>w random g os s. main_from_file chameleon_cfg w random g os s = Some
    (case Application_start g os (Application_set_logic_proc_app (main_deliver_proc random)
        (Server_new [8080, 8081, 8082, 8083] 3 2) (Client_new audit_peers 2 2 True) Application_new) of
       Inl e \<Rightarrow> Inl (Faulted e)
     | Inr a \<Rightarrow> Inr (Logger_initialize (NanoLogger_guaranteed w (str_bytes ''./log/'') (str_bytes ''chameleon.log'') 100) s, a))"
proof (intro allI)
  fix w random g os s
  obtain m where m: "sort_members chameleon_json = Object m" by (simp add: chameleon_json_def)
  have l: "map_of m (str_bytes ''ports'') = Some (Array (map (\<lambda>p. Number_unsigned (of_nat p)) [8080, 8081, 8082, 8083]))"
    "map_of m (str_bytes ''worker_num'') = Some (Number_unsigned 3)" "map_of m (str_bytes ''server_conn_worker_num'') = Some (Number_unsigned 2)"
    "map_of m (str_bytes ''client_conn_worker_num'') = Some (Number_unsigned 2)" "map_of m (str_bytes ''per_conn_num'') = Some (Number_unsigned 2)"
    "map_of m (str_bytes ''log_path'') = Some (String (str_bytes ''./log/''))"
    "map_of m (str_bytes ''log_name'') = Some (String (str_bytes ''chameleon.log''))" "map_of m (str_bytes ''log_roll_size'') = Some (Number_unsigned 100)"
    unfolding sorted_lookup [OF m [unfolded chameleon_json_def]] by (simp_all add: str_bytes_def)
  have "stream_in chameleon_cfg = Some (Inr (Object m, []))" using chameleon_read m by simp
  note starts = config_file_starts [OF this l(1) _ l(2-8), of w random g os s]
  have u: "ucast (100 :: u64) = (100 :: u32)" by simp
  show "main_from_file chameleon_cfg w random g os s = Some
    (case Application_start g os (Application_set_logic_proc_app (main_deliver_proc random)
        (Server_new [8080, 8081, 8082, 8083] 3 2) (Client_new audit_peers 2 2 True) Application_new) of
       Inl e \<Rightarrow> Inl (Faulted e)
     | Inr a \<Rightarrow> Inr (Logger_initialize (NanoLogger_guaranteed w (str_bytes ''./log/'') (str_bytes ''chameleon.log'') 100) s, a))"
    using starts unfolding u by simp
qed

text \<open>A negative number of workers is taken as one of \<open>2 ^ 63\<close> or more.\<close>

lemma negative_worker_num:
  assumes "map_of m (str_bytes ''worker_num'') = Some (Number_integer i)" and "sint i < 0"
  shows "cfg_worker_num (config_of_json (Object m)) = Inr i \<and> 2 ^ 63 \<le> uint i"
proof -
  have "2 ^ 63 \<le> uint i"
  proof (rule ccontr)
    assume "\<not> 2 ^ 63 \<le> uint i"
    then have "signed_take_bit 63 (uint i) = uint i" using uint_ge_0 [of i] by (intro signed_take_bit_int_eq_self; linarith)
    then have "sint i = uint i" by (simp add: sint_uint)
    then show False using assms(2) uint_ge_0 [of i] by linarith
  qed
  then show ?thesis using conv_at_found [OF assms(1)] by (simp add: config_of_json_def get_arithmetic_value_def)
qed

end
