(* ===== verification/Asio_Timer_Queue.thy ===== *)
theory Asio_Timer_Queue
  imports Repeat_Timer "HOL-Library.Multiset"
begin

text \<open>
  The timers of the vendored asio (\<open>asio/include/asio/detail/timer_queue.hpp\<close>, instantiated for
  \<open>steady_timer\<close> by \<open>detail/chrono_time_traits.hpp\<close>), on which \<open>RepeatTimer\<close> runs: a binary heap of deadlines in an
  array, whose entries point to per-timer data that know their place in it, and a doubly linked list of the active timers.
  The per-timer data live in a store; a pointer is an address or \<open>None\<close>. A time is a number of
  nanoseconds. The queue of operations of a timer is the list of its operations, which \<open>Asio_Op_Queue\<close> justifies. Indices are
  natural numbers: the array would fill the address space before one of them wrapped.
\<close>

section \<open>State\<close>

type_synonym ptr = nat

record 'h wait_op =
  wo_id :: nat
  wo_key :: "nat option"
  wo_ec :: error_code
  wo_handler :: 'h

record 'h per_timer_data =
  pt_ops :: "'h wait_op list"
  pt_heap_index :: nat
  pt_next :: "ptr option"
  pt_prev :: "ptr option"

record 'h timer_queue =
  tq_timers :: "ptr option"
  tq_heap :: "(int \<times> ptr) list"
  tq_data :: "ptr \<Rightarrow> 'h per_timer_data"

definition max_index :: nat where
  "max_index = 2 ^ 64 - 1"

definition per_timer_new :: "'h per_timer_data" where
  "per_timer_new = \<lparr>pt_ops = [], pt_heap_index = max_index, pt_next = None, pt_prev = None\<rparr>"

definition timer_queue_new :: "'h timer_queue" where
  "timer_queue_new = \<lparr>tq_timers = None, tq_heap = [], tq_data = (\<lambda>_. per_timer_new)\<rparr>"

text \<open>A write to the data of a timer.\<close>

definition set_data :: "ptr \<Rightarrow> ('h per_timer_data \<Rightarrow> 'h per_timer_data) \<Rightarrow> 'h timer_queue \<Rightarrow> 'h timer_queue" where
  "set_data t f q = q\<lparr>tq_data := (tq_data q)(t := f (tq_data q t))\<rparr>"

text \<open>A write through a pointer that may be null.\<close>

definition set_at :: "ptr option \<Rightarrow> ('h per_timer_data \<Rightarrow> 'h per_timer_data) \<Rightarrow> 'h timer_queue \<Rightarrow> 'h timer_queue" where
  "set_at p f q = (case p of None \<Rightarrow> q | Some t \<Rightarrow> set_data t f q)"

section \<open>The heap\<close>

definition swap_heap :: "nat \<Rightarrow> nat \<Rightarrow> 'h timer_queue \<Rightarrow> 'h timer_queue" where
  "swap_heap index1 index2 q =
     (let h = tq_heap q; tmp = h ! index1; h = h[index1 := h ! index2]; h = h[index2 := tmp] in
      set_data (snd (h ! index2)) (pt_heap_index_update (\<lambda>_. index2))
        (set_data (snd (h ! index1)) (pt_heap_index_update (\<lambda>_. index1)) (q\<lparr>tq_heap := h\<rparr>)))"

function up_heap :: "nat \<Rightarrow> 'h timer_queue \<Rightarrow> 'h timer_queue" where
  "up_heap index q =
     (if 0 < index then
        let parent = (index - 1) div 2 in
        if \<not> fst (tq_heap q ! index) < fst (tq_heap q ! parent) then q
        else up_heap parent (swap_heap index parent q)
      else q)"
  by pat_completeness auto
termination
  by (relation "measure fst") auto

definition min_child :: "nat \<Rightarrow> (int \<times> ptr) list \<Rightarrow> nat" where
  "min_child child h = (if child + 1 = length h \<or> fst (h ! child) < fst (h ! (child + 1)) then child else child + 1)"

lemma swap_heap_length [simp]: "length (tq_heap (swap_heap i j q)) = length (tq_heap q)"
  by (simp add: swap_heap_def set_data_def Let_def)

function down_heap :: "nat \<Rightarrow> 'h timer_queue \<Rightarrow> 'h timer_queue" where
  "down_heap index q =
     (let child = index * 2 + 1 in
      if child < length (tq_heap q) then
        let m = min_child child (tq_heap q) in
        if fst (tq_heap q ! index) < fst (tq_heap q ! m) then q
        else down_heap m (swap_heap index m q)
      else q)"
  by pat_completeness auto
termination
  by (relation "measure (\<lambda>(index, q). length (tq_heap q) - index)") (auto simp: min_child_def)

declare up_heap.simps [simp del] down_heap.simps [simp del]

section \<open>Operations\<close>

text \<open>The timer leaves the heap, then the list of active timers.\<close>

definition heap_remove :: "ptr \<Rightarrow> 'h timer_queue \<Rightarrow> 'h timer_queue" where
  "heap_remove t q =
     (let index = pt_heap_index (tq_data q t); n = length (tq_heap q) in
      if tq_heap q \<noteq> [] \<and> index < n then
        if index = n - 1 then
          let q = set_data t (pt_heap_index_update (\<lambda>_. max_index)) q in q\<lparr>tq_heap := butlast (tq_heap q)\<rparr>
        else
          let q = swap_heap index (n - 1) q; q = set_data t (pt_heap_index_update (\<lambda>_. max_index)) q;
              q = q\<lparr>tq_heap := butlast (tq_heap q)\<rparr> in
          if 0 < index \<and> fst (tq_heap q ! index) < fst (tq_heap q ! ((index - 1) div 2)) then up_heap index q
          else down_heap index q
      else q)"

definition list_remove :: "ptr \<Rightarrow> 'h timer_queue \<Rightarrow> 'h timer_queue" where
  "list_remove t q =
     (let q = (if tq_timers q = Some t then q\<lparr>tq_timers := pt_next (tq_data q t)\<rparr> else q);
          q = set_at (pt_prev (tq_data q t)) (pt_next_update (\<lambda>_. pt_next (tq_data q t))) q;
          q = set_at (pt_next (tq_data q t)) (pt_prev_update (\<lambda>_. pt_prev (tq_data q t))) q in
      set_data t (\<lambda>d. d\<lparr>pt_next := None, pt_prev := None\<rparr>) q)"

definition remove_timer :: "ptr \<Rightarrow> 'h timer_queue \<Rightarrow> 'h timer_queue" where
  "remove_timer t q = list_remove t (heap_remove t q)"

definition is_active :: "ptr \<Rightarrow> 'h timer_queue \<Rightarrow> bool" where
  "is_active t q \<longleftrightarrow> pt_prev (tq_data q t) \<noteq> None \<or> tq_timers q = Some t"

text \<open>
  \<open>room\<close> tells whether the array can take one more entry. When it cannot, \<open>push_back\<close> throws and the call leaves
  behind what it has done so far. No time of \<open>steady_timer\<close> is infinite.
\<close>

definition link_timer :: "ptr \<Rightarrow> 'h timer_queue \<Rightarrow> 'h timer_queue" where
  "link_timer t q =
     (let q = set_data t (\<lambda>d. d\<lparr>pt_next := tq_timers q, pt_prev := None\<rparr>) q;
          q = set_at (tq_timers q) (pt_prev_update (\<lambda>_. Some t)) q in
      q\<lparr>tq_timers := Some t\<rparr>)"

definition enqueue_timer :: "bool \<Rightarrow> int \<Rightarrow> ptr \<Rightarrow> 'h wait_op \<Rightarrow> 'h timer_queue \<Rightarrow> bool option \<times> 'h timer_queue" where
  "enqueue_timer room time t op q =
     (let put = (\<lambda>q. let q = set_data t (pt_ops_update (\<lambda>ops. ops @ [op])) q in
                     (Some (pt_heap_index (tq_data q t) = 0 \<and> wo_id (hd (pt_ops (tq_data q t))) = wo_id op), q)) in
      if is_active t q then put q
      else
        let q = set_data t (pt_heap_index_update (\<lambda>_. length (tq_heap q))) q in
        if \<not> room then (None, q)
        else
          let q = q\<lparr>tq_heap := tq_heap q @ [(time, t)]\<rparr>; q = up_heap (length (tq_heap q) - 1) q in
          put (link_timer t q))"

definition tq_empty :: "'h timer_queue \<Rightarrow> bool" where
  "tq_empty q \<longleftrightarrow> tq_timers q = None"

text \<open>\<open>get_ready_timers\<close>, which reads the clock once, and the loop over the list in \<open>get_all_timers\<close>.\<close>

definition clear_ec :: "'h wait_op \<Rightarrow> 'h wait_op" where
  "clear_ec op = op\<lparr>wo_ec := NoError\<rparr>"

partial_function (option) ready_loop ::
    "int \<Rightarrow> 'h wait_op list \<Rightarrow> 'h timer_queue \<Rightarrow> ('h wait_op list \<times> 'h timer_queue) option" where
  "ready_loop now ops q =
     (if tq_heap q = [] \<or> now < fst (hd (tq_heap q)) then Some (ops, q)
      else
        let t = snd (hd (tq_heap q)); done = map clear_ec (pt_ops (tq_data q t)) in
        ready_loop now (ops @ done) (remove_timer t (set_data t (pt_ops_update (\<lambda>_. [])) q)))"

definition get_ready_timers ::
    "int \<Rightarrow> 'h wait_op list \<Rightarrow> 'h timer_queue \<Rightarrow> ('h wait_op list \<times> 'h timer_queue) option" where
  "get_ready_timers now ops q = ready_loop now ops q"

partial_function (option) all_loop ::
    "'h wait_op list \<Rightarrow> 'h timer_queue \<Rightarrow> ('h wait_op list \<times> 'h timer_queue) option" where
  "all_loop ops q =
     (case tq_timers q of
        None \<Rightarrow> Some (ops, q)
      | Some t \<Rightarrow>
          let q = q\<lparr>tq_timers := pt_next (tq_data q t)\<rparr>; waiting = pt_ops (tq_data q t) in
          all_loop (ops @ waiting) (set_data t (\<lambda>d. d\<lparr>pt_ops := [], pt_next := None, pt_prev := None\<rparr>) q))"

definition get_all_timers :: "'h wait_op list \<Rightarrow> 'h timer_queue \<Rightarrow> ('h wait_op list \<times> 'h timer_queue) option" where
  "get_all_timers ops q = map_option (\<lambda>(ops, q). (ops, q\<lparr>tq_heap := []\<rparr>)) (all_loop ops q)"

definition abort_op :: "'h wait_op \<Rightarrow> 'h wait_op" where
  "abort_op op = op\<lparr>wo_ec := OperationAborted\<rparr>"

text \<open>\<open>cancel_timer\<close>: the operations it gives back, the number of them, and the queue.\<close>

definition cancel_timer :: "ptr \<Rightarrow> nat \<Rightarrow> 'h wait_op list \<Rightarrow> 'h timer_queue \<Rightarrow> nat \<times> 'h wait_op list \<times> 'h timer_queue" where
  "cancel_timer t max_cancelled ops q =
     (if is_active t q then
        let waiting = pt_ops (tq_data q t); cancelled = take max_cancelled waiting;
            q = set_data t (pt_ops_update (\<lambda>_. drop max_cancelled waiting)) q in
        (length cancelled, ops @ map abort_op cancelled, if pt_ops (tq_data q t) = [] then remove_timer t q else q)
      else (0, ops, q))"

definition cancel_timer_by_key :: "ptr \<Rightarrow> nat option \<Rightarrow> 'h wait_op list \<Rightarrow> 'h timer_queue \<Rightarrow> 'h wait_op list \<times> 'h timer_queue" where
  "cancel_timer_by_key t key ops q =
     (if is_active t q then
        let waiting = pt_ops (tq_data q t);
            q = set_data t (pt_ops_update (\<lambda>_. filter (\<lambda>op. wo_key op \<noteq> key) waiting)) q in
        (ops @ map abort_op (filter (\<lambda>op. wo_key op = key) waiting), if pt_ops (tq_data q t) = [] then remove_timer t q else q)
      else (ops, q))"

definition move_heap :: "ptr \<Rightarrow> ptr \<Rightarrow> 'h timer_queue \<Rightarrow> 'h timer_queue" where
  "move_heap target source q =
     (let moved = pt_ops (tq_data q source);
          q = set_data source (pt_ops_update (\<lambda>_. [])) (set_data target (pt_ops_update (\<lambda>ops. ops @ moved)) q);
          q = set_data target (pt_heap_index_update (\<lambda>_. pt_heap_index (tq_data q source))) q;
          q = set_data source (pt_heap_index_update (\<lambda>_. max_index)) q;
          i = pt_heap_index (tq_data q target) in
      if i < length (tq_heap q) then q\<lparr>tq_heap := (tq_heap q)[i := (fst (tq_heap q ! i), target)]\<rparr> else q)"

definition move_links :: "ptr \<Rightarrow> ptr \<Rightarrow> 'h timer_queue \<Rightarrow> 'h timer_queue" where
  "move_links target source q =
     (let q = (if tq_timers q = Some source then q\<lparr>tq_timers := Some target\<rparr> else q);
          q = set_at (pt_prev (tq_data q source)) (pt_next_update (\<lambda>_. Some target)) q;
          q = set_at (pt_next (tq_data q source)) (pt_prev_update (\<lambda>_. Some target)) q;
          d = tq_data q source;
          q = set_data target (\<lambda>t. t\<lparr>pt_next := pt_next d, pt_prev := pt_prev d\<rparr>) q in
      set_data source (\<lambda>t. t\<lparr>pt_next := None, pt_prev := None\<rparr>) q)"

definition move_timer :: "ptr \<Rightarrow> ptr \<Rightarrow> 'h timer_queue \<Rightarrow> 'h timer_queue" where
  "move_timer target source q = move_links target source (move_heap target source q)"

section \<open>Heaps\<close>

definition par :: "nat \<Rightarrow> nat" where
  "par i = (i - 1) div 2"

definition heap_ok :: "(int \<times> ptr) list \<Rightarrow> bool" where
  "heap_ok h \<longleftrightarrow> (\<forall>i < length h. 0 < i \<longrightarrow> fst (h ! par i) \<le> fst (h ! i))"

text \<open>A heap but for the entry \<open>k\<close>, which may be too early for its place, or too late.\<close>

definition up_ok :: "nat \<Rightarrow> (int \<times> ptr) list \<Rightarrow> bool" where
  "up_ok k h \<longleftrightarrow>
     (\<forall>i < length h. 0 < i \<longrightarrow> i \<noteq> k \<longrightarrow> fst (h ! par i) \<le> fst (h ! i)) \<and>
     (\<forall>c < length h. 0 < c \<longrightarrow> par c = k \<longrightarrow> 0 < k \<longrightarrow> fst (h ! par k) \<le> fst (h ! c))"

definition down_ok :: "nat \<Rightarrow> (int \<times> ptr) list \<Rightarrow> bool" where
  "down_ok k h \<longleftrightarrow>
     (\<forall>i < length h. 0 < i \<longrightarrow> par i \<noteq> k \<longrightarrow> fst (h ! par i) \<le> fst (h ! i)) \<and>
     (\<forall>c < length h. 0 < c \<longrightarrow> par c = k \<longrightarrow> 0 < k \<longrightarrow> fst (h ! par k) \<le> fst (h ! c))"

definition swapped :: "nat \<Rightarrow> nat \<Rightarrow> 'a list \<Rightarrow> 'a list" where
  "swapped i j h = h[i := h ! j, j := h ! i]"

lemma swapped_nth: "i < length h \<Longrightarrow> j < length h \<Longrightarrow> swapped i j h ! k = (if k = j then h ! i else if k = i then h ! j else h ! k)"
  by (simp add: swapped_def nth_list_update)

lemma swapped_length [simp]: "length (swapped i j h) = length h"
  by (simp add: swapped_def)

lemma swapped_mset [simp]: "i < length h \<Longrightarrow> j < length h \<Longrightarrow> mset (swapped i j h) = mset h"
  by (simp add: swapped_def mset_swap)

lemma par_less: "0 < i \<Longrightarrow> par i < i"
  by (simp add: par_def)

lemma par_iff: "0 < c \<Longrightarrow> par c = k \<longleftrightarrow> c = 2 * k + 1 \<or> c = 2 * k + 2"
  unfolding par_def by presburger

lemma up_stop:
  assumes "up_ok k h" and "k = 0 \<or> \<not> fst (h ! k) < fst (h ! par k)"
  shows "heap_ok h"
  using assms unfolding up_ok_def heap_ok_def by (metis linorder_not_less neq0_conv)

lemma up_step:
  assumes "up_ok k h" and "k < length h" and "0 < k" and "fst (h ! k) < fst (h ! par k)"
  shows "up_ok (par k) (swapped k (par k) h)"
proof -
  have p: "par k < k" "par k < length h" using par_less [OF assms(3)] assms(2) by auto
  note n = swapped_nth [OF assms(2) p(2)]
  have o: "fst (h ! par i) \<le> fst (h ! i)" if "i < length h" "0 < i" "i \<noteq> k" for i
    using assms(1) that by (simp add: up_ok_def)
  have c: "fst (h ! par k) \<le> fst (h ! c)" if "c < length h" "0 < c" "par c = k" for c
    using assms(1,3) that by (simp add: up_ok_def)
  have 1: "fst (swapped k (par k) h ! par i) \<le> fst (swapped k (par k) h ! i)" if "i < length h" "0 < i" "i \<noteq> par k" for i
  proof (cases "i = k")
    case True
    then show ?thesis using assms(4) p by (simp add: n)
  next
    case False
    then show ?thesis using o [OF that(1,2)] c [OF that(1,2)] assms(4) p that(3)
      by (cases "par i = k"; cases "par i = par k") (auto simp: n)
  qed
  have 2: "fst (swapped k (par k) h ! par (par k)) \<le> fst (swapped k (par k) h ! d)" if "d < length h" "0 < d" "par d = par k" "0 < par k" for d
  proof -
    have pp: "par (par k) < par k" using par_less [OF that(4)] .
    have "fst (h ! par (par k)) \<le> fst (h ! par k)" using o [of "par k"] that(4) p by simp
    moreover have "fst (h ! par k) \<le> fst (h ! d)" if "d \<noteq> k" using o [of d] that \<open>d < length h\<close> \<open>0 < d\<close> \<open>par d = par k\<close> by simp
    moreover have "d \<noteq> par k" using par_less [OF \<open>0 < d\<close>] \<open>par d = par k\<close> by auto
    ultimately show ?thesis using pp p by (auto simp: n)
  qed
  show ?thesis using 1 2 by (simp add: up_ok_def)
qed

lemma down_stop:
  assumes "down_ok k h" and "\<And>c. c < length h \<Longrightarrow> 0 < c \<Longrightarrow> par c = k \<Longrightarrow> fst (h ! k) \<le> fst (h ! c)"
  shows "heap_ok h"
  using assms unfolding down_ok_def heap_ok_def by metis

lemma down_step:
  assumes "down_ok k h" and "m < length h" and "0 < m" and "par m = k" and "\<not> fst (h ! k) < fst (h ! m)"
    and "\<And>c. c < length h \<Longrightarrow> 0 < c \<Longrightarrow> par c = k \<Longrightarrow> fst (h ! m) \<le> fst (h ! c)"
  shows "down_ok m (swapped k m h)"
proof -
  have p: "k < m" "k < length h" using par_less [OF assms(3)] assms(2,4) by auto
  note n = swapped_nth [OF p(2) assms(2)]
  have o: "fst (h ! par i) \<le> fst (h ! i)" if "i < length h" "0 < i" "par i \<noteq> k" for i
    using assms(1) that by (simp add: down_ok_def)
  have c: "fst (h ! par k) \<le> fst (h ! c)" if "c < length h" "0 < c" "par c = k" "0 < k" for c
    using assms(1) that by (simp add: down_ok_def)
  have 1: "fst (swapped k m h ! par i) \<le> fst (swapped k m h ! i)" if i: "i < length h" "0 < i" "par i \<noteq> m" for i
  proof (cases "par i = k")
    case True
    then show ?thesis using assms(5,6) i p par_less [OF i(2)] by (auto simp: n)
  next
    case False
    then have "i \<noteq> m" using assms(4) by auto
    moreover have "i = k \<Longrightarrow> par i \<noteq> k" using par_less [OF i(2)] by auto
    ultimately show ?thesis using o [OF i(1,2) False] c [OF assms(2,3,4)] i False p by (auto simp: n)
  qed
  have 2: "fst (swapped k m h ! par m) \<le> fst (swapped k m h ! d)" if d: "d < length h" "0 < d" "par d = m" for d
  proof -
    have "fst (h ! m) \<le> fst (h ! d)" using o [OF d(1,2)] d(3) p by simp
    moreover have "d \<noteq> m" "d \<noteq> k" using par_less [OF d(2)] d(3) p by auto
    ultimately show ?thesis using p assms(4) by (simp add: n)
  qed
  show ?thesis using 1 2 by (simp add: down_ok_def)
qed

lemma min_child_least:
  assumes "index * 2 + 1 < length h"
  shows "min_child (index * 2 + 1) h < length h" "0 < min_child (index * 2 + 1) h" "par (min_child (index * 2 + 1) h) = index"
    "c < length h \<Longrightarrow> 0 < c \<Longrightarrow> par c = index \<Longrightarrow> fst (h ! min_child (index * 2 + 1) h) \<le> fst (h ! c)"
proof -
  show "min_child (index * 2 + 1) h < length h" "0 < min_child (index * 2 + 1) h" "par (min_child (index * 2 + 1) h) = index"
    using assms by (auto simp: min_child_def par_def)
  assume "c < length h" "0 < c" "par c = index"
  then have "c = index * 2 + 1 \<or> c = index * 2 + 2" using par_iff [of c index] by auto
  then show "fst (h ! min_child (index * 2 + 1) h) \<le> fst (h ! c)" using \<open>c < length h\<close> by (auto simp: min_child_def)
qed

section \<open>Rearranging the heap\<close>

text \<open>Every entry's timer knows its place.\<close>

definition idx_ok :: "'h timer_queue \<Rightarrow> bool" where
  "idx_ok q \<longleftrightarrow> (\<forall>k < length (tq_heap q). pt_heap_index (tq_data q (snd (tq_heap q ! k))) = k)"

text \<open>What \<open>up_heap\<close> and \<open>down_heap\<close> leave alone: everything but the order of the entries and the indices of their timers.\<close>

definition rearranged :: "'h timer_queue \<Rightarrow> 'h timer_queue \<Rightarrow> bool" where
  "rearranged q q' \<longleftrightarrow> mset (tq_heap q') = mset (tq_heap q) \<and> tq_timers q' = tq_timers q \<and>
     (\<forall>t. pt_ops (tq_data q' t) = pt_ops (tq_data q t) \<and> pt_next (tq_data q' t) = pt_next (tq_data q t) \<and>
        pt_prev (tq_data q' t) = pt_prev (tq_data q t) \<and>
        (t \<notin> snd ` set (tq_heap q) \<longrightarrow> pt_heap_index (tq_data q' t) = pt_heap_index (tq_data q t)))"

lemma rearranged_refl [simp]: "rearranged q q"
  by (simp add: rearranged_def)

lemma rearranged_trans: "rearranged q q' \<Longrightarrow> rearranged q' q'' \<Longrightarrow> rearranged q q''"
  unfolding rearranged_def by (metis mset_eq_setD)

lemma idx_distinct: "idx_ok q \<Longrightarrow> distinct (map snd (tq_heap q))"
  unfolding idx_ok_def distinct_conv_nth by (metis length_map nth_map)

lemma swap_heap_heap [simp]: "tq_heap (swap_heap i j q) = swapped i j (tq_heap q)"
  by (simp add: swap_heap_def set_data_def swapped_def Let_def)

lemma swap_heap_rearranged: "i < length (tq_heap q) \<Longrightarrow> j < length (tq_heap q) \<Longrightarrow> rearranged q (swap_heap i j q)"
  by (auto simp: rearranged_def swap_heap_def set_data_def Let_def nth_list_update mset_swap)

lemma swap_heap_idx:
  assumes "idx_ok q" and "i < length (tq_heap q)" and "j < length (tq_heap q)"
  shows "idx_ok (swap_heap i j q)"
  unfolding idx_ok_def
proof (intro allI impI)
  fix k
  assume "k < length (tq_heap (swap_heap i j q))"
  then have k: "k < length (tq_heap q)" by simp
  have d: "snd (tq_heap q ! a) = snd (tq_heap q ! b) \<longleftrightarrow> a = b" if "a < length (tq_heap q)" "b < length (tq_heap q)" for a b
    using idx_distinct [OF assms(1)] that by (simp add: distinct_conv_nth) metis
  have x: "pt_heap_index (tq_data q (snd (tq_heap q ! k))) = k" using assms(1) k by (simp add: idx_ok_def)
  show "pt_heap_index (tq_data (swap_heap i j q) (snd (tq_heap (swap_heap i j q) ! k))) = k"
    unfolding swap_heap_heap swapped_nth [OF assms(2,3)]
    using x d [OF k assms(2)] d [OF k assms(3)] d [OF assms(2,3)] assms(2,3)
    by (auto simp: swap_heap_def set_data_def Let_def nth_list_update)
qed

lemma up_heap_ok:
  "idx_ok q \<Longrightarrow> index < length (tq_heap q) \<Longrightarrow> rearranged q (up_heap index q) \<and> idx_ok (up_heap index q) \<and>
   (up_ok index (tq_heap q) \<longrightarrow> heap_ok (tq_heap (up_heap index q)))"
proof (induction index q rule: up_heap.induct)
  case (1 index q)
  show ?case
  proof (cases "0 < index \<and> fst (tq_heap q ! index) < fst (tq_heap q ! par index)")
    case True
    let ?q = "swap_heap index (par index) q"
    have l: "par index < length (tq_heap q)" using par_less [of index] True 1(3) by auto
    have e: "up_heap index q = up_heap (par index) ?q" using True by (subst up_heap.simps) (simp add: Let_def par_def)
    have "rearranged ?q (up_heap (par index) ?q) \<and> idx_ok (up_heap (par index) ?q) \<and>
        (up_ok (par index) (tq_heap ?q) \<longrightarrow> heap_ok (tq_heap (up_heap (par index) ?q)))"
      using 1(1) [OF _ _ _ swap_heap_idx [OF 1(2,3)]] True l by (simp add: par_def)
    then show ?thesis
      using rearranged_trans [OF swap_heap_rearranged [OF 1(3) l]] up_step [OF _ 1(3)] True unfolding e by auto
  next
    case False
    then have "up_heap index q = q" by (subst up_heap.simps) (auto simp: Let_def par_def)
    then show ?thesis using 1(2) False up_stop [of index "tq_heap q"] by auto
  qed
qed

lemma down_heap_ok:
  "idx_ok q \<Longrightarrow> index < length (tq_heap q) \<Longrightarrow> rearranged q (down_heap index q) \<and> idx_ok (down_heap index q) \<and>
   (down_ok index (tq_heap q) \<longrightarrow> heap_ok (tq_heap (down_heap index q)))"
proof (induction index q rule: down_heap.induct)
  case (1 index q)
  let ?h = "tq_heap q" and ?m = "min_child (index * 2 + 1) (tq_heap q)"
  show ?case
  proof (cases "index * 2 + 1 < length ?h")
    case True
    note m = min_child_least [OF True]
    show ?thesis
    proof (cases "fst (?h ! index) < fst (?h ! ?m)")
      case less: True
      then have "down_heap index q = q" by (subst down_heap.simps) (simp add: Let_def)
      moreover have "fst (?h ! index) \<le> fst (?h ! c)" if "c < length ?h" "0 < c" "par c = index" for c using m(4) [OF that] less by simp
      ultimately show ?thesis using 1(2) down_stop [of index ?h] by auto
    next
      case False
      let ?q = "swap_heap index ?m q"
      have e: "down_heap index q = down_heap ?m ?q" using True False by (subst down_heap.simps) (simp add: Let_def)
      have ih: "rearranged ?q (down_heap ?m ?q)" "idx_ok (down_heap ?m ?q)"
          "down_ok ?m (tq_heap ?q) \<longrightarrow> heap_ok (tq_heap (down_heap ?m ?q))"
        using 1(1) [OF _ _ _ _ swap_heap_idx [OF 1(2,3)]] True False m by simp_all
      have "down_ok index ?h \<Longrightarrow> down_ok ?m (tq_heap ?q)" unfolding swap_heap_heap by (rule down_step [OF _ m(1-3) False m(4)])
      then show ?thesis
        using rearranged_trans [OF swap_heap_rearranged [OF 1(3) m(1)] ih(1)] ih(2,3) unfolding e by blast
    qed
  next
    case False
    then have "down_heap index q = q" by (subst down_heap.simps) (simp add: Let_def)
    moreover have "\<not> (c < length ?h \<and> 0 < c \<and> par c = index)" for c using False par_iff [of c index] by auto
    ultimately show ?thesis using 1(2) down_stop [of index ?h] by auto
  qed
qed

section \<open>Removing from the heap\<close>

definition filled :: "nat \<Rightarrow> 'a list \<Rightarrow> 'a list" where
  "filled k h = butlast (swapped k (length h - 1) h)"

lemma filled_length [simp]: "length (filled k h) = length h - 1"
  by (simp add: filled_def)

lemma filled_nth: "k < length h - 1 \<Longrightarrow> i < length h - 1 \<Longrightarrow> filled k h ! i = (if i = k then h ! (length h - 1) else h ! i)"
  by (simp add: filled_def nth_butlast swapped_nth)

lemma filled_up:
  assumes "heap_ok h" and k: "k < length h - 1" "0 < k" and less: "fst (filled k h ! k) < fst (filled k h ! par k)"
  shows "up_ok k (filled k h)"
proof -
  have o: "fst (h ! par i) \<le> fst (h ! i)" if "i < length h" "0 < i" for i using assms(1) that by (simp add: heap_ok_def)
  note n = filled_nth [OF k(1)]
  have p: "par i < length h - 1" if "i < length h - 1" "0 < i" for i using par_less [OF that(2)] that by linarith
  have pk: "par k \<noteq> k" using par_less [OF k(2)] by simp
  have c: "fst (h ! par k) \<le> fst (h ! c)" if "c < length h - 1" "0 < c" "par c = k" for c
    using o [of c] o [of k] that k by (simp, linarith)
  have l: "fst (h ! (length h - 1)) < fst (h ! par k)" using less n [OF k(1)] n [OF p [OF k]] pk by simp
  have "fst (filled k h ! par i) \<le> fst (filled k h ! i)" if i: "i < length h - 1" "0 < i" "i \<noteq> k" for i
    using n [OF i(1)] n [OF p [OF i(1,2)]] o [of i] c [OF i(1,2)] l i by (cases "par i = k") auto
  moreover have "fst (filled k h ! par k) \<le> fst (filled k h ! c)" if "c < length h - 1" "0 < c" "par c = k" for c
    using n [OF that(1)] n [OF p [OF k]] pk c [OF that] that par_less [OF that(2)] by auto
  ultimately show ?thesis by (simp add: up_ok_def)
qed

lemma filled_down:
  assumes "heap_ok h" and k: "k < length h - 1" and less: "\<not> (0 < k \<and> fst (filled k h ! k) < fst (filled k h ! par k))"
  shows "down_ok k (filled k h)"
proof -
  have o: "fst (h ! par i) \<le> fst (h ! i)" if "i < length h" "0 < i" for i using assms(1) that by (simp add: heap_ok_def)
  note n = filled_nth [OF k]
  have p: "par i < length h - 1" if "i < length h - 1" "0 < i" for i using par_less [OF that(2)] that by linarith
  have "fst (filled k h ! par i) \<le> fst (filled k h ! i)" if i: "i < length h - 1" "0 < i" "par i \<noteq> k" for i
    using n [OF i(1)] n [OF p [OF i(1,2)]] o [of i] less i by (cases "i = k") auto
  moreover have "fst (filled k h ! par k) \<le> fst (filled k h ! c)" if c: "c < length h - 1" "0 < c" "par c = k" "0 < k" for c
  proof -
    have "c \<noteq> k" "par k \<noteq> k" using par_less [OF c(2)] par_less [OF c(4)] c(3) by auto
    then show ?thesis using n [OF c(1)] n [OF p [OF k c(4)]] o [of c] o [of k] c k by (simp, linarith)
  qed
  ultimately show ?thesis by (simp add: down_ok_def)
qed

lemma filled_mset:
  assumes "k < length h - 1"
  shows "mset h = add_mset (h ! k) (mset (filled k h))"
proof -
  let ?s = "swapped k (length h - 1) h"
  have "?s \<noteq> []" "last ?s = h ! k" using assms by (auto simp: last_conv_nth swapped_nth simp flip: length_greater_0_conv)
  then have "mset ?s = add_mset (h ! k) (mset (butlast ?s))" by (metis append_butlast_last_id mset.simps(1,2) mset_append union_mset_add_mset_right add.right_neutral)
  then show ?thesis using assms by (simp add: filled_def)
qed

lemma butlast_heap: "heap_ok h \<Longrightarrow> heap_ok (butlast h)"
proof -
  assume h: "heap_ok h"
  have "par i < length h - 1" if "i < length h - 1" "0 < i" for i using par_less [OF that(2)] that by linarith
  then show ?thesis using h by (simp add: heap_ok_def nth_butlast)
qed

text \<open>What removing the timer \<open>t\<close> from the heap does.\<close>

definition heap_removed :: "ptr \<Rightarrow> 'h timer_queue \<Rightarrow> 'h timer_queue \<Rightarrow> bool" where
  "heap_removed t q q' \<longleftrightarrow> idx_ok q' \<and> heap_ok (tq_heap q') \<and> tq_timers q' = tq_timers q \<and>
     set (tq_heap q') = {e \<in> set (tq_heap q). snd e \<noteq> t} \<and> length (tq_heap q') < length (tq_heap q) \<and>
     (\<forall>x. pt_ops (tq_data q' x) = pt_ops (tq_data q x) \<and> pt_next (tq_data q' x) = pt_next (tq_data q x) \<and>
        pt_prev (tq_data q' x) = pt_prev (tq_data q x) \<and>
        (x \<notin> snd ` set (tq_heap q) \<longrightarrow> pt_heap_index (tq_data q' x) = pt_heap_index (tq_data q x))) \<and>
     pt_heap_index (tq_data q' t) = max_index"

lemma removed_set:
  assumes "idx_ok q" and "k < length (tq_heap q)" and "mset (tq_heap q) = add_mset (tq_heap q ! k) (mset h)"
  shows "set h = {e \<in> set (tq_heap q). snd e \<noteq> snd (tq_heap q ! k)}"
proof -
  have "distinct (map snd (tq_heap q))" by (rule idx_distinct [OF assms(1)])
  moreover have "mset (map snd (tq_heap q)) = mset (snd (tq_heap q ! k) # map snd h)" using assms(3) by simp
  ultimately have "distinct (snd (tq_heap q ! k) # map snd h)" using mset_eq_imp_distinct_iff by blast
  moreover have "set (tq_heap q) = insert (tq_heap q ! k) (set h)" using assms(3) by (metis set_mset_add_mset_insert set_mset_mset)
  ultimately show ?thesis by (auto simp: image_iff)
qed

lemma pop_back_idx:
  assumes "idx_ok q" and "tq_heap q \<noteq> []" and "snd (last (tq_heap q)) = t"
  shows "idx_ok (set_data t (pt_heap_index_update (\<lambda>_. max_index)) q\<lparr>tq_heap := butlast (tq_heap q)\<rparr>)"
proof -
  have d: "distinct (map snd (tq_heap q))" by (rule idx_distinct [OF assms(1)])
  have "snd (tq_heap q ! k) \<noteq> t" if "k < length (tq_heap q) - 1" for k
    using d assms(2,3) that by (auto simp: distinct_conv_nth last_conv_nth)
  then show ?thesis using assms(1) by (simp add: idx_ok_def set_data_def nth_butlast)
qed

lemma heap_remove_last:
  assumes idx: "idx_ok q" and heap: "heap_ok (tq_heap q)" and k: "k = length (tq_heap q) - 1" "k < length (tq_heap q)" "snd (tq_heap q ! k) = t"
  shows "heap_removed t q (heap_remove t q)"
proof -
  let ?h = "tq_heap q"
  let ?q = "set_data t (pt_heap_index_update (\<lambda>_. max_index)) q\<lparr>tq_heap := butlast ?h\<rparr>"
  have i: "pt_heap_index (tq_data q t) = k" using idx k(2,3) by (auto simp: idx_ok_def)
  then have e: "heap_remove t q = ?q" using k(1,2) by (auto simp: heap_remove_def Let_def set_data_def)
  have ne: "?h \<noteq> []" using k(2) by auto
  then have l: "last ?h = ?h ! k" using k(1) by (simp add: last_conv_nth)
  have "mset ?h = add_mset (?h ! k) (mset (butlast ?h))" using ne l
    by (metis append_butlast_last_id mset.simps(1,2) mset_append union_mset_add_mset_right add.right_neutral)
  from removed_set [OF idx k(2) this] have "set (butlast ?h) = {e \<in> set ?h. snd e \<noteq> t}" using k(3) by simp
  moreover have "t \<in> snd ` set ?h" using k(2,3) nth_mem by force
  ultimately show ?thesis
    unfolding e heap_removed_def using pop_back_idx [OF idx ne] butlast_heap [OF heap] l k ne by (auto simp: set_data_def)
qed

lemma heap_remove_inner:
  assumes idx: "idx_ok q" and heap: "heap_ok (tq_heap q)" and kn: "k < length (tq_heap q) - 1" and kt: "snd (tq_heap q ! k) = t"
  shows "heap_removed t q (heap_remove t q)"
proof -
  let ?h = "tq_heap q" and ?n = "length (tq_heap q)"
  have k: "k < ?n" and n: "?n - 1 < ?n" using kn by simp_all
  have i: "pt_heap_index (tq_data q t) = k" using idx k kt by (auto simp: idx_ok_def)
  have t: "t \<in> snd ` set ?h" using k kt nth_mem by force
  let ?s = "swap_heap k (?n - 1) q"
  let ?q = "set_data t (pt_heap_index_update (\<lambda>_. max_index)) ?s\<lparr>tq_heap := butlast (tq_heap ?s)\<rparr>"
  have e: "heap_remove t q = (if 0 < k \<and> fst (tq_heap ?q ! k) < fst (tq_heap ?q ! par k) then up_heap k ?q else down_heap k ?q)"
    using k i kn by (auto simp: heap_remove_def Let_def set_data_def par_def)
  have h: "tq_heap ?q = filled k ?h" by (simp add: filled_def)
  have "tq_heap ?s \<noteq> []" "snd (last (tq_heap ?s)) = t"
    using kn kt by (auto simp: last_conv_nth swapped_nth simp flip: length_greater_0_conv)
  then have "idx_ok ?q" by (rule pop_back_idx [OF swap_heap_idx [OF idx k n]])
  note up = up_heap_ok [OF this, of k, unfolded h filled_length, OF kn]
    and down = down_heap_ok [OF this, of k, unfolded h filled_length, OF kn]
  have r: "rearranged ?q (heap_remove t q)" and x: "idx_ok (heap_remove t q)" and o: "heap_ok (tq_heap (heap_remove t q))"
    using up down filled_up [OF heap kn] filled_down [OF heap kn] unfolding e h by (auto split: if_splits)
  have s: "set (filled k ?h) = {e \<in> set ?h. snd e \<noteq> t}" using removed_set [OF idx k filled_mset [OF kn]] kt by simp
  have m: "mset (tq_heap (heap_remove t q)) = mset (filled k ?h)" using r h by (simp add: rearranged_def)
  have "pt_ops (tq_data ?q y) = pt_ops (tq_data q y) \<and> pt_next (tq_data ?q y) = pt_next (tq_data q y) \<and>
      pt_prev (tq_data ?q y) = pt_prev (tq_data q y) \<and> (y \<notin> snd ` set ?h \<longrightarrow> pt_heap_index (tq_data ?q y) = pt_heap_index (tq_data q y))" for y
    using swap_heap_rearranged [OF k n] t by (auto simp: rearranged_def set_data_def)
  moreover have "tq_timers ?q = tq_timers q" using swap_heap_rearranged [OF k n] by (simp add: rearranged_def set_data_def)
  moreover have "pt_heap_index (tq_data ?q t) = max_index" by (simp add: set_data_def)
  moreover have "t \<notin> snd ` set (tq_heap ?q)" using s h by auto
  moreover have "x \<notin> snd ` set ?h \<Longrightarrow> x \<notin> snd ` set (tq_heap ?q)" for x unfolding h s by auto
  ultimately show ?thesis
    using r x o mset_eq_setD [OF m] mset_eq_length [OF m] s k unfolding heap_removed_def rearranged_def by auto
qed

lemma heap_remove_ok:
  assumes "idx_ok q" and "heap_ok (tq_heap q)" and "t \<in> snd ` set (tq_heap q)"
  shows "heap_removed t q (heap_remove t q)"
proof -
  obtain k where k: "k < length (tq_heap q)" "snd (tq_heap q ! k) = t" using assms(3) by (auto simp: in_set_conv_nth)
  then show ?thesis using heap_remove_last [OF assms(1,2), of k t] heap_remove_inner [OF assms(1,2), of k t] by (cases "k = length (tq_heap q) - 1") auto
qed

section \<open>The list of active timers\<close>

text \<open>The nodes \<open>xs\<close>, from \<open>c\<close> with the node \<open>p\<close> before, up to \<open>e\<close>.\<close>

fun dseg :: "(ptr \<Rightarrow> 'h per_timer_data) \<Rightarrow> ptr option \<Rightarrow> ptr option \<Rightarrow> ptr list \<Rightarrow> ptr option \<Rightarrow> bool" where
  "dseg d p c [] e \<longleftrightarrow> c = e"
| "dseg d p c (x # xs) e \<longleftrightarrow> c = Some x \<and> pt_prev (d x) = p \<and> dseg d (Some x) (pt_next (d x)) xs e"

definition before :: "ptr option \<Rightarrow> ptr list \<Rightarrow> ptr option" where
  "before p xs = (if xs = [] then p else Some (last xs))"

lemma before_simps [simp]: "before p [] = p" "before (Some x) xs = before p (x # xs)" "before p (xs @ [x]) = Some x"
  by (simp_all add: before_def)

lemma dseg_append: "dseg d p c (xs @ ys) e \<longleftrightarrow> (\<exists>m. dseg d p c xs m \<and> dseg d (before p xs) m ys e)"
  by (induction xs arbitrary: p c) (auto simp: before_def)

lemma dseg_exit:
  "dseg d p c xs e \<Longrightarrow> distinct xs \<Longrightarrow> \<forall>x \<in> set xs. pt_prev (d' x) = pt_prev (d x) \<Longrightarrow>
   \<forall>x \<in> set (butlast xs). pt_next (d' x) = pt_next (d x) \<Longrightarrow> (xs \<noteq> [] \<Longrightarrow> pt_next (d' (last xs)) = e') \<Longrightarrow>
   dseg d' p (if xs = [] then e' else c) xs e'"
proof (induction xs arbitrary: p c)
  case (Cons x xs)
  then show ?case by (cases xs) auto
qed simp

lemma dseg_cong:
  "dseg d p c xs e \<Longrightarrow> \<forall>x \<in> set xs. pt_next (d' x) = pt_next (d x) \<and> pt_prev (d' x) = pt_prev (d x) \<Longrightarrow> dseg d' p c xs e"
  by (induction xs arbitrary: p c) auto

lemma dseg_entry:
  "dseg d p c xs e \<Longrightarrow> distinct xs \<Longrightarrow> \<forall>x \<in> set xs. pt_next (d' x) = pt_next (d x) \<Longrightarrow>
   \<forall>x \<in> set (tl xs). pt_prev (d' x) = pt_prev (d x) \<Longrightarrow> (xs \<noteq> [] \<Longrightarrow> pt_prev (d' (hd xs)) = p') \<Longrightarrow>
   dseg d' p' c xs e"
proof -
  assume "dseg d p c xs e" "distinct xs" "\<forall>x \<in> set xs. pt_next (d' x) = pt_next (d x)"
    "\<forall>x \<in> set (tl xs). pt_prev (d' x) = pt_prev (d x)" "xs \<noteq> [] \<Longrightarrow> pt_prev (d' (hd xs)) = p'"
  then show ?thesis by (cases xs) (auto intro: dseg_cong [of d])
qed

lemma dseg_next: "dseg d p c xs None \<Longrightarrow> c = (if xs = [] then None else Some (hd xs))"
  by (cases xs) auto

lemma dseg_split:
  "dseg d None c (ys @ t # zs) None \<longleftrightarrow>
   dseg d None c ys (Some t) \<and> pt_prev (d t) = before None ys \<and> dseg d (Some t) (pt_next (d t)) zs None"
  by (auto simp: dseg_append)

lemma dseg_join:
  assumes "dseg d' None c ys e" and "dseg d' (before None ys) e zs None"
  shows "dseg d' None c (ys @ zs) None"
  using assms by (auto simp: dseg_append)

lemma list_remove_fields [simp]:
  "tq_heap (list_remove t q) = tq_heap q" "pt_ops (tq_data (list_remove t q) x) = pt_ops (tq_data q x)"
  "pt_heap_index (tq_data (list_remove t q) x) = pt_heap_index (tq_data q x)"
  by (auto simp: list_remove_def set_at_def set_data_def Let_def split: option.split)

lemma list_remove_links:
  assumes "dseg (tq_data q) None (tq_timers q) (ys @ t # zs) None" and "distinct (ys @ t # zs)"
  shows "pt_next (tq_data (list_remove t q) x) =
      (if x = t then None else if ys \<noteq> [] \<and> x = last ys then pt_next (tq_data q t) else pt_next (tq_data q x))"
    "pt_prev (tq_data (list_remove t q) x) =
      (if x = t then None else if zs \<noteq> [] \<and> x = hd zs then pt_prev (tq_data q t) else pt_prev (tq_data q x))"
    "tq_timers (list_remove t q) = (if ys = [] then pt_next (tq_data q t) else tq_timers q)"
proof -
  have p: "pt_prev (tq_data q t) = before None ys" and n: "pt_next (tq_data q t) = (if zs = [] then None else Some (hd zs))"
    and c: "tq_timers q = (if ys = [] then Some t else Some (hd ys))"
    using assms(1) dseg_next [of "tq_data q" "Some t" "pt_next (tq_data q t)" zs] dseg_next [OF assms(1)] unfolding dseg_split by auto
  have y: "ys \<noteq> [] \<Longrightarrow> last ys \<noteq> t \<and> hd ys \<noteq> t" "zs \<noteq> [] \<Longrightarrow> hd zs \<noteq> t" using assms(2) by auto
  show "pt_next (tq_data (list_remove t q) x) =
      (if x = t then None else if ys \<noteq> [] \<and> x = last ys then pt_next (tq_data q t) else pt_next (tq_data q x))"
    using p n c y by (cases "ys = []"; cases "zs = []") (auto simp: list_remove_def set_at_def set_data_def Let_def before_def)
  show "pt_prev (tq_data (list_remove t q) x) =
      (if x = t then None else if zs \<noteq> [] \<and> x = hd zs then pt_prev (tq_data q t) else pt_prev (tq_data q x))"
    using p n c y by (cases "ys = []"; cases "zs = []") (auto simp: list_remove_def set_at_def set_data_def Let_def before_def)
  show "tq_timers (list_remove t q) = (if ys = [] then pt_next (tq_data q t) else tq_timers q)"
    using p n c y by (cases "ys = []"; cases "zs = []") (auto simp: list_remove_def set_at_def set_data_def Let_def before_def)
qed

lemma list_remove_ok:
  assumes d: "dseg (tq_data q) None (tq_timers q) (ys @ t # zs) None" and x: "distinct (ys @ t # zs)"
  shows "dseg (tq_data (list_remove t q)) None (tq_timers (list_remove t q)) (ys @ zs) None"
proof -
  let ?d = "tq_data (list_remove t q)"
  note l = list_remove_links [OF d x]
  have s: "dseg (tq_data q) None (tq_timers q) ys (Some t)" "pt_prev (tq_data q t) = before None ys"
    "dseg (tq_data q) (Some t) (pt_next (tq_data q t)) zs None" using d unfolding dseg_split by auto
  have 1: "\<forall>y \<in> set ys. pt_prev (?d y) = pt_prev (tq_data q y)" "\<forall>y \<in> set (butlast ys). pt_next (?d y) = pt_next (tq_data q y)"
    "\<forall>y \<in> set zs. pt_next (?d y) = pt_next (tq_data q y)" "\<forall>y \<in> set (tl zs). pt_prev (?d y) = pt_prev (tq_data q y)"
    "ys \<noteq> [] \<Longrightarrow> pt_next (?d (last ys)) = pt_next (tq_data q t)" "zs \<noteq> [] \<Longrightarrow> pt_prev (?d (hd zs)) = before None ys"
  proof -
    have "y \<noteq> t \<and> (zs \<noteq> [] \<longrightarrow> y \<noteq> hd zs)" if "y \<in> set ys" for y using x that hd_in_set [of zs] by auto
    then show "\<forall>y \<in> set ys. pt_prev (?d y) = pt_prev (tq_data q y)" by (auto simp: l)
    have "y \<noteq> t \<and> (ys \<noteq> [] \<longrightarrow> y \<noteq> last ys)" if "y \<in> set zs" for y using x that last_in_set [of ys] by (auto simp: disjoint_iff)
    then show "\<forall>y \<in> set zs. pt_next (?d y) = pt_next (tq_data q y)" by (auto simp: l)
    have "y \<noteq> t \<and> y \<noteq> last ys" if "y \<in> set (butlast ys)" for y using x that by (cases ys rule: rev_cases) auto
    then show "\<forall>y \<in> set (butlast ys). pt_next (?d y) = pt_next (tq_data q y)" by (simp add: l)
    have "y \<noteq> t \<and> y \<noteq> hd zs" if "y \<in> set (tl zs)" for y using x that by (cases zs) auto
    then show "\<forall>y \<in> set (tl zs). pt_prev (?d y) = pt_prev (tq_data q y)" by (simp add: l)
    show "ys \<noteq> [] \<Longrightarrow> pt_next (?d (last ys)) = pt_next (tq_data q t)" using x last_in_set [of ys] by (auto simp: l)
    show "zs \<noteq> [] \<Longrightarrow> pt_prev (?d (hd zs)) = before None ys" using x s(2) hd_in_set [of zs] by (auto simp: l)
  qed
  have "dseg ?d None (if ys = [] then pt_next (tq_data q t) else tq_timers q) ys (pt_next (tq_data q t))"
    using dseg_exit [OF s(1) _ 1(1,2,5)] x by simp
  moreover have "dseg ?d (before None ys) (pt_next (tq_data q t)) zs None" using dseg_entry [OF s(3) _ 1(3,4,6)] x by simp
  ultimately show ?thesis unfolding l(3) by (rule dseg_join)
qed

section \<open>Invariant\<close>

text \<open>Heap and list hold the same timers, \<open>xs\<close> in the order of the list.\<close>

definition links_ok :: "ptr list \<Rightarrow> 'h timer_queue \<Rightarrow> bool" where
  "links_ok xs q \<longleftrightarrow> idx_ok q \<and> heap_ok (tq_heap q) \<and> dseg (tq_data q) None (tq_timers q) xs None \<and> distinct xs \<and>
     set xs = snd ` set (tq_heap q) \<and> (\<forall>t. t \<notin> set xs \<longrightarrow> pt_prev (tq_data q t) = None \<and> pt_next (tq_data q t) = None)"

text \<open>The timers with operations are the active ones.\<close>

definition tq_ok :: "'h timer_queue \<Rightarrow> bool" where
  "tq_ok q \<longleftrightarrow> (\<exists>xs. links_ok xs q \<and> (\<forall>t. pt_ops (tq_data q t) \<noteq> [] \<longleftrightarrow> t \<in> set xs))"

lemma is_active_iff: "links_ok xs q \<Longrightarrow> is_active t q \<longleftrightarrow> t \<in> set xs"
proof -
  assume l: "links_ok xs q"
  show ?thesis
  proof (cases "t \<in> set xs")
    case True
    then obtain ys zs where s: "xs = ys @ t # zs" by (auto simp: in_set_conv_decomp)
    then have "dseg (tq_data q) None (tq_timers q) (ys @ t # zs) None" using l by (simp add: links_ok_def)
    then have "pt_prev (tq_data q t) = before None ys" "ys = [] \<Longrightarrow> tq_timers q = Some t" unfolding dseg_split by auto
    then show ?thesis using True by (auto simp: is_active_def before_def)
  next
    case False
    then have "pt_prev (tq_data q t) = None" using l by (simp add: links_ok_def)
    moreover have "tq_timers q \<noteq> Some t" using l False dseg_next [of "tq_data q" None "tq_timers q" xs] hd_in_set [of xs] by (auto simp: links_ok_def split: if_splits)
    ultimately show ?thesis using False by (simp add: is_active_def)
  qed
qed

lemma remove_timer_ok:
  assumes "links_ok xs q" and "t \<in> set xs"
  shows "links_ok (removeAll t xs) (remove_timer t q)" "set (tq_heap (remove_timer t q)) = {e \<in> set (tq_heap q). snd e \<noteq> t}"
    "length (tq_heap (remove_timer t q)) < length (tq_heap q)" "pt_ops (tq_data (remove_timer t q) x) = pt_ops (tq_data q x)"
    "pt_heap_index (tq_data (remove_timer t q) t) = max_index"
    "x \<notin> set xs \<Longrightarrow> pt_heap_index (tq_data (remove_timer t q) x) = pt_heap_index (tq_data q x)"
proof -
  let ?q = "heap_remove t q"
  have h: "heap_removed t q ?q" using heap_remove_ok [of q t] assms by (simp add: links_ok_def)
  obtain ys zs where s: "xs = ys @ t # zs" using assms(2) by (auto simp: in_set_conv_decomp)
  have x: "distinct (ys @ t # zs)" using assms(1) s by (simp add: links_ok_def)
  have "dseg (tq_data q) None (tq_timers q) xs None" using assms(1) by (simp add: links_ok_def)
  then have "dseg (tq_data ?q) None (tq_timers q) xs None" by (rule dseg_cong) (use h in \<open>simp add: heap_removed_def\<close>)
  then have d: "dseg (tq_data ?q) None (tq_timers ?q) (ys @ t # zs) None" using h s by (simp add: heap_removed_def)
  note l = list_remove_ok [OF d x] and f = list_remove_links [OF d x]
  have r: "removeAll t xs = ys @ zs" using x s by simp
  have i: "idx_ok (list_remove t ?q)" using h by (simp add: heap_removed_def idx_ok_def)
  have out: "pt_prev (tq_data (remove_timer t q) y) = None \<and> pt_next (tq_data (remove_timer t q) y) = None" if "y \<notin> set (ys @ zs)" for y
  proof (cases "y = t")
    case True
    then show ?thesis by (simp add: remove_timer_def f)
  next
    case False
    then have "y \<notin> set xs" using that s by simp
    then have "pt_prev (tq_data ?q y) = None" "pt_next (tq_data ?q y) = None" using assms(1) h by (simp_all add: links_ok_def heap_removed_def)
    moreover have "ys \<noteq> [] \<Longrightarrow> y \<noteq> last ys" "zs \<noteq> [] \<Longrightarrow> y \<noteq> hd zs" using that by auto
    ultimately show ?thesis using False by (auto simp: remove_timer_def f)
  qed
  have e: "set (ys @ zs) = snd ` {e \<in> set (tq_heap q). snd e \<noteq> t}"
  proof -
    have "set (ys @ zs) = set xs - {t}" using x s by auto
    then show ?thesis using assms(1) by (auto simp: links_ok_def image_iff)
  qed
  show "links_ok (removeAll t xs) (remove_timer t q)"
    unfolding r links_ok_def
  proof (intro conjI)
    show "set (ys @ zs) = snd ` set (tq_heap (remove_timer t q))" using e h by (simp add: heap_removed_def remove_timer_def)
    show "\<forall>t'. t' \<notin> set (ys @ zs) \<longrightarrow> pt_prev (tq_data (remove_timer t q) t') = None \<and> pt_next (tq_data (remove_timer t q) t') = None" using out by blast
  qed (use h i l x in \<open>simp_all add: heap_removed_def remove_timer_def\<close>)
  show "set (tq_heap (remove_timer t q)) = {e \<in> set (tq_heap q). snd e \<noteq> t}"
    "length (tq_heap (remove_timer t q)) < length (tq_heap q)" "pt_ops (tq_data (remove_timer t q) x) = pt_ops (tq_data q x)"
    "pt_heap_index (tq_data (remove_timer t q) t) = max_index"
    "x \<notin> set xs \<Longrightarrow> pt_heap_index (tq_data (remove_timer t q) x) = pt_heap_index (tq_data q x)"
    using h assms(1) by (simp_all add: heap_removed_def remove_timer_def links_ok_def)
qed

section \<open>What the queue holds\<close>

text \<open>The abstract view: which timers are active, when they expire and which operations wait on them.\<close>

definition waits :: "'h timer_queue \<Rightarrow> ptr \<rightharpoonup> int \<times> 'h wait_op list" where
  "waits q t = map_option (\<lambda>time. (time, pt_ops (tq_data q t))) (map_of (map prod.swap (tq_heap q)) t)"

text \<open>An inactive timer has no place in the heap.\<close>

definition idle_ok :: "'h timer_queue \<Rightarrow> bool" where
  "idle_ok q \<longleftrightarrow> (\<forall>t. waits q t = None \<longrightarrow> pt_heap_index (tq_data q t) = max_index)"

lemma waits_iff: "idx_ok q \<Longrightarrow> waits q t = Some (time, ops) \<longleftrightarrow> (time, t) \<in> set (tq_heap q) \<and> ops = pt_ops (tq_data q t)"
proof -
  assume "idx_ok q"
  then have "distinct (map fst (map prod.swap (tq_heap q)))" using idx_distinct [of q] by (simp add: comp_def)
  then have "map_of (map prod.swap (tq_heap q)) t = Some time \<longleftrightarrow> (t, time) \<in> set (map prod.swap (tq_heap q))" for time
    by (rule map_of_eq_Some_iff)
  then show ?thesis by (auto simp: waits_def)
qed

lemma waits_None: "waits q t = None \<longleftrightarrow> t \<notin> snd ` set (tq_heap q)"
  by (force simp: waits_def map_of_eq_None_iff image_iff)

lemma waits_eqI:
  assumes "idx_ok q" and "\<And>t time ops. m t = Some (time, ops) \<longleftrightarrow> (time, t) \<in> set (tq_heap q) \<and> ops = pt_ops (tq_data q t)"
  shows "waits q = m"
proof
  fix t
  show "waits q t = m t"
    using waits_iff [OF assms(1), of t] assms(2) [of t] by (cases "waits q t"; cases "m t") (force, auto)
qed

lemma links_ok_set_ops [simp]:
  "links_ok xs (set_data t (pt_ops_update f) q) = links_ok xs q" "is_active s (set_data t (pt_ops_update f) q) = is_active s q"
proof -
  let ?q = "set_data t (pt_ops_update f) q"
  have d: "pt_next (tq_data ?q x) = pt_next (tq_data q x)" "pt_prev (tq_data ?q x) = pt_prev (tq_data q x)"
    "pt_heap_index (tq_data ?q x) = pt_heap_index (tq_data q x)" for x by (simp_all add: set_data_def)
  have h: "tq_heap ?q = tq_heap q" "tq_timers ?q = tq_timers q" by (simp_all add: set_data_def)
  have "dseg (tq_data ?q) p c xs e = dseg (tq_data q) p c xs e" for p c e by (induction xs arbitrary: p c) (auto simp: d)
  then show "links_ok xs ?q = links_ok xs q" by (simp add: links_ok_def idx_ok_def d h)
  show "is_active s ?q = is_active s q" by (simp add: is_active_def d h)
qed

lemma set_ops_fields [simp]:
  "tq_heap (set_data t (pt_ops_update f) q) = tq_heap q" "idx_ok (set_data t (pt_ops_update f) q) = idx_ok q"
  "pt_ops (tq_data (set_data t (pt_ops_update f) q) x) = (if x = t then f (pt_ops (tq_data q t)) else pt_ops (tq_data q x))"
proof -
  have "pt_heap_index (tq_data (set_data t (pt_ops_update f) q) x) = pt_heap_index (tq_data q x)" for x by (simp add: set_data_def)
  then show "idx_ok (set_data t (pt_ops_update f) q) = idx_ok q" unfolding idx_ok_def by (simp add: set_data_def)
qed (simp_all add: set_data_def)

lemma waits_set_ops:
  "idx_ok q \<Longrightarrow> waits (set_data t (pt_ops_update f) q) = (waits q)(t := map_option (\<lambda>(time, ops). (time, f ops)) (waits q t))"
  by (auto simp: waits_def fun_eq_iff option.map_comp comp_def)

lemma links_idx: "links_ok xs q \<Longrightarrow> idx_ok q"
  by (simp add: links_ok_def)

lemma waits_remove:
  assumes "links_ok xs q" and "t \<in> set xs"
  shows "waits (remove_timer t q) = (waits q)(t := None)"
  by (rule waits_eqI [OF links_idx [OF remove_timer_ok(1) [OF assms]]])
    (auto simp: remove_timer_ok(2,4) [OF assms] waits_iff [OF links_idx [OF assms(1)]])

lemma tq_okI: "links_ok xs q \<Longrightarrow> (\<And>t. pt_ops (tq_data q t) \<noteq> [] \<longleftrightarrow> t \<in> set xs) \<Longrightarrow> tq_ok q"
  by (auto simp: tq_ok_def)

lemma tq_ok_idx: "tq_ok q \<Longrightarrow> idx_ok q"
  by (auto simp: tq_ok_def links_ok_def)

text \<open>Taking operations from a timer and removing it when it has none left: the end of a cancellation, and of an expired timer.\<close>

lemma take_ops_ok:
  fixes f :: "'h wait_op list \<Rightarrow> 'h wait_op list"
  assumes "tq_ok q" and "is_active t q"
  defines "q1 \<equiv> set_data t (pt_ops_update f) q"
  defines "q' \<equiv> if f (pt_ops (tq_data q t)) = [] then remove_timer t q1 else q1"
  shows "tq_ok q'"
    "waits q' = (waits q)(t := (if f (pt_ops (tq_data q t)) = [] then None else map_option (\<lambda>(time, ops). (time, f ops)) (waits q t)))"
    "f (pt_ops (tq_data q t)) = [] \<Longrightarrow> length (tq_heap q') < length (tq_heap q)"
    "\<And>x. waits q' x = None \<Longrightarrow> pt_heap_index (tq_data q' x) = (if x = t then max_index else pt_heap_index (tq_data q x))"
proof -
  obtain xs where xs: "links_ok xs q" "\<And>t. pt_ops (tq_data q t) \<noteq> [] \<longleftrightarrow> t \<in> set xs" using assms(1) by (auto simp: tq_ok_def)
  have t: "t \<in> set xs" using assms(2) xs(1) is_active_iff by blast
  have l: "links_ok xs q1" using xs(1) by (simp add: q1_def)
  note r = remove_timer_ok [OF l t]
  have o: "pt_ops (tq_data q1 x) = (if x = t then f (pt_ops (tq_data q t)) else pt_ops (tq_data q x))" for x by (simp add: q1_def)
  show "tq_ok q'"
    using tq_okI [OF l] tq_okI [OF r(1)] xs(2) t r(4) o by (auto simp: q'_def)
  show w: "waits q' = (waits q)(t := (if f (pt_ops (tq_data q t)) = [] then None else map_option (\<lambda>(time, ops). (time, f ops)) (waits q t)))"
    using waits_remove [OF l t] waits_set_ops [OF links_idx [OF xs(1)], of t f] by (simp add: q'_def q1_def)
  show "f (pt_ops (tq_data q t)) = [] \<Longrightarrow> length (tq_heap q') < length (tq_heap q)" using r(3) by (simp add: q'_def q1_def)
  fix x
  assume n: "waits q' x = None"
  have i: "pt_heap_index (tq_data q1 x) = pt_heap_index (tq_data q x)" by (simp add: q1_def set_data_def)
  show "pt_heap_index (tq_data q' x) = (if x = t then max_index else pt_heap_index (tq_data q x))"
  proof (cases "x = t")
    case True
    then have "f (pt_ops (tq_data q t)) = []" using n xs(1) t waits_None [of q t] unfolding w by (simp add: links_ok_def split: if_splits)
    then show ?thesis using r(5) True by (simp add: q'_def)
  next
    case False
    then have "x \<notin> set xs" using n xs(1) waits_None [of q x] unfolding w by (simp add: links_ok_def)
    then show ?thesis using r(6) [of x] i False by (simp add: q'_def)
  qed
qed

lemma active_waits: "tq_ok q \<Longrightarrow> is_active t q \<longleftrightarrow> waits q t \<noteq> None"
proof -
  assume "tq_ok q"
  then obtain xs where xs: "links_ok xs q" by (auto simp: tq_ok_def)
  then have "set xs = snd ` set (tq_heap q)" by (simp add: links_ok_def)
  then show ?thesis using is_active_iff [OF xs] unfolding waits_None by simp
qed

lemma waits_ops: "tq_ok q \<Longrightarrow> waits q t = Some (time, ops) \<Longrightarrow> pt_ops (tq_data q t) = ops \<and> ops \<noteq> []"
proof -
  assume a: "tq_ok q" "waits q t = Some (time, ops)"
  then obtain xs where xs: "links_ok xs q" "pt_ops (tq_data q t) \<noteq> [] \<longleftrightarrow> t \<in> set xs" by (auto simp: tq_ok_def)
  have "(time, t) \<in> set (tq_heap q)" "ops = pt_ops (tq_data q t)" using a(2) waits_iff [OF tq_ok_idx [OF a(1)]] by auto
  then show ?thesis using xs by (force simp: links_ok_def)
qed

lemma heap_root_min: "heap_ok h \<Longrightarrow> i < length h \<Longrightarrow> fst (h ! 0) \<le> fst (h ! i)"
proof (induction i rule: less_induct)
  case (less i)
  show ?case
  proof (cases "i = 0")
    case False
    then have "par i < i" by (simp add: par_less)
    then have "fst (h ! 0) \<le> fst (h ! par i)" "fst (h ! par i) \<le> fst (h ! i)" using less False by (auto simp: heap_ok_def)
    then show ?thesis by simp
  qed simp
qed

section \<open>Expired timers\<close>

lemma ready_loop_ok:
  "tq_ok q \<Longrightarrow> \<exists>ts q'. ready_loop now ops q = Some (ops @ concat (map (\<lambda>t. map clear_ec (snd (the (waits q t)))) ts), q') \<and> tq_ok q' \<and>
     distinct ts \<and> sorted (map (\<lambda>t. fst (the (waits q t))) ts) \<and> (\<forall>t. t \<in> set ts \<longleftrightarrow> (\<exists>time os. waits q t = Some (time, os) \<and> time \<le> now)) \<and>
     waits q' = (\<lambda>t. if t \<in> set ts then None else waits q t) \<and> (idle_ok q \<longrightarrow> idle_ok q')"
proof (induction "length (tq_heap q)" arbitrary: q ops rule: less_induct)
  case less
  note idx = tq_ok_idx [OF less.prems]
  obtain xs where xs: "links_ok xs q" "\<And>t. pt_ops (tq_data q t) \<noteq> [] \<longleftrightarrow> t \<in> set xs" using less.prems by (auto simp: tq_ok_def)
  then have heap: "heap_ok (tq_heap q)" by (simp add: links_ok_def)
  have root: "fst (hd (tq_heap q)) \<le> time" if "(time, t) \<in> set (tq_heap q)" for time t
    using heap_root_min [OF heap] that by (metis fst_conv hd_conv_nth in_set_conv_nth length_pos_if_in_set length_greater_0_conv)
  show ?case
  proof (cases "tq_heap q = [] \<or> now < fst (hd (tq_heap q))")
    case True
    then have "ready_loop now ops q = Some (ops, q)" by (subst ready_loop.simps) simp
    moreover have "\<not> time \<le> now" if "waits q t = Some (time, os)" for t time os
      using True root [of time t] that waits_iff [OF idx, of t time os] by auto
    ultimately show ?thesis using less.prems by (intro exI [of _ "[]"] exI [of _ q]) auto
  next
    case False
    obtain time t where rt: "hd (tq_heap q) = (time, t)" by fastforce
    then have tm: "(time, t) \<in> set (tq_heap q)" using False by (metis hd_in_set)
    let ?os = "pt_ops (tq_data q t)" and ?q = "remove_timer t (set_data t (pt_ops_update (\<lambda>_. [])) q)"
    have w: "waits q t = Some (time, ?os)" using waits_iff [OF idx] tm by simp
    then have a: "is_active t q" using active_waits [OF less.prems] by simp
    note r = take_ops_ok [OF less.prems a, where f = "\<lambda>_. []", simplified]
    have e: "ready_loop now ops q = ready_loop now (ops @ map clear_ec ?os) ?q"
      using False rt by (subst ready_loop.simps) (simp add: Let_def)
    from less.hyps [OF r(3) r(1), of "ops @ map clear_ec ?os"] obtain ts q' where
      ts: "ready_loop now (ops @ map clear_ec ?os) ?q = Some ((ops @ map clear_ec ?os) @ concat (map (\<lambda>t. map clear_ec (snd (the (waits ?q t)))) ts), q')"
        "tq_ok q'" "distinct ts" "sorted (map (\<lambda>t. fst (the (waits ?q t))) ts)"
        "\<And>s. s \<in> set ts \<longleftrightarrow> (\<exists>time os. waits ?q s = Some (time, os) \<and> time \<le> now)" "waits q' = (\<lambda>t. if t \<in> set ts then None else waits ?q t)"
        "idle_ok ?q \<longrightarrow> idle_ok q'"
      by blast
    have nt: "t \<notin> set ts" using ts(5) r(2) by simp
    then have same: "map (\<lambda>t. f (the (waits ?q t))) ts = map (\<lambda>t. f (the (waits q t))) ts" for f :: "int \<times> 'a wait_op list \<Rightarrow> 'b"
      using r(2) by (auto intro!: map_cong)
    have "time \<le> fst (the (waits q s))" if "s \<in> set ts" for s
    proof -
      obtain u os where "waits ?q s = Some (u, os)" using ts(5) \<open>s \<in> set ts\<close> by blast
      then have "waits q s = Some (u, os)" using r(2) nt \<open>s \<in> set ts\<close> by (auto split: if_splits)
      moreover from this have "(u, s) \<in> set (tq_heap q)" using waits_iff [OF idx] by blast
      ultimately show ?thesis using root rt by force
    qed
    moreover have "s \<in> set (t # ts) \<longleftrightarrow> (\<exists>time os. waits q s = Some (time, os) \<and> time \<le> now)" for s
      using ts(5) [of s] r(2) w False rt by (cases "s = t") auto
    moreover have "waits q' = (\<lambda>s. if s \<in> set (t # ts) then None else waits q s)" using ts(6) r(2) by auto
    moreover have "ready_loop now ops q = Some (ops @ concat (map (\<lambda>t. map clear_ec (snd (the (waits q t)))) (t # ts)), q')"
      using e ts(1) same [of "\<lambda>p. map clear_ec (snd p)"] w by simp
    moreover have "idle_ok q \<longrightarrow> idle_ok q'" using ts(7) r(2,4) by (auto simp: idle_ok_def split: if_splits)
    ultimately show ?thesis
      using ts(2,3) ts(4) [unfolded same] nt w by (intro exI [of _ "t # ts"] exI [of _ q'] conjI) simp_all
  qed
qed

section \<open>Adding a timer\<close>

lemma push_back_idx:
  assumes "idx_ok q" and "t \<notin> snd ` set (tq_heap q)"
  shows "idx_ok (set_data t (pt_heap_index_update (\<lambda>_. length (tq_heap q))) q\<lparr>tq_heap := tq_heap q @ [(time, t)]\<rparr>)"
proof -
  have "snd (tq_heap q ! k) \<noteq> t" if "k < length (tq_heap q)" for k using assms(2) that nth_mem by force
  then show ?thesis using assms(1) by (auto simp: idx_ok_def set_data_def nth_append less_Suc_eq)
qed

lemma push_back_up: "heap_ok h \<Longrightarrow> up_ok (length h) (h @ [e])"
proof -
  assume h: "heap_ok h"
  have "par i < length h" if "i < length h" "0 < i" for i using par_less [OF that(2)] that by linarith
  moreover have "par c \<noteq> length h" if "c < Suc (length h)" "0 < c" for c using par_less [OF that(2)] that(1) by simp
  ultimately show ?thesis using h unfolding up_ok_def heap_ok_def by (auto simp: nth_append less_Suc_eq)
qed

lemma link_timer_fields [simp]:
  "tq_heap (link_timer t q) = tq_heap q" "pt_ops (tq_data (link_timer t q) x) = pt_ops (tq_data q x)"
  "pt_heap_index (tq_data (link_timer t q) x) = pt_heap_index (tq_data q x)" "tq_timers (link_timer t q) = Some t"
  by (auto simp: link_timer_def set_at_def set_data_def Let_def split: option.split)

lemma link_timer_links:
  assumes "tq_timers q \<noteq> Some t"
  shows "pt_next (tq_data (link_timer t q) x) = (if x = t then tq_timers q else pt_next (tq_data q x))"
    "pt_prev (tq_data (link_timer t q) x) = (if x = t then None else if tq_timers q = Some x then Some t else pt_prev (tq_data q x))"
  using assms by (auto simp: link_timer_def set_at_def set_data_def Let_def split: option.split)

lemma link_timer_ok:
  assumes d: "dseg (tq_data q) None (tq_timers q) xs None" and x: "distinct xs" "t \<notin> set xs"
  shows "dseg (tq_data (link_timer t q)) None (Some t) (t # xs) None"
proof -
  have c: "tq_timers q = (if xs = [] then None else Some (hd xs))" by (rule dseg_next [OF d])
  then have ne: "tq_timers q \<noteq> Some t" using x(2) hd_in_set [of xs] by (auto split: if_splits)
  note l = link_timer_links [OF ne]
  have "y \<noteq> hd xs" if "y \<in> set (tl xs)" for y using x(1) that by (cases xs) auto
  moreover have "y \<in> set xs" if "y \<in> set (tl xs)" for y using that by (cases xs) auto
  ultimately have "dseg (tq_data (link_timer t q)) (Some t) (tq_timers q) xs None"
    using x c by (intro dseg_entry [OF d]) (auto simp: l)
  then show ?thesis using l by simp
qed

text \<open>A timer that was inactive: in the heap, in the list, and what the other timers keep.\<close>

definition timer_added :: "int \<Rightarrow> ptr \<Rightarrow> 'h timer_queue \<Rightarrow> 'h timer_queue" where
  "timer_added time t q =
     link_timer t (up_heap (length (tq_heap q)) (set_data t (pt_heap_index_update (\<lambda>_. length (tq_heap q))) q\<lparr>tq_heap := tq_heap q @ [(time, t)]\<rparr>))"

lemma timer_added_ok:
  assumes l: "links_ok xs q" and t: "t \<notin> set xs"
  shows "links_ok (t # xs) (timer_added time t q)" "set (tq_heap (timer_added time t q)) = insert (time, t) (set (tq_heap q))"
    "pt_ops (tq_data (timer_added time t q) x) = pt_ops (tq_data q x)"
proof -
  let ?q = "set_data t (pt_heap_index_update (\<lambda>_. length (tq_heap q))) q\<lparr>tq_heap := tq_heap q @ [(time, t)]\<rparr>"
  let ?u = "up_heap (length (tq_heap q)) ?q"
  have q: "idx_ok q" "heap_ok (tq_heap q)" "t \<notin> snd ` set (tq_heap q)" and xs: "distinct xs" "set xs = snd ` set (tq_heap q)"
    using l t by (auto simp: links_ok_def)
  have u: "rearranged ?q ?u" "idx_ok ?u" "heap_ok (tq_heap ?u)"
    using up_heap_ok [OF push_back_idx [OF q(1,3)], of "length (tq_heap q)" time] push_back_up [OF q(2), of "(time, t)"] by simp_all
  have m: "mset (tq_heap ?u) = add_mset (time, t) (mset (tq_heap q))" using u(1) by (simp add: rearranged_def)
  have f: "pt_ops (tq_data ?u x) = pt_ops (tq_data q x)" "pt_next (tq_data ?u x) = pt_next (tq_data q x)"
    "pt_prev (tq_data ?u x) = pt_prev (tq_data q x)" "tq_timers ?u = tq_timers q" for x
    using u(1) by (auto simp: rearranged_def set_data_def)
  have "dseg (tq_data q) None (tq_timers q) xs None" using l by (simp add: links_ok_def)
  then have d: "dseg (tq_data ?u) None (tq_timers ?u) xs None" unfolding f(4) by (rule dseg_cong) (simp add: f)
  have ne: "tq_timers ?u \<noteq> Some t" using dseg_next [OF d] t hd_in_set [of xs] by (auto split: if_splits)
  show s: "set (tq_heap (timer_added time t q)) = insert (time, t) (set (tq_heap q))"
    unfolding timer_added_def using arg_cong [OF m, of set_mset] by simp
  have i: "idx_ok (timer_added time t q)" using u(2) by (simp add: timer_added_def idx_ok_def)
  have out: "pt_prev (tq_data (timer_added time t q) y) = None \<and> pt_next (tq_data (timer_added time t q) y) = None" if "y \<notin> set (t # xs)" for y
  proof -
    have "tq_timers q \<noteq> Some y" using dseg_next [OF d] f(4) that hd_in_set [of xs] by (auto split: if_splits)
    then show ?thesis using l that f unfolding timer_added_def link_timer_links [OF ne] by (simp add: links_ok_def)
  qed
  show "links_ok (t # xs) (timer_added time t q)"
    unfolding links_ok_def
  proof (intro conjI)
    show "set (t # xs) = snd ` set (tq_heap (timer_added time t q))" using s xs(2) by simp
    show "\<forall>y. y \<notin> set (t # xs) \<longrightarrow> pt_prev (tq_data (timer_added time t q) y) = None \<and> pt_next (tq_data (timer_added time t q) y) = None" using out by blast
    show "dseg (tq_data (timer_added time t q)) None (tq_timers (timer_added time t q)) (t # xs) None"
      using link_timer_ok [OF d xs(1) t] by (simp add: timer_added_def)
  qed (use i u(3) xs(1) t in \<open>simp_all add: timer_added_def\<close>)
  show "pt_ops (tq_data (timer_added time t q) x) = pt_ops (tq_data q x)" by (simp add: timer_added_def f)
qed

definition enqueued :: "int \<Rightarrow> ptr \<Rightarrow> 'h wait_op \<Rightarrow> 'h timer_queue \<Rightarrow> 'h timer_queue" where
  "enqueued time t op q = set_data t (pt_ops_update (\<lambda>ops. ops @ [op])) (if is_active t q then q else timer_added time t q)"

lemma enqueue_eq:
  "enqueue_timer True time t op q =
     (Some (pt_heap_index (tq_data (enqueued time t op q) t) = 0 \<and> wo_id (hd (pt_ops (tq_data (enqueued time t op q) t))) = wo_id op),
      enqueued time t op q)"
  by (simp add: enqueue_timer_def enqueued_def timer_added_def Let_def set_data_def)

lemma enqueued_links:
  assumes "links_ok xs q"
  shows "links_ok (if t \<in> set xs then xs else t # xs) (enqueued time t op q)"
    "set (tq_heap (enqueued time t op q)) = (if t \<in> set xs then set (tq_heap q) else insert (time, t) (set (tq_heap q)))"
    "pt_ops (tq_data (enqueued time t op q) x) = (if x = t then pt_ops (tq_data q t) @ [op] else pt_ops (tq_data q x))"
  using assms timer_added_ok [OF assms] is_active_iff [OF assms] by (simp_all add: enqueued_def)

lemma enqueued_ok: "tq_ok q \<Longrightarrow> tq_ok (enqueued time t op q)"
proof -
  assume "tq_ok q"
  then obtain xs where xs: "links_ok xs q" "\<And>t. pt_ops (tq_data q t) \<noteq> [] \<longleftrightarrow> t \<in> set xs" by (auto simp: tq_ok_def)
  then show ?thesis using tq_okI [OF enqueued_links(1) [OF xs(1)]] enqueued_links(3) [OF xs(1)] by auto
qed

lemma waits_enqueued:
  assumes ok: "tq_ok q"
  shows "waits (enqueued time t op q) = (waits q)(t \<mapsto> (case waits q t of None \<Rightarrow> (time, [op]) | Some (due, ops) \<Rightarrow> (due, ops @ [op])))"
proof -
  obtain xs where xs: "links_ok xs q" "\<And>t. pt_ops (tq_data q t) \<noteq> [] \<longleftrightarrow> t \<in> set xs" using ok by (auto simp: tq_ok_def)
  have sx: "set xs = snd ` set (tq_heap q)" using xs(1) by (simp add: links_ok_def)
  note i0 = links_idx [OF xs(1)]
  show ?thesis
  proof (cases "t \<in> set xs")
    case True
    then have "waits q t \<noteq> None" using sx by (simp add: waits_None)
    then show ?thesis using waits_set_ops [OF i0, of t] True is_active_iff [OF xs(1)] by (auto simp: enqueued_def)
  next
    case False
    then have n: "waits q t = None" "pt_ops (tq_data q t) = []" using sx xs(2) [of t] by (auto simp: waits_None)
    moreover have "(u, t) \<notin> set (tq_heap q)" for u using False sx by force
    ultimately show ?thesis
      using False enqueued_links(2,3) [OF xs(1)]
      by (intro waits_eqI [OF links_idx [OF enqueued_links(1) [OF xs(1)]]]) (auto simp: waits_iff [OF i0])
  qed
qed

lemma root_earliest:
  assumes "tq_ok q" and "waits q s = Some (due, ops)"
  shows "fst (tq_heap q ! 0) \<le> due" "tq_heap q \<noteq> []" "waits q (snd (tq_heap q ! 0)) = Some (fst (tq_heap q ! 0), pt_ops (tq_data q (snd (tq_heap q ! 0))))"
proof -
  note w = waits_iff [OF tq_ok_idx [OF assms(1)]]
  have m: "(due, s) \<in> set (tq_heap q)" using assms(2) w by blast
  then show ne: "tq_heap q \<noteq> []" by auto
  have "heap_ok (tq_heap q)" using assms(1) by (auto simp: tq_ok_def links_ok_def)
  then show "fst (tq_heap q ! 0) \<le> due" using m heap_root_min by (metis fst_conv in_set_conv_nth)
  show "waits q (snd (tq_heap q ! 0)) = Some (fst (tq_heap q ! 0), pt_ops (tq_data q (snd (tq_heap q ! 0))))" using ne w by simp
qed

lemma root_index:
  assumes "tq_ok q" and "waits q t \<noteq> None" and "pt_heap_index (tq_data q t) = 0"
  shows "snd (tq_heap q ! 0) = t"
proof -
  obtain k where "k < length (tq_heap q)" "snd (tq_heap q ! k) = t" using assms(2) by (auto simp: waits_None in_set_conv_nth)
  then show ?thesis using assms(3) tq_ok_idx [OF assms(1)] by (auto simp: idx_ok_def)
qed

text \<open>
  The result of \<open>enqueue_timer\<close>: when it is true the timer is the earliest; when it is false, one that was there before is
  not later than any.
\<close>

lemma enqueue_first:
  assumes ok: "tq_ok q" and e: "enqueue_timer True time t op q = (Some first, q')" and s: "waits q' s = Some (due, ops)"
  shows "first \<Longrightarrow> fst (the (waits q' t)) \<le> due" "\<not> first \<Longrightarrow> \<exists>s' due' ops'. waits q s' = Some (due', ops') \<and> due' \<le> due"
proof -
  have q': "q' = enqueued time t op q"
    and f: "first \<longleftrightarrow> pt_heap_index (tq_data q' t) = 0 \<and> wo_id (hd (pt_ops (tq_data q' t))) = wo_id op" using e unfolding enqueue_eq by auto
  have ok': "tq_ok q'" using enqueued_ok [OF ok] q' by simp
  note w = waits_enqueued [OF ok, of time t op, folded q'] and r = root_earliest [OF ok' s]
  have t: "waits q' t \<noteq> None" by (simp add: w)
  show "first \<Longrightarrow> fst (the (waits q' t)) \<le> due" using f root_index [OF ok' t] r by auto
  assume n: "\<not> first"
  show "\<exists>s' due' ops'. waits q s' = Some (due', ops') \<and> due' \<le> due"
  proof (cases "waits q t")
    case None
    then have "pt_ops (tq_data q' t) = [op]" using w waits_ops [OF ok', of t time "[op]"] by simp
    then have "snd (tq_heap q' ! 0) \<noteq> t" using n f tq_ok_idx [OF ok'] r(2) by (auto simp: idx_ok_def)
    then have "waits q (snd (tq_heap q' ! 0)) = waits q' (snd (tq_heap q' ! 0))" by (simp add: w)
    then show ?thesis using r(1,3) by auto
  next
    case (Some p)
    then have "\<exists>os. waits q s = Some (due, os)" using s by (cases p) (auto simp: w split: if_splits)
    then show ?thesis by blast
  qed
qed

lemma enqueued_index:
  assumes "idx_ok q" and "x \<noteq> t" and "waits q x = None" and "is_active t q \<longleftrightarrow> waits q t \<noteq> None"
  shows "pt_heap_index (tq_data (enqueued time t op q) x) = pt_heap_index (tq_data q x)"
proof (cases "is_active t q")
  case True
  then show ?thesis using assms(2) by (simp add: enqueued_def set_data_def)
next
  case False
  let ?q = "set_data t (pt_heap_index_update (\<lambda>_. length (tq_heap q))) q\<lparr>tq_heap := tq_heap q @ [(time, t)]\<rparr>"
  have "rearranged ?q (up_heap (length (tq_heap q)) ?q)"
    using up_heap_ok [OF push_back_idx [OF assms(1)]] False assms(4) by (simp add: waits_None)
  moreover have "x \<notin> snd ` set (tq_heap ?q)" using assms(2,3) waits_None [of q x] by simp
  ultimately have "pt_heap_index (tq_data (up_heap (length (tq_heap q)) ?q) x) = pt_heap_index (tq_data ?q x)" unfolding rearranged_def by blast
  then show ?thesis using assms(2) False by (simp add: enqueued_def timer_added_def set_data_def)
qed

lemma heap_size: "tq_ok q \<Longrightarrow> finite (dom (waits q)) \<and> length (tq_heap q) = card (dom (waits q))"
proof -
  assume ok: "tq_ok q"
  have "dom (waits q) = set (map snd (tq_heap q))" by (simp add: dom_def waits_None)
  moreover have "card (set (map snd (tq_heap q))) = length (tq_heap q)" using idx_distinct [OF tq_ok_idx [OF ok]] distinct_card by fastforce
  ultimately show ?thesis by simp
qed

section \<open>Cancelling\<close>

definition ops_of :: "(ptr \<rightharpoonup> int \<times> 'h wait_op list) \<Rightarrow> ptr \<Rightarrow> 'h wait_op list" where
  "ops_of w t = (case w t of None \<Rightarrow> [] | Some (due, ops) \<Rightarrow> ops)"

text \<open>The timer keeps the operations \<open>rest\<close>, and is gone when there are none.\<close>

definition keep_ops :: "ptr \<Rightarrow> 'h wait_op list \<Rightarrow> (ptr \<rightharpoonup> int \<times> 'h wait_op list) \<Rightarrow> (ptr \<rightharpoonup> int \<times> 'h wait_op list)" where
  "keep_ops t rest w = w(t := (if rest = [] then None else map_option (\<lambda>(due, ops). (due, rest)) (w t)))"

lemma ops_of_data: "tq_ok q \<Longrightarrow> ops_of (waits q) t = pt_ops (tq_data q t)"
proof -
  assume ok: "tq_ok q"
  then obtain xs where xs: "links_ok xs q" "\<And>t. pt_ops (tq_data q t) \<noteq> [] \<longleftrightarrow> t \<in> set xs" by (auto simp: tq_ok_def)
  show ?thesis
  proof (cases "waits q t")
    case None
    then have "t \<notin> set xs" using xs(1) waits_None [of q t] by (simp add: links_ok_def)
    then show ?thesis using xs(2) [of t] None by (simp add: ops_of_def)
  next
    case (Some p)
    then show ?thesis using waits_ops [OF ok, of t "fst p" "snd p"] by (simp add: ops_of_def split: prod.split)
  qed
qed

lemma take_ops_keep:
  fixes rest :: "'h wait_op list"
  assumes ok: "tq_ok q" and "is_active t q"
  defines "q' \<equiv> if rest = [] then remove_timer t (set_data t (pt_ops_update (\<lambda>_. rest)) q) else set_data t (pt_ops_update (\<lambda>_. rest)) q"
  shows "tq_ok q'" "waits q' = keep_ops t rest (waits q)" "idle_ok q \<Longrightarrow> idle_ok q'"
proof -
  note r = take_ops_ok [OF assms(1,2), where f = "\<lambda>_. rest", folded q'_def]
  show "tq_ok q'" by (rule r(1))
  show w: "waits q' = keep_ops t rest (waits q)" using r(2) by (simp add: keep_ops_def)
  show "idle_ok q \<Longrightarrow> idle_ok q'" using r(4) w by (auto simp: idle_ok_def keep_ops_def split: if_splits)
qed

lemma inactive_ops: "tq_ok q \<Longrightarrow> \<not> is_active t q \<Longrightarrow> ops_of (waits q) t = [] \<and> keep_ops t [] (waits q) = waits q"
  using active_waits [of q t] by (cases "waits q t") (auto simp: ops_of_def keep_ops_def fun_upd_idem)

lemma cancel_ok:
  assumes ok: "tq_ok q"
  obtains q' where "cancel_timer t n ops q = (length (take n (ops_of (waits q) t)), ops @ map abort_op (take n (ops_of (waits q) t)), q')"
    "tq_ok q'" "waits q' = keep_ops t (drop n (ops_of (waits q) t)) (waits q)" "idle_ok q \<Longrightarrow> idle_ok q'"
proof (cases "is_active t q")
  case True
  note r = take_ops_keep [OF ok True, of "drop n (ops_of (waits q) t)"]
  show ?thesis by (rule that [OF _ r]) (use True in \<open>simp_all add: cancel_timer_def Let_def ops_of_data [OF ok]\<close>)
next
  case False
  show ?thesis by (rule that [of q]) (use False inactive_ops [OF ok False] ok in \<open>simp_all add: cancel_timer_def\<close>)
qed

lemma cancel_by_key_ok:
  assumes ok: "tq_ok q"
  obtains q' where "cancel_timer_by_key t key ops q = (ops @ map abort_op (filter (\<lambda>op. wo_key op = key) (ops_of (waits q) t)), q')"
    "tq_ok q'" "waits q' = keep_ops t (filter (\<lambda>op. wo_key op \<noteq> key) (ops_of (waits q) t)) (waits q)" "idle_ok q \<Longrightarrow> idle_ok q'"
proof (cases "is_active t q")
  case True
  note r = take_ops_keep [OF ok True, of "filter (\<lambda>op. wo_key op \<noteq> key) (ops_of (waits q) t)"]
  show ?thesis by (rule that [OF _ r]) (use True in \<open>simp_all add: cancel_timer_by_key_def Let_def ops_of_data [OF ok]\<close>)
next
  case False
  show ?thesis by (rule that [of q]) (use False inactive_ops [OF ok False] ok in \<open>simp_all add: cancel_timer_by_key_def\<close>)
qed

section \<open>All timers\<close>

lemma all_loop_ok:
  "dseg (tq_data q) p (tq_timers q) xs None \<Longrightarrow> distinct xs \<Longrightarrow>
   \<exists>q'. all_loop ops q = Some (ops @ concat (map (\<lambda>t. pt_ops (tq_data q t)) xs), q') \<and> tq_timers q' = None \<and> tq_heap q' = tq_heap q \<and>
     (\<forall>t. pt_ops (tq_data q' t) = (if t \<in> set xs then [] else pt_ops (tq_data q t)) \<and>
        pt_next (tq_data q' t) = (if t \<in> set xs then None else pt_next (tq_data q t)) \<and>
        pt_prev (tq_data q' t) = (if t \<in> set xs then None else pt_prev (tq_data q t)))"
proof (induction xs arbitrary: q p ops)
  case Nil
  then have "all_loop ops q = Some (ops, q)" by (subst all_loop.simps) simp
  then show ?case using Nil by simp
next
  case (Cons x xs)
  let ?q = "set_data x (\<lambda>d. d\<lparr>pt_ops := [], pt_next := None, pt_prev := None\<rparr>) (q\<lparr>tq_timers := pt_next (tq_data q x)\<rparr>)"
  have e: "all_loop ops q = all_loop (ops @ pt_ops (tq_data q x)) ?q" using Cons.prems by (subst all_loop.simps) (simp add: Let_def)
  have "dseg (tq_data q) (Some x) (pt_next (tq_data q x)) xs None" using Cons.prems by simp
  then have "dseg (tq_data ?q) (Some x) (tq_timers ?q) xs None"
    using Cons.prems(2) by (simp add: set_data_def) (erule dseg_cong, auto)
  moreover have "distinct xs" using Cons.prems(2) by simp
  ultimately obtain q' where
    q': "all_loop (ops @ pt_ops (tq_data q x)) ?q = Some ((ops @ pt_ops (tq_data q x)) @ concat (map (\<lambda>t. pt_ops (tq_data ?q t)) xs), q')"
      "tq_timers q' = None" "tq_heap q' = tq_heap ?q"
      "\<And>t. pt_ops (tq_data q' t) = (if t \<in> set xs then [] else pt_ops (tq_data ?q t)) \<and>
        pt_next (tq_data q' t) = (if t \<in> set xs then None else pt_next (tq_data ?q t)) \<and>
        pt_prev (tq_data q' t) = (if t \<in> set xs then None else pt_prev (tq_data ?q t))"
    using Cons.IH [of ?q "Some x" "ops @ pt_ops (tq_data q x)"] by blast
  have m: "map (\<lambda>t. pt_ops (tq_data ?q t)) xs = map (\<lambda>t. pt_ops (tq_data q t)) xs" using Cons.prems(2) by (auto simp: set_data_def)
  have "all_loop ops q = Some (ops @ concat (map (\<lambda>t. pt_ops (tq_data q t)) (x # xs)), q')" using q'(1) unfolding e m by simp
  then show ?case using q'(2-4) by (intro exI [of _ q']) (auto simp: set_data_def)
qed

lemma get_all_ok:
  assumes ok: "tq_ok q"
  obtains ts q' where "get_all_timers ops q = Some (ops @ concat (map (ops_of (waits q)) ts), q')" "distinct ts" "set ts = dom (waits q)"
    "tq_ok q'" "waits q' = Map.empty"
proof -
  obtain xs where xs: "links_ok xs q" "\<And>t. pt_ops (tq_data q t) \<noteq> [] \<longleftrightarrow> t \<in> set xs" using ok by (auto simp: tq_ok_def)
  then have "dseg (tq_data q) None (tq_timers q) xs None" and x: "distinct xs" by (simp_all add: links_ok_def)
  from all_loop_ok [OF this, of ops] obtain q' where
    q': "all_loop ops q = Some (ops @ concat (map (\<lambda>t. pt_ops (tq_data q t)) xs), q')" "tq_timers q' = None"
      "\<And>t. pt_ops (tq_data q' t) = (if t \<in> set xs then [] else pt_ops (tq_data q t)) \<and>
        pt_next (tq_data q' t) = (if t \<in> set xs then None else pt_next (tq_data q t)) \<and>
        pt_prev (tq_data q' t) = (if t \<in> set xs then None else pt_prev (tq_data q t))" by blast
  let ?q = "q'\<lparr>tq_heap := []\<rparr>"
  have "links_ok [] ?q" using xs(1) q'(2,3) by (simp add: links_ok_def idx_ok_def heap_ok_def)
  moreover have "pt_ops (tq_data ?q t) = []" for t using q'(3) [of t] xs(2) [of t] by auto
  ultimately have "tq_ok ?q" by (intro tq_okI [of "[]"]) simp_all
  moreover have "set xs = dom (waits q)" using xs(1) by (simp add: links_ok_def dom_def waits_None)
  moreover have "waits ?q = Map.empty" by (simp add: waits_def fun_eq_iff)
  moreover have "get_all_timers ops q = Some (ops @ concat (map (ops_of (waits q)) xs), ?q)"
    using q'(1) ops_of_data [OF ok] by (simp add: get_all_timers_def cong: map_cong)
  ultimately show ?thesis using that [of xs ?q] x by blast
qed

section \<open>Moving a timer\<close>

lemma move_heap_fields:
  assumes "u \<noteq> s"
  shows "pt_ops (tq_data (move_heap u s q) x) = (if x = s then [] else if x = u then pt_ops (tq_data q u) @ pt_ops (tq_data q s) else pt_ops (tq_data q x))"
    "pt_heap_index (tq_data (move_heap u s q) x) =
      (if x = s then max_index else if x = u then pt_heap_index (tq_data q s) else pt_heap_index (tq_data q x))"
    "pt_next (tq_data (move_heap u s q) x) = pt_next (tq_data q x)" "pt_prev (tq_data (move_heap u s q) x) = pt_prev (tq_data q x)"
    "tq_timers (move_heap u s q) = tq_timers q"
    "tq_heap (move_heap u s q) = (let i = pt_heap_index (tq_data q s) in
      if i < length (tq_heap q) then (tq_heap q)[i := (fst (tq_heap q ! i), u)] else tq_heap q)"
  using assms by (simp_all add: move_heap_def set_data_def Let_def)

lemma move_links_fields [simp]:
  "pt_ops (tq_data (move_links u s q) x) = pt_ops (tq_data q x)"
  "pt_heap_index (tq_data (move_links u s q) x) = pt_heap_index (tq_data q x)" "tq_heap (move_links u s q) = tq_heap q"
  by (simp_all add: move_links_def set_at_def set_data_def Let_def split: option.split)

lemma move_links_eq:
  assumes "dseg (tq_data q) None (tq_timers q) (ys @ s # zs) None" and "distinct (ys @ s # zs)" and "u \<notin> set (ys @ s # zs)"
  shows "pt_next (tq_data (move_links u s q) x) =
      (if x = s then None else if x = u then pt_next (tq_data q s) else if ys \<noteq> [] \<and> x = last ys then Some u else pt_next (tq_data q x))"
    "pt_prev (tq_data (move_links u s q) x) =
      (if x = s then None else if x = u then pt_prev (tq_data q s) else if zs \<noteq> [] \<and> x = hd zs then Some u else pt_prev (tq_data q x))"
    "tq_timers (move_links u s q) = (if ys = [] then Some u else tq_timers q)"
proof -
  have p: "pt_prev (tq_data q s) = before None ys" and n: "pt_next (tq_data q s) = (if zs = [] then None else Some (hd zs))"
    and c: "tq_timers q = (if ys = [] then Some s else Some (hd ys))"
    using assms(1) dseg_next [of "tq_data q" "Some s" "pt_next (tq_data q s)" zs] dseg_next [OF assms(1)] unfolding dseg_split by auto
  have y: "ys \<noteq> [] \<Longrightarrow> last ys \<noteq> s \<and> hd ys \<noteq> s \<and> last ys \<noteq> u" "zs \<noteq> [] \<Longrightarrow> hd zs \<noteq> s \<and> hd zs \<noteq> u" "u \<noteq> s" using assms(2,3) by auto
  show "pt_next (tq_data (move_links u s q) x) =
      (if x = s then None else if x = u then pt_next (tq_data q s) else if ys \<noteq> [] \<and> x = last ys then Some u else pt_next (tq_data q x))"
    using p n c y by (cases "ys = []"; cases "zs = []") (simp_all add: move_links_def set_at_def set_data_def Let_def before_def)
  show "pt_prev (tq_data (move_links u s q) x) =
      (if x = s then None else if x = u then pt_prev (tq_data q s) else if zs \<noteq> [] \<and> x = hd zs then Some u else pt_prev (tq_data q x))"
    using p n c y by (cases "ys = []"; cases "zs = []") (simp_all add: move_links_def set_at_def set_data_def Let_def before_def)
  show "tq_timers (move_links u s q) = (if ys = [] then Some u else tq_timers q)"
    using p n c y by (cases "ys = []"; cases "zs = []") (simp_all add: move_links_def set_at_def set_data_def Let_def before_def)
qed

lemma move_links_ok:
  assumes d: "dseg (tq_data q) None (tq_timers q) (ys @ s # zs) None" and x: "distinct (ys @ s # zs)" and u: "u \<notin> set (ys @ s # zs)"
  shows "dseg (tq_data (move_links u s q)) None (tq_timers (move_links u s q)) (ys @ u # zs) None"
proof -
  let ?d = "tq_data (move_links u s q)"
  note l = move_links_eq [OF d x u]
  have s: "dseg (tq_data q) None (tq_timers q) ys (Some s)" "pt_prev (tq_data q s) = before None ys"
    "dseg (tq_data q) (Some s) (pt_next (tq_data q s)) zs None" using d unfolding dseg_split by auto
  have ys: "y \<noteq> s \<and> y \<noteq> u \<and> (zs \<noteq> [] \<longrightarrow> y \<noteq> hd zs)" if "y \<in> set ys" for y using x u that hd_in_set [of zs] by auto
  have zs: "y \<noteq> s \<and> y \<noteq> u \<and> (ys \<noteq> [] \<longrightarrow> y \<noteq> last ys)" if "y \<in> set zs" for y using x u that last_in_set [of ys] by (auto simp: disjoint_iff)
  have bl: "y \<in> set ys \<and> y \<noteq> last ys" if "y \<in> set (butlast ys)" for y using x that by (cases ys rule: rev_cases) auto
  have tl: "y \<in> set zs \<and> y \<noteq> hd zs" if "y \<in> set (tl zs)" for y using x that by (cases zs) auto
  have "dseg ?d None (if ys = [] then Some u else tq_timers q) ys (Some u)"
  proof (rule dseg_exit [OF s(1)])
    show "\<forall>y \<in> set ys. pt_prev (?d y) = pt_prev (tq_data q y)" using ys by (auto simp: l)
    show "\<forall>y \<in> set (butlast ys). pt_next (?d y) = pt_next (tq_data q y)" using bl ys by (auto simp: l)
    show "ys \<noteq> [] \<Longrightarrow> pt_next (?d (last ys)) = Some u" using ys [of "last ys"] by (auto simp: l)
  qed (use x in simp)
  moreover have "dseg ?d (Some u) (pt_next (tq_data q s)) zs None"
  proof (rule dseg_entry [OF s(3)])
    show "\<forall>y \<in> set zs. pt_next (?d y) = pt_next (tq_data q y)" using zs by (auto simp: l)
    show "\<forall>y \<in> set (tl zs). pt_prev (?d y) = pt_prev (tq_data q y)" using tl zs by (auto simp: l)
    show "zs \<noteq> [] \<Longrightarrow> pt_prev (?d (hd zs)) = Some u" using zs [of "hd zs"] by (auto simp: l)
  qed (use x in simp)
  moreover have "pt_next (?d u) = pt_next (tq_data q s)" "pt_prev (?d u) = before None ys" using u s(2) by (auto simp: l)
  ultimately show ?thesis unfolding dseg_split l(3) by simp
qed

lemma move_heap_idx:
  assumes "idx_ok q" and "k < length (tq_heap q)" and "tq_heap q ! k = (time, s)" and "u \<notin> snd ` set (tq_heap q)"
  shows "tq_heap (move_heap u s q) = (tq_heap q)[k := (time, u)]" "idx_ok (move_heap u s q)"
    "set (tq_heap (move_heap u s q)) = insert (time, u) {e \<in> set (tq_heap q). snd e \<noteq> s}"
proof -
  have us: "u \<noteq> s" using assms(2-4) nth_mem [of k "tq_heap q"] by force
  note f = move_heap_fields [OF us]
  have i: "pt_heap_index (tq_data q s) = k" using assms(1-3) by (auto simp: idx_ok_def)
  show h: "tq_heap (move_heap u s q) = (tq_heap q)[k := (time, u)]" using i assms(2,3) by (simp add: f Let_def)
  have d: "snd (tq_heap q ! j) = s \<longleftrightarrow> j = k" if "j < length (tq_heap q)" for j
    using nth_eq_iff_index_eq [OF idx_distinct [OF assms(1)], of j k] that assms(2,3) by simp
  have nu: "snd (tq_heap q ! j) \<noteq> u" if "j < length (tq_heap q)" for j using assms(4) that nth_mem by force
  have "pt_heap_index (tq_data (move_heap u s q) (snd ((tq_heap q)[k := (time, u)] ! j))) = j" if j: "j < length (tq_heap q)" for j
  proof (cases "j = k")
    case True
    then show ?thesis using us i assms(2) by (simp add: f(2))
  next
    case False
    then show ?thesis using d [OF j] nu [OF j] assms(1) j by (simp add: f(2) idx_ok_def)
  qed
  then show "idx_ok (move_heap u s q)" unfolding idx_ok_def h by simp
  have "distinct (tq_heap q)" using idx_distinct [OF assms(1)] by (simp add: distinct_map)
  then have "set ((tq_heap q)[k := (time, u)]) = insert (time, u) (set (tq_heap q) - {(time, s)})"
    using set_update_distinct [of "tq_heap q" k] assms(2,3) by simp
  moreover have "e = (time, s) \<longleftrightarrow> snd e = s" if "e \<in> set (tq_heap q)" for e using d assms(3) that by (metis in_set_conv_nth snd_conv)
  then have "set (tq_heap q) - {(time, s)} = {e \<in> set (tq_heap q). snd e \<noteq> s}" by blast
  ultimately show "set (tq_heap (move_heap u s q)) = insert (time, u) {e \<in> set (tq_heap q). snd e \<noteq> s}" unfolding h by simp
qed

lemma move_heap_heap: "heap_ok h \<Longrightarrow> h ! k = (time, s) \<Longrightarrow> heap_ok (h[k := (time, u)])"
proof -
  assume a: "heap_ok h" "h ! k = (time, s)"
  have "fst (h[k := (time, u)] ! i) = fst (h ! i)" for i using a(2) by (cases "k < length h") (auto simp: nth_list_update list_update_beyond)
  then show ?thesis using a(1) by (simp add: heap_ok_def)
qed

text \<open>A move from an active timer.\<close>

lemma move_active_links:
  assumes l: "links_ok (ys @ s # zs) q" and u: "u \<notin> set (ys @ s # zs)" and k: "k < length (tq_heap q)" "tq_heap q ! k = (time, s)"
  shows "links_ok (ys @ u # zs) (move_timer u s q)" "set (tq_heap (move_timer u s q)) = insert (time, u) {e \<in> set (tq_heap q). snd e \<noteq> s}"
proof -
  let ?xs = "ys @ s # zs" and ?h = "move_heap u s q" and ?q = "move_timer u s q"
  have sx: "set ?xs = snd ` set (tq_heap q)" "heap_ok (tq_heap q)" "dseg (tq_data q) None (tq_timers q) ?xs None" and x: "distinct ?xs"
    and out: "\<And>t. t \<notin> set ?xs \<Longrightarrow> pt_prev (tq_data q t) = None \<and> pt_next (tq_data q t) = None" using l unfolding links_ok_def by blast+
  have us: "u \<noteq> s" "u \<notin> snd ` set (tq_heap q)" using u sx(1) by auto
  note f = move_heap_fields [OF us(1)] and h = move_heap_idx [OF links_idx [OF l] k us(2)]
  have d: "dseg (tq_data ?h) None (tq_timers ?h) ?xs None" unfolding f(5) by (rule dseg_cong [OF sx(3)]) (simp add: f)
  note m = move_links_eq [OF d x u]
  show st: "set (tq_heap ?q) = insert (time, u) {e \<in> set (tq_heap q). snd e \<noteq> s}" using h(3) by (simp add: move_timer_def)
  show "links_ok (ys @ u # zs) ?q"
    unfolding links_ok_def
  proof (intro conjI)
    show "idx_ok ?q" using h(2) by (simp add: idx_ok_def move_timer_def)
    show "heap_ok (tq_heap ?q)" using move_heap_heap [OF sx(2) k(2)] h(1) by (simp add: move_timer_def)
    show "dseg (tq_data ?q) None (tq_timers ?q) (ys @ u # zs) None" using move_links_ok [OF d x u] by (simp add: move_timer_def)
    show "distinct (ys @ u # zs)" using x u by simp
    have "set (ys @ u # zs) = insert u (set ?xs - {s})" using x by auto
    then show "set (ys @ u # zs) = snd ` set (tq_heap ?q)" unfolding st sx(1) by force
    show "\<forall>t. t \<notin> set (ys @ u # zs) \<longrightarrow> pt_prev (tq_data ?q t) = None \<and> pt_next (tq_data ?q t) = None"
    proof (intro allI impI)
      fix t
      assume t: "t \<notin> set (ys @ u # zs)"
      then have "t \<noteq> s \<Longrightarrow> pt_prev (tq_data q t) = None \<and> pt_next (tq_data q t) = None" using out [of t] by simp
      moreover have "ys \<noteq> [] \<Longrightarrow> t \<noteq> last ys" "zs \<noteq> [] \<Longrightarrow> t \<noteq> hd zs" using t by auto
      ultimately show "pt_prev (tq_data ?q t) = None \<and> pt_next (tq_data ?q t) = None" using t by (auto simp: move_timer_def m f)
    qed
  qed
qed

lemma move_active:
  assumes ok: "tq_ok q" and src: "waits q s \<noteq> None" and tgt: "waits q u = None"
  shows "tq_ok (move_timer u s q)" "waits (move_timer u s q) = (waits q)(s := None, u := waits q s)"
    "idle_ok q \<Longrightarrow> idle_ok (move_timer u s q)"
proof -
  obtain xs where xs: "links_ok xs q" "\<And>t. pt_ops (tq_data q t) \<noteq> [] \<longleftrightarrow> t \<in> set xs" using ok by (auto simp: tq_ok_def)
  have sx: "set xs = snd ` set (tq_heap q)" "distinct xs" using xs(1) by (simp_all add: links_ok_def)
  have s: "s \<in> set xs" and u: "u \<notin> set xs" using src tgt sx(1) by (simp_all add: waits_None)
  then obtain ys zs where yz: "xs = ys @ s # zs" by (auto simp: in_set_conv_decomp)
  obtain k time where k: "k < length (tq_heap q)" "tq_heap q ! k = (time, s)" using s sx(1) by (auto simp: in_set_conv_nth)
  have us: "u \<noteq> s" using s u by auto
  let ?q = "move_timer u s q"
  note m = move_active_links [OF xs(1) [unfolded yz] u [unfolded yz] k] and f = move_heap_fields [OF us]
  have o: "pt_ops (tq_data ?q t) = (if t = s then [] else if t = u then pt_ops (tq_data q s) else pt_ops (tq_data q t))" for t
    using xs(2) [of u] u by (simp add: move_timer_def f(1))
  show "tq_ok ?q"
  proof (rule tq_okI [OF m(1)])
    fix t
    show "pt_ops (tq_data ?q t) \<noteq> [] \<longleftrightarrow> t \<in> set (ys @ u # zs)" using xs(2) [of t] xs(2) [of s] s u sx(2) yz us by (auto simp: o)
  qed
  note w = waits_iff [OF links_idx [OF xs(1)]]
  have ws: "waits q s = Some (time, pt_ops (tq_data q s))" using w k nth_mem by metis
  have "u \<notin> snd ` set (tq_heap q)" using u sx(1) by simp
  then show wq: "waits ?q = (waits q)(s := None, u := waits q s)"
    using us by (intro waits_eqI [OF links_idx [OF m(1)]]) (force simp: m(2) o ws w)
  have "pt_heap_index (tq_data ?q x) = (if x = s then max_index else if x = u then pt_heap_index (tq_data q s) else pt_heap_index (tq_data q x))" for x
    by (simp add: move_timer_def f(2))
  then show "idle_ok q \<Longrightarrow> idle_ok ?q" using ws unfolding idle_ok_def wq by auto
qed

text \<open>A move from an inactive timer changes nothing that matters, provided its index lies outside the heap.\<close>

lemma move_idle:
  assumes ok: "tq_ok q" and src: "waits q s = None" and tgt: "waits q u = None" and us: "u \<noteq> s" and i: "length (tq_heap q) \<le> pt_heap_index (tq_data q s)"
  shows "tq_ok (move_timer u s q)" "waits (move_timer u s q) = waits q" "idle_ok q \<Longrightarrow> idle_ok (move_timer u s q)"
proof -
  obtain xs where xs: "links_ok xs q" "\<And>t. pt_ops (tq_data q t) \<noteq> [] \<longleftrightarrow> t \<in> set xs" using ok by (auto simp: tq_ok_def)
  have sx: "set xs = snd ` set (tq_heap q)" using xs(1) by (simp add: links_ok_def)
  have n: "s \<notin> set xs" "u \<notin> set xs" using src tgt sx by (simp_all add: waits_None)
  then have p: "pt_prev (tq_data q s) = None" "pt_next (tq_data q s) = None" "pt_prev (tq_data q u) = None" "pt_next (tq_data q u) = None"
    using xs(1) by (simp_all add: links_ok_def)
  have t: "tq_timers q \<noteq> Some s" using is_active_iff [OF xs(1), of s] n(1) by (auto simp: is_active_def)
  note f = move_heap_fields [OF us]
  let ?q = "move_timer u s q"
  have links: "pt_next (tq_data ?q x) = pt_next (tq_data q x)" "pt_prev (tq_data ?q x) = pt_prev (tq_data q x)" "tq_timers ?q = tq_timers q" for x
    using p t us by (simp_all add: move_timer_def move_links_def set_at_def set_data_def f(3-5) Let_def)
  have heap: "tq_heap ?q = tq_heap q" using i by (simp add: move_timer_def f Let_def)
  have o: "pt_ops (tq_data ?q x) = pt_ops (tq_data q x)" for x using xs(2) [of s] xs(2) [of u] n by (simp add: move_timer_def f(1))
  have ix: "pt_heap_index (tq_data ?q x) = pt_heap_index (tq_data q x)" if "x \<in> set xs" for x using that n by (auto simp: move_timer_def f(2))
  have "idx_ok ?q" using links_idx [OF xs(1)] ix unfolding sx idx_ok_def heap by auto
  moreover have "dseg (tq_data q) None (tq_timers q) xs None" using xs(1) by (simp add: links_ok_def)
  then have "dseg (tq_data ?q) None (tq_timers q) xs None" by (rule dseg_cong) (simp add: links)
  ultimately have "links_ok xs ?q" using xs(1) by (simp add: links_ok_def links heap)
  then show "tq_ok ?q" by (rule tq_okI) (simp add: o xs(2))
  show w: "waits ?q = waits q" by (simp add: waits_def fun_eq_iff heap o)
  have "pt_heap_index (tq_data ?q x) = (if x = s then max_index else if x = u then pt_heap_index (tq_data q s) else pt_heap_index (tq_data q x))" for x
    by (simp add: move_timer_def f(2))
  then show "idle_ok q \<Longrightarrow> idle_ok ?q" using src unfolding idle_ok_def w by auto
qed

end
