(* ===== verification/Asio_Op_Queue.thy ===== *)
theory Asio_Op_Queue
  imports Sparrow_Prelude
begin

text \<open>
  The queues of operations of the vendored asio (\<open>asio/include/asio/detail/op_queue.hpp\<close>): singly linked lists through a pointer in
  the operations themselves, which move between the queues of the timers, of the reactor and of the scheduler. All queues share
  the store of the operations' pointers. The locale states what the loops that move operations rely on.
\<close>

section \<open>Operations\<close>

record 'o op_queue =
  oq_front :: "'o option"
  oq_back :: "'o option"

record ('i, 'o) op_store =
  os_next :: "'o \<Rightarrow> 'o option"
  os_queue :: "'i \<Rightarrow> 'o op_queue"

definition op_queue_new :: "'o op_queue" where
  "op_queue_new = \<lparr>oq_front = None, oq_back = None\<rparr>"

definition op_store_new :: "('i, 'o) op_store" where
  "op_store_new = \<lparr>os_next = (\<lambda>_. None), os_queue = (\<lambda>_. op_queue_new)\<rparr>"

definition op_front :: "'i \<Rightarrow> ('i, 'o) op_store \<Rightarrow> 'o option" where
  "op_front i s = oq_front (os_queue s i)"

definition op_empty :: "'i \<Rightarrow> ('i, 'o) op_store \<Rightarrow> bool" where
  "op_empty i s \<longleftrightarrow> oq_front (os_queue s i) = None"

definition op_pop :: "'i \<Rightarrow> ('i, 'o) op_store \<Rightarrow> ('i, 'o) op_store" where
  "op_pop i s =
     (case oq_front (os_queue s i) of
        None \<Rightarrow> s
      | Some tmp \<Rightarrow>
          let front = os_next s tmp;
              q = (os_queue s i)\<lparr>oq_front := front\<rparr>;
              q = (if front = None then q\<lparr>oq_back := None\<rparr> else q) in
          s\<lparr>os_queue := (os_queue s)(i := q), os_next := (os_next s)(tmp := None)\<rparr>)"

definition op_push :: "'i \<Rightarrow> 'o \<Rightarrow> ('i, 'o) op_store \<Rightarrow> ('i, 'o) op_store" where
  "op_push i h s =
     (let s = s\<lparr>os_next := (os_next s)(h := None)\<rparr> in
      case oq_back (os_queue s i) of
        Some b \<Rightarrow> s\<lparr>os_next := (os_next s)(b := Some h), os_queue := (os_queue s)(i := (os_queue s i)\<lparr>oq_back := Some h\<rparr>)\<rparr>
      | None \<Rightarrow> s\<lparr>os_queue := (os_queue s)(i := \<lparr>oq_front = Some h, oq_back = Some h\<rparr>)\<rparr>)"

text \<open>\<open>push\<close> of all operations of another queue.\<close>

definition op_push_queue :: "'i \<Rightarrow> 'i \<Rightarrow> ('i, 'o) op_store \<Rightarrow> ('i, 'o) op_store" where
  "op_push_queue i j s =
     (case oq_front (os_queue s j) of
        None \<Rightarrow> s
      | Some other_front \<Rightarrow>
          let s = (case oq_back (os_queue s i) of
                     Some b \<Rightarrow> s\<lparr>os_next := (os_next s)(b := Some other_front)\<rparr>
                   | None \<Rightarrow> s\<lparr>os_queue := (os_queue s)(i := (os_queue s i)\<lparr>oq_front := Some other_front\<rparr>)\<rparr>);
              s = s\<lparr>os_queue := (os_queue s)(i := (os_queue s i)\<lparr>oq_back := oq_back (os_queue s j)\<rparr>)\<rparr> in
          s\<lparr>os_queue := (os_queue s)(j := \<lparr>oq_front = None, oq_back = None\<rparr>)\<rparr>)"

definition op_is_enqueued :: "'i \<Rightarrow> 'o \<Rightarrow> ('i, 'o) op_store \<Rightarrow> bool" where
  "op_is_enqueued i h s \<longleftrightarrow> os_next s h \<noteq> None \<or> oq_back (os_queue s i) = Some h"

text \<open>The destructor: the operations it destroys.\<close>

partial_function (option) op_destroy :: "'i \<Rightarrow> 'o list \<Rightarrow> ('i, 'o) op_store \<Rightarrow> ('o list \<times> ('i, 'o) op_store) option" where
  "op_destroy i destroyed s =
     (case oq_front (os_queue s i) of
        None \<Rightarrow> Some (destroyed, s)
      | Some h \<Rightarrow> op_destroy i (destroyed @ [h]) (op_pop i s))"

section \<open>The contract\<close>

text \<open>The loops of the timer queue: take up to \<open>n\<close> operations from the front of one queue to the end of another.\<close>

fun move_loop :: "('i \<Rightarrow> 's \<Rightarrow> 'o option) \<Rightarrow> ('i \<Rightarrow> 's \<Rightarrow> 's) \<Rightarrow> ('i \<Rightarrow> 'o \<Rightarrow> 's \<Rightarrow> 's) \<Rightarrow> nat \<Rightarrow> 'i \<Rightarrow> 'i \<Rightarrow> 's \<Rightarrow> 's" where
  "move_loop front pop push 0 i j s = s"
| "move_loop front pop push (Suc n) i j s =
     (case front i s of None \<Rightarrow> s | Some h \<Rightarrow> move_loop front pop push n i j (push j h (pop i s)))"

definition queued :: "('i \<Rightarrow> 'o list) \<Rightarrow> 'o \<Rightarrow> bool" where
  "queued X h \<longleftrightarrow> (\<exists>i. h \<in> set (X i))"

datatype ('i, 'o) queue_op = Push 'i 'o | Pop 'i | Push_queue 'i 'i

fun list_op :: "('i, 'o) queue_op \<Rightarrow> ('i \<Rightarrow> 'o list) \<Rightarrow> ('i \<Rightarrow> 'o list)" where
  "list_op (Push i h) X = X(i := X i @ [h])"
| "list_op (Pop i) X = X(i := tl (X i))"
| "list_op (Push_queue i j) X = X(i := X i @ X j, j := [])"

text \<open>An operation is pushed only while it is in no queue, and a queue is not pushed onto itself.\<close>

fun allowed :: "('i, 'o) queue_op list \<Rightarrow> ('i \<Rightarrow> 'o list) \<Rightarrow> bool" where
  "allowed [] X = True"
| "allowed (c # cs) X =
     ((case c of Push i h \<Rightarrow> \<not> queued X h | Pop i \<Rightarrow> True | Push_queue i j \<Rightarrow> i \<noteq> j) \<and> allowed cs (list_op c X))"

fun run_op :: "('i \<Rightarrow> 's \<Rightarrow> 's) \<Rightarrow> ('i \<Rightarrow> 'o \<Rightarrow> 's \<Rightarrow> 's) \<Rightarrow> ('i \<Rightarrow> 'i \<Rightarrow> 's \<Rightarrow> 's) \<Rightarrow> ('i, 'o) queue_op \<Rightarrow> 's \<Rightarrow> 's" where
  "run_op pop push join (Push i h) s = push i h s"
| "run_op pop push join (Pop i) s = pop i s"
| "run_op pop push join (Push_queue i j) s = join i j s"

locale op_fifo =
  fixes holds :: "('i \<Rightarrow> 'o list) \<Rightarrow> 's \<Rightarrow> bool"
    and front :: "'i \<Rightarrow> 's \<Rightarrow> 'o option"
    and pop :: "'i \<Rightarrow> 's \<Rightarrow> 's"
    and push :: "'i \<Rightarrow> 'o \<Rightarrow> 's \<Rightarrow> 's"
    and join :: "'i \<Rightarrow> 'i \<Rightarrow> 's \<Rightarrow> 's"
  assumes front_law: "holds X s \<Longrightarrow> front i s = (case X i of [] \<Rightarrow> None | h # hs \<Rightarrow> Some h)"
    and distinct_law: "holds X s \<Longrightarrow> distinct (X i)" "holds X s \<Longrightarrow> i \<noteq> j \<Longrightarrow> set (X i) \<inter> set (X j) = {}"
    and pop_law: "holds X s \<Longrightarrow> holds (X(i := tl (X i))) (pop i s)"
    and push_law: "holds X s \<Longrightarrow> \<not> queued X h \<Longrightarrow> holds (X(i := X i @ [h])) (push i h s)"
    and join_law: "holds X s \<Longrightarrow> i \<noteq> j \<Longrightarrow> holds (X(i := X i @ X j, j := [])) (join i j s)"
begin

lemma popped_free: "holds X s \<Longrightarrow> X i = h # hs \<Longrightarrow> \<not> queued (X(i := hs)) h"
proof -
  assume a: "holds X s" "X i = h # hs"
  have "h \<notin> set hs" using distinct_law(1) [OF a(1), of i] a(2) by simp
  moreover have "h \<notin> set (X k)" if "k \<noteq> i" for k using distinct_law(2) [OF a(1) that] a(2) by auto
  ultimately show ?thesis by (simp add: queued_def)
qed

lemma move_loop_law:
  "holds X s \<Longrightarrow> i \<noteq> j \<Longrightarrow> holds (X(i := drop n (X i), j := X j @ take n (X i))) (move_loop front pop push n i j s)"
proof (induction n arbitrary: X s)
  case (Suc n)
  show ?case
  proof (cases "X i")
    case Nil
    then have e: "X(i := drop (Suc n) (X i), j := X j @ take (Suc n) (X i)) = X" by auto
    have "move_loop front pop push (Suc n) i j s = s" using Nil front_law [OF Suc.prems(1), of i] by simp
    then show ?thesis using Suc.prems(1) unfolding e by simp
  next
    case (Cons h hs)
    have "holds (X(i := hs)) (pop i s)" using pop_law [OF Suc.prems(1), of i] Cons by simp
    then have "holds (X(i := hs, j := X j @ [h])) (push j h (pop i s))"
      using push_law [OF _ popped_free [OF Suc.prems(1) Cons], of _ j] Suc.prems(2) by simp
    note ih = Suc.IH [OF this Suc.prems(2)]
    let ?Y = "X(i := hs, j := X j @ [h])"
    have e: "?Y(i := drop n (?Y i), j := ?Y j @ take n (?Y i)) = X(i := drop (Suc n) (X i), j := X j @ take (Suc n) (X i))"
      using Cons Suc.prems(2) by auto
    have m: "move_loop front pop push (Suc n) i j s = move_loop front pop push n i j (push j h (pop i s))"
      using Cons front_law [OF Suc.prems(1), of i] by simp
    show ?thesis using ih unfolding m e .
  qed
qed simp

lemma run_law: "holds X s \<Longrightarrow> allowed cs X \<Longrightarrow> holds (fold list_op cs X) (fold (run_op pop push join) cs s)"
proof (induction cs arbitrary: X s)
  case (Cons c cs)
  then have "holds (list_op c X) (run_op pop push join c s)" using pop_law push_law join_law by (cases c) auto
  then show ?case using Cons.IH Cons.prems(2) by simp
qed simp

end

section \<open>The linked lists\<close>

fun chain :: "('o \<Rightarrow> 'o option) \<Rightarrow> 'o option \<Rightarrow> 'o list \<Rightarrow> bool" where
  "chain m p [] \<longleftrightarrow> p = None"
| "chain m p (x # xs) \<longleftrightarrow> p = Some x \<and> chain m (m x) xs"

definition queue_is :: "('o \<Rightarrow> 'o option) \<Rightarrow> 'o op_queue \<Rightarrow> 'o list \<Rightarrow> bool" where
  "queue_is m q xs \<longleftrightarrow> chain m (oq_front q) xs \<and> distinct xs \<and> oq_back q = (if xs = [] then None else Some (last xs))"

text \<open>The queues hold the lists \<open>X\<close>, with no operation in two of them; an operation in no queue points nowhere.\<close>

definition op_holds :: "('i \<Rightarrow> 'o list) \<Rightarrow> ('i, 'o) op_store \<Rightarrow> bool" where
  "op_holds X s \<longleftrightarrow> (\<forall>i. queue_is (os_next s) (os_queue s i) (X i)) \<and> (\<forall>i j. i \<noteq> j \<longrightarrow> set (X i) \<inter> set (X j) = {}) \<and>
     (\<forall>h. \<not> queued X h \<longrightarrow> os_next s h = None)"

lemma chain_cong: "chain m p xs \<Longrightarrow> (\<And>x. x \<in> set xs \<Longrightarrow> m' x = m x) \<Longrightarrow> chain m' p xs"
  by (induction xs arbitrary: p) auto

lemma chain_append:
  "chain m p xs \<Longrightarrow> chain m p' ys \<Longrightarrow> xs \<noteq> [] \<Longrightarrow> distinct xs \<Longrightarrow> last xs \<notin> set ys \<Longrightarrow> chain (m(last xs := p')) p (xs @ ys)"
proof (induction xs arbitrary: p)
  case (Cons x xs)
  show ?case
  proof (cases "xs = []")
    case True
    then show ?thesis using Cons.prems by (auto intro: chain_cong [of m])
  next
    case False
    then have "last xs \<noteq> x" using Cons.prems(4) last_in_set by fastforce
    then show ?thesis using Cons False by simp
  qed
qed simp

lemma chain_last: "chain m p xs \<Longrightarrow> xs \<noteq> [] \<Longrightarrow> m (last xs) = None"
  by (induction xs arbitrary: p) (auto split: if_splits)

lemma queue_is_cong: "queue_is m q xs \<Longrightarrow> (\<And>x. x \<in> set xs \<Longrightarrow> m' x = m x) \<Longrightarrow> queue_is m' q xs"
  using chain_cong [of m "oq_front q" xs m'] by (simp add: queue_is_def)

lemma op_holdsI:
  assumes "\<And>i. queue_is (os_next s) (os_queue s i) (X i)" and "\<And>i j. i \<noteq> j \<Longrightarrow> set (X i) \<inter> set (X j) = {}"
    and "\<And>h. \<not> queued X h \<Longrightarrow> os_next s h = None"
  shows "op_holds X s"
  using assms by (simp add: op_holds_def)

lemma pop_holds:
  assumes "op_holds X s"
  shows "op_holds (X(i := tl (X i))) (op_pop i s)"
proof (cases "X i")
  case Nil
  then have "oq_front (os_queue s i) = None" using assms by (auto simp: op_holds_def queue_is_def dest: spec [of _ i])
  then have "op_pop i s = s" by (simp add: op_pop_def)
  moreover have "X(i := tl (X i)) = X" using Nil by auto
  ultimately show ?thesis using assms by simp
next
  case (Cons h hs)
  have q: "queue_is (os_next s) (os_queue s k) (X k)" and d: "k \<noteq> l \<Longrightarrow> set (X k) \<inter> set (X l) = {}" and f: "\<not> queued X x \<Longrightarrow> os_next s x = None" for k l x
    using assms by (simp_all add: op_holds_def)
  have i: "oq_front (os_queue s i) = Some h" "chain (os_next s) (os_next s h) hs" "distinct (h # hs)" "oq_back (os_queue s i) = Some (last (h # hs))"
    using q [of i] Cons by (simp_all add: queue_is_def)
  have n: "os_next s h = None \<longleftrightarrow> hs = []" using i(2) by (cases hs) auto
  have s': "os_next (op_pop i s) = (os_next s)(h := None)"
    "os_queue (op_pop i s) = (os_queue s)(i := \<lparr>oq_front = os_next s h, oq_back = if hs = [] then None else oq_back (os_queue s i)\<rparr>)"
    using i(1) n by (auto simp: op_pop_def Let_def)
  show ?thesis
  proof (rule op_holdsI)
    fix k
    show "queue_is (os_next (op_pop i s)) (os_queue (op_pop i s) k) ((X(i := tl (X i))) k)"
    proof (cases "k = i")
      case True
      have "chain ((os_next s)(h := None)) (os_next s h) hs" using i(2,3) by (auto intro: chain_cong)
      then show ?thesis using True Cons i(3,4) by (simp add: queue_is_def s')
    next
      case False
      then have "h \<notin> set (X k)" using d [of k i] Cons by auto
      then have "queue_is ((os_next s)(h := None)) (os_queue s k) (X k)" by (intro queue_is_cong [OF q]) auto
      then show ?thesis using False by (simp add: s')
    qed
  next
    fix k l :: 'a
    assume "k \<noteq> l"
    then show "set ((X(i := tl (X i))) k) \<inter> set ((X(i := tl (X i))) l) = {}" using d [of k l] list.set_sel(2) [of "X i"] Cons by auto
  next
    fix x
    assume "\<not> queued (X(i := tl (X i))) x"
    then have n: "x \<notin> set ((X(i := tl (X i))) k)" for k by (simp add: queued_def)
    have "x \<noteq> h \<Longrightarrow> x \<notin> set (X k)" for k using n [of k] Cons by (cases "k = i") simp_all
    then show "os_next (op_pop i s) x = None" using f [of x] by (auto simp: queued_def s')
  qed
qed

lemma push_holds:
  assumes "op_holds X s" and new: "\<not> queued X h"
  shows "op_holds (X(i := X i @ [h])) (op_push i h s)"
proof -
  have q: "queue_is (os_next s) (os_queue s k) (X k)" and d: "k \<noteq> l \<Longrightarrow> set (X k) \<inter> set (X l) = {}" and f: "\<not> queued X x \<Longrightarrow> os_next s x = None" for k l x
    using assms(1) by (simp_all add: op_holds_def)
  have nx: "h \<notin> set (X k)" for k using new by (simp add: queued_def)
  have hn: "(os_next s)(h := None) = os_next s" using f [OF new] by auto
  have b: "oq_back (os_queue s i) = (if X i = [] then None else Some (last (X i)))" using q [of i] by (simp add: queue_is_def)
  define m where "m = (if X i = [] then os_next s else (os_next s)(last (X i) := Some h))"
  have s': "os_next (op_push i h s) = m"
    "os_queue (op_push i h s) = (os_queue s)(i := \<lparr>oq_front = if X i = [] then Some h else oq_front (os_queue s i), oq_back = Some h\<rparr>)"
    using b hn by (auto simp: op_push_def m_def Let_def)
  have mx: "m x = os_next s x" if "x \<notin> set (X i)" for x using that last_in_set [of "X i"] by (auto simp: m_def)
  show ?thesis
  proof (rule op_holdsI)
    fix k
    show "queue_is (os_next (op_push i h s)) (os_queue (op_push i h s) k) ((X(i := X i @ [h])) k)"
    proof (cases "k = i")
      case True
      have c: "chain (os_next s) (oq_front (os_queue s i)) (X i)" "distinct (X i)" using q [of i] by (simp_all add: queue_is_def)
      have "chain (os_next s) (Some h) [h]" using f [OF new] by simp
      moreover have "X i \<noteq> [] \<Longrightarrow> last (X i) \<notin> set [h]" using nx [of i] last_in_set [of "X i"] by auto
      ultimately have "chain m (if X i = [] then Some h else oq_front (os_queue s i)) (X i @ [h])"
        using chain_append [OF c(1) _ _ c(2), of "Some h" "[h]"] by (cases "X i = []") (simp_all add: m_def)
      then show ?thesis using True c(2) nx [of i] by (simp add: queue_is_def s')
    next
      case False
      have "queue_is m (os_queue s k) (X k)" by (rule queue_is_cong [OF q]) (use mx d [OF False] in auto)
      then show ?thesis using False by (simp add: s')
    qed
  next
    fix k l :: 'a
    assume "k \<noteq> l"
    then show "set ((X(i := X i @ [h])) k) \<inter> set ((X(i := X i @ [h])) l) = {}" using d [of k l] nx by auto
  next
    fix x
    assume "\<not> queued (X(i := X i @ [h])) x"
    then have "\<not> queued X x" by (auto simp: queued_def split: if_splits)
    then show "os_next (op_push i h s) x = None" using f mx [of x] by (simp add: s' queued_def)
  qed
qed

lemma push_queue_holds:
  assumes "op_holds X s" and ij: "i \<noteq> j"
  shows "op_holds (X(i := X i @ X j, j := [])) (op_push_queue i j s)"
proof (cases "X j = []")
  case True
  then have "oq_front (os_queue s j) = None" using assms(1) by (auto simp: op_holds_def queue_is_def dest: spec [of _ j])
  then have e: "op_push_queue i j s = s" by (simp add: op_push_queue_def)
  have "X(i := X i @ X j, j := []) = X" using True by auto
  then show ?thesis using assms(1) unfolding e by simp
next
  case False
  have q: "queue_is (os_next s) (os_queue s k) (X k)" and d: "k \<noteq> l \<Longrightarrow> set (X k) \<inter> set (X l) = {}" and f: "\<not> queued X x \<Longrightarrow> os_next s x = None" for k l x
    using assms(1) by (simp_all add: op_holds_def)
  have c: "chain (os_next s) (oq_front (os_queue s k)) (X k)" "distinct (X k)" "oq_back (os_queue s k) = (if X k = [] then None else Some (last (X k)))" for k
    using q [of k] by (simp_all add: queue_is_def)
  have fj: "oq_front (os_queue s j) = Some (hd (X j))" using c(1) [of j] False by (cases "X j") auto
  define m where "m = (if X i = [] then os_next s else (os_next s)(last (X i) := Some (hd (X j))))"
  have s': "os_next (op_push_queue i j s) = m"
    "os_queue (op_push_queue i j s) = (os_queue s)(i := \<lparr>oq_front = if X i = [] then Some (hd (X j)) else oq_front (os_queue s i), oq_back = Some (last (X j))\<rparr>,
        j := \<lparr>oq_front = None, oq_back = None\<rparr>)"
    using c(3) [of i] c(3) [of j] fj False ij by (auto simp: op_push_queue_def m_def Let_def)
  have mx: "m x = os_next s x" if "x \<notin> set (X i)" for x using that last_in_set [of "X i"] by (auto simp: m_def)
  show ?thesis
  proof (rule op_holdsI)
    fix k
    show "queue_is (os_next (op_push_queue i j s)) (os_queue (op_push_queue i j s) k) ((X(i := X i @ X j, j := [])) k)"
    proof (cases "k = i \<or> k = j")
      case True
      have "last (X i) \<notin> set (X j)" if "X i \<noteq> []" using d [OF ij] last_in_set [OF that] by auto
      then have "chain m (if X i = [] then Some (hd (X j)) else oq_front (os_queue s i)) (X i @ X j)"
        using chain_append [OF c(1) [of i] c(1) [of j]] c(1) [of j] c(2) [of i] fj by (auto simp: m_def)
      moreover have "distinct (X i @ X j)" using c(2) d [OF ij] by simp
      ultimately show ?thesis using True ij False by (auto simp: queue_is_def s')
    next
      case other: False
      have "queue_is m (os_queue s k) (X k)" by (rule queue_is_cong [OF q]) (use mx d [of k i] other in auto)
      then show ?thesis using other by (simp add: s')
    qed
  next
    fix k l :: 'a
    assume "k \<noteq> l"
    then show "set ((X(i := X i @ X j, j := [])) k) \<inter> set ((X(i := X i @ X j, j := [])) l) = {}"
      using d [of k l] d [of k j] d [of j l] by auto
  next
    fix x
    assume n: "\<not> queued (X(i := X i @ X j, j := [])) x"
    have "x \<notin> set (X k)" for k
    proof (cases "k = j")
      case True
      then show ?thesis using n ij unfolding queued_def by (metis Un_iff fun_upd_apply set_append)
    next
      case False
      then show ?thesis using n ij unfolding queued_def by (metis Un_iff fun_upd_apply set_append)
    qed
    then show "os_next (op_push_queue i j s) x = None" using f [of x] mx [of x] by (simp add: s' queued_def)
  qed
qed

lemma op_front_holds: "op_holds X s \<Longrightarrow> op_front i s = (case X i of [] \<Rightarrow> None | h # hs \<Rightarrow> Some h)"
proof -
  assume "op_holds X s"
  then have "chain (os_next s) (oq_front (os_queue s i)) (X i)" by (simp add: op_holds_def queue_is_def)
  then show ?thesis by (cases "X i") (simp_all add: op_front_def)
qed

interpretation oq: op_fifo op_holds op_front op_pop op_push op_push_queue
proof
  fix X :: "'i \<Rightarrow> 'o list" and s i j
  assume h: "op_holds X s"
  show "op_front i s = (case X i of [] \<Rightarrow> None | h # hs \<Rightarrow> Some h)" using op_front_holds [OF h] .
  show "distinct (X i)" using h by (simp add: op_holds_def queue_is_def)
  show "i \<noteq> j \<Longrightarrow> set (X i) \<inter> set (X j) = {}" using h by (simp add: op_holds_def)
  show "op_holds (X(i := tl (X i))) (op_pop i s)" by (rule pop_holds [OF h])
  show "\<not> queued X x \<Longrightarrow> op_holds (X(i := X i @ [x])) (op_push i x s)" for x by (rule push_holds [OF h])
  show "i \<noteq> j \<Longrightarrow> op_holds (X(i := X i @ X j, j := [])) (op_push_queue i j s)" by (rule push_queue_holds [OF h])
qed

section \<open>Properties\<close>

lemma op_store_new_holds: "op_holds (\<lambda>_. []) op_store_new"
  by (simp add: op_holds_def queue_is_def op_store_new_def op_queue_new_def)

text \<open>
  C31: The linked queues are lists. After any sequence of pushes, pops and pushes of whole queues on any number of queues that share their
  operations' pointers, in which no operation is pushed while it is in a queue, the front of each queue, its emptiness and the test
  whether an operation is queued are those of the list, and no operation is lost or in two queues. The loops that take up to \<open>n\<close> operations
  from one queue to another one by one move exactly the first \<open>n\<close>.
\<close>

theorem op_queue_refines:
  assumes "allowed cs (\<lambda>_. [])" and "i \<noteq> j"
  defines "X \<equiv> fold list_op cs (\<lambda>_. [])" and "s \<equiv> fold (run_op op_pop op_push op_push_queue) cs op_store_new"
  shows "op_front i s = (case X i of [] \<Rightarrow> None | h # hs \<Rightarrow> Some h) \<and> (op_empty i s \<longleftrightarrow> X i = []) \<and>
    (h \<in> set (X i) \<longrightarrow> op_is_enqueued i h s) \<and> (\<not> queued X h \<longrightarrow> \<not> op_is_enqueued i h s) \<and>
    op_holds (X(i := drop n (X i), j := X j @ take n (X i))) (move_loop op_front op_pop op_push n i j s)"
proof -
  have h: "op_holds X s" unfolding X_def s_def by (rule oq.run_law [OF op_store_new_holds assms(1)])
  have q: "queue_is (os_next s) (os_queue s i) (X i)" using h by (simp add: op_holds_def)
  note f = oq.front_law [OF h, of i]
  have "op_empty i s \<longleftrightarrow> X i = []" using f by (cases "X i") (simp_all add: op_empty_def op_front_def)
  moreover have "op_is_enqueued i h s" if "h \<in> set (X i)"
  proof -
    obtain us vs where uv: "X i = us @ h # vs" using \<open>h \<in> set (X i)\<close> by (auto simp: in_set_conv_decomp)
    have "chain m p (us @ h # vs) \<Longrightarrow> vs \<noteq> [] \<Longrightarrow> m h \<noteq> None" for m p by (induction us arbitrary: p) (auto simp: neq_Nil_conv)
    then show ?thesis using q uv by (cases "vs = []") (auto simp: queue_is_def op_is_enqueued_def)
  qed
  moreover have "\<not> op_is_enqueued i h s" if "\<not> queued X h"
  proof -
    have "os_next s h = None" "h \<notin> set (X i)" using h that by (auto simp: op_holds_def queued_def)
    then show ?thesis using q last_in_set [of "X i"] by (auto simp: queue_is_def op_is_enqueued_def split: if_splits)
  qed
  ultimately show ?thesis using f oq.move_loop_law [OF h assms(2)] by blast
qed

theorem op_queue_refines_witness:
  "op_front (1 :: nat) (fold (run_op op_pop op_push op_push_queue) [Push 1 5, Push 2 6, Push 1 7, Pop 1, Push_queue 2 1, Push 1 (5 :: nat)] op_store_new) = Some 5 \<and>
   op_empty (1 :: nat) (fold (run_op op_pop op_push op_push_queue) [Push 1 5, Push 2 6, Push 1 7, Pop 1, Push_queue 2 1, Push 1 (5 :: nat)] op_store_new) = False"
  using op_queue_refines [of "[Push 1 5, Push 2 6, Push 1 7, Pop 1, Push_queue 2 1, Push (1 :: nat) (5 :: nat)]" 1 2 5 0]
  by (simp add: queued_def)

text \<open>The destructor ends and destroys every operation of its queue once.\<close>

lemma op_destroy_ok:
  "op_holds X s \<Longrightarrow> \<exists>s'. op_destroy i ds s = Some (ds @ X i, s') \<and> op_holds (X(i := [])) s'"
proof (induction "X i" arbitrary: X s ds)
  case Nil
  then have "X(i := []) = X" "oq_front (os_queue s i) = None" using op_front_holds [OF Nil(2), of i] by (auto simp: op_front_def split: list.splits)
  moreover from this(2) have "op_destroy i ds s = Some (ds, s)" by (subst op_destroy.simps) simp
  ultimately show ?case using Nil(1) [symmetric] Nil(2) by (intro exI [of _ s]) (simp only: append_Nil2 simp_thms)
next
  case (Cons h hs)
  have p: "op_holds (X(i := hs)) (op_pop i s)" using oq.pop_law [OF Cons.prems, of i] Cons.hyps(2) [symmetric] by simp
  have "oq_front (os_queue s i) = Some h" using op_front_holds [OF Cons.prems, of i] Cons.hyps(2) [symmetric] by (simp add: op_front_def)
  then have "op_destroy i ds s = op_destroy i (ds @ [h]) (op_pop i s)" by (subst op_destroy.simps) simp
  then show ?case using Cons.hyps(1) [OF _ p, of "ds @ [h]"] Cons.hyps(2) [symmetric] by simp
qed

end
