(* ===== verification/Asio_Timers.thy ===== *)
theory Asio_Timers
  imports Asio_Timer_Queue Asio_Op_Queue
begin

text \<open>
  What the timer queue promises, and what stands on it: the reactor's timer operations
  (\<open>asio/include/asio/detail/impl/epoll_reactor.hpp\<close>), the arithmetic of times (\<open>detail/chrono_time_traits.hpp\<close>), the service behind
  \<open>steady_timer\<close> (\<open>detail/deadline_timer_service.hpp\<close>), and \<open>RepeatTimer\<close> (\<open>net/repeattimer.h\<close>) run on all of it. Each operation of the reactor holds its
  mutex and is one step. Arming the kernel's timer is a counter; the scheduler's queue of
  completions is a list. The array of the heap does not run out of memory here.
\<close>

section \<open>The reactor\<close>

record 'h reactor =
  rx_shutdown :: bool
  rx_queue :: "'h timer_queue"
  rx_posted :: "'h wait_op list"
  rx_work :: nat
  rx_updates :: nat

definition reactor_new :: "'h reactor" where
  "reactor_new = \<lparr>rx_shutdown = False, rx_queue = timer_queue_new, rx_posted = [], rx_work = 0, rx_updates = 0\<rparr>"

definition post_deferred :: "'h wait_op list \<Rightarrow> 'h reactor \<Rightarrow> 'h reactor" where
  "post_deferred ops rx = rx\<lparr>rx_posted := rx_posted rx @ ops\<rparr>"

definition schedule_timer :: "int \<Rightarrow> ptr \<Rightarrow> 'h wait_op \<Rightarrow> 'h reactor \<Rightarrow> 'h reactor" where
  "schedule_timer time t op rx =
     (if rx_shutdown rx then rx\<lparr>rx_posted := rx_posted rx @ [op], rx_work := Suc (rx_work rx)\<rparr>
      else
        let (earliest, q) = enqueue_timer True time t op (rx_queue rx); rx = rx\<lparr>rx_queue := q, rx_work := Suc (rx_work rx)\<rparr> in
        if earliest = Some True then rx\<lparr>rx_updates := Suc (rx_updates rx)\<rparr> else rx)"

definition reactor_cancel_timer :: "ptr \<Rightarrow> nat \<Rightarrow> 'h reactor \<Rightarrow> nat \<times> 'h reactor" where
  "reactor_cancel_timer t max_cancelled rx =
     (let (n, ops, q) = cancel_timer t max_cancelled [] (rx_queue rx) in (n, post_deferred ops (rx\<lparr>rx_queue := q\<rparr>)))"

definition reactor_cancel_timer_by_key :: "ptr \<Rightarrow> nat option \<Rightarrow> 'h reactor \<Rightarrow> 'h reactor" where
  "reactor_cancel_timer_by_key t key rx =
     (let (ops, q) = cancel_timer_by_key t key [] (rx_queue rx) in post_deferred ops (rx\<lparr>rx_queue := q\<rparr>))"

definition reactor_move_timer :: "ptr \<Rightarrow> ptr \<Rightarrow> 'h reactor \<Rightarrow> 'h reactor" where
  "reactor_move_timer target source rx =
     (let (n, ops, q) = cancel_timer target max_index [] (rx_queue rx) in
      post_deferred ops (rx\<lparr>rx_queue := move_timer target source q\<rparr>))"

text \<open>
  The timers' part of a turn of \<open>epoll_reactor::run\<close>. Whether it runs depends on the events of that turn: with the
  kernel's timer descriptor only when that is among them. It arms the kernel's timer again.
\<close>

definition reactor_check_timers :: "bool \<Rightarrow> int \<Rightarrow> 'h reactor \<Rightarrow> 'h reactor option" where
  "reactor_check_timers check_timers now rx =
     (if \<not> check_timers then Some rx
      else map_option (\<lambda>(ops, q). rx\<lparr>rx_queue := q, rx_posted := ops, rx_updates := Suc (rx_updates rx)\<rparr>)
        (get_ready_timers now (rx_posted rx) (rx_queue rx)))"

lemma schedule_timer_fields:
  assumes "\<not> rx_shutdown rx"
  shows "rx_queue (schedule_timer time t op rx) = enqueued time t op (rx_queue rx)" "rx_posted (schedule_timer time t op rx) = rx_posted rx"
    "\<not> rx_shutdown (schedule_timer time t op rx)"
  using assms by (simp_all add: schedule_timer_def enqueue_eq Let_def)

section \<open>What the queue promises\<close>

text \<open>
  The calls the reactor makes and the set of waits they mean. Expired timers come in the order of their deadlines,
  each with all its operations in the order they were added.
\<close>

datatype 'h tq_call =
    Enqueue int ptr "'h wait_op" | Cancel ptr nat | Cancel_key ptr "nat option" | Move ptr ptr | Expire int

definition timer_call :: "'h tq_call \<Rightarrow> 'h timer_queue \<Rightarrow> ('h wait_op list \<times> 'h timer_queue) option" where
  "timer_call c q =
     (case c of
        Enqueue time t op \<Rightarrow> Some ([], snd (enqueue_timer True time t op q))
      | Cancel t n \<Rightarrow> Some (snd (cancel_timer t n [] q))
      | Cancel_key t key \<Rightarrow> Some (cancel_timer_by_key t key [] q)
      | Move u s \<Rightarrow> (case cancel_timer u max_index [] q of (n, ops, q) \<Rightarrow> Some (ops, move_timer u s q))
      | Expire now \<Rightarrow> get_ready_timers now [] q)"

fun timer_calls :: "'h tq_call list \<Rightarrow> 'h timer_queue \<Rightarrow> ('h wait_op list list \<times> 'h timer_queue) option" where
  "timer_calls [] q = Some ([], q)"
| "timer_calls (c # cs) q =
     (case timer_call c q of
        None \<Rightarrow> None
      | Some (ops, q) \<Rightarrow> map_option (\<lambda>(rest, q). (ops # rest, q)) (timer_calls cs q))"

inductive spec_call :: "'h tq_call \<Rightarrow> (ptr \<rightharpoonup> int \<times> 'h wait_op list) \<Rightarrow> 'h wait_op list \<Rightarrow> (ptr \<rightharpoonup> int \<times> 'h wait_op list) \<Rightarrow> bool" where
  spec_enqueue: "spec_call (Enqueue time t op) w [] (w(t \<mapsto> (case w t of None \<Rightarrow> (time, [op]) | Some (due, ops) \<Rightarrow> (due, ops @ [op]))))"
| spec_cancel: "spec_call (Cancel t n) w (map abort_op (take n (ops_of w t))) (keep_ops t (drop n (ops_of w t)) w)"
| spec_cancel_key: "spec_call (Cancel_key t key) w (map abort_op (filter (\<lambda>op. wo_key op = key) (ops_of w t)))
    (keep_ops t (filter (\<lambda>op. wo_key op \<noteq> key) (ops_of w t)) w)"
| spec_move: "spec_call (Move u s) w (map abort_op (ops_of w u)) (w(s := None, u := w s))"
| spec_expire: "distinct ts \<Longrightarrow> sorted (map (\<lambda>t. fst (the (w t))) ts) \<Longrightarrow> (\<forall>t. t \<in> set ts \<longleftrightarrow> (\<exists>due ops. w t = Some (due, ops) \<and> due \<le> now)) \<Longrightarrow>
    spec_call (Expire now) w (concat (map (\<lambda>t. map clear_ec (ops_of w t)) ts)) (\<lambda>t. if t \<in> set ts then None else w t)"

inductive spec_calls ::
    "'h tq_call list \<Rightarrow> (ptr \<rightharpoonup> int \<times> 'h wait_op list) \<Rightarrow> 'h wait_op list list \<Rightarrow> (ptr \<rightharpoonup> int \<times> 'h wait_op list) \<Rightarrow> bool" where
  calls_Nil: "spec_calls [] w [] w"
| calls_Cons: "spec_call c w ops w1 \<Longrightarrow> spec_calls cs w1 rest w2 \<Longrightarrow> spec_calls (c # cs) w (ops # rest) w2"

text \<open>A timer is not moved onto itself.\<close>

definition call_ok :: "'h tq_call \<Rightarrow> bool" where
  "call_ok c \<longleftrightarrow> (case c of Move u s \<Rightarrow> u \<noteq> s | _ \<Rightarrow> True)"

text \<open>No more timers and operations than calls.\<close>

definition within :: "nat \<Rightarrow> (ptr \<rightharpoonup> int \<times> 'h wait_op list) \<Rightarrow> bool" where
  "within n w \<longleftrightarrow> finite (dom w) \<and> card (dom w) \<le> n \<and> (\<forall>t. length (ops_of w t) \<le> n)"

lemma within_Suc: "within n w \<Longrightarrow> within (Suc n) w"
  unfolding within_def by (meson le_SucI)

lemma within_mono: "within n w \<Longrightarrow> dom w' \<subseteq> dom w \<Longrightarrow> (\<And>t. length (ops_of w' t) \<le> length (ops_of w t)) \<Longrightarrow> within n w'"
  unfolding within_def by (meson card_mono finite_subset le_trans)

lemma within_keep: "within n w \<Longrightarrow> length rest \<le> length (ops_of w t) \<Longrightarrow> within n (keep_ops t rest w)"
  by (rule within_mono) (auto simp: keep_ops_def ops_of_def split: if_splits option.splits)

lemma spec_call_within: "spec_call c w ops w' \<Longrightarrow> within n w \<Longrightarrow> call_ok c \<Longrightarrow> within (Suc n) w'"
proof (induction rule: spec_call.induct)
  case (spec_enqueue time t op w)
  then have n: "finite (dom w)" "card (dom w) \<le> n" "length (ops_of w t) \<le> n" for t by (simp_all add: within_def)
  define w1 where "w1 = w(t \<mapsto> (case w t of None \<Rightarrow> (time, [op]) | Some (due, ops) \<Rightarrow> (due, ops @ [op])))"
  have "dom w1 = insert t (dom w)" by (simp add: w1_def)
  moreover have "card (insert t (dom w)) \<le> Suc n" using card_insert_le_m1 [of "Suc n" "dom w" t] n(2) by simp
  moreover have "length (ops_of w1 s) \<le> Suc n" for s using n(3) [of s] by (cases "w t") (auto simp: ops_of_def w1_def)
  ultimately have "within (Suc n) w1" using n(1) by (simp add: within_def)
  then show ?case by (simp only: w1_def)
next
  case (spec_cancel t m w)
  then have "within n (keep_ops t (drop m (ops_of w t)) w)" by (intro within_keep) simp_all
  then show ?case by (rule within_Suc)
next
  case (spec_cancel_key t key w)
  then have "within n (keep_ops t (filter (\<lambda>op. wo_key op \<noteq> key) (ops_of w t)) w)" by (intro within_keep) simp_all
  then show ?case by (rule within_Suc)
next
  case (spec_move u s w)
  then have n: "finite (dom w)" "card (dom w) \<le> n" "\<And>t. length (ops_of w t) \<le> n" by (simp_all add: within_def)
  define w1 where "w1 = w(s := None, u := w s)"
  have d: "dom w1 \<subseteq> insert u (dom w)" by (auto simp: w1_def split: if_splits)
  have "card (insert u (dom w)) \<le> Suc n" using card_insert_le_m1 [of "Suc n" "dom w" u] n(2) by simp
  then have "card (dom w1) \<le> Suc n" using card_mono [OF _ d] n(1) by simp
  moreover have "length (ops_of w1 t) \<le> Suc n" for t using n(3) [of t] n(3) [of s] by (auto simp: ops_of_def w1_def)
  moreover have "finite (dom w1)" using finite_subset [OF d] n(1) by simp
  ultimately have "within (Suc n) w1" by (simp add: within_def)
  then show ?case by (simp only: w1_def)
next
  case (spec_expire ts w now)
  have "within n (\<lambda>t. if t \<in> set ts then None else w t)" by (rule within_mono [OF spec_expire.prems(1)]) (auto simp: ops_of_def split: if_splits)
  then show ?case by (rule within_Suc)
qed

lemma move_refines:
  assumes ok: "tq_ok q" "idle_ok q" and n: "within n (waits q)" "n \<le> max_index" and us: "u \<noteq> s"
  obtains q' where "timer_call (Move u s) q = Some (map abort_op (ops_of (waits q) u), q')" "tq_ok q'" "idle_ok q'"
    "waits q' = (waits q)(s := None, u := waits q s)"
proof -
  obtain q1 where q1: "cancel_timer u max_index [] q =
      (length (take max_index (ops_of (waits q) u)), [] @ map abort_op (take max_index (ops_of (waits q) u)), q1)"
    "tq_ok q1" "waits q1 = keep_ops u (drop max_index (ops_of (waits q) u)) (waits q)" "idle_ok q1"
    using cancel_ok [OF ok(1), of u max_index "[]"] ok(2) by metis
  have "length (ops_of (waits q) u) \<le> max_index" using n unfolding within_def by (meson le_trans)
  then have e: "timer_call (Move u s) q = Some (map abort_op (ops_of (waits q) u), move_timer u s q1)" and w1: "waits q1 = (waits q)(u := None)"
    using q1(1,3) by (simp_all add: timer_call_def keep_ops_def)
  have fin: "finite (dom (waits q))" "card (dom (waits q)) \<le> max_index" using n by (auto simp: within_def)
  have "dom (waits q1) \<subseteq> dom (waits q)" by (auto simp: w1)
  then have "card (dom (waits q1)) \<le> max_index" using card_mono [OF fin(1)] fin(2) le_trans by blast
  then have len: "length (tq_heap q1) \<le> max_index" using heap_size [OF q1(2)] by simp
  show ?thesis
  proof (cases "waits q s")
    case None
    then have s: "waits q1 s = None" "waits q1 u = None" by (simp_all add: w1)
    have "length (tq_heap q1) \<le> pt_heap_index (tq_data q1 s)" using len q1(4) s(1) by (simp add: idle_ok_def)
    note m = move_idle [OF q1(2) s us this]
    have "waits q1 = (waits q)(s := None, u := waits q s)" using None by (auto simp: w1 fun_eq_iff)
    then show ?thesis using that [OF e m(1)] m(2,3) q1(4) by simp
  next
    case (Some p)
    then have s: "waits q1 s \<noteq> None" "waits q1 u = None" using us by (simp_all add: w1)
    note m = move_active [OF q1(2) s]
    have "(waits q1)(s := None, u := waits q1 s) = (waits q)(s := None, u := waits q s)" using us by (auto simp: w1 fun_eq_iff)
    then show ?thesis using that [OF e m(1)] m(2,3) q1(4) by simp
  qed
qed

lemma expire_refines:
  assumes "tq_ok q" and "idle_ok q"
  obtains ops q' where "timer_call (Expire now) q = Some (ops, q')" "tq_ok q'" "idle_ok q'" "spec_call (Expire now) (waits q) ops (waits q')"
proof -
  obtain ts q' where ts: "ready_loop now [] q = Some ([] @ concat (map (\<lambda>t. map clear_ec (snd (the (waits q t)))) ts), q')" "tq_ok q'" "distinct ts"
    "sorted (map (\<lambda>t. fst (the (waits q t))) ts)" "\<forall>t. t \<in> set ts \<longleftrightarrow> (\<exists>time os. waits q t = Some (time, os) \<and> time \<le> now)"
    "waits q' = (\<lambda>t. if t \<in> set ts then None else waits q t)" "idle_ok q'"
    using ready_loop_ok [OF assms(1), of now "[]"] assms(2) by blast
  have "map clear_ec (snd (the (waits q t))) = map clear_ec (ops_of (waits q) t)" if "t \<in> set ts" for t
    using ts(5) that by (auto simp: ops_of_def)
  then have "concat (map (\<lambda>t. map clear_ec (snd (the (waits q t)))) ts) = concat (map (\<lambda>t. map clear_ec (ops_of (waits q) t)) ts)"
    by (metis (no_types, lifting) map_eq_conv)
  moreover have "timer_call (Expire now) q = Some (concat (map (\<lambda>t. map clear_ec (snd (the (waits q t)))) ts), q')"
    using ts(1) by (simp add: timer_call_def get_ready_timers_def)
  ultimately show ?thesis using that spec_expire [OF ts(3-5)] ts(2,6,7) by metis
qed

lemma enqueue_idle: "tq_ok q \<Longrightarrow> idle_ok q \<Longrightarrow> idle_ok (enqueued time t op q)"
  using enqueued_index [OF tq_ok_idx, of q _ t time op] active_waits [of q t] waits_enqueued [of q time t op]
  by (auto simp: idle_ok_def split: if_splits)

lemma timer_call_refines:
  assumes "tq_ok q" and "idle_ok q" and "within n (waits q)" and "n \<le> max_index" and "call_ok c"
  shows "\<exists>ops q'. timer_call c q = Some (ops, q') \<and> tq_ok q' \<and> idle_ok q' \<and> spec_call c (waits q) ops (waits q')"
proof (cases c)
  case (Enqueue time t op)
  have "timer_call c q = Some ([], enqueued time t op q)" by (simp add: timer_call_def Enqueue enqueue_eq)
  then show ?thesis using enqueued_ok [OF assms(1)] enqueue_idle [OF assms(1,2)] waits_enqueued [OF assms(1)] spec_enqueue Enqueue by metis
next
  case (Cancel t m)
  show ?thesis by (rule cancel_ok [OF assms(1), of t m "[]"]) (use assms(2) spec_cancel [of t m "waits q"] in \<open>auto simp: timer_call_def Cancel\<close>)
next
  case (Cancel_key t key)
  show ?thesis by (rule cancel_by_key_ok [OF assms(1), of t key "[]"]) (use assms(2) spec_cancel_key [of t key "waits q"] in \<open>auto simp: timer_call_def Cancel_key\<close>)
next
  case (Move u s)
  then have "u \<noteq> s" using assms(5) by (simp add: call_ok_def)
  from move_refines [OF assms(1-4) this] show ?thesis using spec_move [of u s "waits q"] Move by metis
next
  case (Expire now)
  show ?thesis using expire_refines [OF assms(1,2), of now] Expire by metis
qed

lemma timer_calls_refine:
  "tq_ok q \<Longrightarrow> idle_ok q \<Longrightarrow> within n (waits q) \<Longrightarrow> n + length cs \<le> max_index \<Longrightarrow> list_all call_ok cs \<Longrightarrow>
   \<exists>oss q'. timer_calls cs q = Some (oss, q') \<and> tq_ok q' \<and> spec_calls cs (waits q) oss (waits q')"
proof (induction cs arbitrary: q n)
  case Nil
  then show ?case using calls_Nil by auto
next
  case (Cons c cs)
  then obtain ops q1 where q1: "timer_call c q = Some (ops, q1)" "tq_ok q1" "idle_ok q1" "spec_call c (waits q) ops (waits q1)"
    using timer_call_refines [of q n c] by auto
  have "within (Suc n) (waits q1)" using spec_call_within [OF q1(4) Cons.prems(3)] Cons.prems(5) by simp
  then obtain oss q2 where "timer_calls cs q1 = Some (oss, q2)" "tq_ok q2" "spec_calls cs (waits q1) oss (waits q2)"
    using Cons.IH [OF q1(2,3), of "Suc n"] Cons.prems(4,5) by auto
  then show ?case using q1 calls_Cons [OF q1(4)] by auto
qed

lemma timer_queue_new_ok: "tq_ok timer_queue_new" "idle_ok timer_queue_new" "waits timer_queue_new = Map.empty"
proof -
  show w: "waits timer_queue_new = Map.empty" by (simp add: waits_def timer_queue_new_def fun_eq_iff)
  have "links_ok [] timer_queue_new" by (simp add: links_ok_def idx_ok_def heap_ok_def timer_queue_new_def per_timer_new_def)
  then show "tq_ok timer_queue_new" by (rule tq_okI) (simp add: timer_queue_new_def per_timer_new_def)
  show "idle_ok timer_queue_new" by (simp add: idle_ok_def timer_queue_new_def per_timer_new_def)
qed

text \<open>
  C28: The timer queue is a set of waits. Whatever sequence of calls is made to a new queue (adding operations, cancelling all,
  some or those with a key, moving a timer onto another, taking out the expired ones), every call returns, and it returns the
  operations the specification gives: all operations of the timers that are due and of no other, in the order of the deadlines, with no
  error; cancelled ones with \<open>operation_aborted\<close>; none twice and none lost. Heap, back-pointers and list agree after every call.
\<close>

theorem timer_queue_refines:
  assumes "list_all call_ok cs" and "length cs \<le> max_index"
  shows "\<exists>oss q. timer_calls cs timer_queue_new = Some (oss, q) \<and> tq_ok q \<and> spec_calls cs Map.empty oss (waits q)"
  using timer_calls_refine [OF timer_queue_new_ok(1,2), of 0 cs] assms by (simp add: timer_queue_new_ok within_def ops_of_def)

definition sample_op :: "nat \<Rightarrow> nat wait_op" where
  "sample_op n = \<lparr>wo_id = n, wo_key = None, wo_ec = NoError, wo_handler = n\<rparr>"

theorem timer_queue_refines_witness:
  "\<exists>oss q. timer_calls [Enqueue 30 1 (sample_op 0), Enqueue 10 2 (sample_op 1), Enqueue 20 3 (sample_op 2), Cancel 3 1, Move 4 1, Expire 15]
      timer_queue_new = Some (oss, q) \<and> tq_ok q \<and>
    spec_calls [Enqueue 30 1 (sample_op 0), Enqueue 10 2 (sample_op 1), Enqueue 20 3 (sample_op 2), Cancel 3 1, Move 4 1, Expire 15]
      Map.empty oss (waits q)"
  by (rule timer_queue_refines) (simp_all add: call_ok_def max_index_def)

text \<open>
  When the array cannot grow, \<open>enqueue_timer\<close> has already written the index the timer would have had. Moving that timer
  later, when another entry has this index, redirects the entry: the other timer's wait is lost.
\<close>

lemma failed_enqueue_misdirects:
  "case enqueue_timer False 10 1 (sample_op 0) timer_queue_new of (r1, q1) \<Rightarrow>
   case enqueue_timer True 20 2 (sample_op 1) q1 of (r2, q2) \<Rightarrow>
     r1 = None \<and> tq_heap q2 = [(20, 2)] \<and> tq_heap (move_timer 3 1 q2) = [(20, 3)] \<and> is_active 2 (move_timer 3 1 q2)"
  by (simp add: enqueue_timer_def timer_queue_new_def per_timer_new_def is_active_def set_data_def link_timer_def set_at_def move_timer_def
      move_heap_def move_links_def up_heap.simps [of 0] Let_def)

section \<open>Times\<close>

definition time_max :: int where
  "time_max = 2 ^ 63 - 1"

definition time_min :: int where
  "time_min = - (2 ^ 63)"

definition chrono_add :: "int \<Rightarrow> int \<Rightarrow> int" where
  "chrono_add t d =
     (if 0 \<le> t then if time_max - t < d then time_max else t + d
      else if d < - (t - time_min) then time_min else t + d)"

definition chrono_subtract :: "int \<Rightarrow> int \<Rightarrow> int" where
  "chrono_subtract t1 t2 =
     (if 0 \<le> t1 then
        if 0 \<le> t2 then t1 - t2 else if t2 = time_min then time_max
        else if time_max - t1 < - t2 then time_max else t1 - t2
      else
        if t2 < 0 then t1 - t2 else if t1 = time_min then time_min
        else if time_max - t2 < - t1 then time_min else - (t2 - t1))"

definition clamp :: "int \<Rightarrow> int" where
  "clamp x = max time_min (min time_max x)"

definition in_range :: "int \<Rightarrow> bool" where
  "in_range x \<longleftrightarrow> time_min \<le> x \<and> x \<le> time_max"

lemma chrono_saturates:
  "in_range a \<Longrightarrow> in_range b \<Longrightarrow> chrono_add a b = clamp (a + b)" "in_range a \<Longrightarrow> in_range b \<Longrightarrow> chrono_subtract a b = clamp (a - b)"
  by (auto simp: chrono_add_def chrono_subtract_def clamp_def in_range_def time_min_def time_max_def)

text \<open>The wait for the earliest timer, of which the reactor makes the timeout of \<open>epoll_wait\<close> and of the kernel's timer.\<close>

definition to_ticks_of :: "int \<Rightarrow> int \<Rightarrow> int \<Rightarrow> int" where
  "to_ticks_of tick d max_duration =
     (if d \<le> 0 then 0
      else let n = d div tick in if n = 0 then 1 else if max_duration < n then max_duration else n)"

definition wait_duration_msec :: "int \<Rightarrow> int \<Rightarrow> 'h timer_queue \<Rightarrow> int" where
  "wait_duration_msec now max_duration q =
     (if tq_heap q = [] then max_duration else to_ticks_of 1000000 (chrono_subtract (fst (tq_heap q ! 0)) now) max_duration)"

definition wait_duration_usec :: "int \<Rightarrow> int \<Rightarrow> 'h timer_queue \<Rightarrow> int" where
  "wait_duration_usec now max_duration q =
     (if tq_heap q = [] then max_duration else to_ticks_of 1000 (chrono_subtract (fst (tq_heap q ! 0)) now) max_duration)"

definition get_timeout :: "int \<Rightarrow> int \<Rightarrow> 'h timer_queue \<Rightarrow> int" where
  "get_timeout now msec q =
     (let max_msec = 5 * 60 * 1000 in wait_duration_msec now (if msec < 0 \<or> max_msec < msec then max_msec else msec) q)"

lemma to_ticks_bounds:
  assumes "0 < tick" and "0 < limit"
  shows "d \<le> 0 \<Longrightarrow> to_ticks_of tick d limit = 0" "0 < d \<Longrightarrow> 0 < to_ticks_of tick d limit \<and> to_ticks_of tick d limit \<le> limit"
    "0 < d \<Longrightarrow> (to_ticks_of tick d limit - 1) * tick < d" "0 < d \<Longrightarrow> to_ticks_of tick d limit = limit \<or> d \<le> to_ticks_of tick d limit * tick + tick"
proof -
  have m: "d div tick * tick \<le> d" "d < d div tick * tick + tick"
    using div_mult_mod_eq [of d tick] pos_mod_bound [OF assms(1), of d] pos_mod_sign [OF assms(1), of d] by linarith+
  have z: "0 < d \<Longrightarrow> 0 \<le> d div tick" using assms(1) by (simp add: pos_imp_zdiv_nonneg_iff)
  show "d \<le> 0 \<Longrightarrow> to_ticks_of tick d limit = 0" by (simp add: to_ticks_of_def)
  show "0 < d \<Longrightarrow> 0 < to_ticks_of tick d limit \<and> to_ticks_of tick d limit \<le> limit" using assms(2) z by (auto simp: to_ticks_of_def Let_def)
  show "0 < d \<Longrightarrow> to_ticks_of tick d limit = limit \<or> d \<le> to_ticks_of tick d limit * tick + tick"
    using m(2) by (auto simp: to_ticks_of_def Let_def)
  assume d: "0 < d"
  have "(limit - 1) * tick < d" if "limit < d div tick"
    using mult_strict_right_mono [of "limit - 1" "d div tick" tick] that assms(1) m(1) by linarith
  moreover have "(d div tick - 1) * tick < d" using mult_strict_right_mono [of "d div tick - 1" "d div tick" tick] assms(1) m(1) by linarith
  ultimately show "(to_ticks_of tick d limit - 1) * tick < d" using d by (auto simp: to_ticks_of_def Let_def)
qed

lemma clamp_sign: "clamp x \<le> 0 \<longleftrightarrow> x \<le> 0" "0 < x \<Longrightarrow> clamp x \<le> x"
  by (auto simp: clamp_def time_min_def time_max_def)

text \<open>
  C30: The reactor neither sleeps past a deadline nor spins. The timeout it computes from the queue is the limit when no timer waits, zero
  exactly when one is due, else at least one millisecond and at most the limit; and when it is over, the earliest deadline is missed by
  less than a millisecond. This holds for all 64-bit times, also where their difference overflows.
\<close>

theorem wait_duration_exact:
  assumes "tq_ok q" and "in_range now" and "\<And>t due ops. waits q t = Some (due, ops) \<Longrightarrow> in_range due" and "0 < limit"
  defines "r \<equiv> wait_duration_msec now limit q"
  shows "if waits q = Map.empty then r = limit
     else (r = 0 \<longleftrightarrow> (\<exists>t due ops. waits q t = Some (due, ops) \<and> due \<le> now)) \<and> 0 \<le> r \<and> r \<le> limit \<and>
       (\<forall>t due ops. waits q t = Some (due, ops) \<longrightarrow> now < due \<longrightarrow> (r - 1) * 1000000 < due - now)"
proof (cases "waits q = Map.empty")
  case True
  then have "x \<notin> set (tq_heap q)" for x using waits_None [of q "snd x"] by auto
  then have "tq_heap q = []" by (metis hd_in_set)
  then show ?thesis using True by (simp add: r_def wait_duration_msec_def)
next
  case False
  then obtain t due ops where t: "waits q t = Some (due, ops)" by (metis not_Some_eq prod.collapse ext)
  let ?e = "fst (tq_heap q ! 0)" and ?d = "chrono_subtract (fst (tq_heap q ! 0)) now"
  note root = root_earliest [OF assms(1)]
  have e: "in_range ?e" using assms(3) root(3) [OF t] by blast
  have d: "?d \<le> 0 \<longleftrightarrow> ?e \<le> now" "now < ?e \<Longrightarrow> ?d \<le> ?e - now"
    using chrono_saturates(2) [OF e assms(2)] clamp_sign(1) [of "?e - now"] clamp_sign(2) [of "?e - now"] by auto
  have r: "r = to_ticks_of 1000000 ?d limit" using root(2) [OF t] by (simp add: r_def wait_duration_msec_def)
  note b = to_ticks_bounds [of 1000000 limit ?d, folded r, OF _ assms(4)]
  have "r = 0 \<longleftrightarrow> ?e \<le> now" using b(1,2) d(1) by (cases "?d \<le> 0") auto
  also have "\<dots> \<longleftrightarrow> (\<exists>t due ops. waits q t = Some (due, ops) \<and> due \<le> now)" using root(1,3) t by (meson order_trans)
  finally have zero: "r = 0 \<longleftrightarrow> (\<exists>t due ops. waits q t = Some (due, ops) \<and> due \<le> now)" .
  moreover have "0 \<le> r \<and> r \<le> limit" using b(1,2) assms(4) by (cases "?d \<le> 0") auto
  moreover have "(r - 1) * 1000000 < due - now" if "waits q t = Some (due, ops)" "now < due" for t due ops
    using b(1,3) d root(1) [OF that(1)] that(2) by (cases "?d \<le> 0") auto
  ultimately show ?thesis using False by simp
qed

theorem wait_duration_exact_witness:
  "if waits (snd (enqueue_timer True 5000000 1 (sample_op 0) timer_queue_new)) = Map.empty
   then wait_duration_msec 2000000 100 (snd (enqueue_timer True 5000000 1 (sample_op 0) timer_queue_new)) = 100
   else (wait_duration_msec 2000000 100 (snd (enqueue_timer True 5000000 1 (sample_op 0) timer_queue_new)) = 0 \<longleftrightarrow>
       (\<exists>t due ops. waits (snd (enqueue_timer True 5000000 1 (sample_op 0) timer_queue_new)) t = Some (due, ops) \<and> due \<le> 2000000)) \<and>
     0 \<le> wait_duration_msec 2000000 100 (snd (enqueue_timer True 5000000 1 (sample_op 0) timer_queue_new)) \<and>
     wait_duration_msec 2000000 100 (snd (enqueue_timer True 5000000 1 (sample_op 0) timer_queue_new)) \<le> 100 \<and>
     (\<forall>t due ops. waits (snd (enqueue_timer True 5000000 1 (sample_op 0) timer_queue_new)) t = Some (due, ops) \<longrightarrow> 2000000 < due \<longrightarrow>
       (wait_duration_msec 2000000 100 (snd (enqueue_timer True 5000000 1 (sample_op 0) timer_queue_new)) - 1) * 1000000 < due - 2000000)"
proof (rule wait_duration_exact)
  show "tq_ok (snd (enqueue_timer True 5000000 1 (sample_op 0) timer_queue_new))"
    by (simp add: enqueue_eq enqueued_ok timer_queue_new_ok(1))
  show "in_range due" if "waits (snd (enqueue_timer True 5000000 1 (sample_op 0) timer_queue_new)) t = Some (due, ops)" for t due ops
    using that by (auto simp: enqueue_eq waits_enqueued [OF timer_queue_new_ok(1)] timer_queue_new_ok(3) in_range_def time_min_def time_max_def split: if_splits)
qed (simp_all add: in_range_def time_min_def time_max_def)

section \<open>The timer service\<close>

record timer_impl =
  im_expiry :: int
  im_pending :: bool

definition impl_new :: timer_impl where
  "impl_new = \<lparr>im_expiry = 0, im_pending = False\<rparr>"

definition service_cancel :: "ptr \<Rightarrow> timer_impl \<Rightarrow> 'h reactor \<Rightarrow> nat \<times> timer_impl \<times> 'h reactor" where
  "service_cancel t impl rx =
     (if \<not> im_pending impl then (0, impl, rx)
      else let (n, rx) = reactor_cancel_timer t max_index rx in (n, impl\<lparr>im_pending := False\<rparr>, rx))"

definition service_cancel_one :: "ptr \<Rightarrow> timer_impl \<Rightarrow> 'h reactor \<Rightarrow> nat \<times> timer_impl \<times> 'h reactor" where
  "service_cancel_one t impl rx =
     (if \<not> im_pending impl then (0, impl, rx)
      else let (n, rx) = reactor_cancel_timer t 1 rx in (n, if n = 0 then impl\<lparr>im_pending := False\<rparr> else impl, rx))"

definition service_move_construct :: "ptr \<Rightarrow> ptr \<Rightarrow> timer_impl \<Rightarrow> 'h reactor \<Rightarrow> timer_impl \<times> timer_impl \<times> 'h reactor" where
  "service_move_construct t other other_impl rx =
     (\<lparr>im_expiry = im_expiry other_impl, im_pending = im_pending other_impl\<rparr>, \<lparr>im_expiry = 0, im_pending = False\<rparr>,
      reactor_move_timer t other rx)"

definition service_expires_at :: "ptr \<Rightarrow> int \<Rightarrow> timer_impl \<Rightarrow> 'h reactor \<Rightarrow> nat \<times> timer_impl \<times> 'h reactor" where
  "service_expires_at t time impl rx =
     (let (n, impl, rx) = service_cancel t impl rx in (n, impl\<lparr>im_expiry := time\<rparr>, rx))"

definition service_expires_from_now :: "int \<Rightarrow> ptr \<Rightarrow> int \<Rightarrow> timer_impl \<Rightarrow> 'h reactor \<Rightarrow> nat \<times> timer_impl \<times> 'h reactor" where
  "service_expires_from_now now t d impl rx = service_expires_at t (chrono_add now d) impl rx"

definition service_async_wait :: "ptr \<Rightarrow> 'h wait_op \<Rightarrow> timer_impl \<Rightarrow> 'h reactor \<Rightarrow> timer_impl \<times> 'h reactor" where
  "service_async_wait t op impl rx = (impl\<lparr>im_pending := True\<rparr>, schedule_timer (im_expiry impl) t op rx)"

section \<open>RepeatTimer on asio\<close>

text \<open>
  The operations of \<open>RepeatTimer\<close> once more, with the asio calls they make instead of the abstract wait of \<open>Repeat_Timer\<close>. The
  lambda given to \<open>async_wait\<close> is known by the period it captured; the operations of other timers are opaque. The values the clock gives when it is read are arguments.
\<close>

datatype waiter = Repeat u64 | Other nat

record 'h timer_system =
  ts_timer :: "'h repeattimer"
  ts_impl :: timer_impl
  ts_reactor :: "waiter reactor"
  ts_ops :: nat

text \<open>\<open>std::chrono::milliseconds(time_ms)\<close> as nanoseconds; a signed overflow is undefined.\<close>

definition ms_ticks :: "u64 \<Rightarrow> int res" where
  "ms_ticks ms = (let n = sint ms * 1000000 in if in_range n then Inr n else Inl OutOfRange)"

definition rt_expired :: "ptr \<Rightarrow> int \<Rightarrow> u64 \<Rightarrow> 'h timer_system \<Rightarrow> 'h timer_system res" where
  "rt_expired t now time_ms s =
     (if \<not> rt_running (ts_timer s) then Inr s
      else
        bind_res (ms_ticks time_ms) (\<lambda>d.
          let (n, impl, rx) = service_expires_from_now now t d (ts_impl s) (ts_reactor s);
              op = \<lparr>wo_id = ts_ops s, wo_key = None, wo_ec = NoError, wo_handler = Repeat time_ms\<rparr>;
              (impl, rx) = service_async_wait t op impl rx in
          Inr (s\<lparr>ts_impl := impl, ts_reactor := rx, ts_ops := Suc (ts_ops s)\<rparr>)))"

definition rt_start :: "ptr \<Rightarrow> int \<Rightarrow> 'h timer_system \<Rightarrow> 'h timer_system res" where
  "rt_start t now s =
     (let s = s\<lparr>ts_timer := (ts_timer s)\<lparr>rt_running := True\<rparr>\<rparr> in rt_expired t now (rt_timeout (ts_timer s)) s)"

definition rt_stop :: "'h timer_system \<Rightarrow> 'h timer_system" where
  "rt_stop s = s\<lparr>ts_timer := RepeatTimer_stop (ts_timer s)\<rparr>"

text \<open>
  The completion of an operation. The result lists the handlers that ran; \<open>call\<close> is what a handler does to its timer,
  \<open>now\<close> what the clock gives when \<open>expires_from_now\<close> reads it after the handler has run.
\<close>

definition rt_complete ::
    "('h \<Rightarrow> 'h repeattimer \<Rightarrow> 'h repeattimer) \<Rightarrow> ptr \<Rightarrow> int \<Rightarrow> waiter wait_op \<Rightarrow> 'h timer_system \<Rightarrow> ('h timer_system \<times> 'h list) res" where
  "rt_complete call t now op s =
     (case wo_handler op of
        Other n \<Rightarrow> Inr (s, [])
      | Repeat time_ms \<Rightarrow>
          if wo_ec op = OperationAborted \<or> \<not> rt_running (ts_timer s) then Inr (s, [])
          else
            (case rt_handler (ts_timer s) of
               None \<Rightarrow> Inl NullDeref
             | Some h \<Rightarrow> map_res (\<lambda>s. (s, [h])) (rt_expired t now time_ms (s\<lparr>ts_timer := call h (ts_timer s)\<rparr>))))"

fun rt_completes ::
    "('h \<Rightarrow> 'h repeattimer \<Rightarrow> 'h repeattimer) \<Rightarrow> ptr \<Rightarrow> int \<Rightarrow> waiter wait_op list \<Rightarrow> 'h timer_system \<Rightarrow> ('h timer_system \<times> 'h list) res" where
  "rt_completes call t now [] s = Inr (s, [])"
| "rt_completes call t now (op # ops) s =
     bind_res (rt_complete call t now op s) (\<lambda>(s, hs). map_res (\<lambda>(s, hs'). (s, hs @ hs')) (rt_completes call t now ops s))"

text \<open>
  A turn of the event loop: whether it checks the timers, what the clock gives when it does, and what it gives
  later in the turn when the timer is armed again. The expired timers complete, then all that is posted by then.
\<close>

record turn =
  tn_check :: bool
  tn_now :: int
  tn_rearm :: int

definition rt_turn ::
    "('h \<Rightarrow> 'h repeattimer \<Rightarrow> 'h repeattimer) \<Rightarrow> ptr \<Rightarrow> turn \<Rightarrow> 'h timer_system \<Rightarrow> ('h timer_system \<times> 'h list) res option" where
  "rt_turn call t u s =
     map_option (\<lambda>rx. rt_completes call t (tn_rearm u) (rx_posted rx)
         (s\<lparr>ts_reactor := rx\<lparr>rx_posted := [], rx_work := rx_work rx - length (rx_posted rx)\<rparr>\<rparr>))
       (reactor_check_timers (tn_check u) (tn_now u) (ts_reactor s))"

fun rt_turns ::
    "('h \<Rightarrow> 'h repeattimer \<Rightarrow> 'h repeattimer) \<Rightarrow> ptr \<Rightarrow> turn list \<Rightarrow> 'h timer_system \<Rightarrow> ('h timer_system \<times> (int \<times> 'h) list) res option" where
  "rt_turns call t [] s = Some (Inr (s, []))"
| "rt_turns call t (u # us) s =
     (case rt_turn call t u s of
        None \<Rightarrow> None
      | Some (Inl e) \<Rightarrow> Some (Inl e)
      | Some (Inr (s, hs)) \<Rightarrow> map_option (map_res (\<lambda>(s, rest). (s, map (Pair (tn_now u)) hs @ rest))) (rt_turns call t us s))"

text \<open>The timer is armed for the time \<open>e\<close>, and no operation but its one wait is its own.\<close>

definition opaque :: "waiter wait_op \<Rightarrow> bool" where
  "opaque op \<longleftrightarrow> (\<exists>n. wo_handler op = Other n)"

definition others_ok :: "ptr \<Rightarrow> (ptr \<rightharpoonup> int \<times> waiter wait_op list) \<Rightarrow> bool" where
  "others_ok t w \<longleftrightarrow> (\<forall>x. x \<noteq> t \<longrightarrow> list_all opaque (ops_of w x))"

definition rt_base :: "ptr \<Rightarrow> 'h \<Rightarrow> 'h timer_system \<Rightarrow> bool" where
  "rt_base t h s \<longleftrightarrow> rt_handler (ts_timer s) = Some h \<and> \<not> rx_shutdown (ts_reactor s) \<and> tq_ok (rx_queue (ts_reactor s)) \<and>
     others_ok t (waits (rx_queue (ts_reactor s))) \<and> list_all opaque (rx_posted (ts_reactor s))"

definition rt_armed :: "ptr \<Rightarrow> u64 \<Rightarrow> int \<Rightarrow> 'h \<Rightarrow> 'h timer_system \<Rightarrow> bool" where
  "rt_armed t ms e h s \<longleftrightarrow> rt_base t h s \<and> rt_running (ts_timer s) \<and>
     (\<exists>op. waits (rx_queue (ts_reactor s)) t = Some (e, [op]) \<and> wo_handler op = Repeat ms)"

lemma rt_expired_armed:
  assumes base: "rt_base t h s" and run: "rt_running (ts_timer s)" and idle: "waits (rx_queue (ts_reactor s)) t = None" and d: "ms_ticks ms = Inr d"
  obtains s' where "rt_expired t now ms s = Inr s'" "rt_armed t ms (chrono_add now d) h s'"
proof -
  let ?q = "rx_queue (ts_reactor s)" and ?e = "chrono_add now d"
  let ?op = "\<lparr>wo_id = ts_ops s, wo_key = None, wo_ec = NoError, wo_handler = Repeat ms\<rparr>"
  have ok: "tq_ok ?q" "\<not> rx_shutdown (ts_reactor s)" using base by (simp_all add: rt_base_def)
  then have "\<not> is_active t ?q" using active_waits idle by blast
  then have c: "reactor_cancel_timer t max_index (ts_reactor s) = (0, ts_reactor s)"
    by (simp add: reactor_cancel_timer_def cancel_timer_def post_deferred_def)
  have "\<exists>n impl. service_expires_from_now now t d (ts_impl s) (ts_reactor s) = (n, impl, ts_reactor s) \<and> im_expiry impl = ?e"
    using c by (cases "im_pending (ts_impl s)") (simp_all add: service_expires_from_now_def service_expires_at_def service_cancel_def)
  then obtain n impl where e: "service_expires_from_now now t d (ts_impl s) (ts_reactor s) = (n, impl, ts_reactor s)" and i: "im_expiry impl = ?e" by blast
  obtain rx where rx: "schedule_timer ?e t ?op (ts_reactor s) = rx" by simp
  then have q: "rx_queue rx = enqueued ?e t ?op ?q" "rx_posted rx = rx_posted (ts_reactor s)" "\<not> rx_shutdown rx"
    using schedule_timer_fields [OF ok(2)] by blast+
  let ?s = "s\<lparr>ts_impl := impl\<lparr>im_pending := True\<rparr>, ts_reactor := rx, ts_ops := Suc (ts_ops s)\<rparr>"
  have w: "waits (rx_queue rx) = (waits ?q)(t \<mapsto> (?e, [?op]))" using waits_enqueued [OF ok(1)] idle by (simp add: q(1))
  have "rt_expired t now ms s = Inr ?s"
    using run d e i rx by (simp add: rt_expired_def service_async_wait_def bind_res_def)
  moreover have "rt_armed t ms ?e h ?s"
    using base run q enqueued_ok [OF ok(1)] w by (simp add: rt_armed_def rt_base_def others_ok_def ops_of_def)
  ultimately show ?thesis by (rule that)
qed

lemma rt_completes_opaque: "list_all opaque ops \<Longrightarrow> rt_completes call t now ops s = Inr (s, [])"
  by (induction ops) (auto simp: rt_complete_def opaque_def bind_res_def map_res_def)

lemma rt_completes_append:
  "rt_completes call t now (ops @ ops') s =
   bind_res (rt_completes call t now ops s) (\<lambda>(s, hs). map_res (\<lambda>(s, hs'). (s, hs @ hs')) (rt_completes call t now ops' s))"
  by (induction ops arbitrary: s) (auto simp: bind_res_def map_res_def split: sum.splits)

lemma opaque_clear [simp]: "opaque (clear_ec op) = opaque op"
  by (simp add: opaque_def clear_ec_def)

lemma waits_opaque:
  assumes "others_ok t w" and "\<And>x. x \<in> set us \<Longrightarrow> w x \<noteq> None" and "t \<notin> set us"
  shows "list_all opaque (concat (map (\<lambda>x. map clear_ec (snd (the (w x)))) us))"
proof -
  have "list_all opaque (map clear_ec (snd (the (w x))))" if x: "x \<in> set us" for x
  proof -
    obtain due os where "w x = Some (due, os)" using assms(2) [OF x] by fastforce
    moreover have "x \<noteq> t" using x assms(3) by auto
    ultimately show ?thesis using assms(1) by (auto simp: others_ok_def ops_of_def list_all_iff split: option.splits)
  qed
  then show ?thesis by (simp add: list_all_iff)
qed

text \<open>What a handler may do to its own timer: it neither stops nor starts it.\<close>

definition leaves_running :: "('h \<Rightarrow> 'h repeattimer \<Rightarrow> 'h repeattimer) \<Rightarrow> 'h \<Rightarrow> bool" where
  "leaves_running call h \<longleftrightarrow> (\<forall>x. rt_running (call h x) = rt_running x \<and> rt_handler (call h x) = rt_handler x)"

text \<open>
  A turn before the deadline, or one that does not check the timers, does nothing to the timer; a checking turn at or behind it runs
  the handler once and arms the timer again.
\<close>

lemma rt_turn_unchecked:
  assumes armed: "rt_armed t ms e h s" and "\<not> tn_check u"
  obtains s' where "rt_turn call t u s = Some (Inr (s', []))" "rt_armed t ms e h s'"
proof -
  let ?s = "s\<lparr>ts_reactor := (ts_reactor s)\<lparr>rx_posted := [], rx_work := rx_work (ts_reactor s) - length (rx_posted (ts_reactor s))\<rparr>\<rparr>"
  have "list_all opaque (rx_posted (ts_reactor s))" using armed by (simp add: rt_armed_def rt_base_def)
  then have "rt_turn call t u s = Some (Inr (?s, []))"
    using assms(2) by (simp add: rt_turn_def reactor_check_timers_def rt_completes_opaque)
  moreover have "rt_armed t ms e h ?s" using armed by (simp add: rt_armed_def rt_base_def)
  ultimately show thesis using that by blast
qed

lemma rt_turn_checked:
  assumes armed: "rt_armed t ms e h s" and d: "ms_ticks ms = Inr d" and call: "leaves_running call h" and u: "tn_check u"
  obtains s' where "rt_turn call t u s = Some (Inr (s', if e \<le> tn_now u then [h] else []))"
    "rt_armed t ms (if e \<le> tn_now u then chrono_add (tn_rearm u) d else e) h s'"
proof -
  let ?rx = "ts_reactor s" and ?q = "rx_queue (ts_reactor s)"
  have base: "rt_base t h s" "rt_running (ts_timer s)" using armed by (simp_all add: rt_armed_def)
  then have ok: "tq_ok ?q" and oth: "others_ok t (waits ?q)" and post: "list_all opaque (rx_posted ?rx)" by (simp_all add: rt_base_def)
  obtain op where op: "waits ?q t = Some (e, [op])" "wo_handler op = Repeat ms" using armed by (auto simp: rt_armed_def)
  obtain ts q' where ts: "ready_loop (tn_now u) (rx_posted ?rx) ?q = Some (rx_posted ?rx @ concat (map (\<lambda>t. map clear_ec (snd (the (waits ?q t)))) ts), q')"
    "tq_ok q'" "distinct ts" "\<forall>t. t \<in> set ts \<longleftrightarrow> (\<exists>time os. waits ?q t = Some (time, os) \<and> time \<le> tn_now u)"
    "waits q' = (\<lambda>t. if t \<in> set ts then None else waits ?q t)"
    using ready_loop_ok [OF ok, of "tn_now u" "rx_posted ?rx"] by blast
  let ?f = "\<lambda>t. map clear_ec (snd (the (waits ?q t)))"
  have ex: "waits ?q x \<noteq> None" if "x \<in> set ts" for x using ts(4) that by auto
  have f: "list_all opaque (concat (map ?f us))" if "set us \<subseteq> set ts" "t \<notin> set us" for us
    using waits_opaque [OF oth _ that(2)] ex that(1) by blast
  define ops where "ops = rx_posted ?rx @ concat (map ?f ts)"
  define s1 where "s1 = s\<lparr>ts_reactor := ?rx\<lparr>rx_queue := q', rx_updates := Suc (rx_updates ?rx), rx_posted := [],
    rx_work := rx_work ?rx - length ops\<rparr>\<rparr>"
  have e: "rt_turn call t u s = Some (rt_completes call t (tn_rearm u) ops s1)"
    using ts(1) u by (simp add: rt_turn_def reactor_check_timers_def get_ready_timers_def ops_def s1_def)
  have b1: "rt_base t h s1" "rt_running (ts_timer s1)"
    using base ts(2,5) by (auto simp: rt_base_def s1_def others_ok_def ops_of_def)
  show ?thesis
  proof (cases "e \<le> tn_now u")
    case True
    then have "t \<in> set ts" using ts(4) op(1) by blast
    then obtain us vs where uv: "ts = us @ t # vs" by (auto simp: in_set_conv_decomp)
    then have o: "list_all opaque (rx_posted ?rx @ concat (map ?f us))" "list_all opaque (concat (map ?f vs))"
      using f [of us] f [of vs] ts(3) post by auto
    have ops: "ops = (rx_posted ?rx @ concat (map ?f us)) @ clear_ec op # concat (map ?f vs)" using uv op(1) by (simp add: ops_def)
    define s2 where "s2 = s1\<lparr>ts_timer := call h (ts_timer s1)\<rparr>"
    have b2: "rt_base t h s2" "rt_running (ts_timer s2)" "waits (rx_queue (ts_reactor s2)) t = None"
      using b1 call \<open>t \<in> set ts\<close> ts(5) by (simp_all add: s2_def s1_def rt_base_def leaves_running_def)
    obtain s' where s': "rt_expired t (tn_rearm u) ms s2 = Inr s'" "rt_armed t ms (chrono_add (tn_rearm u) d) h s'"
      using rt_expired_armed [OF b2 d] by blast
    have "rt_complete call t (tn_rearm u) (clear_ec op) s1 = Inr (s', [h])"
      using op(2) b1 s'(1) by (simp add: rt_complete_def clear_ec_def rt_base_def map_res_def s2_def)
    then have "rt_completes call t (tn_rearm u) ops s1 = Inr (s', [h])"
      unfolding ops rt_completes_append [of call t "tn_rearm u" "rx_posted ?rx @ concat (map ?f us)"] rt_completes_opaque [OF o(1)]
      by (simp add: bind_res_def map_res_def rt_completes_opaque [OF o(2)])
    then show ?thesis using that [of s'] e s'(2) True by simp
  next
    case False
    then have nt: "t \<notin> set ts" using ts(4) op(1) by auto
    then have "list_all opaque ops" using f [of ts] post by (simp add: ops_def)
    then have "rt_completes call t (tn_rearm u) ops s1 = Inr (s1, [])" by (rule rt_completes_opaque)
    moreover have "rt_armed t ms e h s1" using b1 op nt ts(5) by (simp add: rt_armed_def s1_def)
    ultimately show ?thesis using that [of s1] e False by simp
  qed
qed

text \<open>When a timer of period \<open>d\<close> that is due at \<open>e\<close> fires, over the turns of the event loop.\<close>

fun firings :: "int \<Rightarrow> int \<Rightarrow> turn list \<Rightarrow> int list" where
  "firings d e [] = []"
| "firings d e (u # us) =
     (if tn_check u \<and> e \<le> tn_now u then tn_now u # firings d (chrono_add (tn_rearm u) d) us else firings d e us)"

lemma rt_turns_armed:
  assumes "ms_ticks ms = Inr d" and "leaves_running call h"
  shows "rt_armed t ms e h s \<Longrightarrow> \<exists>s'. rt_turns call t us s = Some (Inr (s', map (\<lambda>p. (p, h)) (firings d e us)))"
proof (induction us arbitrary: e s)
  case (Cons u us)
  let ?fires = "tn_check u \<and> e \<le> tn_now u"
  obtain s' where s': "rt_turn call t u s = Some (Inr (s', if ?fires then [h] else []))"
    "rt_armed t ms (if ?fires then chrono_add (tn_rearm u) d else e) h s'"
  proof (cases "tn_check u")
    case True
    then show thesis using that rt_turn_checked [OF Cons.prems assms True] by auto
  next
    case False
    then show thesis using that rt_turn_unchecked [OF Cons.prems False] by auto
  qed
  then show ?case using Cons.IH [OF s'(2)] by (auto simp: map_res_def)
qed simp

text \<open>
  C29: A repeating timer on asio's timers keeps its period. Let the timer have no wait outstanding when it is started at the time \<open>now\<close>, its
  period fit the clock's type, its handler neither stop nor start it (it may change the timeout, which a running timer ignores), and let
  the reactor hold any waits of other timers, whose completions leave this one alone. Then, whatever turns the event loop makes and whatever
  the clock gives in them, the handler runs exactly in the first turn that checks the timers at or behind each deadline, once: the first deadline is one
  period after the start, each next one a period after the time read once the handler has returned in that turn. It is never early, never
  twice, never forgotten, and nothing throws.
\<close>

theorem repeat_timer_on_time:
  assumes "rt_base t h s" and "waits (rx_queue (ts_reactor s)) t = None" and "ms_ticks (rt_timeout (ts_timer s)) = Inr d" and "leaves_running call h"
  shows "\<exists>s1 s2. rt_start t now s = Inr s1 \<and> rt_turns call t us s1 = Some (Inr (s2, map (\<lambda>p. (p, h)) (firings d (chrono_add now d) us)))"
proof -
  let ?s = "s\<lparr>ts_timer := (ts_timer s)\<lparr>rt_running := True\<rparr>\<rparr>"
  have "rt_base t h ?s" "rt_running (ts_timer ?s)" "waits (rx_queue (ts_reactor ?s)) t = None" using assms(1,2) by (simp_all add: rt_base_def)
  then obtain s1 where "rt_expired t now (rt_timeout (ts_timer s)) ?s = Inr s1" "rt_armed t (rt_timeout (ts_timer s)) (chrono_add now d) h s1"
    using rt_expired_armed [OF _ _ _ assms(3), of t h ?s now] by blast
  moreover from this have "rt_start t now s = Inr s1" by (simp add: rt_start_def Let_def)
  ultimately show ?thesis using rt_turns_armed [OF assms(3,4)] by blast
qed

definition sample_system :: "nat timer_system" where
  "sample_system = \<lparr>ts_timer = RepeatTimer_new 3 (Some 7), ts_impl = impl_new, ts_reactor = reactor_new, ts_ops = 0\<rparr>"

definition sample_turns :: "turn list" where
  "sample_turns = map (\<lambda>(c, p, r). \<lparr>tn_check = c, tn_now = p, tn_rearm = r\<rparr>)
     [(True, 2000000, 2000000), (False, 4000000, 4000000), (True, 4100000, 4200000), (True, 7150000, 7150000), (True, 7200000, 7300000)]"

theorem repeat_timer_on_time_witness:
  "\<exists>s1 s2. rt_start 1 1000000 sample_system = Inr s1 \<and>
     rt_turns (\<lambda>h x. x) 1 sample_turns s1 = Some (Inr (s2, [(4100000, 7), (7200000, 7)]))"
proof -
  have d: "ms_ticks (rt_timeout (ts_timer sample_system)) = Inr 3000000"
    by (simp add: sample_system_def RepeatTimer_new_def ms_ticks_def in_range_def time_min_def time_max_def)
  have "rt_base 1 7 sample_system"
    by (simp add: rt_base_def sample_system_def reactor_new_def RepeatTimer_new_def timer_queue_new_ok others_ok_def ops_of_def)
  moreover have "waits (rx_queue (ts_reactor sample_system)) 1 = None" by (simp add: sample_system_def reactor_new_def timer_queue_new_ok)
  moreover have "leaves_running (\<lambda>h x. x) 7" by (simp add: leaves_running_def)
  moreover have "firings 3000000 (chrono_add 1000000 3000000) sample_turns = [4100000, 7200000]"
    by (simp add: sample_turns_def chrono_add_def time_min_def time_max_def)
  ultimately show ?thesis
    using repeat_timer_on_time [of 1 7 sample_system 3000000 "\<lambda>h x. x" 1000000 sample_turns, OF _ _ d] by simp
qed

text \<open>A stopped timer stays armed, but its wait completes without the handler and is the last.\<close>

lemma stopped_completes: "wo_handler op = Repeat ms \<Longrightarrow> rt_complete call t now op (rt_stop s) = Inr (rt_stop s, [])"
  by (simp add: rt_complete_def rt_stop_def RepeatTimer_stop_def)

end
