(* ===== verification/Spec2Isabelle.thy ===== *)
theory Spec2Isabelle
  imports Message_Flow Link_Pool Nano_Logger Nano_Concurrent Nano_Ring Queue_Wait Json_Config Asio_Timers
begin

text \<open>
  This development verifies \<open>sparrow\<close>, a C++17 network server framework: a TCP server that reassembles
  length-prefixed packages, hands them to worker threads, checks and decodes them, answers them and
  forwards deliveries to an audit server through a client with a pool of connections; beside it a
  database layer and an asynchronous logger. All paths are relative to the repository.

  \<^bold>\<open>The parts and how they interact.\<close> \<open>main.cpp\<close> reads the configuration with the
  JSON library the repository carries (\<open>json/\<close>), starts the logger and gives
  \<open>Application\<close> (\<open>src/application.cpp\<close>) the logic for deliveries. \<open>Application\<close> owns a \<open>Server\<close> and a \<open>Client\<close>
  (\<open>net/\<close>). Both take \<open>io_context\<close>s from an \<open>IocPool\<close> and run \<open>Connection\<close>s, which read into and write from
  \<open>MsgBuffer\<close>s taken from an \<open>ObjectPool\<close>, and which fire a \<open>RepeatTimer\<close>. A complete package goes as a task
  into the \<open>ThreadPool\<close>, that is into one of its bounded \<open>Queue\<close>s; a worker runs \<open>Application\<close>'s read
  handler, which checks the CRC, decodes a \<open>Request\<close> (\<open>src/protocol\<close>) and posts the encoded \<open>Response\<close>.
  The data access layer (\<open>dao/\<close>) and the logger (\<open>util/nanolog.hpp\<close>) are called from there.

  \<^bold>\<open>Conventions.\<close> A machine integer is a word of its width, \<open>size_t\<close> 64 bits. A step that can fault
  returns \<open>fault + 'a\<close>, where faults are undefined behaviour (access out of range, null or freed
  pointers), exceptions, and waits that never end. What an operation asks of asio is a list of effects
  in its result; asio's completions are events the theorems quantify over. The mysql client library,
  the clock, \<open>localtime\<close>, the random engine, DNS and the file system's answers are parameters or inputs.

  \<^bold>\<open>The theories.\<close>
  \<^item> \<open>Sparrow_Prelude\<close>: types, faults, byte memory, byte order, decimal text, and their lemmas.
  \<^item> \<open>Msg_Buffer\<close> (\<open>net/msgbuffer.*\<close>): a record with storage, head and tail; every operation. The buffer
    refines a byte queue; \<open>adjust\<close> makes room; extraction inverts insertion.
  \<^item> \<open>Crc16\<close> (\<open>Request::crc16\<close>): the table-driven loop equals the bitwise CRC of the polynomial 0x1021,
    detects every error burst within two bytes, and has residue zero.
  \<^item> \<open>Object_Pool\<close>, \<open>Repeat_Timer\<close>, \<open>Ioc_Pool\<close>: recycled buffers are clean; a stopped timer is silent and a
    running one fires and re-arms; contexts are handed out round robin.
  \<^item> \<open>Proto\<close> (\<open>src/protocol/proto.*\<close>): message classes as datatypes, encoders and decoders, wire formats.
  \<^item> \<open>Connection\<close>, \<open>Write_Path\<close> (\<open>net/connection.*\<close>): the package check exactly, the read loop, the write
    loop with its two completion lambdas, closing. What the kernel takes in one transfer reaches the wire in
    order; a message it splits ends in a call of a dead handler. Locales \<open>frame_consumer\<close>, \<open>write_observer\<close>, \<open>steady_observer\<close> state
    what a connection needs of the handlers its owner passes.
  \<^item> \<open>Task_Queue\<close>, \<open>Thread_Pool\<close> (\<open>util/queue.h\<close>, \<open>util/threadpool.*\<close>): step relations over all
    interleavings of callers, workers and the stopping thread. \<open>Queue_Wait\<close> splits the queue's calls at their
    condition variables: no wakeup is lost and the threads come to rest.
  \<^item> \<open>Server\<close>, \<open>Client\<close> (\<open>net/server.*\<close>, \<open>net/client.*\<close>): all handlers; they interpret the locales.
  \<^item> \<open>Application\<close>, \<open>Message_Flow\<close> (\<open>src/application.*\<close>, \<open>main.cpp\<close>): decoding, dispatch, responses,
    audit requests and the program's start; round trips and end-to-end theorems.
  \<^item> \<open>Db_Field\<close>, \<open>Mysql_Db\<close>, \<open>Link_Pool\<close> (\<open>dao/\<close>): columns, a link with its error state, the pool of
    links, which loses one only where connecting fails.
  \<^item> \<open>Nano_Line\<close>, \<open>Nano_Buffers\<close>, \<open>Nano_Logger\<close> (\<open>util/nanolog.hpp\<close>): a log line as bytes, the two
    buffers behind the locale \<open>line_buffer\<close>, the logger's thread and the rolling files.
  \<^item> \<open>Nano_Ring\<close>, \<open>Nano_Concurrent\<close>: \<open>SpinLock\<close>, which excludes, and \<open>RingBuffer\<close> and
    \<open>QueueBuffer\<close> with many pushing threads and one reader, interleaved at every atomic access. Nothing is lost, doubled or reordered, and in \<open>QueueBuffer\<close> every push can finish.
  \<^item> \<open>Json_Lexer\<close>, \<open>Json_Strings\<close>, \<open>Json_Numbers\<close> (\<open>json/nlohmann_json.hpp\<close>, class \<open>lexer\<close>): the scanner with
    its input adapter, token buffer and error messages, the number automaton state by state, the conversion of
    the digits (to the nearest double, by exact rational arithmetic). Strings and numbers are accepted exactly
    when they match the grammar of RFC 7159, with the value it gives them.
  \<^item> \<open>Json_Value\<close>, \<open>Json_Parser\<close> (\<open>basic_json\<close>, class \<open>parser\<close>): values, exceptions, the parser and the acceptor
    without callback. They accept exactly the token sequences of the grammar, always return, and agree; what is
    parsed is well formed, and the text read is that of its tokens.
  \<^item> \<open>Json_Dump\<close>, \<open>Json_Decode\<close>, \<open>Json_Text\<close>, \<open>Json_Roundtrip\<close> (class \<open>serializer\<close>): the text of a value, the UTF-8
    automaton behind it (equal to UTF-8 as defined), and reading back what was written.
  \<^item> \<open>Json_Config\<close> (\<open>main.cpp\<close>, \<open>Application::set_context\<close>, \<open>from_json\<close>): from the bytes of the configuration file to
    the started program, for the file the repository has among others; without a usable file \<open>main\<close> ends with
    an exception before it starts the server.
  \<^item> \<open>Asio_Op_Queue\<close>, \<open>Asio_Timer_Queue\<close>, \<open>Asio_Timers\<close> (\<open>asio/include/asio/detail/\<close>): the timers \<open>RepeatTimer\<close> runs on. Linked queues of
    operations that share their pointers refine lists (locale \<open>op_fifo\<close>); the heap of deadlines with back-pointers and the
    list of active timers refine a set of waits, for every sequence of calls; the timeouts computed from it are exact; and
    \<open>RepeatTimer\<close> on the modelled service fires in the first turn that checks the timers at or behind each deadline, once.
  \<^item> This theory: the path from the wire to the decoded request.

  \<^bold>\<open>Bounds and fuel.\<close> Loops recurse over data or over a measure. Only the JSON parser has
  fuel, because it calls itself on what the lexer left: \<open>parse_fuel\<close> is twice the input length plus four, since
  every call but the last reads a token of at least one byte, and \<open>parser_terminates\<close> shows that it is enough for every input. Bounds in
  hypotheses are the code's own (packages of at most 2 MiB) or keep 64-bit sizes from wrapping
  (buffers below \<open>2 ^ 61\<close> bytes, bodies below \<open>2 ^ 30\<close>). Where a theorem needs a number of events
  (reads, completions, turns of a thread), it states how many are enough.

  \<^bold>\<open>Not modelled.\<close> The vendored \<open>asio\<close> but for its timers (sockets, reactor and executors are system calls and
  template machinery); of the JSON library what the program cannot reach:
  parser callbacks, \<open>dump_float\<close> (an argument of the serializer), iterators, the binary formats, pointers,
  patches and the other conversions; weak memory (atomic accesses are sequentially
  consistent); \<open>Queue::dequeue(std::list&)\<close>, which no caller instantiates; \<open>Field::get_float\<close>; console
  output; the text the iostream library makes of a logged value.

  Lemmas whose text says what goes wrong (\<open>server_split_write_faults\<close>, \<open>server_writes_interleave\<close>, \<open>accepts_grow\<close>,
  \<open>response_frame_misread\<close> and others) prove deviations of the code from what it means to do.
\<close>

section \<open>From the wire to the application\<close>

text \<open>
  C1: every request that arrives in pieces is the request that was sent. Let a peer send any sequence
  of keepalive, bind and delivery requests (strings without NUL bytes, frames within the 2 MiB limit)
  on a connection the server has just accepted, and let the kernel hand over the bytes in reads of any
  sizes, as many reads as bytes. Then the read loop never faults, never closes the connection and goes
  on reading, and \<open>handle_read_msg\<close>, run by the workers on the packages they are given, returns exactly
  those requests in order, each with its command, its length and all fields of its body.
\<close>

theorem requests_from_the_wire:
  assumes "rs \<noteq> []" and "\<forall>r \<in> set rs. request_strings_ok r \<and> length (request_wire r) \<le> 2 * 1024 * 1024 - 14"
    and "Server_handle_accept (Some (remote, local, native))
          (Connection_new i True None 1000 gb\<lparr>c_open := True\<rparr>) = Inr (c, es0)"
    and "length (concat (map (\<lambda>r. request_frame (request_cmd r) (request_wire r)) rs)) \<le> length ks"
  shows "\<exists>c' n es. read_stream (Server_handle_read clock) 12 ks
        (concat (map (\<lambda>r. request_frame (request_cmd r) (request_wire r)) rs)) c = Inr ((c', Some n), es)
     \<and> map (\<lambda>b. map_res fst (Application_handle_read_msg g1 g2 d b)) (handed_over es)
       = map (\<lambda>r. Inr (Some (received_as (c_id d) r))) rs"
proof -
  let ?fs = "map (\<lambda>r. request_frame (request_cmd r) (request_wire r)) rs"
  have valid: "\<forall>f \<in> set ?fs. valid_frame f" using assms(2) request_frame_valid by auto
  have ne: "?fs \<noteq> []" using assms(1) by simp
  then have "12 < length (hd ?fs)" using valid by (cases ?fs) (auto simp: valid_frame_def)
  then have "reading [] (hd ?fs) c"
    using accepted_arm [OF refl, of "hd ?fs" remote local native i gb] assms(3) by auto
  then obtain c' n es where run: "read_stream (Server_handle_read clock) 12 ks (concat ?fs) c = Inr ((c', Some n), es)"
    and all: "?fs = delivered es" and h: "\<forall>b \<in> set (handed_over es). holds (content b) b \<and> m_head b = 0"
    using server_reads.read_stream_frames [of ?fs "[]" c 12 clock ks] valid ne assms(4)
    by (fastforce simp: to_read_def)
  have len: "length (handed_over es) = length rs" using all by (metis delivered_handed_over length_map)
  have "map_res fst (Application_handle_read_msg g1 g2 d (handed_over es ! k)) = Inr (Some (received_as (c_id d) (rs ! k)))"
    if k: "k < length rs" for k
  proof -
    have "handed_over es ! k \<in> set (handed_over es)" "rs ! k \<in> set rs" using k len by simp_all
    moreover have "content (handed_over es ! k) = ?fs ! k" using all len k by (simp add: delivered_handed_over)
    ultimately have "holds (request_frame (request_cmd (rs ! k)) (request_wire (rs ! k))) (handed_over es ! k)"
      "m_head (handed_over es ! k) = 0" "request_strings_ok (rs ! k)" "length (request_wire (rs ! k)) \<le> 2 * 1024 * 1024 - 14"
      using h assms(2) k by force+
    moreover from this(4) have "length (request_wire (rs ! k)) < 2 ^ 30" by simp
    ultimately show ?thesis using read_msg_frame [of "rs ! k" "handed_over es ! k" g1 g2 d] by auto
  qed
  then have "map (\<lambda>b. map_res fst (Application_handle_read_msg g1 g2 d b)) (handed_over es)
      = map (\<lambda>r. Inr (Some (received_as (c_id d) r))) rs"
    using len by (auto intro: nth_equalityI)
  then show ?thesis using run by blast
qed

theorem requests_from_the_wire_witness:
  "\<exists>c c' n es. read_stream (Server_handle_read (\<lambda>_. 7)) 12 (replicate 31 0)
       (concat [request_frame ACT_CMD [], request_frame BIND_CMD (cstr (str_bytes ''u1''))]) c = Inr ((c', Some n), es)
     \<and> map (\<lambda>b. map_res fst (Application_handle_read_msg 0 0 idle_conn b)) (handed_over es)
       = [Inr (Some (received_as 0 (RequestAct Head_init None))), Inr (Some (received_as 0 sample_bind))]"
proof -
  obtain c es0 where c: "Server_handle_accept (Some (([], 1), ([], 2), 5))
      (Connection_new 0 True None 1000 (0, 0, 0, 0, 0)\<lparr>c_open := True\<rparr>) = Inr (c, es0)"
    using accepted_arm [OF refl, of sample_frame "([], 1)" "([], 2)" 5 0 "(0, 0, 0, 0, 0)"]
    by (auto simp: sample_frame_def g_head_magic_num_def)
  let ?rs = "[RequestAct Head_init None, sample_bind]"
  have rs: "?rs \<noteq> []" "\<forall>r \<in> set ?rs. request_strings_ok r \<and> length (request_wire r) \<le> 2 * 1024 * 1024 - 14"
    "length (concat (map (\<lambda>r. request_frame (request_cmd r) (request_wire r)) ?rs)) \<le> length (replicate 31 (0 :: nat))"
    by (simp_all add: sample_bind_def str_bytes_def)
  have "c_id idle_conn = 0" by (simp add: idle_conn_def Connection_new_def)
  moreover have "request_cmd sample_bind = BIND_CMD" "request_wire sample_bind = cstr (str_bytes ''u1'')"
    by (simp_all add: sample_bind_def)
  moreover note requests_from_the_wire [OF rs(1,2) c rs(3), of "\<lambda>_. 7" 0 0 idle_conn]
  ultimately show ?thesis
    by (simp only: list.simps request_cmd.simps request_wire.simps) (erule exI)
qed

end
